(* ===== verification/Ming_Prelude.thy ===== *)
theory Ming_Prelude
  imports "HOL-Library.Word" "HOL-Library.Monad_Syntax"
begin

text \<open>
  Shared vocabulary of the Ming development.

  \<^item> A computation of the C code that may not return normally has a result of type
    \<open>'a option\<close>: \<open>None\<close> stands for a failed \<open>assert\<close>, an access through
    NULL or through an address that holds no object of the expected type, and for a loop that
    never ends; \<open>Some r\<close> is a normal return with result \<open>r\<close>. Hence a theorem of
    the form \<open>\<exists>r. f x = Some r \<and> P r\<close> is a total correctness statement: it
    includes memory safety, the absence of assertion failures and termination.
  \<^item> Addresses are 64 bit words with \<open>0\<close> as NULL. Each kind of structure has a heap
    of its own, a partial map from the addresses of the structures of that kind to their
    contents.
\<close>

unbundle bit_operations_syntax

type_synonym u8 = "8 word"
type_synonym u16 = "16 word"
type_synonym u32 = "32 word"
type_synonym u64 = "64 word"
type_synonym addr = "64 word"

text \<open>Named collections: frame rules of heap predicates, and evaluation rules of the heap
  accesses.\<close>

named_theorems frame \<open>a heap predicate does not depend on an address outside its footprint\<close>
named_theorems access \<open>evaluation of heap reads and writes at mapped addresses\<close>

subsection \<open>Assertions and heap accesses\<close>

definition c_assert :: "bool \<Rightarrow> unit option" where
  "c_assert b = (if b then Some () else None)"

definition rd :: "(addr \<rightharpoonup> 'n) \<Rightarrow> addr \<Rightarrow> 'n option" where
  "rd h a = (if a = 0 then None else h a)"

definition wr :: "(addr \<rightharpoonup> 'n) \<Rightarrow> addr \<Rightarrow> ('n \<Rightarrow> 'n) \<Rightarrow> (addr \<rightharpoonup> 'n) option" where
  "wr h a f = (case rd h a of None \<Rightarrow> None | Some n \<Rightarrow> Some (h(a \<mapsto> f n)))"

lemma c_assert_True [simp, access]: "c_assert True = Some ()"
  by (simp add: c_assert_def)

lemma c_assert_False [simp]: "c_assert False = None"
  by (simp add: c_assert_def)

lemma c_assert_eq_Some [simp]: "c_assert b = Some u \<longleftrightarrow> b"
  by (simp add: c_assert_def)

lemma rd_Null [simp]: "rd h 0 = None"
  by (simp add: rd_def)

lemma rd_eq_Some [simp]: "rd h a = Some n \<longleftrightarrow> a \<noteq> 0 \<and> h a = Some n"
  by (simp add: rd_def)

lemma rd_mapped [access]: "a \<noteq> 0 \<Longrightarrow> h a = Some n \<Longrightarrow> rd h a = Some n"
  by simp

lemma wr_mapped [access]: "a \<noteq> 0 \<Longrightarrow> h a = Some n \<Longrightarrow> wr h a f = Some (h(a \<mapsto> f n))"
  by (simp add: wr_def rd_def)

lemma wr_eq_Some:
  "wr h a f = Some h' \<longleftrightarrow> a \<noteq> 0 \<and> (\<exists>n. h a = Some n \<and> h' = h(a \<mapsto> f n))"
  by (auto simp: wr_def rd_def split: option.splits)

lemma wr_NullI [simp]: "wr h 0 f = None"
  by (simp add: wr_def)

lemma dom_wr: "wr h a f = Some h' \<Longrightarrow> dom h' = dom h"
  by (auto simp: wr_eq_Some split: if_splits)

subsection \<open>Lists\<close>

lemma distinct_split_notin:
  assumes "distinct (xs @ a # ys)"
  shows "a \<notin> set xs" and "a \<notin> set ys"
  using assms by auto

lemma remove1_split [simp]: "a \<notin> set xs \<Longrightarrow> remove1 a (xs @ a # ys) = xs @ ys"
  by (simp add: remove1_append)

lemma set_split_ex: "a \<in> set zs \<Longrightarrow> \<exists>xs ys. zs = xs @ a # ys"
  by (meson split_list)

lemma fold_append_single: "fold (\<lambda>a acc. acc @ [a]) xs zs = zs @ xs"
  by (induction xs arbitrary: zs) auto

lemma find_append:
  "List.find P (xs @ ys) = (case List.find P xs of None \<Rightarrow> List.find P ys | Some a \<Rightarrow> Some a)"
  by (induction xs) auto

subsection \<open>Words\<close>

lemma word_mod_lt: "(m::u32) \<noteq> 0 \<Longrightarrow> unat (k mod m) < unat m"
  by (metis unat_gt_0 unat_mod mod_less_divisor)

lemma of_nat_length_Suc:
  "(of_nat (Suc n) :: u32) = of_nat n + 1"
  by simp

subsection \<open>Loops whose body may fail\<close>

fun fold_opt :: "('a \<Rightarrow> 's \<Rightarrow> 's option) \<Rightarrow> 'a list \<Rightarrow> 's \<Rightarrow> 's option" where
  "fold_opt f [] s = Some s"
| "fold_opt f (x # xs) s = do { s' \<leftarrow> f x s; fold_opt f xs s' }"

lemma fold_opt_append: "fold_opt f (xs @ ys) s = do { s' \<leftarrow> fold_opt f xs s; fold_opt f ys s' }"
proof (induction xs arbitrary: s)
  case (Cons x xs)
  then show ?case by (cases "f x s") simp_all
qed simp

lemma fold_opt_Some: "fold_opt (\<lambda>a s. Some (f a s)) xs s = Some (fold f xs s)"
  by (induction xs arbitrary: s) simp_all

lemma fold_opt_map: "fold_opt f (map g xs) s = fold_opt (\<lambda>x. f (g x)) xs s"
proof (induction xs arbitrary: s)
  case (Cons x xs)
  then show ?case by (cases "f (g x) s") simp_all
qed simp

lemma fold_opt_concat: "fold_opt f (concat xss) s = fold_opt (fold_opt f) xss s"
proof (induction xss arbitrary: s)
  case (Cons xs xss)
  then show ?case by (cases "fold_opt f xs s") (simp_all add: fold_opt_append)
qed simp

lemma bind_Some_map: "x \<bind> (\<lambda>y. Some (f y)) = map_option f x"
  by (cases x) simp_all

end
