(* ===== verification/Macros.thy ===== *)
theory Macros
  imports Ming_Prelude
begin

text \<open>
  The arithmetic and container macros of \<open>include/m_macros.h\<close>, and the alignment
  function of \<open>src/m_gc_buf.c\<close>. The generic comparison macros are defined on any linear
  order, as the C macros work on any arithmetic type; alignment and container offsets are 64
  bit words, as \<open>size_t\<close> is.
\<close>

definition M_MAX :: "'a::linorder \<Rightarrow> 'a \<Rightarrow> 'a" where
  "M_MAX a b = (if a > b then a else b)"

definition M_MIN :: "'a::linorder \<Rightarrow> 'a \<Rightarrow> 'a" where
  "M_MIN a b = (if a < b then a else b)"

definition M_CLAMP :: "'a::linorder \<Rightarrow> 'a \<Rightarrow> 'a \<Rightarrow> 'a" where
  "M_CLAMP v lo hi = (if v < lo then lo else (if v > hi then hi else v))"

definition M_MAX3 :: "'a::linorder \<Rightarrow> 'a \<Rightarrow> 'a \<Rightarrow> 'a" where
  "M_MAX3 a b c = M_MAX a (M_MAX b c)"

definition M_MIN3 :: "'a::linorder \<Rightarrow> 'a \<Rightarrow> 'a \<Rightarrow> 'a" where
  "M_MIN3 a b c = M_MIN a (M_MIN b c)"

definition M_ABS :: "int \<Rightarrow> int" where
  "M_ABS a = (if a \<ge> 0 then a else - a)"

definition M_ALIGN_UP :: "u64 \<Rightarrow> u64 \<Rightarrow> u64" where
  "M_ALIGN_UP n a = (n + a - 1) AND NOT (a - 1)"

definition M_ALIGN_DOWN :: "u64 \<Rightarrow> u64 \<Rightarrow> u64" where
  "M_ALIGN_DOWN n a = n AND NOT (a - 1)"

text \<open>\<open>M_CONTAINER_OF\<close> subtracts the member's offset, also from NULL;
  \<open>m_node_value\<close> keeps NULL.\<close>

definition M_CONTAINER_OF :: "addr \<Rightarrow> u64 \<Rightarrow> addr" where
  "M_CONTAINER_OF ptr off = ptr - off"

definition m_node_value :: "addr \<Rightarrow> u64 \<Rightarrow> addr" where
  "m_node_value node off = (if node \<noteq> 0 then M_CONTAINER_OF node off else 0)"

text \<open>\<open>gc_size_align\<close> of \<open>src/m_gc_buf.c\<close>: a size in words of
  \<open>uintptr_t\<close>.\<close>

definition gc_size_align :: "u64 \<Rightarrow> u64" where
  "gc_size_align sz = M_ALIGN_UP sz 8"

lemma M_MAX_eq_max: "M_MAX a b = max a b"
  by (auto simp: M_MAX_def max_def)

lemma M_MIN_eq_min: "M_MIN a b = min a b"
  by (auto simp: M_MIN_def min_def)

lemma M_ABS_eq_abs: "M_ABS a = \<bar>a\<bar>"
  by (auto simp: M_ABS_def)

lemma M_MAX3_eq: "M_MAX3 a b c = Max {a, b, c}"
  by (simp add: M_MAX3_def M_MAX_eq_max)

lemma M_MIN3_eq: "M_MIN3 a b c = Min {a, b, c}"
  by (simp add: M_MIN3_def M_MIN_eq_min)

lemma M_CLAMP_range: "lo \<le> hi \<Longrightarrow> M_CLAMP v lo hi = max lo (min hi v)"
  by (auto simp: M_CLAMP_def max_def min_def)

subsection \<open>Alignment to a power of two\<close>

lemma M_ALIGN_DOWN_unat:
  "unat (M_ALIGN_DOWN n (2 ^ k)) = unat n div 2 ^ k * 2 ^ k"
proof -
  have "M_ALIGN_DOWN n (2 ^ k) = n AND NOT (mask k)"
    by (simp add: M_ALIGN_DOWN_def mask_eq_exp_minus_1)
  also have "\<dots> = push_bit k (drop_bit k n)"
    by (rule bit_word_eqI) (auto simp: bit_simps)
  finally have eq: "M_ALIGN_DOWN n (2 ^ k) = push_bit k (drop_bit k n)" .
  have "unat (push_bit k (drop_bit k n)) = (unat n div 2 ^ k * 2 ^ k) mod 2 ^ 64"
    using unsigned_less [of n, where ?'a = nat] unfolding unsigned_push_bit_eq unsigned_drop_bit_eq
    by (simp add: take_bit_eq_mod drop_bit_eq_div push_bit_eq_mult)
  also have "\<dots> = unat n div 2 ^ k * 2 ^ k"
    using unsigned_less [of n, where ?'a = nat]
    by (intro mod_less le_less_trans [OF div_times_less_eq_dividend]) simp
  finally show ?thesis by (simp add: eq)
qed

lemma M_ALIGN_UP_eq_DOWN: "M_ALIGN_UP n a = M_ALIGN_DOWN (n + a - 1) a"
  by (simp add: M_ALIGN_UP_def M_ALIGN_DOWN_def)

lemma M_ALIGN_UP_unat:
  assumes k: "k < 64" and fits: "unat n + 2 ^ k - 1 < 2 ^ 64"
  shows "unat (M_ALIGN_UP n (2 ^ k)) = (unat n + 2 ^ k - 1) div 2 ^ k * 2 ^ k"
proof -
  have e: "unat (2 ^ k - 1 :: u64) = 2 ^ k - 1"
  proof -
    have "unat (mask k :: u64) = unat (take_bit k (- 1) :: u64)"
      by (simp add: take_bit_minus_one_eq_mask)
    also have "\<dots> = take_bit k (mask 64)"
      by (simp only: unsigned_take_bit_eq unsigned_minus_1_eq_mask) simp
    also have "\<dots> = mask k" using k by (simp add: take_bit_of_mask min_def)
    finally show ?thesis by (simp add: mask_eq_exp_minus_1)
  qed
  have p: "(1::nat) \<le> 2 ^ k" by simp
  have "unat (n + (2 ^ k - 1)) = unat n + (2 ^ k - 1)"
    using fits p by (subst unat_plus_if') (simp add: e)
  then have "unat (n + 2 ^ k - 1) = unat n + 2 ^ k - 1"
    using p by (simp add: add_diff_eq)
  then show ?thesis by (simp add: M_ALIGN_UP_eq_DOWN M_ALIGN_DOWN_unat)
qed

text \<open>The rounded value is the least multiple that is not below the argument.\<close>

lemma round_up_least:
  fixes n m :: nat
  assumes "0 < m"
  shows "n \<le> (n + m - 1) div m * m" and "(n + m - 1) div m * m < n + m"
    and "n \<le> q * m \<Longrightarrow> (n + m - 1) div m * m \<le> q * m"
proof -
  have eq: "(n + m - 1) div m * m + (n + m - 1) mod m = n + m - 1" by simp
  have lt: "(n + m - 1) mod m < m" using assms by simp
  show "n \<le> (n + m - 1) div m * m" and "(n + m - 1) div m * m < n + m"
    using eq lt assms by linarith+
  assume "n \<le> q * m"
  then have "(n + m - 1) div m < Suc q"
    using assms by (intro div_less_iff_less_mult [THEN iffD2]) auto
  then show "(n + m - 1) div m * m \<le> q * m" by simp
qed

lemma node_val: "n \<noteq> 0 \<Longrightarrow> m_node_value n off = n - off"
  by (simp add: m_node_value_def M_CONTAINER_OF_def)

end
