(* ===== verification/SList.thy ===== *)
theory SList
  imports Macros
begin

text \<open>
  The intrusive singly linked list of \<open>include/m_list.h\<close>: a head node and a chain of
  nodes ending in NULL. \<open>slist h head xs\<close> is the abstraction relation; \<open>sseg h a xs\<close>
  describes a chain without its head and is shared with the chains of the hash table.
\<close>

record M_SList =
  s_next :: addr

lemma s_next_update_simp [simp]: "s_next_update f n = \<lparr>s_next = f (s_next n)\<rparr>" for n :: M_SList
  by (cases n) simp

type_synonym sheap = "addr \<rightharpoonup> M_SList"

subsection \<open>Operations\<close>

definition m_slist_init :: "addr \<Rightarrow> sheap \<Rightarrow> sheap option" where
  "m_slist_init head h = do {
     c_assert (head \<noteq> 0);
     wr h head (s_next_update (\<lambda>_. 0)) }"

definition m_slist_empty :: "addr \<Rightarrow> sheap \<Rightarrow> bool option" where
  "m_slist_empty head h = do { n \<leftarrow> rd h head; Some (s_next n = 0) }"

definition m_slist_push :: "addr \<Rightarrow> addr \<Rightarrow> sheap \<Rightarrow> sheap option" where
  "m_slist_push head node h = do {
     c_assert (head \<noteq> 0 \<and> node \<noteq> 0);
     hn \<leftarrow> rd h head;
     h1 \<leftarrow> wr h node (s_next_update (\<lambda>_. s_next hn));
     wr h1 head (s_next_update (\<lambda>_. node)) }"

definition m_slist_pop :: "addr \<Rightarrow> sheap \<Rightarrow> (addr \<times> sheap) option" where
  "m_slist_pop head h = do {
     c_assert (head \<noteq> 0);
     hn \<leftarrow> rd h head;
     (let node = s_next hn in
      if node \<noteq> 0 then do {
        n \<leftarrow> rd h node;
        h1 \<leftarrow> wr h head (s_next_update (\<lambda>_. s_next n));
        Some (node, h1) }
      else Some (node, h)) }"

partial_function (option) m_slist_foreach_loop ::
    "(addr \<Rightarrow> sheap \<times> 'a \<Rightarrow> (sheap \<times> 'a) option) \<Rightarrow> addr \<Rightarrow> sheap \<times> 'a \<Rightarrow> (sheap \<times> 'a) option" where
  "m_slist_foreach_loop body node s =
     (if node = 0 then Some s
      else do { s' \<leftarrow> body node s; n \<leftarrow> rd (fst s') node;
                m_slist_foreach_loop body (s_next n) s' })"

definition m_slist_foreach ::
    "addr \<Rightarrow> (addr \<Rightarrow> sheap \<times> 'a \<Rightarrow> (sheap \<times> 'a) option) \<Rightarrow> sheap \<times> 'a \<Rightarrow> (sheap \<times> 'a) option" where
  "m_slist_foreach head body s = do {
     n \<leftarrow> rd (fst s) head; m_slist_foreach_loop body (s_next n) s }"

partial_function (option) m_slist_foreach_safe_loop ::
    "(addr \<Rightarrow> sheap \<times> 'a \<Rightarrow> (sheap \<times> 'a) option) \<Rightarrow> addr \<Rightarrow> sheap \<times> 'a \<Rightarrow> (sheap \<times> 'a) option" where
  "m_slist_foreach_safe_loop body node s =
     (if node = 0 then Some s
      else do { n \<leftarrow> rd (fst s) node; s' \<leftarrow> body node s;
                m_slist_foreach_safe_loop body (s_next n) s' })"

definition m_slist_foreach_safe ::
    "addr \<Rightarrow> (addr \<Rightarrow> sheap \<times> 'a \<Rightarrow> (sheap \<times> 'a) option) \<Rightarrow> sheap \<times> 'a \<Rightarrow> (sheap \<times> 'a) option" where
  "m_slist_foreach_safe head body s = do {
     n \<leftarrow> rd (fst s) head; m_slist_foreach_safe_loop body (s_next n) s }"

partial_function (option) m_slist_foreach_value_loop ::
    "u64 \<Rightarrow> (addr \<Rightarrow> sheap \<times> 'a \<Rightarrow> (sheap \<times> 'a) option) \<Rightarrow> addr \<Rightarrow> sheap \<times> 'a \<Rightarrow> (sheap \<times> 'a) option" where
  "m_slist_foreach_value_loop off body val s =
     (if val = 0 then Some s
      else do { s' \<leftarrow> body val s; n \<leftarrow> rd (fst s') (val + off);
                m_slist_foreach_value_loop off body (m_node_value (s_next n) off) s' })"

definition m_slist_foreach_value ::
    "addr \<Rightarrow> u64 \<Rightarrow> (addr \<Rightarrow> sheap \<times> 'a \<Rightarrow> (sheap \<times> 'a) option) \<Rightarrow> sheap \<times> 'a \<Rightarrow> (sheap \<times> 'a) option" where
  "m_slist_foreach_value head off body s = do {
     n \<leftarrow> rd (fst s) head; m_slist_foreach_value_loop off body (m_node_value (s_next n) off) s }"

partial_function (option) m_slist_foreach_value_safe_loop ::
    "u64 \<Rightarrow> (addr \<Rightarrow> sheap \<times> 'a \<Rightarrow> (sheap \<times> 'a) option) \<Rightarrow> addr \<Rightarrow> sheap \<times> 'a \<Rightarrow> (sheap \<times> 'a) option" where
  "m_slist_foreach_value_safe_loop off body val s =
     (if val = 0 then Some s
      else do { n \<leftarrow> rd (fst s) (val + off); s' \<leftarrow> body val s;
                m_slist_foreach_value_safe_loop off body (m_node_value (s_next n) off) s' })"

definition m_slist_foreach_value_safe ::
    "addr \<Rightarrow> u64 \<Rightarrow> (addr \<Rightarrow> sheap \<times> 'a \<Rightarrow> (sheap \<times> 'a) option) \<Rightarrow> sheap \<times> 'a \<Rightarrow> (sheap \<times> 'a) option" where
  "m_slist_foreach_value_safe head off body s = do {
     n \<leftarrow> rd (fst s) head; m_slist_foreach_value_safe_loop off body (m_node_value (s_next n) off) s }"

subsection \<open>The abstraction relation\<close>

fun sseg :: "sheap \<Rightarrow> addr \<Rightarrow> addr list \<Rightarrow> bool" where
  "sseg h a [] = (a = 0)"
| "sseg h a (x # xs) = (a = x \<and> x \<noteq> 0 \<and> (\<exists>b. h x = Some \<lparr>s_next = b\<rparr> \<and> sseg h b xs))"

definition slist :: "sheap \<Rightarrow> addr \<Rightarrow> addr list \<Rightarrow> bool" where
  "slist h head xs \<longleftrightarrow>
     head \<noteq> 0 \<and> head \<notin> set xs \<and> (\<exists>a. h head = Some \<lparr>s_next = a\<rparr> \<and> sseg h a xs)"

lemma sseg_upd [simp, frame]: "a \<notin> set xs \<Longrightarrow> sseg (h(a := v)) b xs = sseg h b xs"
  by (induction xs arbitrary: b) auto

lemma sseg_Null [simp]: "sseg h 0 xs \<longleftrightarrow> xs = []"
  by (cases xs) auto

lemma sseg_unique: "sseg h a xs \<Longrightarrow> sseg h a ys \<Longrightarrow> xs = ys"
proof (induction xs arbitrary: a ys)
  case Nil
  then show ?case by simp
next
  case (Cons x xs)
  then show ?case by (cases ys) auto
qed

lemma sseg_suffix: "sseg h a (xs @ b # ys) \<Longrightarrow> sseg h b (b # ys)"
  by (induction xs arbitrary: a) auto

lemma sseg_nonnull: "sseg h a xs \<Longrightarrow> 0 \<notin> set xs"
  by (induction xs arbitrary: a) auto

lemma sseg_mapped: "sseg h a xs \<Longrightarrow> x \<in> set xs \<Longrightarrow> \<exists>b. h x = Some \<lparr>s_next = b\<rparr>"
  by (induction xs arbitrary: a) auto

lemma sseg_distinct: "sseg h a xs \<Longrightarrow> distinct xs"
proof (induction xs arbitrary: a)
  case Nil
  then show ?case by simp
next
  case (Cons x xs)
  have "x \<notin> set xs"
  proof
    assume "x \<in> set xs"
    then obtain us vs where split: "xs = us @ x # vs" by (meson split_list)
    with Cons.prems have "sseg h x (x # xs)" and "sseg h x (x # vs)"
      using sseg_suffix [of h a "x # us" x vs] by auto
    then have "x # xs = x # vs" by (rule sseg_unique)
    with split show False by simp
  qed
  with Cons show ?case by auto
qed

lemma slist_distinct: "slist h head xs \<Longrightarrow> distinct xs"
  by (auto simp: slist_def dest!: sseg_distinct)

lemma slist_frame [frame]: "a \<notin> set (head # xs) \<Longrightarrow> slist (h(a := v)) head xs = slist h head xs"
  by (auto simp: slist_def)

subsection \<open>Correctness\<close>

lemma slist_init:
  assumes "head \<noteq> 0" "h head = Some n"
  shows "\<exists>h'. m_slist_init head h = Some h' \<and> slist h' head [] \<and> (\<forall>a. a \<noteq> head \<longrightarrow> h' a = h a)"
  using assms by (simp add: m_slist_init_def access slist_def)

lemma slist_is_empty: "slist h head xs \<Longrightarrow> m_slist_empty head h = Some (xs = [])"
  by (cases xs) (auto simp: slist_def m_slist_empty_def access)

lemma slist_push:
  assumes "slist h head xs" "h node = Some n" "node \<noteq> 0" "node \<notin> set (head # xs)"
  shows "\<exists>h'. m_slist_push head node h = Some h' \<and> slist h' head (node # xs) \<and>
    dom h' = dom h \<and> (\<forall>a. a \<noteq> head \<and> a \<noteq> node \<longrightarrow> h' a = h a)"
  using assms by (auto simp: m_slist_push_def access slist_def)

lemma slist_pop_Nil: "slist h head [] \<Longrightarrow> m_slist_pop head h = Some (0, h)"
  by (auto simp: m_slist_pop_def access slist_def)

lemma slist_pop_Cons:
  assumes "slist h head (x # xs)"
  shows "\<exists>h'. m_slist_pop head h = Some (x, h') \<and> slist h' head xs \<and>
    dom h' = dom h \<and> (\<forall>a. a \<noteq> head \<longrightarrow> h' a = h a)"
  using assms by (auto simp: m_slist_pop_def access slist_def)

lemma foreach_loop_sseg:
  "sseg h a xs \<Longrightarrow>
    m_slist_foreach_loop (\<lambda>a (h, acc). Some (h, f a acc)) a (h, acc) = Some (h, fold f xs acc)"
proof (induction xs arbitrary: a acc)
  case Nil
  then show ?case by (simp add: m_slist_foreach_loop.simps)
next
  case (Cons x xs)
  then show ?case by (subst m_slist_foreach_loop.simps) (auto simp: access)
qed

lemma slist_foreach:
  "slist h head xs \<Longrightarrow>
    m_slist_foreach head (\<lambda>a (h, acc). Some (h, f a acc)) (h, acc) = Some (h, fold f xs acc)"
  by (auto simp: m_slist_foreach_def slist_def access foreach_loop_sseg)

lemma foreach_value_loop_sseg:
  "sseg h a xs \<Longrightarrow> off \<notin> set xs \<Longrightarrow>
    m_slist_foreach_value_loop off (\<lambda>a (h, acc). Some (h, f a acc)) (m_node_value a off) (h, acc) =
    Some (h, fold f (map (\<lambda>a. a - off) xs) acc)"
proof (induction xs arbitrary: a acc)
  case Nil
  then show ?case by (simp add: m_slist_foreach_value_loop.simps m_node_value_def)
next
  case (Cons x xs)
  then obtain b where b: "x \<noteq> 0" "a = x" "h x = Some \<lparr>s_next = b\<rparr>" "sseg h b xs" by auto
  moreover have "m_node_value x off = x - off" "x \<noteq> off"
    using b Cons.prems by (auto simp: m_node_value_def M_CONTAINER_OF_def)
  ultimately show ?case using Cons.IH [of b] Cons.prems
    by (subst m_slist_foreach_value_loop.simps) (simp add: access)
qed

lemma slist_foreach_value:
  "slist h head xs \<Longrightarrow> off \<notin> set xs \<Longrightarrow>
    m_slist_foreach_value head off (\<lambda>a (h, acc). Some (h, f a acc)) (h, acc) =
    Some (h, fold f (map (\<lambda>a. a - off) xs) acc)"
  by (auto simp: m_slist_foreach_value_def slist_def access foreach_value_loop_sseg)

text \<open>The safe traversal with a body that releases every node: each node is visited once, no
  released node is read.\<close>

definition slist_release :: "addr \<Rightarrow> sheap \<times> addr list \<Rightarrow> (sheap \<times> addr list) option" where
  "slist_release node s = do { n \<leftarrow> rd (fst s) node; Some ((fst s)(node := None), snd s @ [node]) }"

lemma release_run:
  "a \<noteq> 0 \<Longrightarrow> h a = Some n \<Longrightarrow> slist_release a (h, acc) = Some (h(a := None), acc @ [a])"
  by (simp add: slist_release_def access)

lemma foreach_safe_loop_free:
  "sseg h a xs \<Longrightarrow>
    \<exists>h'. m_slist_foreach_safe_loop slist_release a (h, acc) = Some (h', acc @ xs) \<and>
      (\<forall>b. h' b = (if b \<in> set xs then None else h b))"
proof (induction xs arbitrary: h a acc)
  case Nil
  then show ?case by (simp add: m_slist_foreach_safe_loop.simps)
next
  case (Cons x xs)
  then obtain b where b: "x \<noteq> 0" "a = x" "h x = Some \<lparr>s_next = b\<rparr>" "sseg h b xs" by auto
  have "x \<notin> set xs" using sseg_distinct [OF Cons.prems] by simp
  then have "sseg (h(x := None)) b xs" using b by simp
  from Cons.IH [OF this, of "acc @ [x]"] obtain h' where
    "m_slist_foreach_safe_loop slist_release b (h(x := None), acc @ [x]) = Some (h', (acc @ [x]) @ xs)"
    and h': "\<And>c. h' c = (if c \<in> set xs then None else (h(x := None)) c)" by blast
  then have "m_slist_foreach_safe_loop slist_release a (h, acc) = Some (h', acc @ x # xs)"
    using b by (subst m_slist_foreach_safe_loop.simps) (simp add: access release_run)
  moreover have "\<forall>c. h' c = (if c \<in> set (x # xs) then None else h c)"
    using h' by (metis fun_upd_apply list.set_intros set_ConsD)
  ultimately show ?case by blast
qed

lemma slist_foreach_safe_free:
  assumes "slist h head xs"
  shows "\<exists>h'. m_slist_foreach_safe head slist_release (h, []) = Some (h', xs) \<and>
    (\<forall>a. h' a = (if a \<in> set xs then None else h a))"
proof -
  obtain a where "head \<noteq> 0" "h head = Some \<lparr>s_next = a\<rparr>" "sseg h a xs"
    using assms by (auto simp: slist_def)
  with foreach_safe_loop_free [of h a xs "[]"] show ?thesis
    by (simp add: m_slist_foreach_safe_def access)
qed

text \<open>The value macro keeps NULL with \<open>m_node_value\<close>, so it releases the containing
  structures of the same nodes, provided none of them starts at address 0.\<close>

lemma foreach_value_safe_loop_free:
  "sseg h a xs \<Longrightarrow> off \<notin> set xs \<Longrightarrow>
    \<exists>h'. m_slist_foreach_value_safe_loop off (\<lambda>val. slist_release (val + off)) (m_node_value a off) (h, acc) =
        Some (h', acc @ xs) \<and>
      (\<forall>b. h' b = (if b \<in> set xs then None else h b))"
proof (induction xs arbitrary: h a acc)
  case Nil
  then show ?case by (simp add: m_slist_foreach_value_safe_loop.simps m_node_value_def)
next
  case (Cons x xs)
  then obtain b where b: "x \<noteq> 0" "a = x" "h x = Some \<lparr>s_next = b\<rparr>" "sseg h b xs" by auto
  have val: "m_node_value a off = x - off" "x - off \<noteq> 0"
    using b Cons.prems(2) by (auto simp: node_val)
  have "x \<notin> set xs" using sseg_distinct [OF Cons.prems(1)] by simp
  then have "sseg (h(x := None)) b xs" "off \<notin> set xs" using b Cons.prems by simp_all
  from Cons.IH [OF this, of "acc @ [x]"] obtain h' where
    "m_slist_foreach_value_safe_loop off (\<lambda>val. slist_release (val + off)) (m_node_value b off)
      (h(x := None), acc @ [x]) = Some (h', (acc @ [x]) @ xs)"
    and h': "\<And>c. h' c = (if c \<in> set xs then None else (h(x := None)) c)" by blast
  then have "m_slist_foreach_value_safe_loop off (\<lambda>val. slist_release (val + off)) (m_node_value a off)
      (h, acc) = Some (h', acc @ x # xs)"
    using b val unfolding val(1)
    by (subst m_slist_foreach_value_safe_loop.simps) (simp add: access release_run)
  moreover have "\<forall>c. h' c = (if c \<in> set (x # xs) then None else h c)"
    using h' by (metis fun_upd_apply list.set_intros set_ConsD)
  ultimately show ?case by blast
qed

lemma slist_foreach_value_safe_free:
  assumes "slist h head xs" "off \<notin> set xs"
  shows "\<exists>h'. m_slist_foreach_value_safe head off (\<lambda>val. slist_release (val + off)) (h, []) =
      Some (h', xs) \<and> (\<forall>a. h' a = (if a \<in> set xs then None else h a))"
proof -
  obtain a where "head \<noteq> 0" "h head = Some \<lparr>s_next = a\<rparr>" "sseg h a xs"
    using assms by (auto simp: slist_def)
  with foreach_value_safe_loop_free [of h a xs off "[]"] assms show ?thesis
    by (simp add: m_slist_foreach_value_safe_def access)
qed

end
