(* ===== verification/Hash.thy ===== *)
theory Hash
  imports SList "HOL-Library.Multiset"
begin

text \<open>
  The intrusive hash table of \<open>include/m_hash.h\<close>: a buffer of chains. A node has the
  single field \<open>next\<close>, as \<open>M_SList\<close> has, so chains are described by the same
  predicate \<open>sseg\<close>. The buffer \<open>lists\<close> is \<open>None\<close> for NULL; \<open>size\<close>
  and \<open>nlist\<close> are 32 bit words. A pointer to a pointer (\<open>M_HashNode**\<close>) is the
  place it points to: an element of the buffer or the \<open>next\<close> field of a node.

  The function pointers of \<open>M_HashOps\<close> are functions: the key of a node does not depend on
  its links; \<open>alloc_buf\<close> says whether an allocation of the given size succeeds;
  \<open>free_node\<close> acts on the node heap and may be NULL. The buffer released by
  \<open>free_buf\<close> is reported by its size argument.
\<close>

type_synonym M_HashNode = M_SList

record M_Hash =
  lists :: "addr list option"
  h_size :: u32
  nlist :: u32

record 'k M_HashOps =
  get_key :: "addr \<Rightarrow> 'k"
  kv :: "'k \<Rightarrow> u32"
  equal :: "'k \<Rightarrow> 'k \<Rightarrow> bool"
  free_node :: "(addr \<Rightarrow> sheap \<Rightarrow> sheap option) option"
  alloc_buf :: "u64 \<Rightarrow> bool"

datatype hslot = Bucket u32 | NextOf addr

datatype M_Result = M_OK | M_NONE | M_FAILED | M_ERR_NO_MEM | M_ERR_TYPE

subsection \<open>Places\<close>

definition bucket :: "M_Hash \<Rightarrow> u32 \<Rightarrow> addr option" where
  "bucket H pos = (case lists H of None \<Rightarrow> None
     | Some buf \<Rightarrow> if unat pos < length buf then Some (buf ! unat pos) else None)"

definition set_bucket :: "M_Hash \<Rightarrow> u32 \<Rightarrow> addr \<Rightarrow> M_Hash option" where
  "set_bucket H pos a = (case lists H of None \<Rightarrow> None
     | Some buf \<Rightarrow> if unat pos < length buf then Some (H\<lparr>lists := Some (buf[unat pos := a])\<rparr>) else None)"

fun read_slot :: "M_Hash \<times> sheap \<Rightarrow> hslot \<Rightarrow> addr option" where
  "read_slot (H, h) (Bucket pos) = bucket H pos"
| "read_slot (H, h) (NextOf a) = do { n \<leftarrow> rd h a; Some (s_next n) }"

fun write_slot :: "M_Hash \<times> sheap \<Rightarrow> hslot \<Rightarrow> addr \<Rightarrow> (M_Hash \<times> sheap) option" where
  "write_slot (H, h) (Bucket pos) v = do { H' \<leftarrow> set_bucket H pos v; Some (H', h) }"
| "write_slot (H, h) (NextOf a) v = do { h' \<leftarrow> wr h a (s_next_update (\<lambda>_. v)); Some (H, h') }"

text \<open>The list index of a key value: \<open>kv % hash->nlist\<close>, undefined for an empty
  buffer.\<close>

definition hash_pos :: "u32 \<Rightarrow> u32 \<Rightarrow> u32 option" where
  "hash_pos k n = (if n = 0 then None else Some (k mod n))"

subsection \<open>Operations\<close>

definition m_hash_size :: "M_Hash \<Rightarrow> u32" where
  "m_hash_size H = h_size H"

definition m_hash_init :: "M_Hash" where
  "m_hash_init = \<lparr>lists = None, h_size = 0, nlist = 0\<rparr>"

partial_function (option) m_hash_lookup_loop ::
    "'k M_HashOps \<Rightarrow> 'k \<Rightarrow> sheap \<Rightarrow> addr \<Rightarrow> addr option" where
  "m_hash_lookup_loop ops key h node =
     (if node = 0 then Some 0
      else if equal ops key (get_key ops node) then Some node
      else do { n \<leftarrow> rd h node; m_hash_lookup_loop ops key h (s_next n) })"

definition m_hash_lookup_with_kv ::
    "'k M_HashOps \<Rightarrow> 'k \<Rightarrow> M_Hash \<times> sheap \<Rightarrow> (addr \<times> u32) option" where
  "m_hash_lookup_with_kv ops key s =
     (let k = kv ops key in
      if h_size (fst s) \<noteq> 0 then do {
        pos \<leftarrow> hash_pos k (nlist (fst s));
        node \<leftarrow> bucket (fst s) pos;
        r \<leftarrow> m_hash_lookup_loop ops key (snd s) node;
        Some (r, k) }
      else Some (0, k))"

definition m_hash_lookup :: "'k M_HashOps \<Rightarrow> 'k \<Rightarrow> M_Hash \<times> sheap \<Rightarrow> addr option" where
  "m_hash_lookup ops key s = do { r \<leftarrow> m_hash_lookup_with_kv ops key s; Some (fst r) }"

text \<open>\<open>m_hash_lookup_with_prev\<close> stores the place that points to the node only when the
  node is found.\<close>

partial_function (option) m_hash_lookup_prev_loop ::
    "'k M_HashOps \<Rightarrow> 'k \<Rightarrow> sheap \<Rightarrow> hslot \<Rightarrow> addr \<Rightarrow> (addr \<times> hslot option) option" where
  "m_hash_lookup_prev_loop ops key h prev node =
     (if node = 0 then Some (0, None)
      else if equal ops key (get_key ops node) then Some (node, Some prev)
      else do { n \<leftarrow> rd h node;
                m_hash_lookup_prev_loop ops key h (NextOf node) (s_next n) })"

definition m_hash_lookup_with_prev ::
    "'k M_HashOps \<Rightarrow> 'k \<Rightarrow> M_Hash \<times> sheap \<Rightarrow> (addr \<times> hslot option) option" where
  "m_hash_lookup_with_prev ops key s =
     (let k = kv ops key in
      if h_size (fst s) \<noteq> 0 then do {
        pos \<leftarrow> hash_pos k (nlist (fst s));
        node \<leftarrow> bucket (fst s) pos;
        m_hash_lookup_prev_loop ops key (snd s) (Bucket pos) node }
      else Some (0, None))"

partial_function (option) m_hash_remove_loop ::
    "'k M_HashOps \<Rightarrow> 'k \<Rightarrow> hslot \<Rightarrow> M_Hash \<times> sheap \<Rightarrow> (addr \<times> M_Hash \<times> sheap) option" where
  "m_hash_remove_loop ops key pnode s = do {
     node \<leftarrow> read_slot s pnode;
     (if node = 0 then Some (0, s)
      else if equal ops key (get_key ops node) then do {
        n \<leftarrow> rd (snd s) node;
        s' \<leftarrow> write_slot s pnode (s_next n);
        Some (node, (fst s')\<lparr>h_size := h_size (fst s') - 1\<rparr>, snd s') }
      else m_hash_remove_loop ops key (NextOf node) s) }"

definition m_hash_remove ::
    "'k M_HashOps \<Rightarrow> 'k \<Rightarrow> M_Hash \<times> sheap \<Rightarrow> (addr \<times> M_Hash \<times> sheap) option" where
  "m_hash_remove ops key s =
     (if h_size (fst s) \<noteq> 0 then do {
        pos \<leftarrow> hash_pos (kv ops key) (nlist (fst s));
        m_hash_remove_loop ops key (Bucket pos) s }
      else Some (0, s))"

definition m_hash_remove_from_prev ::
    "hslot \<Rightarrow> M_Hash \<times> sheap \<Rightarrow> (addr \<times> M_Hash \<times> sheap) option" where
  "m_hash_remove_from_prev pnode s = do {
     node \<leftarrow> read_slot s pnode;
     c_assert (node \<noteq> 0);
     n \<leftarrow> rd (snd s) node;
     s' \<leftarrow> write_slot s pnode (s_next n);
     Some (node, (fst s')\<lparr>h_size := h_size (fst s') - 1\<rparr>, snd s') }"

definition m_hash_insert_with_kv ::
    "addr \<Rightarrow> u32 \<Rightarrow> M_Hash \<times> sheap \<Rightarrow> (M_Hash \<times> sheap) option" where
  "m_hash_insert_with_kv node k s = do {
     c_assert (node \<noteq> 0);
     c_assert (nlist (fst s) \<noteq> 0);
     pos \<leftarrow> hash_pos k (nlist (fst s));
     first \<leftarrow> bucket (fst s) pos;
     h' \<leftarrow> wr (snd s) node (s_next_update (\<lambda>_. first));
     H' \<leftarrow> set_bucket (fst s) pos node;
     Some (H'\<lparr>h_size := h_size H' + 1\<rparr>, h') }"

definition m_hash_insert ::
    "'k M_HashOps \<Rightarrow> addr \<Rightarrow> M_Hash \<times> sheap \<Rightarrow> (M_Hash \<times> sheap) option" where
  "m_hash_insert ops node s = m_hash_insert_with_kv node (kv ops (get_key ops node)) s"

subsection \<open>Traversal\<close>

type_synonym 'a hstate = "(M_Hash \<times> sheap) \<times> 'a"

partial_function (option) m_hash_chain_loop ::
    "(addr \<Rightarrow> 'a hstate \<Rightarrow> 'a hstate option) \<Rightarrow> addr \<Rightarrow> 'a hstate \<Rightarrow> 'a hstate option" where
  "m_hash_chain_loop body node s =
     (if node = 0 then Some s
      else do { s' \<leftarrow> body node s; n \<leftarrow> rd (snd (fst s')) node;
                m_hash_chain_loop body (s_next n) s' })"

partial_function (option) m_hash_foreach_from ::
    "(addr \<Rightarrow> 'a hstate \<Rightarrow> 'a hstate option) \<Rightarrow> u32 \<Rightarrow> 'a hstate \<Rightarrow> 'a hstate option" where
  "m_hash_foreach_from body pos s =
     (if pos < nlist (fst (fst s)) then do {
        node \<leftarrow> bucket (fst (fst s)) pos;
        s' \<leftarrow> m_hash_chain_loop body node s;
        m_hash_foreach_from body (pos + 1) s' }
      else Some s)"

definition m_hash_foreach ::
    "(addr \<Rightarrow> 'a hstate \<Rightarrow> 'a hstate option) \<Rightarrow> 'a hstate \<Rightarrow> 'a hstate option" where
  "m_hash_foreach body s = m_hash_foreach_from body 0 s"

partial_function (option) m_hash_chain_safe_loop ::
    "(addr \<Rightarrow> 'a hstate \<Rightarrow> 'a hstate option) \<Rightarrow> addr \<Rightarrow> 'a hstate \<Rightarrow> 'a hstate option" where
  "m_hash_chain_safe_loop body node s =
     (if node = 0 then Some s
      else do { n \<leftarrow> rd (snd (fst s)) node; s' \<leftarrow> body node s;
                m_hash_chain_safe_loop body (s_next n) s' })"

partial_function (option) m_hash_foreach_safe_from ::
    "(addr \<Rightarrow> 'a hstate \<Rightarrow> 'a hstate option) \<Rightarrow> u32 \<Rightarrow> 'a hstate \<Rightarrow> 'a hstate option" where
  "m_hash_foreach_safe_from body pos s =
     (if pos < nlist (fst (fst s)) then do {
        node \<leftarrow> bucket (fst (fst s)) pos;
        s' \<leftarrow> m_hash_chain_safe_loop body node s;
        m_hash_foreach_safe_from body (pos + 1) s' }
      else Some s)"

definition m_hash_foreach_safe ::
    "(addr \<Rightarrow> 'a hstate \<Rightarrow> 'a hstate option) \<Rightarrow> 'a hstate \<Rightarrow> 'a hstate option" where
  "m_hash_foreach_safe body s = m_hash_foreach_safe_from body 0 s"

subsection \<open>Release and growth\<close>

text \<open>\<open>m_hash_deinit\<close> returns the node heap and, when the buffer was not NULL, the size
  with which it was given to \<open>free_buf\<close>.\<close>

definition free_body ::
    "(addr \<Rightarrow> sheap \<Rightarrow> sheap option) \<Rightarrow> addr \<Rightarrow> unit hstate \<Rightarrow> unit hstate option" where
  "free_body f node s = do { h' \<leftarrow> f node (snd (fst s)); Some ((fst (fst s), h'), ()) }"

definition m_hash_deinit ::
    "'k M_HashOps \<Rightarrow> M_Hash \<times> sheap \<Rightarrow> (sheap \<times> u64 option) option" where
  "m_hash_deinit ops s =
     (if lists (fst s) \<noteq> None then do {
        s' \<leftarrow> (case free_node ops of None \<Rightarrow> Some (s, ())
               | Some f \<Rightarrow> m_hash_foreach_safe (free_body f) (s, ()));
        Some (snd (fst s'), Some (8 * ucast (nlist (fst s)))) }
      else Some (snd s, None))"

text \<open>The body of the loop of \<open>m_hash_resize\<close>: the caller's variable is the new
  buffer. The second result of \<open>m_hash_resize\<close> is the size with which the old buffer was
  given to \<open>free_buf\<close>, if there was one.\<close>

definition old_buffer :: "M_Hash \<Rightarrow> u64 option" where
  "old_buffer H = (if lists H \<noteq> None then Some (8 * ucast (nlist H)) else None)"

definition rehash_body ::
    "'k M_HashOps \<Rightarrow> u32 \<Rightarrow> addr \<Rightarrow> addr list hstate \<Rightarrow> addr list hstate option" where
  "rehash_body ops nsize node s = do {
     i \<leftarrow> hash_pos (kv ops (get_key ops node)) nsize;
     c_assert (unat i < length (snd s));
     h' \<leftarrow> wr (snd (fst s)) node (s_next_update (\<lambda>_. snd s ! unat i));
     Some ((fst (fst s), h'), (snd s)[unat i := node]) }"

definition m_hash_resize ::
    "'k M_HashOps \<Rightarrow> M_Hash \<times> sheap \<Rightarrow> (M_Result \<times> u64 option \<times> M_Hash \<times> sheap) option" where
  "m_hash_resize ops s =
     (if nlist (fst s) * 3 \<le> h_size (fst s) then
        (let nsize = M_MAX (h_size (fst s)) 9 in
         if alloc_buf ops (8 * ucast nsize) then do {
           s' \<leftarrow> m_hash_foreach_safe (rehash_body ops nsize) (s, replicate (unat nsize) 0);
           Some (M_OK, old_buffer (fst s), (fst s)\<lparr>lists := Some (snd s'), nlist := nsize\<rparr>, snd (fst s')) }
         else Some (M_ERR_NO_MEM, None, s))
      else Some (M_OK, None, s))"

subsection \<open>Key functions\<close>

definition m_int_hash_kv_func :: "u64 \<Rightarrow> u32" where
  "m_int_hash_kv_func key = ucast key"

definition m_int_hash_equal_func :: "u64 \<Rightarrow> u64 \<Rightarrow> bool" where
  "m_int_hash_equal_func key1 key2 = (key1 = key2)"

definition m_ptr_hash_kv_func :: "u64 \<Rightarrow> u32" where
  "m_ptr_hash_kv_func key = ucast key"

definition m_ptr_hash_equal_func :: "u64 \<Rightarrow> u64 \<Rightarrow> bool" where
  "m_ptr_hash_equal_func key1 key2 = (key1 = key2)"

subsection \<open>The abstraction relation\<close>

text \<open>\<open>hash_rep ops s bs\<close>: the buffer of \<open>s\<close> points to the chains \<open>bs\<close>; no
  node occurs twice; every node is in the chain its key value selects; \<open>size\<close> counts the
  nodes. \<open>hash_nodes ops s N\<close> forgets the chains and keeps the set of nodes.\<close>

definition buffer :: "M_Hash \<Rightarrow> addr list" where
  "buffer H = (case lists H of None \<Rightarrow> [] | Some buf \<Rightarrow> buf)"

definition node_index :: "'k M_HashOps \<Rightarrow> u32 \<Rightarrow> addr \<Rightarrow> nat" where
  "node_index ops n a = unat (kv ops (get_key ops a) mod n)"

definition hash_rep :: "'k M_HashOps \<Rightarrow> M_Hash \<times> sheap \<Rightarrow> addr list list \<Rightarrow> bool" where
  "hash_rep ops s bs \<longleftrightarrow>
     (lists (fst s) = None \<longleftrightarrow> nlist (fst s) = 0) \<and> length bs = unat (nlist (fst s)) \<and>
     list_all2 (sseg (snd s)) (buffer (fst s)) bs \<and> distinct (concat bs) \<and>
     (\<forall>i < length bs. \<forall>a \<in> set (bs ! i). node_index ops (nlist (fst s)) a = i) \<and>
     length (concat bs) = unat (h_size (fst s))"

definition hash_nodes :: "'k M_HashOps \<Rightarrow> M_Hash \<times> sheap \<Rightarrow> addr set \<Rightarrow> bool" where
  "hash_nodes ops s N \<longleftrightarrow> (\<exists>bs. hash_rep ops s bs \<and> N = set (concat bs))"

lemma concat_split:
  "i < length bs \<Longrightarrow> concat bs = concat (take i bs) @ bs ! i @ concat (drop (Suc i) bs)"
  by (metis concat.simps(2) concat_append id_take_nth_drop)

lemma concat_update:
  "i < length bs \<Longrightarrow> concat (bs[i := b]) = concat (take i bs) @ b @ concat (drop (Suc i) bs)"
  by (simp add: upd_conv_take_nth_drop)

lemma in_concat_iff: "a \<in> set (concat bs) \<longleftrightarrow> (\<exists>i < length bs. a \<in> set (bs ! i))"
  by (metis in_set_conv_nth UN_iff set_concat)

lemma chains_frame [frame]:
  "a \<notin> set (concat bs) \<Longrightarrow>
    list_all2 (sseg (h(a := v))) buf bs = list_all2 (sseg h) buf bs"
  unfolding in_concat_iff list_all2_conv_all_nth by auto

lemma hash_rep_bucket:
  assumes "hash_rep ops s bs" "unat pos < length bs"
  shows "\<exists>a. bucket (fst s) pos = Some a \<and> sseg (snd s) a (bs ! unat pos)"
proof -
  have len: "length (buffer (fst s)) = length bs"
    and all: "list_all2 (sseg (snd s)) (buffer (fst s)) bs"
    using assms(1) by (auto simp: hash_rep_def dest: list_all2_lengthD)
  obtain buf where "lists (fst s) = Some buf"
    using assms by (cases "lists (fst s)") (auto simp: hash_rep_def)
  with len all assms(2) show ?thesis
    by (auto simp: bucket_def buffer_def list_all2_conv_all_nth)
qed

lemma hash_rep_size_pos:
  assumes "hash_rep ops s bs" "h_size (fst s) \<noteq> 0"
  shows "nlist (fst s) \<noteq> 0"
proof
  assume "nlist (fst s) = 0"
  then have "bs = []" using assms(1) by (auto simp: hash_rep_def)
  then show False using assms by (auto simp: hash_rep_def unat_eq_0)
qed

lemma hash_rep_index: "hash_rep ops s bs \<Longrightarrow> nlist (fst s) \<noteq> 0 \<Longrightarrow> unat (k mod nlist (fst s)) < length bs"
  by (simp add: hash_rep_def word_mod_lt)

lemma hash_rep_mapped:
  assumes "hash_rep ops s bs" "a \<in> set (concat bs)"
  shows "a \<noteq> 0" and "\<exists>b. snd s a = Some \<lparr>s_next = b\<rparr>"
proof -
  obtain i where i: "i < length bs" "a \<in> set (bs ! i)"
    using assms(2) unfolding in_concat_iff by blast
  then have "sseg (snd s) (buffer (fst s) ! i) (bs ! i)"
    using assms(1) by (auto simp: hash_rep_def list_all2_conv_all_nth)
  with i(2) sseg_nonnull sseg_mapped show "a \<noteq> 0" "\<exists>b. snd s a = Some \<lparr>s_next = b\<rparr>"
    by metis+
qed

lemma hash_rep_member_index:
  assumes "hash_rep ops s bs" "a \<in> set (concat bs)"
  shows "a \<in> set (bs ! node_index ops (nlist (fst s)) a)"
  using assms unfolding hash_rep_def in_concat_iff by metis

lemma hash_rep_key_cong:
  assumes "\<And>a. a \<in> set (concat bs) \<Longrightarrow> kv ops (get_key ops a) = kv ops' (get_key ops' a)"
    "hash_rep ops s bs"
  shows "hash_rep ops' s bs"
proof -
  have "node_index ops' (nlist (fst s)) a = i" if "i < length bs" "a \<in> set (bs ! i)" for i a
  proof -
    have "a \<in> set (concat bs)" using that unfolding in_concat_iff by blast
    then have "node_index ops' (nlist (fst s)) a = node_index ops (nlist (fst s)) a"
      using assms(1) by (simp add: node_index_def)
    then show ?thesis using assms(2) that by (simp add: hash_rep_def)
  qed
  then show ?thesis using assms(2) by (simp add: hash_rep_def)
qed

lemma hash_init_rep: "hash_rep ops (m_hash_init, h) []"
  by (simp add: hash_rep_def m_hash_init_def buffer_def)

subsection \<open>The contract of the key functions\<close>

locale hash_contract =
  fixes kvf :: "'k \<Rightarrow> u32" and eqf :: "'k \<Rightarrow> 'k \<Rightarrow> bool"
  assumes eq_refl: "eqf k k"
    and eq_sym: "eqf k1 k2 \<Longrightarrow> eqf k2 k1"
    and eq_trans: "eqf k1 k2 \<Longrightarrow> eqf k2 k3 \<Longrightarrow> eqf k1 k3"
    and eq_kv: "eqf k1 k2 \<Longrightarrow> kvf k1 = kvf k2"

interpretation int_hash: hash_contract m_int_hash_kv_func m_int_hash_equal_func
  by unfold_locales (auto simp: m_int_hash_equal_func_def)

interpretation ptr_hash: hash_contract m_ptr_hash_kv_func m_ptr_hash_equal_func
  by unfold_locales (auto simp: m_ptr_hash_equal_func_def)

subsection \<open>Lookup\<close>

lemma lookup_loop_found:
  "sseg h a (us @ x # vs) \<Longrightarrow> \<forall>u \<in> set us. \<not> equal ops key (get_key ops u) \<Longrightarrow>
    equal ops key (get_key ops x) \<Longrightarrow> m_hash_lookup_loop ops key h a = Some x"
  by (induction us arbitrary: a) (subst m_hash_lookup_loop.simps, force simp: access)+

lemma lookup_loop_missing:
  "sseg h a us \<Longrightarrow> \<forall>u \<in> set us. \<not> equal ops key (get_key ops u) \<Longrightarrow>
    m_hash_lookup_loop ops key h a = Some 0"
  by (induction us arbitrary: a) (subst m_hash_lookup_loop.simps, force simp: access)+

lemma lookup_prev_loop_found:
  "sseg h a (us @ x # vs) \<Longrightarrow> \<forall>u \<in> set us. \<not> equal ops key (get_key ops u) \<Longrightarrow>
    equal ops key (get_key ops x) \<Longrightarrow>
    m_hash_lookup_prev_loop ops key h p a =
      Some (x, Some (if us = [] then p else NextOf (last us)))"
  by (induction us arbitrary: a p)
    (subst m_hash_lookup_prev_loop.simps, force simp: access)+

lemma lookup_prev_loop_missing:
  "sseg h a us \<Longrightarrow> \<forall>u \<in> set us. \<not> equal ops key (get_key ops u) \<Longrightarrow>
    m_hash_lookup_prev_loop ops key h p a = Some (0, None)"
  by (induction us arbitrary: a p)
    (subst m_hash_lookup_prev_loop.simps, force simp: access)+

lemma remove_loop_found:
  "sseg (snd s) a (us @ x # vs) \<Longrightarrow> \<forall>u \<in> set us. \<not> equal ops key (get_key ops u) \<Longrightarrow>
    equal ops key (get_key ops x) \<Longrightarrow> read_slot s p = Some a \<Longrightarrow>
    m_hash_remove_loop ops key p s =
      m_hash_remove_from_prev (if us = [] then p else NextOf (last us)) s"
proof (induction us arbitrary: a p)
  case Nil
  then show ?case
    by (subst m_hash_remove_loop.simps) (simp add: m_hash_remove_from_prev_def)
next
  case (Cons u us)
  then obtain b where "u \<noteq> 0" "a = u" "snd s u = Some \<lparr>s_next = b\<rparr>" "sseg (snd s) b (us @ x # vs)"
    by auto
  moreover from this have "read_slot s (NextOf u) = Some b" by (cases s) (simp add: access)
  ultimately show ?case using Cons
    by (subst m_hash_remove_loop.simps) simp
qed

lemma remove_loop_missing:
  "sseg (snd s) a us \<Longrightarrow> \<forall>u \<in> set us. \<not> equal ops key (get_key ops u) \<Longrightarrow>
    read_slot s p = Some a \<Longrightarrow> m_hash_remove_loop ops key p s = Some (0, s)"
proof (induction us arbitrary: a p)
  case Nil
  then show ?case by (subst m_hash_remove_loop.simps) simp
next
  case (Cons u us)
  then obtain b where "u \<noteq> 0" "a = u" "snd s u = Some \<lparr>s_next = b\<rparr>" "sseg (snd s) b us"
    by auto
  moreover from this have "read_slot s (NextOf u) = Some b" by (cases s) (simp add: access)
  ultimately show ?case using Cons
    by (subst m_hash_remove_loop.simps) simp
qed

text \<open>Changing one chain of a table.\<close>

lemma distinct_concat_elsewhere:
  assumes "distinct (concat bs)" "i < length bs" "j < length bs" "i \<noteq> j" "a \<in> set (bs ! i)"
  shows "a \<notin> set (bs ! j)"
proof -
  have "a \<notin> set (concat (take i bs))" "a \<notin> set (concat (drop (Suc i) bs))"
    using assms(1,5) unfolding concat_split [OF assms(2)] by auto
  moreover have "bs ! j \<in> set (take i bs) \<or> bs ! j \<in> set (drop (Suc i) bs)"
  proof (cases "j < i")
    case True
    then have "take i bs ! j \<in> set (take i bs)" using assms(2) by (intro nth_mem) simp
    with True show ?thesis by simp
  next
    case False
    then have "drop (Suc i) bs ! (j - Suc i) \<in> set (drop (Suc i) bs)"
      using assms(3,4) by (intro nth_mem) simp
    with False assms(3,4) show ?thesis by simp
  qed
  ultimately show ?thesis by auto
qed

lemma chains_update:
  assumes "list_all2 (sseg h) buf bs" "i < length bs"
    and "\<forall>j < length bs. j \<noteq> i \<longrightarrow> a \<notin> set (bs ! j)" "sseg (h(a := v)) (buf' ! i) b"
    and "length buf' = length buf" "\<forall>j < length bs. j \<noteq> i \<longrightarrow> buf' ! j = buf ! j"
  shows "list_all2 (sseg (h(a := v))) buf' (bs[i := b])"
  using assms by (auto simp: list_all2_conv_all_nth nth_list_update)

lemma sseg_unlink:
  "sseg h a (us @ l # x # vs) \<Longrightarrow> distinct (us @ l # x # vs) \<Longrightarrow> h x = Some \<lparr>s_next = b\<rparr> \<Longrightarrow>
    sseg (h(l \<mapsto> \<lparr>s_next = b\<rparr>)) a (us @ l # vs)"
  by (induction us arbitrary: a) auto

lemma unat_minus_1: "(w::u32) \<noteq> 0 \<Longrightarrow> unat (w - 1) = unat w - 1"
  by (simp add: unat_minus_one)

lemma chain_shrunk:
  assumes "distinct (concat bs)" "i < length bs" "bs ! i = us @ x # vs"
  shows "distinct (concat (bs[i := us @ vs]))"
    and "set (concat (bs[i := us @ vs])) = set (concat bs) - {x}"
    and "length (concat (bs[i := us @ vs])) = length (concat bs) - 1"
    and "length (concat bs) \<noteq> 0"
  using assms(1,3) unfolding concat_update [OF assms(2)] concat_split [OF assms(2)] by auto

definition prev_slot :: "nat \<Rightarrow> addr list \<Rightarrow> hslot" where
  "prev_slot i us = (if us = [] then Bucket (of_nat i) else NextOf (last us))"

lemma unat_of_nat_index:
  "hash_rep ops s bs \<Longrightarrow> i < length bs \<Longrightarrow> unat (of_nat i :: u32) = i"
  using unsigned_less [of "nlist (fst s)", where ?'a = nat]
  by (auto simp: hash_rep_def unat_of_nat take_bit_eq_mod)

lemma remove_from_prev_rep:
  assumes rep: "hash_rep ops s bs" and i: "i < length bs" and split: "bs ! i = us @ x # vs"
  shows "\<exists>s'. m_hash_remove_from_prev (prev_slot i us) s = Some (x, s') \<and>
    hash_rep ops s' (bs[i := us @ vs]) \<and> dom (snd s') = dom (snd s) \<and> snd s' x = snd s x \<and>
    nlist (fst s') = nlist (fst s)"
proof -
  obtain H h where s: "s = (H, h)" by (cases s)
  have all: "list_all2 (sseg h) (buffer H) bs" and dist: "distinct (concat bs)"
    and size: "length (concat bs) = unat (h_size H)"
    using rep by (auto simp: hash_rep_def s)
  have xin: "x \<in> set (concat bs)" using i split unfolding in_concat_iff by auto
  obtain b where x: "x \<noteq> 0" "h x = Some \<lparr>s_next = b\<rparr>"
    using hash_rep_mapped [OF rep xin] by (auto simp: s)
  have chain: "sseg h (buffer H ! i) (us @ x # vs)"
    using all i split by (auto simp: list_all2_conv_all_nth)
  have dchain: "distinct (us @ x # vs)"
    using dist split unfolding concat_split [OF i] by auto
  note shr = chain_shrunk [OF dist i split]
  obtain buf where buf: "lists H = Some buf" "buffer H = buf" "length buf = length bs"
    using rep i by (cases "lists H") (auto simp: hash_rep_def s buffer_def dest: list_all2_lengthD)
  have bucket: "bucket H (of_nat i) = Some (buf ! i)"
    using buf i unat_of_nat_index [OF rep i] by (simp add: bucket_def)
  have placed: "\<forall>j < length bs. \<forall>a \<in> set ((bs[i := us @ vs]) ! j). node_index ops (nlist H) a = j"
    using rep split i by (auto simp: hash_rep_def s nth_list_update split: if_splits)
  have sz: "unat (h_size H - 1) = length (concat (bs[i := us @ vs]))"
    using shr(3,4) size by (subst unat_minus_1) (auto simp: unat_eq_0)
  show ?thesis
  proof (cases us rule: rev_cases)
    case Nil
    have "buf ! i = x" "sseg h b vs" using chain x Nil buf by auto
    moreover have "list_all2 (sseg h) (buf[i := b]) (bs[i := us @ vs])"
      using all i buf \<open>sseg h b vs\<close> Nil by (simp add: list_all2_update_cong)
    ultimately show ?thesis
      using x Nil buf bucket i placed shr sz rep unat_of_nat_index [OF rep i]
      by (auto simp: m_hash_remove_from_prev_def prev_slot_def s access set_bucket_def
          hash_rep_def buffer_def)
  next
    case (snoc us' l)
    obtain c where l: "l \<noteq> 0" "h l = Some \<lparr>s_next = c\<rparr>"
      using sseg_mapped [OF chain, of l] sseg_nonnull [OF chain] snoc by auto
    have "c = x"
      using chain sseg_suffix [of h "buffer H ! i" us' l "x # vs"] snoc l by auto
    have "sseg (h(l \<mapsto> \<lparr>s_next = b\<rparr>)) (buf ! i) (us @ vs)"
      using sseg_unlink [of h "buf ! i" us' l x vs b] chain dchain x snoc buf by simp
    moreover have "\<forall>j < length bs. j \<noteq> i \<longrightarrow> l \<notin> set (bs ! j)"
      using distinct_concat_elsewhere [OF dist i] split snoc by auto
    ultimately have "list_all2 (sseg (h(l \<mapsto> \<lparr>s_next = b\<rparr>))) buf (bs[i := us @ vs])"
      using all i buf by (intro chains_update) auto
    moreover have "l \<noteq> x" using dchain snoc by auto
    ultimately show ?thesis
      using x l \<open>c = x\<close> snoc buf placed shr sz rep i
      by (auto simp: m_hash_remove_from_prev_def prev_slot_def s access hash_rep_def buffer_def)
  qed
qed

subsection \<open>Lookup and removal on the set of nodes\<close>

definition matches :: "'k M_HashOps \<Rightarrow> 'k \<Rightarrow> addr \<Rightarrow> bool" where
  "matches ops key a \<longleftrightarrow> equal ops key (get_key ops a)"

definition contract :: "'k M_HashOps \<Rightarrow> bool" where
  "contract ops \<longleftrightarrow> hash_contract (kv ops) (equal ops)"

text \<open>A matching node is in the chain of the key: this is where the operations need the
  contract of the key functions.\<close>

lemma match_in_chain:
  assumes "contract ops" "hash_rep ops s bs" "a \<in> set (concat bs)" "matches ops key a"
  shows "a \<in> set (bs ! unat (kv ops key mod nlist (fst s)))"
proof -
  have "kv ops key = kv ops (get_key ops a)"
    using assms(1,4) hash_contract.eq_kv by (auto simp: contract_def matches_def)
  then show ?thesis
    using hash_rep_member_index [OF assms(2,3)] by (simp add: node_index_def)
qed

lemma hash_empty_nodes:
  "hash_rep ops s bs \<Longrightarrow> h_size (fst s) = 0 \<longleftrightarrow> set (concat bs) = {}"
  unfolding hash_rep_def set_empty length_0_conv [symmetric] by (simp only: unat_eq_0)

text \<open>The two ways a search can end, with the place where a match was found.\<close>

lemma hash_search_cases:
  assumes "contract ops" "hash_rep ops s bs"
  obtains (missing) "\<forall>a \<in> set (concat bs). \<not> matches ops key a"
  | (found) i us x vs where "h_size (fst s) \<noteq> 0" "nlist (fst s) \<noteq> 0"
      "i = unat (kv ops key mod nlist (fst s))" "i < length bs" "bs ! i = us @ x # vs"
      "matches ops key x" "\<forall>u \<in> set us. \<not> matches ops key u"
proof (cases "\<forall>a \<in> set (concat bs). \<not> matches ops key a")
  case True
  then show ?thesis by (rule missing)
next
  case False
  then obtain a where a: "a \<in> set (concat bs)" "matches ops key a" by blast
  let ?i = "unat (kv ops key mod nlist (fst s))"
  have size: "h_size (fst s) \<noteq> 0" using a hash_empty_nodes [OF assms(2)] by auto
  note nl = hash_rep_size_pos [OF assms(2) size]
  have "\<exists>x \<in> set (bs ! ?i). matches ops key x"
    using match_in_chain [OF assms a] a(2) by blast
  then obtain us x vs where "bs ! ?i = us @ x # vs" "matches ops key x"
      "\<forall>u \<in> set us. \<not> matches ops key u"
    using split_list_first_prop [of "bs ! ?i" "matches ops key"] by blast
  with size nl hash_rep_index [OF assms(2) nl] show ?thesis by (intro found) auto
qed

lemma chain_all_missing:
  "hash_rep ops s bs \<Longrightarrow> \<forall>a \<in> set (concat bs). \<not> matches ops key a \<Longrightarrow> i < length bs \<Longrightarrow>
    \<forall>u \<in> set (bs ! i). \<not> equal ops key (get_key ops u)"
  unfolding in_concat_iff matches_def by (metis in_concat_iff)

lemma lookup_rep:
  assumes "contract ops" "hash_rep ops s bs"
  shows "\<exists>r. m_hash_lookup_with_kv ops key s = Some (r, kv ops key) \<and>
    (if \<exists>a \<in> set (concat bs). matches ops key a then r \<in> set (concat bs) \<and> matches ops key r
     else r = 0)"
proof (rule hash_search_cases [OF assms, of key])
  assume none: "\<forall>a \<in> set (concat bs). \<not> matches ops key a"
  show ?thesis
  proof (cases "h_size (fst s) = 0")
    case True
    with none show ?thesis by (auto simp: m_hash_lookup_with_kv_def)
  next
    case False
    note nl = hash_rep_size_pos [OF assms(2) False]
    let ?i = "kv ops key mod nlist (fst s)"
    have i: "unat ?i < length bs" by (rule hash_rep_index [OF assms(2) nl])
    from hash_rep_bucket [OF assms(2) i] obtain a where
      a: "bucket (fst s) ?i = Some a" "sseg (snd s) a (bs ! unat ?i)" by blast
    have "m_hash_lookup_loop ops key (snd s) a = Some 0"
      by (rule lookup_loop_missing [OF a(2) chain_all_missing [OF assms(2) none i]])
    with False nl a none show ?thesis
      by (auto simp: m_hash_lookup_with_kv_def hash_pos_def)
  qed
next
  fix i us x vs
  assume size: "h_size (fst s) \<noteq> 0" and nl: "nlist (fst s) \<noteq> 0"
    and i: "i = unat (kv ops key mod nlist (fst s))" "i < length bs" "bs ! i = us @ x # vs"
    and m: "matches ops key x" "\<forall>u \<in> set us. \<not> matches ops key u"
  obtain a where a: "bucket (fst s) (kv ops key mod nlist (fst s)) = Some a"
      "sseg (snd s) a (us @ x # vs)"
    using hash_rep_bucket [OF assms(2), of "kv ops key mod nlist (fst s)"] i by auto
  have "m_hash_lookup_loop ops key (snd s) a = Some x"
    using lookup_loop_found [OF a(2)] m by (auto simp: matches_def)
  moreover have "x \<in> set (concat bs)" using i(2,3) unfolding in_concat_iff by auto
  ultimately show ?thesis using size nl a(1) m by (auto simp: m_hash_lookup_with_kv_def hash_pos_def)
qed

lemma lookup_prev_rep:
  assumes "contract ops" "hash_rep ops s bs"
  shows "(\<exists>i us x vs. i < length bs \<and> bs ! i = us @ x # vs \<and> matches ops key x \<and>
      m_hash_lookup_with_prev ops key s = Some (x, Some (prev_slot i us)) \<and>
      m_hash_remove ops key s = m_hash_remove_from_prev (prev_slot i us) s) \<or>
    (\<forall>a \<in> set (concat bs). \<not> matches ops key a) \<and>
      m_hash_lookup_with_prev ops key s = Some (0, None) \<and>
      m_hash_remove ops key s = Some (0, s)"
proof (rule hash_search_cases [OF assms, of key])
  assume none: "\<forall>a \<in> set (concat bs). \<not> matches ops key a"
  have "m_hash_lookup_with_prev ops key s = Some (0, None) \<and> m_hash_remove ops key s = Some (0, s)"
  proof (cases "h_size (fst s) = 0")
    case True
    then show ?thesis by (simp add: m_hash_lookup_with_prev_def m_hash_remove_def)
  next
    case False
    note nl = hash_rep_size_pos [OF assms(2) False]
    let ?i = "kv ops key mod nlist (fst s)"
    have i: "unat ?i < length bs" by (rule hash_rep_index [OF assms(2) nl])
    from hash_rep_bucket [OF assms(2) i] obtain a where
      a: "bucket (fst s) ?i = Some a" "sseg (snd s) a (bs ! unat ?i)" by blast
    have rd: "read_slot s (Bucket ?i) = Some a" using a by (cases s) simp
    note cam = chain_all_missing [OF assms(2) none i]
    show ?thesis
      using False nl a lookup_prev_loop_missing [OF a(2) cam]
        remove_loop_missing [OF a(2) cam rd]
      by (simp add: m_hash_lookup_with_prev_def m_hash_remove_def hash_pos_def)
  qed
  with none show ?thesis by simp
next
  fix i us x vs
  assume size: "h_size (fst s) \<noteq> 0" and nl: "nlist (fst s) \<noteq> 0"
    and i: "i = unat (kv ops key mod nlist (fst s))" "i < length bs" "bs ! i = us @ x # vs"
    and m: "matches ops key x" "\<forall>u \<in> set us. \<not> matches ops key u"
  let ?p = "kv ops key mod nlist (fst s)"
  obtain a where a: "bucket (fst s) ?p = Some a" "sseg (snd s) a (us @ x # vs)"
    using hash_rep_bucket [OF assms(2), of ?p] i by auto
  have rd: "read_slot s (Bucket ?p) = Some a" using a by (cases s) simp
  have slot: "prev_slot i us = (if us = [] then Bucket ?p else NextOf (last us))"
    using i(1) by (simp add: prev_slot_def)
  have P: "\<forall>u \<in> set us. \<not> equal ops key (get_key ops u)" "equal ops key (get_key ops x)"
    using m by (auto simp: matches_def)
  have "m_hash_lookup_with_prev ops key s = Some (x, Some (prev_slot i us))"
    using size nl a(1) lookup_prev_loop_found [OF a(2) P]
    by (simp add: m_hash_lookup_with_prev_def hash_pos_def slot)
  moreover have "m_hash_remove ops key s = m_hash_remove_from_prev (prev_slot i us) s"
    using size nl remove_loop_found [OF a(2) P rd]
    by (simp add: m_hash_remove_def hash_pos_def slot)
  ultimately show ?thesis using i(2,3) m by blast
qed

lemma remove_nodes:
  assumes "contract ops" "hash_nodes ops s N"
  shows "(\<exists>x \<in> N. matches ops key x \<and> (\<exists>s'. m_hash_remove ops key s = Some (x, s') \<and>
      hash_nodes ops s' (N - {x}) \<and> dom (snd s') = dom (snd s))) \<or>
    (\<forall>a \<in> N. \<not> matches ops key a) \<and> m_hash_remove ops key s = Some (0, s)"
proof -
  obtain bs where bs: "hash_rep ops s bs" "N = set (concat bs)"
    using assms(2) by (auto simp: hash_nodes_def)
  from lookup_prev_rep [OF assms(1) bs(1), of key] show ?thesis
  proof (elim disjE exE conjE)
    fix i us x vs
    assume i: "i < length bs" "bs ! i = us @ x # vs" and m: "matches ops key x"
      and r: "m_hash_remove ops key s = m_hash_remove_from_prev (prev_slot i us) s"
    obtain s' where s': "m_hash_remove_from_prev (prev_slot i us) s = Some (x, s')"
        "hash_rep ops s' (bs[i := us @ vs])" "dom (snd s') = dom (snd s)"
      using remove_from_prev_rep [OF bs(1) i] by blast
    have "x \<in> N" unfolding bs(2) in_concat_iff using i by auto
    moreover have "N - {x} = set (concat (bs[i := us @ vs]))"
      using chain_shrunk(2) [OF _ i] bs by (simp only: hash_rep_def)
    ultimately have "hash_nodes ops s' (N - {x})" "x \<in> N"
      using s'(2) unfolding hash_nodes_def by blast+
    with s' r m show ?thesis by auto
  qed (use bs in auto)
qed

subsection \<open>Insertion\<close>

lemma insert_rep:
  assumes rep: "hash_rep ops s bs" and nl: "nlist (fst s) \<noteq> 0"
    and k: "k = kv ops (get_key ops node)" and node: "node \<noteq> 0" "snd s node = Some n"
    and new: "node \<notin> set (concat bs)" and room: "h_size (fst s) \<noteq> - 1"
  shows "\<exists>s'. m_hash_insert_with_kv node k s = Some s' \<and>
    (let i = unat (k mod nlist (fst s)) in hash_rep ops s' (bs[i := node # bs ! i])) \<and>
    dom (snd s') = dom (snd s) \<and> nlist (fst s') = nlist (fst s)"
proof -
  obtain H h where s: "s = (H, h)" by (cases s)
  let ?p = "k mod nlist H" and ?i = "unat (k mod nlist H)"
  have i: "?i < length bs" using hash_rep_index [OF rep nl] by (simp add: s)
  obtain a where a: "bucket H ?p = Some a" "sseg h a (bs ! ?i)"
    using hash_rep_bucket [OF rep, of ?p] i by (auto simp: s)
  have all: "list_all2 (sseg h) (buffer H) bs" and dist: "distinct (concat bs)"
    and size: "length (concat bs) = unat (h_size H)"
    using rep by (auto simp: hash_rep_def s)
  obtain buf where buf: "lists H = Some buf" "buffer H = buf" "length buf = length bs"
    using rep i by (cases "lists H") (auto simp: hash_rep_def s buffer_def dest: list_all2_lengthD)
  let ?h = "h(node \<mapsto> \<lparr>s_next = a\<rparr>)" and ?bs = "bs[?i := node # bs ! ?i]"
  have elsewhere: "\<forall>j < length bs. node \<notin> set (bs ! j)"
    using new unfolding in_concat_iff by blast
  have "sseg ?h node (node # bs ! ?i)" using a(2) node(1) elsewhere i by simp
  then have chains: "list_all2 (sseg ?h) (buf[?i := node]) ?bs"
    using all i buf elsewhere by (intro chains_update [where buf = buf]) auto
  have cc: "distinct (concat ?bs)" "length (concat ?bs) = Suc (length (concat bs))"
    using dist new unfolding concat_update [OF i] concat_split [OF i] by auto
  have placed: "\<forall>j < length bs. \<forall>b \<in> set (?bs ! j). node_index ops (nlist H) b = j"
  proof (intro allI impI ballI)
    fix j b
    assume j: "j < length bs" and b: "b \<in> set (?bs ! j)"
    have old: "\<forall>b \<in> set (bs ! j). node_index ops (nlist H) b = j"
      using rep j by (simp add: hash_rep_def s)
    show "node_index ops (nlist H) b = j"
      using b j old k by (cases "j = ?i") (auto simp: node_index_def)
  qed
  have sz: "unat (h_size H + 1) = Suc (unat (h_size H))"
    using room unatSuc [of "h_size H"] by (simp add: s eq_neg_iff_add_eq_0 add.commute)
  show ?thesis
    using nl node a(1) i buf chains cc placed sz size rep
    by (auto simp: m_hash_insert_with_kv_def s access hash_pos_def set_bucket_def hash_rep_def
        buffer_def)
qed

lemma insert_nodes:
  assumes "hash_nodes ops s N" "nlist (fst s) \<noteq> 0" "k = kv ops (get_key ops node)"
    "node \<noteq> 0" "snd s node = Some n" "node \<notin> N" "h_size (fst s) \<noteq> - 1"
  shows "\<exists>s'. m_hash_insert_with_kv node k s = Some s' \<and> hash_nodes ops s' (insert node N) \<and>
    dom (snd s') = dom (snd s) \<and> nlist (fst s') = nlist (fst s)"
proof -
  obtain bs where bs: "hash_rep ops s bs" "N = set (concat bs)"
    using assms(1) by (auto simp: hash_nodes_def)
  let ?i = "unat (k mod nlist (fst s))"
  have i: "?i < length bs" by (rule hash_rep_index [OF bs(1) assms(2)])
  have "set (concat (bs[?i := node # bs ! ?i])) = insert node (set (concat bs))"
    unfolding concat_update [OF i] concat_split [OF i] by auto
  moreover have "node \<notin> set (concat bs)" using assms(6) bs(2) by simp
  ultimately show ?thesis
    using insert_rep [OF bs(1) assms(2-5) _ assms(7)] bs(2) unfolding hash_nodes_def Let_def
    by metis
qed

subsection \<open>Traversal\<close>

lemma chain_safe_rule:
  assumes "sseg h a xs" "I d s"
    and step: "\<And>ys x zs s. xs = ys @ x # zs \<Longrightarrow> I (d @ ys) s \<Longrightarrow>
      snd (fst s) x = h x \<and> (\<exists>s'. body x s = Some s' \<and> I (d @ ys @ [x]) s')"
  shows "\<exists>s'. m_hash_chain_safe_loop body a s = Some s' \<and> I (d @ xs) s'"
  using assms
proof (induction xs arbitrary: a d s)
  case Nil
  then show ?case by (subst m_hash_chain_safe_loop.simps) simp
next
  case (Cons x xs)
  obtain b where b: "x \<noteq> 0" "a = x" "h x = Some \<lparr>s_next = b\<rparr>" "sseg h b xs"
    using Cons.prems(1) by auto
  obtain s' where s': "snd (fst s) x = h x" "body x s = Some s'" "I (d @ [x]) s'"
    using Cons.prems(3) [of "[]" x xs s] Cons.prems(2) by auto
  have "\<exists>t. m_hash_chain_safe_loop body b s' = Some t \<and> I ((d @ [x]) @ xs) t"
  proof (rule Cons.IH [OF b(4) s'(3)])
    fix ys y zs t
    assume "xs = ys @ y # zs" "I ((d @ [x]) @ ys) t"
    then show "snd (fst t) y = h y \<and> (\<exists>s'. body y t = Some s' \<and> I ((d @ [x]) @ ys @ [y]) s')"
      using Cons.prems(3) [of "x # ys" y zs t] by simp
  qed
  then show ?case using b s' by (subst m_hash_chain_safe_loop.simps) (auto simp: access)
qed

lemma hash_safe_rule:
  assumes rep: "hash_rep ops (H, h) bs" and init: "I [] s"
    and same: "\<And>ys s. I ys s \<Longrightarrow> fst (fst s) = H"
    and step: "\<And>ys x zs s. concat bs = ys @ x # zs \<Longrightarrow> I ys s \<Longrightarrow>
      snd (fst s) x = h x \<and> (\<exists>s'. body x s = Some s' \<and> I (ys @ [x]) s')"
  shows "\<exists>s'. m_hash_foreach_safe body s = Some s' \<and> I (concat bs) s'"
proof -
  have len: "length bs = unat (nlist H)" using rep by (simp add: hash_rep_def)
  have small: "unat (of_nat j :: u32) = j" if "j \<le> length bs" for j
    using that len unsigned_less [of "nlist H", where ?'a = nat]
    by (simp add: unat_of_nat take_bit_eq_mod)
  have "\<exists>s'. m_hash_foreach_safe_from body (of_nat i) s = Some s' \<and> I (concat bs) s'"
    if "i \<le> length bs" "I (concat (take i bs)) s" for i s
    using that
  proof (induction "length bs - i" arbitrary: i s)
    case 0
    then have "i = length bs" by simp
    then have "\<not> of_nat i < nlist H" using len small by (simp add: word_less_nat_alt)
    moreover have "I (concat bs) s" using 0 by simp
    moreover from this have "fst (fst s) = H" by (rule same)
    ultimately show ?case by (subst m_hash_foreach_safe_from.simps) simp
  next
    case (Suc m)
    then have i: "i < length bs" by simp
    have u: "unat (of_nat i :: u32) = i" using small i by simp
    have lt: "of_nat i < nlist H" using i u len by (simp add: word_less_nat_alt)
    have H: "fst (fst s) = H" using same Suc.prems(2) .
    obtain a where a: "bucket H (of_nat i) = Some a" "sseg h a (bs ! i)"
      using hash_rep_bucket [OF rep, of "of_nat i"] u i by auto
    have split: "concat bs = concat (take i bs) @ bs ! i @ concat (drop (Suc i) bs)"
      by (rule concat_split [OF i])
    have "\<exists>t. m_hash_chain_safe_loop body a s = Some t \<and> I (concat (take i bs) @ bs ! i) t"
    proof (rule chain_safe_rule [where I = I, OF a(2) Suc.prems(2)])
      fix ys x zs s
      assume "bs ! i = ys @ x # zs" "I (concat (take i bs) @ ys) s"
      then show "snd (fst s) x = h x \<and>
          (\<exists>s'. body x s = Some s' \<and> I (concat (take i bs) @ ys @ [x]) s')"
        using step [of "concat (take i bs) @ ys" x "zs @ concat (drop (Suc i) bs)" s] split by simp
    qed
    then obtain t where t: "m_hash_chain_safe_loop body a s = Some t"
        "I (concat (take (Suc i) bs)) t"
      using i by (auto simp: take_Suc_conv_app_nth)
    then have "\<exists>s'. m_hash_foreach_safe_from body (of_nat (Suc i)) t = Some s' \<and> I (concat bs) s'"
      using Suc.hyps(1) [of "Suc i" t] Suc.hyps(2) i by simp
    with t(1) a(1) lt H show ?case
      by (subst m_hash_foreach_safe_from.simps) (simp add: add.commute)
  qed
  from this [of 0 s] init show ?thesis by (simp add: m_hash_foreach_safe_def)
qed

text \<open>The plain traversal with a body that keeps the table visits the chains in order.\<close>

lemma chain_loop_pure:
  "sseg h a xs \<Longrightarrow>
    m_hash_chain_loop (\<lambda>a (s, acc). Some (s, f a acc)) a ((H, h), acc) =
    Some ((H, h), fold f xs acc)"
proof (induction xs arbitrary: a acc)
  case Nil
  then show ?case by (simp add: m_hash_chain_loop.simps)
next
  case (Cons x xs)
  then show ?case by (subst m_hash_chain_loop.simps) (auto simp: access)
qed

lemma foreach_pure:
  assumes rep: "hash_rep ops (H, h) bs"
  shows "m_hash_foreach (\<lambda>a (s, acc). Some (s, f a acc)) ((H, h), acc) =
    Some ((H, h), fold f (concat bs) acc)"
proof -
  have len: "length bs = unat (nlist H)" using rep by (simp add: hash_rep_def)
  have small: "unat (of_nat j :: u32) = j" if "j \<le> length bs" for j
    using that len unsigned_less [of "nlist H", where ?'a = nat]
    by (simp add: unat_of_nat take_bit_eq_mod)
  have "m_hash_foreach_from (\<lambda>a (s, acc). Some (s, f a acc)) (of_nat i) ((H, h), acc) =
      Some ((H, h), fold f (concat (drop i bs)) acc)" if "i \<le> length bs" for i acc
    using that
  proof (induction "length bs - i" arbitrary: i acc)
    case 0
    then have "i = length bs" by simp
    then show ?case
      using len small by (subst m_hash_foreach_from.simps) (simp add: word_less_nat_alt)
  next
    case (Suc m)
    then have i: "i < length bs" by simp
    have u: "unat (of_nat i :: u32) = i" using small i by simp
    obtain a where a: "bucket H (of_nat i) = Some a" "sseg h a (bs ! i)"
      using hash_rep_bucket [OF rep, of "of_nat i"] u i by auto
    have "m_hash_foreach_from (\<lambda>a (s, acc). Some (s, f a acc)) (of_nat (Suc i))
        ((H, h), fold f (bs ! i) acc) =
        Some ((H, h), fold f (concat (drop (Suc i) bs)) (fold f (bs ! i) acc))"
      using Suc.hyps(1) [of "Suc i"] Suc.hyps(2) i by simp
    then show ?case
      using a i u len chain_loop_pure [OF a(2), of f H acc]
      by (subst m_hash_foreach_from.simps)
        (simp add: word_less_nat_alt add.commute Cons_nth_drop_Suc [symmetric])
  qed
  from this [of 0 acc] show ?thesis by (simp add: m_hash_foreach_def)
qed

subsection \<open>Growth\<close>

definition rehash_ins :: "'k M_HashOps \<Rightarrow> u32 \<Rightarrow> addr \<Rightarrow> addr list list \<Rightarrow> addr list list" where
  "rehash_ins ops n a nbs = (let i = node_index ops n a in nbs[i := a # nbs ! i])"

definition rehash :: "'k M_HashOps \<Rightarrow> u32 \<Rightarrow> addr list \<Rightarrow> addr list list" where
  "rehash ops n xs = fold (rehash_ins ops n) xs (replicate (unat n) [])"

lemma rehash_snoc: "rehash ops n (xs @ [a]) = rehash_ins ops n a (rehash ops n xs)"
  by (simp add: rehash_def)

lemma node_index_less: "n \<noteq> 0 \<Longrightarrow> node_index ops n a < unat n"
  by (simp add: node_index_def word_mod_lt)

lemma rehash_props:
  assumes "n \<noteq> 0"
  shows "length (rehash ops n xs) = unat n"
    and "mset (concat (rehash ops n xs)) = mset xs"
    and "\<forall>i < unat n. \<forall>a \<in> set (rehash ops n xs ! i). node_index ops n a = i"
proof (induction xs rule: rev_induct)
  case Nil
  {
    case 1 show ?case by (simp add: rehash_def)
  next
    case 2 show ?case by (simp add: rehash_def)
  next
    case 3 show ?case by (simp add: rehash_def)
  }
next
  case (snoc a xs)
  let ?i = "node_index ops n a"
  have i: "?i < length (rehash ops n xs)"
    using node_index_less [OF assms] snoc.IH(1) by simp
  {
    case 1 show ?case using snoc.IH(1) by (simp add: rehash_snoc rehash_ins_def Let_def)
  next
    case 2
    show ?case
      using snoc.IH(2) unfolding rehash_snoc rehash_ins_def Let_def concat_update [OF i]
        concat_split [OF i] by simp
  next
    case 3
    show ?case
      using snoc.IH(3) i by (auto simp: rehash_snoc rehash_ins_def Let_def nth_list_update)
  }
qed

lemma rehash_body_step:
  assumes "n \<noteq> 0" "list_all2 (sseg h) nbuf nbs" "length nbs = unat n"
    "a \<noteq> 0" "h a = Some v" "a \<notin> set (concat nbs)"
  shows "\<exists>c nbuf'. rehash_body ops n a ((H, h), nbuf) =
      Some ((H, h(a \<mapsto> \<lparr>s_next = c\<rparr>)), nbuf') \<and>
    list_all2 (sseg (h(a \<mapsto> \<lparr>s_next = c\<rparr>))) nbuf' (rehash_ins ops n a nbs)"
proof -
  let ?i = "node_index ops n a"
  let ?h = "h(a \<mapsto> \<lparr>s_next = nbuf ! ?i\<rparr>)"
  have i: "?i < length nbs" "length nbuf = length nbs"
    using node_index_less [OF assms(1)] assms(2,3) by (auto dest: list_all2_lengthD)
  have elsewhere: "\<forall>j < length nbs. a \<notin> set (nbs ! j)"
    using assms(6) unfolding in_concat_iff by blast
  have "sseg h (nbuf ! ?i) (nbs ! ?i)" using assms(2) i by (simp add: list_all2_conv_all_nth)
  then have "sseg ?h a (a # nbs ! ?i)" using assms(4) elsewhere i by simp
  then have "list_all2 (sseg ?h) (nbuf[?i := a]) (nbs[?i := a # nbs ! ?i])"
    using assms(2) i elsewhere by (intro chains_update [where buf = nbuf]) auto
  then show ?thesis
    using assms(1,4,5) i
    by (auto simp: rehash_body_def hash_pos_def access rehash_ins_def Let_def node_index_def)
qed

lemma resize_rep:
  assumes rep: "hash_rep pops (H, h) bs" and n: "n \<noteq> 0"
  shows "\<exists>h' nbuf. m_hash_foreach_safe (rehash_body ops n) ((H, h), replicate (unat n) 0) =
      Some ((H, h'), nbuf) \<and>
    hash_rep ops (H\<lparr>lists := Some nbuf, nlist := n\<rparr>, h') (rehash ops n (concat bs)) \<and>
    dom h' = dom h"
proof -
  define I where "I ys s \<longleftrightarrow> fst (fst s) = H \<and> set ys \<subseteq> set (concat bs) \<and>
      list_all2 (sseg (snd (fst s))) (snd s) (rehash ops n ys) \<and>
      (\<forall>a. a \<notin> set ys \<longrightarrow> snd (fst s) a = h a) \<and> dom (snd (fst s)) = dom h" for ys and s :: "addr list hstate"
  have "\<exists>s'. m_hash_foreach_safe (rehash_body ops n) ((H, h), replicate (unat n) 0) = Some s' \<and>
      I (concat bs) s'"
  proof (rule hash_safe_rule [OF rep])
    show "I [] ((H, h), replicate (unat n) 0)"
      by (simp add: I_def rehash_def list_all2_conv_all_nth)
    show "fst (fst s) = H" if "I ys s" for ys s using that by (simp add: I_def)
  next
    fix ys x zs s
    assume split: "concat bs = ys @ x # zs" and I: "I ys s"
    obtain h1 nbuf where s: "s = ((H, h1), nbuf)" using I by (cases s) (auto simp: I_def)
    have "x \<in> set (concat bs)" using split by simp
    with hash_rep_mapped [OF rep this] obtain v where x: "x \<noteq> 0" "h x = Some v" by auto
    have notin: "x \<notin> set ys" "set ys \<subseteq> set (concat bs)"
      using rep split by (auto simp: hash_rep_def simp del: set_concat)
    have eq: "h1 x = h x" using I notin by (simp add: I_def s)
    have "set (concat (rehash ops n ys)) = set ys"
      using rehash_props(2) [OF n] by (metis set_mset_mset)
    then have new: "x \<notin> set (concat (rehash ops n ys))" using notin(1) by simp
    have all: "list_all2 (sseg h1) nbuf (rehash ops n ys)" using I by (simp add: I_def s)
    have hx: "h1 x = Some v" using eq x(2) by simp
    obtain c nbuf' where "rehash_body ops n x ((H, h1), nbuf) =
          Some ((H, h1(x \<mapsto> \<lparr>s_next = c\<rparr>)), nbuf')"
        "list_all2 (sseg (h1(x \<mapsto> \<lparr>s_next = c\<rparr>))) nbuf' (rehash_ins ops n x (rehash ops n ys))"
      using rehash_body_step [OF n all rehash_props(1) [OF n] x(1) hx new] by blast
    then have "\<exists>s'. rehash_body ops n x s = Some s' \<and> I (ys @ [x]) s'"
      using I x split by (auto simp: I_def s rehash_snoc simp del: set_concat)
    with eq show "snd (fst s) x = h x \<and> (\<exists>s'. rehash_body ops n x s = Some s' \<and> I (ys @ [x]) s')"
      by (simp add: s)
  qed
  then obtain h' nbuf where r: "m_hash_foreach_safe (rehash_body ops n)
        ((H, h), replicate (unat n) 0) = Some ((H, h'), nbuf)" "I (concat bs) ((H, h'), nbuf)"
    by (auto simp: I_def)
  have ms: "mset (concat (rehash ops n (concat bs))) = mset (concat bs)"
    by (rule rehash_props(2) [OF n])
  have "distinct (concat (rehash ops n (concat bs)))"
    using mset_eq_imp_distinct_iff [OF ms] rep by (simp add: hash_rep_def)
  moreover have "length (concat (rehash ops n (concat bs))) = unat (h_size H)"
    using mset_eq_length [OF ms] rep by (simp add: hash_rep_def)
  ultimately have "hash_rep ops (H\<lparr>lists := Some nbuf, nlist := n\<rparr>, h') (rehash ops n (concat bs))"
    using r(2) n rehash_props(1) [OF n, where ops = ops and xs = "concat bs"]
      rehash_props(3) [OF n, where ops = ops and xs = "concat bs"]
    by (simp add: hash_rep_def I_def buffer_def)
  with r show ?thesis by (auto simp: I_def)
qed

text \<open>The table may have been built with other key functions \<open>pops\<close>: rebuilding the chains
  files every node under \<open>ops\<close>.\<close>

lemma resize_nodes_from:
  assumes "hash_nodes pops s N"
  shows "(\<exists>s' fr. m_hash_resize ops s = Some (M_OK, fr, s') \<and>
      hash_nodes (if nlist (fst s) * 3 \<le> h_size (fst s) then ops else pops) s' N \<and>
      fr = (if nlist (fst s) * 3 \<le> h_size (fst s) then old_buffer (fst s) else None) \<and>
      unat (h_size (fst s')) < 3 * unat (nlist (fst s')) \<and> nlist (fst s') \<noteq> 0 \<and>
      h_size (fst s') = h_size (fst s) \<and> dom (snd s') = dom (snd s)) \<or>
    nlist (fst s) * 3 \<le> h_size (fst s) \<and> \<not> alloc_buf ops (8 * ucast (M_MAX (h_size (fst s)) 9)) \<and>
      m_hash_resize ops s = Some (M_ERR_NO_MEM, None, s)"
proof -
  obtain H h where s: "s = (H, h)" by (cases s)
  obtain bs where bs: "hash_rep pops (H, h) bs" "N = set (concat bs)"
    using assms by (auto simp: hash_nodes_def s)
  show ?thesis
  proof (cases "nlist H * 3 \<le> h_size H")
    case True
    let ?n = "M_MAX (h_size H) 9"
    have n: "?n \<noteq> 0" "h_size H \<le> ?n" by (auto simp: M_MAX_def)
    show ?thesis
    proof (cases "alloc_buf ops (8 * ucast ?n)")
      case alloc: True
      obtain h' nbuf where r: "m_hash_foreach_safe (rehash_body ops ?n)
            ((H, h), replicate (unat ?n) 0) = Some ((H, h'), nbuf)"
          "hash_rep ops (H\<lparr>lists := Some nbuf, nlist := ?n\<rparr>, h') (rehash ops ?n (concat bs))"
          "dom h' = dom h"
        using resize_rep [OF bs(1) n(1)] by blast
      have "N = set (concat (rehash ops ?n (concat bs)))"
        using rehash_props(2) [OF n(1)] bs(2) by (metis set_mset_mset)
      moreover have "unat (h_size H) < 3 * unat ?n"
        using n by (auto simp: word_le_nat_alt unat_gt_0 [symmetric])
      ultimately show ?thesis
        using True alloc r n(1) unfolding hash_nodes_def s
        by (auto simp: m_hash_resize_def Let_def simp del: set_concat)
    qed (use True in \<open>auto simp: m_hash_resize_def Let_def s\<close>)
  next
    case False
    have "unat (nlist H * 3) \<le> 3 * unat (nlist H)"
      by (simp add: unat_word_ariths mult.commute)
    moreover have "unat (h_size H) < unat (nlist H * 3)"
      using False by (simp add: word_le_nat_alt)
    ultimately have "unat (h_size H) < 3 * unat (nlist H)" by linarith
    moreover from this have "nlist H \<noteq> 0" by auto
    ultimately show ?thesis using False assms by (auto simp: m_hash_resize_def s)
  qed
qed

lemma resize_nodes:
  assumes "hash_nodes ops s N"
  shows "(\<exists>s' fr. m_hash_resize ops s = Some (M_OK, fr, s') \<and> hash_nodes ops s' N \<and>
      fr = (if nlist (fst s) * 3 \<le> h_size (fst s) then old_buffer (fst s) else None) \<and>
      unat (h_size (fst s')) < 3 * unat (nlist (fst s')) \<and> nlist (fst s') \<noteq> 0 \<and>
      h_size (fst s') = h_size (fst s) \<and> dom (snd s') = dom (snd s)) \<or>
    nlist (fst s) * 3 \<le> h_size (fst s) \<and> \<not> alloc_buf ops (8 * ucast (M_MAX (h_size (fst s)) 9)) \<and>
      m_hash_resize ops s = Some (M_ERR_NO_MEM, None, s)"
  using resize_nodes_from [OF assms, of ops] unfolding if_cancel .

subsection \<open>Release\<close>

text \<open>A release function that unmaps a node and faults on one that is not mapped.\<close>

definition release :: "addr \<Rightarrow> sheap \<Rightarrow> sheap option" where
  "release a h = do { n \<leftarrow> rd h a; Some (h(a := None)) }"

definition releases :: "(addr \<Rightarrow> sheap \<Rightarrow> sheap option) \<Rightarrow> bool" where
  "releases f \<longleftrightarrow> (\<forall>a h. a \<noteq> 0 \<longrightarrow> h a \<noteq> None \<longrightarrow> f a h = Some (h(a := None)))"

lemma release_releases: "releases release"
  by (auto simp: releases_def release_def access)

lemma deinit_rep:
  assumes rep: "hash_rep pops s bs" and fn: "free_node ops = Some f" and rel: "releases f"
  shows "\<exists>h'. m_hash_deinit ops s = Some (h', if lists (fst s) = None then None
        else Some (8 * ucast (nlist (fst s)))) \<and>
    (\<forall>a. h' a = (if a \<in> set (concat bs) then None else snd s a))"
proof -
  obtain H h where s: "s = (H, h)" by (cases s)
  define I where "I ys s \<longleftrightarrow> fst (fst s) = H \<and>
      (\<forall>a. snd (fst s) a = (if a \<in> set ys then None else h a))" for ys and s :: "unit hstate"
  show ?thesis
  proof (cases "lists H = None")
    case True
    then have "nlist H = 0" using rep by (simp add: hash_rep_def s)
    then have "bs = []" using rep by (simp add: hash_rep_def s)
    with True show ?thesis by (simp add: m_hash_deinit_def s)
  next
    case False
    have "\<exists>s'. m_hash_foreach_safe (free_body f) ((H, h), ()) = Some s' \<and> I (concat bs) s'"
    proof (rule hash_safe_rule [OF rep [unfolded s]])
      show "I [] ((H, h), ())" by (simp add: I_def)
      show "fst (fst s) = H" if "I ys s" for ys s using that by (simp add: I_def)
    next
      fix ys x zs t
      assume split: "concat bs = ys @ x # zs" and I: "I ys t"
      have "x \<in> set (concat bs)" using split by simp
      with hash_rep_mapped [OF rep this] obtain v where x: "x \<noteq> 0" "h x = Some v"
        by (auto simp: s)
      have "x \<notin> set ys" using rep split by (auto simp: hash_rep_def simp del: set_concat)
      then have eq: "snd (fst t) x = h x" using I by (simp add: I_def)
      then show "snd (fst t) x = h x \<and>
          (\<exists>s'. free_body f x t = Some s' \<and> I (ys @ [x]) s')"
        using I x rel by (auto simp: I_def free_body_def releases_def)
    qed
    then show ?thesis using False fn by (auto simp: m_hash_deinit_def s I_def simp del: set_concat)
  qed
qed

end
