(* ===== verification/Cmp.thy ===== *)
theory Cmp
  imports Macros
begin

text \<open>
  The comparison functions of \<open>include/m_cmp.h\<close> and, as a locale, the contract the
  clients of a comparison function (the red black tree) rely on: a total preorder on the keys in
  use. A key is a \<open>void*\<close>; \<open>m_int_cmp_func\<close> and \<open>m_ptr_cmp_func\<close>
  subtract the keys as \<open>size_t\<close> and truncate the difference to \<open>int\<close>. A C
  string is the list of its bytes before the terminating zero, found in a map from addresses to
  strings.
\<close>

definition m_int_cmp_func :: "u64 \<Rightarrow> u64 \<Rightarrow> int" where
  "m_int_cmp_func key1 key2 = sint (ucast (key1 - key2) :: 32 word)"

definition m_ptr_cmp_func :: "u64 \<Rightarrow> u64 \<Rightarrow> int" where
  "m_ptr_cmp_func key1 key2 = sint (ucast (key1 - key2) :: 32 word)"

text \<open>\<open>strcmp\<close> of the C library: the C standard fixes the sign of the result only; the
  model returns the difference of the first two different bytes.\<close>

fun strcmp :: "u8 list \<Rightarrow> u8 list \<Rightarrow> int" where
  "strcmp [] [] = 0"
| "strcmp [] (y # ys) = - 1"
| "strcmp (x # xs) [] = 1"
| "strcmp (x # xs) (y # ys) = (if x = y then strcmp xs ys else uint x - uint y)"

definition tolower :: "u8 \<Rightarrow> u8" where
  "tolower c = (if 65 \<le> c \<and> c \<le> 90 then c + 32 else c)"

definition strcasecmp :: "u8 list \<Rightarrow> u8 list \<Rightarrow> int" where
  "strcasecmp xs ys = strcmp (List.map tolower xs) (List.map tolower ys)"

definition m_cstr_cmp_func :: "(addr \<Rightarrow> u8 list) \<Rightarrow> addr \<Rightarrow> addr \<Rightarrow> int" where
  "m_cstr_cmp_func str s1 s2 =
     (if s1 = s2 then 0
      else if s1 = 0 then - 1
      else if s2 = 0 then 1
      else strcmp (str s1) (str s2))"

definition m_cstr_casecmp_func :: "(addr \<Rightarrow> u8 list) \<Rightarrow> addr \<Rightarrow> addr \<Rightarrow> int" where
  "m_cstr_casecmp_func str s1 s2 =
     (if s1 = s2 then 0
      else if s1 = 0 then - 1
      else if s2 = 0 then 1
      else strcasecmp (str s1) (str s2))"

subsection \<open>The contract of a comparison function\<close>

locale key_cmp =
  fixes cmp :: "'k \<Rightarrow> 'k \<Rightarrow> int" and K :: "'k set"
  assumes cmp_refl: "a \<in> K \<Longrightarrow> cmp a a = 0"
    and cmp_flip: "a \<in> K \<Longrightarrow> b \<in> K \<Longrightarrow> cmp a b < 0 \<longleftrightarrow> 0 < cmp b a"
    and cmp_trans: "a \<in> K \<Longrightarrow> b \<in> K \<Longrightarrow> c \<in> K \<Longrightarrow> cmp a b \<le> 0 \<Longrightarrow> cmp b c \<le> 0 \<Longrightarrow> cmp a c \<le> 0"
begin

lemma cmp_zero_flip: "a \<in> K \<Longrightarrow> b \<in> K \<Longrightarrow> cmp a b = 0 \<longleftrightarrow> cmp b a = 0"
  using cmp_flip [of a b] cmp_flip [of b a] by linarith

lemma cmp_less_trans:
  assumes "a \<in> K" "b \<in> K" "c \<in> K" "cmp a b < 0" "cmp b c \<le> 0"
  shows "cmp a c < 0"
proof (rule ccontr)
  assume "\<not> cmp a c < 0"
  then have "cmp c a \<le> 0" using cmp_flip [of a c] assms by linarith
  then have "cmp b a \<le> 0" using cmp_trans [of b c a] assms by linarith
  moreover have "0 < cmp b a" using cmp_flip [of a b] assms by linarith
  ultimately show False by simp
qed

lemma cmp_trans_less:
  assumes "a \<in> K" "b \<in> K" "c \<in> K" "cmp a b \<le> 0" "cmp b c < 0"
  shows "cmp a c < 0"
proof (rule ccontr)
  assume "\<not> cmp a c < 0"
  then have "cmp c a \<le> 0" using cmp_flip [of a c] assms by linarith
  then have "cmp c b \<le> 0" using cmp_trans [of c a b] assms by linarith
  moreover have "0 < cmp c b" using cmp_flip [of b c] assms by linarith
  ultimately show False by simp
qed

end

subsection \<open>Integer and pointer keys\<close>

lemma m_int_cmp_eq: "m_int_cmp_func a b = signed_take_bit 31 (uint a - uint b)"
  by (simp add: m_int_cmp_func_def signed_ucast_eq uint_word_arith_bintrs
      signed_take_bit_take_bit)

lemma m_ptr_cmp_eq_int: "m_ptr_cmp_func = m_int_cmp_func"
  by (simp add: fun_eq_iff m_ptr_cmp_func_def m_int_cmp_func_def)

lemma m_int_cmp_zero_iff:
  "m_int_cmp_func a b = 0 \<longleftrightarrow> uint a mod 2 ^ 32 = uint b mod 2 ^ 32"
proof -
  have "m_int_cmp_func a b = signed_take_bit 31 0 \<longleftrightarrow> take_bit 32 (uint a - uint b) = take_bit 32 0"
    by (simp only: m_int_cmp_eq signed_take_bit_eq_iff_take_bit_eq) simp
  then show ?thesis by (simp add: take_bit_eq_mod mod_eq_dvd_iff dvd_eq_mod_eq_0)
qed

text \<open>Below \<open>2 ^ 31\<close> nothing is lost: the result is the exact difference.\<close>

lemma m_int_cmp_small:
  assumes "a < 2 ^ 31" "b < 2 ^ 31"
  shows "m_int_cmp_func a b = uint a - uint b"
proof -
  have "uint a < 2 ^ 31" "uint b < 2 ^ 31" using assms by (simp_all add: word_less_def)
  moreover have "0 \<le> uint a" "0 \<le> uint b" by simp_all
  ultimately have "signed_take_bit 31 (uint a - uint b) = uint a - uint b"
    by (intro signed_take_bit_int_eq_self) linarith+
  then show ?thesis by (simp add: m_int_cmp_eq)
qed

interpretation int_cmp: key_cmp m_int_cmp_func "{k. k < 2 ^ 31}"
  by unfold_locales (auto simp: m_int_cmp_small)

interpretation ptr_cmp: key_cmp m_ptr_cmp_func "{k. k < 2 ^ 31}"
  by unfold_locales (auto simp: m_ptr_cmp_eq_int m_int_cmp_small)

subsection \<open>C string keys\<close>

lemma strcmp_refl [simp]: "strcmp xs xs = 0"
  by (induction xs) auto

lemma strcmp_zero_iff [simp]: "strcmp xs ys = 0 \<longleftrightarrow> xs = ys"
  by (induction xs ys rule: strcmp.induct) (auto simp: word_uint_eq_iff)

lemma strcmp_flip: "strcmp xs ys < 0 \<longleftrightarrow> 0 < strcmp ys xs"
  by (induction xs ys rule: strcmp.induct) auto

lemma strcmp_trans: "strcmp xs ys \<le> 0 \<Longrightarrow> strcmp ys zs \<le> 0 \<Longrightarrow> strcmp xs zs \<le> 0"
proof (induction xs ys arbitrary: zs rule: strcmp.induct)
  case (1)
  then show ?case by simp
next
  case (2 y ys)
  then show ?case by (cases zs) auto
next
  case (3 x xs)
  then show ?case by simp
next
  case (4 x xs y ys)
  then show ?case by (cases zs) (auto simp: word_uint_eq_iff split: if_splits)
qed

interpretation cstr_cmp: key_cmp "m_cstr_cmp_func str" UNIV for str
proof unfold_locales
  fix a b c
  show "m_cstr_cmp_func str a b < 0 \<longleftrightarrow> 0 < m_cstr_cmp_func str b a"
    by (auto simp: m_cstr_cmp_func_def strcmp_flip)
  show "m_cstr_cmp_func str a b \<le> 0 \<Longrightarrow> m_cstr_cmp_func str b c \<le> 0 \<Longrightarrow> m_cstr_cmp_func str a c \<le> 0"
    by (auto simp: m_cstr_cmp_func_def split: if_splits intro: strcmp_trans)
qed (simp_all add: m_cstr_cmp_func_def)

interpretation cstr_casecmp: key_cmp "m_cstr_casecmp_func str" UNIV for str
proof unfold_locales
  fix a b c
  show "m_cstr_casecmp_func str a b < 0 \<longleftrightarrow> 0 < m_cstr_casecmp_func str b a"
    by (auto simp: m_cstr_casecmp_func_def strcasecmp_def strcmp_flip)
  show "m_cstr_casecmp_func str a b \<le> 0 \<Longrightarrow> m_cstr_casecmp_func str b c \<le> 0 \<Longrightarrow>
      m_cstr_casecmp_func str a c \<le> 0"
    by (auto simp: m_cstr_casecmp_func_def strcasecmp_def split: if_splits intro: strcmp_trans)
qed (simp_all add: m_cstr_casecmp_func_def)

end
