(* ===== verification/RBTree.thy ===== *)
theory RBTree
  imports Cmp
begin

text \<open>
  The intrusive red black tree of \<open>include/m_rbtree.h\<close>. A node holds the address of its
  parent and its colour in one word (\<open>pcolor\<close>, the colour in the lowest bit) and the
  addresses of its children; the state is the root pointer \<open>*tree\<close> and the heap of the
  nodes. A pointer to a pointer (\<open>M_RBNode**\<close>) is the place it points to. Every
  function is the sequence of reads and writes of the C function; a loop is a
  \<^theory_text>\<open>partial_function\<close>, whose result \<open>None\<close> includes not ending.
\<close>

record M_RBNode =
  pcolor :: u64
  n_left :: addr
  n_right :: addr

record M_RBTree =
  root :: addr
  nodes :: "addr \<rightharpoonup> M_RBNode"

record 'k M_RBTreeOps =
  rb_get_key :: "addr \<Rightarrow> 'k"
  rb_cmp :: "'k \<Rightarrow> 'k \<Rightarrow> int"
  rb_free_node :: "(addr \<Rightarrow> M_RBTree \<Rightarrow> M_RBTree option) option"

datatype rslot = RootSlot | LeftOf addr | RightOf addr

abbreviation (input) M_RB_BLACK :: u64 where "M_RB_BLACK \<equiv> 1"
abbreviation (input) M_RB_RED :: u64 where "M_RB_RED \<equiv> 0"
abbreviation (input) M_RB_FL_BLACK :: u64 where "M_RB_FL_BLACK \<equiv> 1"

subsection \<open>Fields\<close>

definition node_at :: "M_RBTree \<Rightarrow> addr \<Rightarrow> M_RBNode option" where
  "node_at st a = rd (nodes st) a"

definition upd_node :: "addr \<Rightarrow> (M_RBNode \<Rightarrow> M_RBNode) \<Rightarrow> M_RBTree \<Rightarrow> M_RBTree option" where
  "upd_node a f st = do { h \<leftarrow> wr (nodes st) a f; Some (st\<lparr>nodes := h\<rparr>) }"

definition set_left :: "addr \<Rightarrow> addr \<Rightarrow> M_RBTree \<Rightarrow> M_RBTree option" where
  "set_left a v st = upd_node a (n_left_update (\<lambda>_. v)) st"

definition set_right :: "addr \<Rightarrow> addr \<Rightarrow> M_RBTree \<Rightarrow> M_RBTree option" where
  "set_right a v st = upd_node a (n_right_update (\<lambda>_. v)) st"

fun set_slot :: "rslot \<Rightarrow> addr \<Rightarrow> M_RBTree \<Rightarrow> M_RBTree option" where
  "set_slot RootSlot v st = Some (st\<lparr>root := v\<rparr>)"
| "set_slot (LeftOf a) v st = set_left a v st"
| "set_slot (RightOf a) v st = set_right a v st"

definition m_rbt_parent :: "M_RBTree \<Rightarrow> addr \<Rightarrow> addr option" where
  "m_rbt_parent st node = do { n \<leftarrow> node_at st node; Some (pcolor n AND NOT M_RB_FL_BLACK) }"

definition m_rbt_sibling :: "M_RBTree \<Rightarrow> addr \<Rightarrow> addr option" where
  "m_rbt_sibling st node = do {
     parent \<leftarrow> m_rbt_parent st node;
     p \<leftarrow> node_at st parent;
     Some (if n_left p = node then n_right p else n_left p) }"

definition m_rbt_color :: "M_RBTree \<Rightarrow> addr \<Rightarrow> u64 option" where
  "m_rbt_color st node =
     (if node \<noteq> 0 then do { n \<leftarrow> node_at st node; Some (pcolor n AND M_RB_FL_BLACK) }
      else Some M_RB_BLACK)"

definition m_rbt_set_color :: "addr \<Rightarrow> u64 \<Rightarrow> M_RBTree \<Rightarrow> M_RBTree option" where
  "m_rbt_set_color node color st =
     (if color \<noteq> 0 then upd_node node (pcolor_update (\<lambda>pc. pc OR M_RB_FL_BLACK)) st
      else upd_node node (pcolor_update (\<lambda>pc. pc AND NOT M_RB_FL_BLACK)) st)"

definition m_rbt_set_parent :: "addr \<Rightarrow> addr \<Rightarrow> M_RBTree \<Rightarrow> M_RBTree option" where
  "m_rbt_set_parent node parent st =
     upd_node node (pcolor_update (\<lambda>pc. (pc AND M_RB_FL_BLACK) OR parent)) st"

definition m_rbt_set_parent_color :: "addr \<Rightarrow> addr \<Rightarrow> u64 \<Rightarrow> M_RBTree \<Rightarrow> M_RBTree option" where
  "m_rbt_set_parent_color node parent color st =
     upd_node node (pcolor_update (\<lambda>_. parent OR color)) st"

subsection \<open>Walking the tree\<close>

partial_function (option) leftmost :: "M_RBTree \<Rightarrow> addr \<Rightarrow> addr option" where
  "leftmost st node = do {
     n \<leftarrow> node_at st node;
     (if n_left n \<noteq> 0 then leftmost st (n_left n) else Some node) }"

partial_function (option) rightmost :: "M_RBTree \<Rightarrow> addr \<Rightarrow> addr option" where
  "rightmost st node = do {
     n \<leftarrow> node_at st node;
     (if n_right n \<noteq> 0 then rightmost st (n_right n) else Some node) }"

definition m_rbt_first_node :: "M_RBTree \<Rightarrow> addr option" where
  "m_rbt_first_node st = (if root st = 0 then Some 0 else leftmost st (root st))"

definition m_rbt_last_node :: "M_RBTree \<Rightarrow> addr option" where
  "m_rbt_last_node st = (if root st = 0 then Some 0 else rightmost st (root st))"

partial_function (option) next_up :: "M_RBTree \<Rightarrow> addr \<Rightarrow> addr \<Rightarrow> addr option" where
  "next_up st node next =
     (if next = 0 then Some 0
      else do {
        n \<leftarrow> node_at st next;
        (if n_left n = node then Some next
         else do { next' \<leftarrow> m_rbt_parent st next; next_up st next next' }) })"

definition m_rbt_next_node :: "M_RBTree \<Rightarrow> addr \<Rightarrow> addr option" where
  "m_rbt_next_node st node =
     (if node = 0 then Some 0
      else do {
        n \<leftarrow> node_at st node;
        (if n_right n \<noteq> 0 then leftmost st (n_right n)
         else do { next \<leftarrow> m_rbt_parent st node; next_up st node next }) })"

partial_function (option) prev_up :: "M_RBTree \<Rightarrow> addr \<Rightarrow> addr \<Rightarrow> addr option" where
  "prev_up st node prev =
     (if prev = 0 then Some 0
      else do {
        n \<leftarrow> node_at st prev;
        (if n_right n = node then Some prev
         else do { prev' \<leftarrow> m_rbt_parent st prev; prev_up st prev prev' }) })"

definition m_rbt_prev_node :: "M_RBTree \<Rightarrow> addr \<Rightarrow> addr option" where
  "m_rbt_prev_node st node =
     (if node = 0 then Some 0
      else do {
        n \<leftarrow> node_at st node;
        (if n_left n \<noteq> 0 then rightmost st (n_left n)
         else do { prev \<leftarrow> m_rbt_parent st node; prev_up st node prev }) })"

partial_function (option) m_rbt_free_node ::
    "(addr \<Rightarrow> M_RBTree \<Rightarrow> M_RBTree option) \<Rightarrow> addr \<Rightarrow> M_RBTree \<Rightarrow> M_RBTree option" where
  "m_rbt_free_node func node st = do {
     n \<leftarrow> node_at st node;
     st1 \<leftarrow> (if n_left n \<noteq> 0 then m_rbt_free_node func (n_left n) st else Some st);
     n1 \<leftarrow> node_at st1 node;
     st2 \<leftarrow> (if n_right n1 \<noteq> 0 then m_rbt_free_node func (n_right n1) st1 else Some st1);
     func node st2 }"

definition m_rbt_init :: "M_RBTree \<Rightarrow> M_RBTree" where
  "m_rbt_init st = st\<lparr>root := 0\<rparr>"

definition m_rbt_deinit :: "'k M_RBTreeOps \<Rightarrow> M_RBTree \<Rightarrow> M_RBTree option" where
  "m_rbt_deinit ops st =
     (case rb_free_node ops of
        Some f \<Rightarrow> if root st \<noteq> 0 then m_rbt_free_node f (root st) st else Some st
      | None \<Rightarrow> Some st)"

subsection \<open>Search\<close>

partial_function (option) lookup_loop :: "'k M_RBTreeOps \<Rightarrow> 'k \<Rightarrow> M_RBTree \<Rightarrow> addr \<Rightarrow> addr option" where
  "lookup_loop ops key st node =
     (if node = 0 then Some 0
      else let v = rb_cmp ops key (rb_get_key ops node) in
        if v = 0 then Some node
        else do { n \<leftarrow> node_at st node;
                  lookup_loop ops key st (if v < 0 then n_left n else n_right n) })"

definition m_rbt_lookup :: "'k M_RBTreeOps \<Rightarrow> 'k \<Rightarrow> M_RBTree \<Rightarrow> addr option" where
  "m_rbt_lookup ops key st = lookup_loop ops key st (root st)"

text \<open>\<open>m_rbt_lookup_insert\<close> returns the node found (or NULL), the parent of the position
  and the position itself; the last two are written only when no node is found.\<close>

partial_function (option) lookup_insert_loop ::
    "'k M_RBTreeOps \<Rightarrow> 'k \<Rightarrow> M_RBTree \<Rightarrow> addr \<Rightarrow> rslot \<Rightarrow> addr \<Rightarrow> (addr \<times> (addr \<times> rslot) option) option" where
  "lookup_insert_loop ops key st node pn cur =
     (if cur = 0 then Some (0, Some (node, pn))
      else let v = rb_cmp ops key (rb_get_key ops cur) in
        if v = 0 then Some (cur, None)
        else do { n \<leftarrow> node_at st cur;
                  lookup_insert_loop ops key st cur (if v < 0 then LeftOf cur else RightOf cur)
                    (if v < 0 then n_left n else n_right n) })"

definition m_rbt_lookup_insert ::
    "'k M_RBTreeOps \<Rightarrow> 'k \<Rightarrow> M_RBTree \<Rightarrow> (addr \<times> (addr \<times> rslot) option) option" where
  "m_rbt_lookup_insert ops key st = lookup_insert_loop ops key st 0 RootSlot (root st)"

subsection \<open>Rotation\<close>

definition replace_child :: "addr \<Rightarrow> addr \<Rightarrow> addr \<Rightarrow> M_RBTree \<Rightarrow> M_RBTree option" where
  \<comment> \<open>the parent, or the root variable, points to \<open>y\<close> instead of \<open>x\<close>\<close>
  "replace_child parent x y st =
     (if parent \<noteq> 0 then do {
        p \<leftarrow> node_at st parent;
        (if n_left p = x then set_left parent y st else set_right parent y st) }
      else Some (st\<lparr>root := y\<rparr>))"

definition m_rbt_rotate_left :: "addr \<Rightarrow> M_RBTree \<Rightarrow> M_RBTree option" where
  "m_rbt_rotate_left x st = do {
     nx \<leftarrow> node_at st x;
     c_assert (n_right nx \<noteq> 0);
     ny \<leftarrow> node_at st (n_right nx);
     parent \<leftarrow> m_rbt_parent st x;
     st1 \<leftarrow> set_right x (n_left ny) st;
     st2 \<leftarrow> set_left (n_right nx) x st1;
     st3 \<leftarrow> replace_child parent x (n_right nx) st2;
     st4 \<leftarrow> (if n_left ny \<noteq> 0 then m_rbt_set_parent (n_left ny) x st3 else Some st3);
     st5 \<leftarrow> m_rbt_set_parent x (n_right nx) st4;
     m_rbt_set_parent (n_right nx) parent st5 }"

definition m_rbt_rotate_right :: "addr \<Rightarrow> M_RBTree \<Rightarrow> M_RBTree option" where
  "m_rbt_rotate_right x st = do {
     nx \<leftarrow> node_at st x;
     c_assert (n_left nx \<noteq> 0);
     ny \<leftarrow> node_at st (n_left nx);
     parent \<leftarrow> m_rbt_parent st x;
     st1 \<leftarrow> set_left x (n_right ny) st;
     st2 \<leftarrow> set_right (n_left nx) x st1;
     st3 \<leftarrow> replace_child parent x (n_left nx) st2;
     st4 \<leftarrow> (if n_right ny \<noteq> 0 then m_rbt_set_parent (n_right ny) x st3 else Some st3);
     st5 \<leftarrow> m_rbt_set_parent x (n_left nx) st4;
     m_rbt_set_parent (n_left nx) parent st5 }"

subsection \<open>Insertion\<close>

partial_function (option) insert_loop :: "addr \<Rightarrow> M_RBTree \<Rightarrow> M_RBTree option" where
  "insert_loop node st = do {
     parent \<leftarrow> m_rbt_parent st node;
     (if parent = 0 then m_rbt_set_color node M_RB_BLACK st
      else do {
        pc \<leftarrow> m_rbt_color st parent;
        (if pc = M_RB_BLACK then Some st
         else do {
           gparent \<leftarrow> m_rbt_parent st parent;
           _ \<leftarrow> c_assert (gparent \<noteq> 0);
           uncle \<leftarrow> m_rbt_sibling st parent;
           uc \<leftarrow> m_rbt_color st uncle;
           (if uc = M_RB_RED then do {
              st1 \<leftarrow> m_rbt_set_color parent M_RB_BLACK st;
              st2 \<leftarrow> m_rbt_set_color uncle M_RB_BLACK st1;
              st3 \<leftarrow> m_rbt_set_color gparent M_RB_RED st2;
              insert_loop gparent st3 }
            else do {
              g \<leftarrow> node_at st gparent;
              p \<leftarrow> node_at st parent;
              ps \<leftarrow> (if uncle = n_right g \<and> node = n_right p
                    then do { st1 \<leftarrow> m_rbt_rotate_left parent st; Some (node, st1) }
                    else if uncle = n_left g \<and> node = n_left p
                    then do { st1 \<leftarrow> m_rbt_rotate_right parent st; Some (node, st1) }
                    else Some (parent, st));
              st2 \<leftarrow> m_rbt_set_color (fst ps) M_RB_BLACK (snd ps);
              st3 \<leftarrow> m_rbt_set_color gparent M_RB_RED st2;
              g' \<leftarrow> node_at st3 gparent;
              (if uncle = n_right g' then m_rbt_rotate_right gparent st3
               else m_rbt_rotate_left gparent st3) }) }) }) }"

definition m_rbt_insert :: "addr \<Rightarrow> rslot \<Rightarrow> addr \<Rightarrow> M_RBTree \<Rightarrow> M_RBTree option" where
  "m_rbt_insert parent pos node st = do {
     c_assert (node \<noteq> 0);
     st1 \<leftarrow> set_left node 0 st;
     st2 \<leftarrow> set_right node 0 st1;
     st3 \<leftarrow> set_slot pos node st2;
     st4 \<leftarrow> m_rbt_set_parent_color node parent M_RB_RED st3;
     insert_loop node st4 }"

subsection \<open>Removal\<close>

partial_function (option) m_rbt_remove_rebalance :: "addr \<Rightarrow> M_RBTree \<Rightarrow> M_RBTree option" where
  "m_rbt_remove_rebalance node st = do {
     col \<leftarrow> m_rbt_color st node;
     (if col = M_RB_RED then m_rbt_set_color node M_RB_BLACK st
      else do {
        parent \<leftarrow> m_rbt_parent st node;
        (if parent = 0 then Some st
         else do {
           sibling \<leftarrow> m_rbt_sibling st node;
           scol \<leftarrow> m_rbt_color st sibling;
           (if scol = M_RB_RED then do {
              st1 \<leftarrow> m_rbt_set_color parent M_RB_RED st;
              st2 \<leftarrow> m_rbt_set_color sibling M_RB_BLACK st1;
              p \<leftarrow> node_at st2 parent;
              st3 \<leftarrow> (if node = n_left p then m_rbt_rotate_left parent st2
                     else m_rbt_rotate_right parent st2);
              m_rbt_remove_rebalance node st3 }
            else do {
              sleft \<leftarrow> (if sibling \<noteq> 0 then do { s \<leftarrow> node_at st sibling; Some (n_left s) } else Some 0);
              sright \<leftarrow> (if sibling \<noteq> 0 then do { s \<leftarrow> node_at st sibling; Some (n_right s) } else Some 0);
              slcol \<leftarrow> m_rbt_color st sleft;
              srcol \<leftarrow> m_rbt_color st sright;
              (if slcol = M_RB_BLACK \<and> srcol = M_RB_BLACK then do {
                 st1 \<leftarrow> (if sibling \<noteq> 0 then m_rbt_set_color sibling M_RB_RED st else Some st);
                 m_rbt_remove_rebalance parent st1 }
               else do {
                 p \<leftarrow> node_at st parent;
                 r \<leftarrow> (if node = n_left p \<and> slcol = M_RB_RED then do {
                         st1 \<leftarrow> m_rbt_set_color sleft M_RB_BLACK st;
                         st2 \<leftarrow> m_rbt_set_color sibling M_RB_RED st1;
                         st3 \<leftarrow> m_rbt_rotate_right sibling st2;
                         Some (sleft, sleft, sibling, st3) }
                       else if node = n_right p \<and> srcol = M_RB_RED then do {
                         st1 \<leftarrow> m_rbt_set_color sright M_RB_BLACK st;
                         st2 \<leftarrow> m_rbt_set_color sibling M_RB_RED st1;
                         st3 \<leftarrow> m_rbt_rotate_left sibling st2;
                         Some (sright, sibling, sright, st3) }
                       else Some (sibling, sleft, sright, st));
                 (case r of (sibling', sleft', sright', st4) \<Rightarrow> do {
                    pcol \<leftarrow> m_rbt_color st4 parent;
                    st5 \<leftarrow> m_rbt_set_color parent M_RB_BLACK st4;
                    st6 \<leftarrow> m_rbt_set_color sibling' pcol st5;
                    p' \<leftarrow> node_at st6 parent;
                    (if node = n_left p' then do {
                       st7 \<leftarrow> m_rbt_set_color sright' M_RB_BLACK st6;
                       m_rbt_rotate_left parent st7 }
                     else do {
                       st7 \<leftarrow> m_rbt_set_color sleft' M_RB_BLACK st6;
                       m_rbt_rotate_right parent st7 }) }) }) }) }) }) }"

text \<open>The first part of \<open>m_rbt_remove\<close>: the node that leaves its place (\<open>succ\<close>, by
  its name in the code; it is the in-order predecessor when the node has two children), its
  parent, whether it is a left child, and its child. \<open>is_left\<close> is not written when there
  is no parent and is not read then.\<close>

definition remove_plan :: "addr \<Rightarrow> M_RBTree \<Rightarrow> (addr \<times> addr \<times> bool \<times> addr) option" where
  "remove_plan node st = do {
     n \<leftarrow> node_at st node;
     (if n_left n \<noteq> 0 \<and> n_right n \<noteq> 0 then do {
        succ \<leftarrow> rightmost st (n_left n);
        pl \<leftarrow> (if succ = n_left n then Some (succ, True)
              else do { parent \<leftarrow> m_rbt_parent st succ;
                        p \<leftarrow> node_at st parent;
                        Some (parent, n_left p = succ) });
        s \<leftarrow> node_at st succ;
        Some (succ, fst pl, snd pl, if n_left s \<noteq> 0 then n_left s else n_right s) }
      else do {
        parent \<leftarrow> m_rbt_parent st node;
        is_left \<leftarrow> (if parent \<noteq> 0 then do { p \<leftarrow> node_at st parent; Some (n_left p = node) }
                   else Some False);
        Some (node, parent, is_left, if n_left n \<noteq> 0 then n_left n else n_right n) }) }"

text \<open>Putting \<open>succ\<close> into the place of the node.\<close>

definition remove_swap :: "addr \<Rightarrow> addr \<Rightarrow> M_RBTree \<Rightarrow> M_RBTree option" where
  "remove_swap node succ st = do {
     n \<leftarrow> node_at st node;
     let left = (if succ = n_left n then 0 else n_left n);
     let right = n_right n;
     oparent \<leftarrow> m_rbt_parent st node;
     st1 \<leftarrow> set_left succ left st;
     st2 \<leftarrow> set_right succ right st1;
     st3 \<leftarrow> upd_node succ (pcolor_update (\<lambda>_. pcolor n)) st2;
     st4 \<leftarrow> (if left \<noteq> 0 then m_rbt_set_parent left succ st3 else Some st3);
     st5 \<leftarrow> (if right \<noteq> 0 then m_rbt_set_parent right succ st4 else Some st4);
     replace_child oparent node succ st5 }"

definition remove_unlink :: "addr \<Rightarrow> bool \<Rightarrow> addr \<Rightarrow> M_RBTree \<Rightarrow> M_RBTree option" where
  "remove_unlink parent is_left child st = do {
     st1 \<leftarrow> (if parent \<noteq> 0 then (if is_left then set_left parent child st
                                else set_right parent child st)
            else Some (st\<lparr>root := child\<rparr>));
     (if child \<noteq> 0 then m_rbt_set_parent_color child parent M_RB_BLACK st1 else Some st1) }"

definition m_rbt_remove :: "addr \<Rightarrow> M_RBTree \<Rightarrow> M_RBTree option" where
  "m_rbt_remove node st = do {
     c_assert (node \<noteq> 0);
     plan \<leftarrow> remove_plan node st;
     (case plan of (succ, parent, is_left, child) \<Rightarrow> do {
        st1 \<leftarrow> (if child = 0 then m_rbt_remove_rebalance succ st else Some st);
        st2 \<leftarrow> (if succ \<noteq> node then remove_swap node succ st1 else Some st1);
        remove_unlink parent is_left child st2 }) }"

end
