(* ===== verification/RBTree_Shape.thy ===== *)
theory RBTree_Shape
  imports RBTree
begin

text \<open>
  The abstract view of the heap of \<open>m_rbtree.h\<close>: an ordinary coloured tree of
  addresses (\<open>ptree\<close>), the relation \<open>trep\<close> that says a state stores that tree
  (child pointers, parent pointers and colours included), and the zipper (\<open>plug\<close>) that
  gives access to a node in the middle. The lemmas give the effect of each read, of recolouring
  a node and of the rotations on the abstract tree; \<open>post\<close> is the total correctness
  judgement they are composed with.
\<close>

datatype color = Red | Black

datatype ptree = Tip | Nd color ptree addr ptree

fun colw :: "color \<Rightarrow> u64" where
  "colw Red = 0"
| "colw Black = 1"

fun raddr :: "ptree \<Rightarrow> addr" where
  "raddr Tip = 0"
| "raddr (Nd c l a r) = a"

fun tcol :: "ptree \<Rightarrow> color" where
  "tcol Tip = Black"
| "tcol (Nd c l a r) = c"

fun addrs :: "ptree \<Rightarrow> addr list" where
  "addrs Tip = []"
| "addrs (Nd c l a r) = addrs l @ a # addrs r"

subsection \<open>Words with a colour bit\<close>

definition aligned2 :: "addr \<Rightarrow> bool" where
  "aligned2 a \<longleftrightarrow> a AND 1 = 0"

lemma aligned2_0 [simp]: "aligned2 0"
  by (simp add: aligned2_def)

lemma not_one: "(- 2 :: u64) = NOT 1"
  by simp

lemma pc_parent [simp]: "aligned2 p \<Longrightarrow> (p OR colw c) AND - 2 = p"
  unfolding aligned2_def not_one
  by (cases c) (auto simp: bit_eq_iff bit_simps)

lemma pc_color [simp]: "aligned2 p \<Longrightarrow> (p OR colw c) AND 1 = colw c"
  unfolding aligned2_def
  by (cases c) (auto simp: bit_eq_iff bit_simps)

lemma pc_color' [simp]: "aligned2 p \<Longrightarrow> 1 AND (p OR colw c) = colw c"
  using pc_color [of p c] by (simp add: and.commute)

lemma pc_set_black [simp]: "(p OR colw c) OR 1 = p OR 1"
  by (cases c) (auto simp: bit_eq_iff bit_simps)

lemma colw_eq_iff [simp]: "colw c = colw d \<longleftrightarrow> c = d"
  by (cases c; cases d) auto

lemma colw_black_iff [simp]: "colw c = 1 \<longleftrightarrow> c = Black" "colw c = 0 \<longleftrightarrow> c = Red"
  by (cases c; auto)+

subsection \<open>Representation\<close>

fun reps :: "(addr \<rightharpoonup> M_RBNode) \<Rightarrow> addr \<Rightarrow> ptree \<Rightarrow> bool" where
  "reps h p Tip = True"
| "reps h p (Nd c l a r) =
     (a \<noteq> 0 \<and> aligned2 a \<and>
      h a = Some \<lparr>pcolor = p OR colw c, n_left = raddr l, n_right = raddr r\<rparr> \<and>
      reps h a l \<and> reps h a r)"

definition trep :: "M_RBTree \<Rightarrow> ptree \<Rightarrow> bool" where
  "trep st t \<longleftrightarrow> root st = raddr t \<and> reps (nodes st) 0 t \<and> distinct (addrs t)"

text \<open>A position in the tree: the path to it, innermost step first.\<close>

datatype crumb = CL color addr ptree | CR ptree color addr

fun caddr :: "crumb \<Rightarrow> addr" where
  "caddr (CL c a r) = a"
| "caddr (CR l c a) = a"

fun plug :: "ptree \<Rightarrow> crumb list \<Rightarrow> ptree" where
  "plug t [] = t"
| "plug t (CL c a r # cs) = plug (Nd c t a r) cs"
| "plug t (CR l c a # cs) = plug (Nd c l a t) cs"

fun paddr :: "crumb list \<Rightarrow> addr" where
  "paddr [] = 0"
| "paddr (k # cs) = caddr k"

fun zroot :: "addr \<Rightarrow> crumb list \<Rightarrow> addr" where
  "zroot x [] = x"
| "zroot x (k # cs) = zroot (caddr k) cs"

fun before :: "crumb list \<Rightarrow> addr list" where
  "before [] = []"
| "before (CL c a r # cs) = before cs"
| "before (CR l c a # cs) = before cs @ addrs l @ [a]"

fun after :: "crumb list \<Rightarrow> addr list" where
  "after [] = []"
| "after (CL c a r # cs) = a # addrs r @ after cs"
| "after (CR l c a # cs) = after cs"

fun repc :: "(addr \<rightharpoonup> M_RBNode) \<Rightarrow> addr \<Rightarrow> crumb list \<Rightarrow> bool" where
  "repc h x [] = True"
| "repc h x (CL c a r # cs) =
     (a \<noteq> 0 \<and> aligned2 a \<and>
      h a = Some \<lparr>pcolor = paddr cs OR colw c, n_left = x, n_right = raddr r\<rparr> \<and>
      reps h a r \<and> repc h a cs)"
| "repc h x (CR l c a # cs) =
     (a \<noteq> 0 \<and> aligned2 a \<and>
      h a = Some \<lparr>pcolor = paddr cs OR colw c, n_left = raddr l, n_right = x\<rparr> \<and>
      reps h a l \<and> repc h a cs)"

lemma reps_plug: "reps h 0 (plug t cs) \<longleftrightarrow> reps h (paddr cs) t \<and> repc h (raddr t) cs"
  by (induction t cs rule: plug.induct) auto

lemma raddr_plug: "raddr (plug t cs) = zroot (raddr t) cs"
  by (induction t cs rule: plug.induct) auto

lemma addrs_plug [simp]: "addrs (plug t cs) = before cs @ addrs t @ after cs"
  by (induction t cs rule: plug.induct) auto

lemma plug_append: "plug t (ds @ cs) = plug (plug t ds) cs"
  by (induction t ds rule: plug.induct) auto

lemma before_append [simp]: "before (ds @ cs) = before cs @ before ds"
  by (induction ds rule: before.induct) auto

lemma after_append [simp]: "after (ds @ cs) = after ds @ after cs"
  by (induction ds rule: after.induct) auto

lemma trep_plug:
  "trep st (plug t cs) \<longleftrightarrow>
     root st = zroot (raddr t) cs \<and> reps (nodes st) (paddr cs) t \<and> repc (nodes st) (raddr t) cs \<and>
     distinct (before cs @ addrs t @ after cs)"
  by (simp add: trep_def reps_plug raddr_plug del: distinct_append)

lemma reps_upd [simp, frame]: "a \<notin> set (addrs t) \<Longrightarrow> reps (h(a \<mapsto> n)) p t = reps h p t"
  by (induction t arbitrary: p) auto

lemma repc_upd [simp, frame]:
  "a \<notin> set (before cs) \<Longrightarrow> a \<notin> set (after cs) \<Longrightarrow> repc (h(a \<mapsto> n)) x cs = repc h x cs"
  by (induction h x cs rule: repc.induct) auto

lemma reps_mapped: "reps h p t \<Longrightarrow> a \<in> set (addrs t) \<Longrightarrow> a \<noteq> 0 \<and> aligned2 a \<and> h a \<noteq> None"
  by (induction t arbitrary: p) auto

lemma raddr_zero_iff: "reps h p t \<Longrightarrow> raddr t = 0 \<longleftrightarrow> t = Tip"
  by (cases t) auto

lemma raddr_neq: "a \<notin> set (addrs t) \<Longrightarrow> a \<noteq> 0 \<Longrightarrow> raddr t \<noteq> a"
  by (cases t) auto

lemma repc_paddr: "repc h x cs \<Longrightarrow> aligned2 (paddr cs)"
  by (cases cs rule: paddr.cases; cases "hd cs") auto

lemma repc_paddr_zero: "repc h x cs \<Longrightarrow> paddr cs = 0 \<longleftrightarrow> cs = []"
  by (cases cs rule: paddr.cases; cases "hd cs") auto

lemma at_root: "plug t [] = t"
  by simp

lemma tree_at:
  assumes "a \<in> set (addrs t)"
  obtains c l r cs where "t = plug (Nd c l a r) cs"
  using assms
proof (induction t arbitrary: thesis)
  case (Nd c l b r)
  consider "a = b" | "a \<in> set (addrs l)" | "a \<in> set (addrs r)" using Nd.prems by auto
  then show ?case
  proof cases
    case 1
    then show ?thesis using Nd.prems(1) [of c l r "[]"] by simp
  next
    case 2
    then obtain c' l' r' cs where "l = plug (Nd c' l' a r') cs" using Nd.IH(1) by blast
    then show ?thesis using Nd.prems(1) [of c' l' r' "cs @ [CL c b r]"] by (simp add: plug_append)
  next
    case 3
    then obtain c' l' r' cs where "r = plug (Nd c' l' a r') cs" using Nd.IH(2) by blast
    then show ?thesis using Nd.prems(1) [of c' l' r' "cs @ [CR l c b]"] by (simp add: plug_append)
  qed
qed simp

subsection \<open>Reads\<close>

lemma node_at_plug:
  assumes "trep st (plug (Nd c l a r) cs)"
  shows "node_at st a = Some \<lparr>pcolor = paddr cs OR colw c, n_left = raddr l, n_right = raddr r\<rparr>"
  using assms by (simp add: trep_plug node_at_def access)

lemma trep_even:
  assumes "trep st (plug (Nd c l a r) cs)"
  shows "a \<noteq> 0" "aligned2 a" "aligned2 (paddr cs)" "paddr cs = 0 \<longleftrightarrow> cs = []"
    "raddr l = 0 \<longleftrightarrow> l = Tip" "raddr r = 0 \<longleftrightarrow> r = Tip"
  using assms by (auto simp: trep_plug repc_paddr repc_paddr_zero raddr_zero_iff)

lemma parent_plug:
  assumes "trep st (plug (Nd c l a r) cs)"
  shows "m_rbt_parent st a = Some (paddr cs)"
  using trep_even [OF assms] by (simp add: m_rbt_parent_def node_at_plug [OF assms])

lemma color_plug:
  assumes "trep st (plug t cs)"
  shows "m_rbt_color st (raddr t) = Some (colw (tcol t))"
proof (cases t)
  case Tip
  then show ?thesis by (simp add: m_rbt_color_def)
next
  case (Nd c l a r)
  then show ?thesis using assms trep_even [OF assms [unfolded Nd]]
    by (simp add: m_rbt_color_def node_at_plug)
qed

lemma sibling_plug:
  assumes "trep st (plug (Nd c l a r) (CL d p s # cs))"
  shows "m_rbt_sibling st a = Some (raddr s)"
  using parent_plug [OF assms] node_at_plug [of st d "Nd c l a r" p s cs] assms
  by (simp add: m_rbt_sibling_def)

lemma sibling_plug':
  assumes "trep st (plug (Nd c l a r) (CR s d p # cs))"
  shows "m_rbt_sibling st a = Some (raddr s)"
proof -
  have "a \<notin> set (addrs s)" "a \<noteq> 0" using assms by (auto simp: trep_plug)
  then have "raddr s \<noteq> a" by (rule raddr_neq)
  then show ?thesis
    using parent_plug [OF assms] node_at_plug [of st d s p "Nd c l a r" cs] assms
    by (simp add: m_rbt_sibling_def)
qed

subsection \<open>Total correctness of a step\<close>

definition outside :: "addr set \<Rightarrow> M_RBTree \<Rightarrow> M_RBTree \<Rightarrow> bool" where
  "outside S st st' \<longleftrightarrow> (\<forall>b. b \<notin> S \<longrightarrow> nodes st' b = nodes st b)"

definition post :: "M_RBTree \<Rightarrow> ptree \<Rightarrow> M_RBTree option \<Rightarrow> ptree \<Rightarrow> bool" where
  "post st t r t' \<longleftrightarrow>
     (\<exists>st'. r = Some st' \<and> trep st' t' \<and> outside (set (addrs t)) st st')"

lemma postI:
  assumes "r = Some st'" "trep st' t'" "outside (set (addrs t)) st st'"
  shows "post st t r t'"
  using assms by (auto simp: post_def)

lemma post_refl: "trep st t \<Longrightarrow> post st t (Some st) t"
  by (simp add: post_def outside_def)

lemma post_bind:
  assumes "post st t r t1"
    and "\<And>st1. trep st1 t1 \<Longrightarrow> post st1 t1 (f st1) t2"
    and "set (addrs t1) = set (addrs t)"
  shows "post st t (r \<bind> f) t2"
proof -
  obtain st1 where 1: "r = Some st1" "trep st1 t1" "outside (set (addrs t)) st st1"
    using assms(1) by (auto simp: post_def)
  then obtain st2 where 2: "f st1 = Some st2" "trep st2 t2" "outside (set (addrs t1)) st1 st2"
    using assms(2) by (auto simp: post_def)
  show ?thesis using 1 2 assms(3) by (auto simp: post_def outside_def)
qed

text \<open>The same with a predicate on the final tree.\<close>

definition posts :: "M_RBTree \<Rightarrow> ptree \<Rightarrow> M_RBTree option \<Rightarrow> (ptree \<Rightarrow> bool) \<Rightarrow> bool" where
  "posts st t r Q \<longleftrightarrow> (\<exists>t'. post st t r t' \<and> Q t')"

lemma postsI: "post st t r t' \<Longrightarrow> Q t' \<Longrightarrow> posts st t r Q"
  by (auto simp: posts_def)

lemma posts_mono: "posts st t r Q \<Longrightarrow> (\<And>t'. Q t' \<Longrightarrow> R t') \<Longrightarrow> posts st t r R"
  by (auto simp: posts_def)

lemma posts_bind:
  assumes "post st t r t1"
    and "\<And>st1. trep st1 t1 \<Longrightarrow> posts st1 t1 (f st1) Q"
    and "set (addrs t1) = set (addrs t)"
  shows "posts st t (r \<bind> f) Q"
proof -
  obtain st1 where 1: "r = Some st1" "trep st1 t1" "outside (set (addrs t)) st st1"
    using assms(1) by (auto simp: post_def)
  then obtain t2 st2 where 2: "f st1 = Some st2" "trep st2 t2" "outside (set (addrs t1)) st1 st2" "Q t2"
    using assms(2) by (force simp: post_def posts_def)
  have "post st t (r \<bind> f) t2" using 1 2 assms(3) by (auto simp: post_def outside_def)
  then show ?thesis using 2 by (rule_tac postsI)
qed

subsection \<open>Recolouring\<close>

lemma set_color_plug:
  assumes "trep st (plug (Nd c l a r) cs)"
  shows "post st (plug (Nd c l a r) cs) (m_rbt_set_color a (colw d) st) (plug (Nd d l a r) cs)"
proof -
  note even = trep_even [OF assms]
  let ?n = "\<lparr>pcolor = paddr cs OR colw d, n_left = raddr l, n_right = raddr r\<rparr>"
  have "m_rbt_set_color a (colw d) st = Some (st\<lparr>nodes := (nodes st)(a \<mapsto> ?n)\<rparr>)"
    using assms even
    by (cases d) (auto simp: m_rbt_set_color_def upd_node_def trep_plug access)
  moreover have "trep (st\<lparr>nodes := (nodes st)(a \<mapsto> ?n)\<rparr>) (plug (Nd d l a r) cs)"
    using assms unfolding trep_plug by (auto simp: frame)
  moreover have "outside (set (addrs (plug (Nd c l a r) cs))) st (st\<lparr>nodes := (nodes st)(a \<mapsto> ?n)\<rparr>)"
    by (simp add: outside_def)
  ultimately show ?thesis by (rule postI)
qed

subsection \<open>Rotation\<close>

lemmas ops_defs = node_at_def upd_node_def set_left_def set_right_def m_rbt_parent_def
  m_rbt_set_parent_def m_rbt_set_parent_color_def replace_child_def

lemma reps_cong: "(\<And>b. b \<in> set (addrs t) \<Longrightarrow> h' b = h b) \<Longrightarrow> reps h' p t = reps h p t"
  by (induction t arbitrary: p) auto

lemma repc_cong:
  "(\<And>b. b \<in> set (before cs) \<union> set (after cs) \<Longrightarrow> h' b = h b) \<Longrightarrow> repc h' x cs = repc h x cs"
proof (induction h' x cs rule: repc.induct)
  case (2 h' x c a r cs)
  then show ?case using reps_cong [of r h' h] by auto
next
  case (3 h' x l c a cs)
  then show ?case using reps_cong [of l h' h] by auto
qed simp

lemma paddr_in: "repc h x cs \<Longrightarrow> paddr cs \<noteq> 0 \<Longrightarrow> paddr cs \<in> set (before cs) \<union> set (after cs)"
  by (cases cs rule: paddr.cases; cases "hd cs") auto

text \<open>Redirecting the pointer to the focus, and the parent pointer of a subtree.\<close>

lemma replace_child_ctx:
  assumes "repc (nodes st) x cs" "x \<noteq> 0" "x \<notin> set (before cs) \<union> set (after cs)"
    "distinct (before cs @ after cs)" "root st = zroot x cs"
  obtains st' where "replace_child (paddr cs) x y st = Some st'" "root st' = zroot y cs"
    "repc (nodes st') y cs" "\<And>b. b \<notin> set (before cs) \<union> set (after cs) \<Longrightarrow> nodes st' b = nodes st b"
proof (cases cs)
  case Nil
  then show ?thesis
    using assms by (intro that [of "st\<lparr>root := y\<rparr>"]) (auto simp: replace_child_def)
next
  case (Cons k ds)
  show ?thesis
  proof (cases k)
    case (CL c a r)
    let ?n = "\<lparr>pcolor = paddr ds OR colw c, n_left = y, n_right = raddr r\<rparr>"
    show ?thesis using assms Cons CL
      by (intro that [of "st\<lparr>nodes := (nodes st)(a \<mapsto> ?n)\<rparr>"])
        (auto simp: replace_child_def ops_defs access)
  next
    case (CR l c a)
    have "raddr l \<noteq> x" using assms Cons CR by (intro raddr_neq) auto
    let ?n = "\<lparr>pcolor = paddr ds OR colw c, n_left = raddr l, n_right = y\<rparr>"
    show ?thesis using assms Cons CR \<open>raddr l \<noteq> x\<close>
      by (intro that [of "st\<lparr>nodes := (nodes st)(a \<mapsto> ?n)\<rparr>"])
        (auto simp: replace_child_def ops_defs access)
  qed
qed

lemma set_parent_subtree:
  assumes "reps (nodes st) p t" "aligned2 p" "distinct (addrs t)"
  obtains st' where
    "(if raddr t \<noteq> 0 then m_rbt_set_parent (raddr t) q st else Some st) = Some st'"
    "root st' = root st" "reps (nodes st') q t"
    "\<And>b. b \<notin> set (addrs t) \<Longrightarrow> nodes st' b = nodes st b"
proof (cases t)
  case Tip
  then show ?thesis using that [of st] by simp
next
  case (Nd c l a r)
  let ?n = "\<lparr>pcolor = q OR colw c, n_left = raddr l, n_right = raddr r\<rparr>"
  show ?thesis using assms Nd
    by (intro that [of "st\<lparr>nodes := (nodes st)(a \<mapsto> ?n)\<rparr>"])
      (auto simp: ops_defs access ac_simps)
qed

lemma set_parent_at:
  assumes "nodes st a = Some \<lparr>pcolor = p OR colw c, n_left = l, n_right = r\<rparr>" "a \<noteq> 0" "aligned2 p"
  shows "m_rbt_set_parent a q st =
    Some (st\<lparr>nodes := (nodes st)(a \<mapsto> \<lparr>pcolor = q OR colw c, n_left = l, n_right = r\<rparr>)\<rparr>)"
  using assms by (simp add: ops_defs access ac_simps)

lemma rotate_left_plug:
  assumes "trep st (plug (Nd c a x (Nd d b y e)) cs)"
  shows "post st (plug (Nd c a x (Nd d b y e)) cs) (m_rbt_rotate_left x st)
           (plug (Nd d (Nd c a x b) y e) cs)"
proof -
  note even = trep_even [OF assms]
  have x: "nodes st x = Some \<lparr>pcolor = paddr cs OR colw c, n_left = raddr a, n_right = y\<rparr>"
    and y: "nodes st y = Some \<lparr>pcolor = x OR colw d, n_left = raddr b, n_right = raddr e\<rparr>"
    and sub: "reps (nodes st) x a" "reps (nodes st) y b" "reps (nodes st) y e" "y \<noteq> 0" "aligned2 y"
    and ctx: "repc (nodes st) x cs" "root st = zroot x cs"
    using assms by (auto simp: trep_plug)
  have dist: "distinct (before cs @ addrs a @ x # addrs b @ y # addrs e @ after cs)"
    using assms by (simp add: trep_plug)
  have xy: "x \<noteq> y" using dist by auto
  have out: "z \<notin> set (before cs)" "z \<notin> set (after cs)" "z \<noteq> x" "z \<noteq> y"
    if "z \<in> set (addrs a) \<union> set (addrs b) \<union> set (addrs e)" for z
    using dist that by auto
  let ?x1 = "\<lparr>pcolor = paddr cs OR colw c, n_left = raddr a, n_right = raddr b\<rparr>"
  let ?y1 = "\<lparr>pcolor = x OR colw d, n_left = x, n_right = raddr e\<rparr>"
  let ?st2 = "st\<lparr>nodes := (nodes st)(x \<mapsto> ?x1, y \<mapsto> ?y1)\<rparr>"
  have "repc (nodes ?st2) x cs" using ctx dist by (simp add: frame)
  then obtain st3 where 3: "replace_child (paddr cs) x y ?st2 = Some st3" "root st3 = zroot y cs"
    "repc (nodes st3) y cs" "\<And>b. b \<notin> set (before cs) \<union> set (after cs) \<Longrightarrow> nodes st3 b = nodes ?st2 b"
    by (rule replace_child_ctx [where y = y]) (use even ctx dist in auto)
  have "reps (nodes st3) y b"
    by (subst reps_cong [where h = "nodes st"]) (simp_all add: 3(4) sub out)
  then obtain st4 where 4:
    "(if raddr b \<noteq> 0 then m_rbt_set_parent (raddr b) x st3 else Some st3) = Some st4"
    "root st4 = root st3" "reps (nodes st4) x b"
    "\<And>z. z \<notin> set (addrs b) \<Longrightarrow> nodes st4 z = nodes st3 z"
    by (rule set_parent_subtree [where q = x]) (use sub dist in auto)
  have xy4: "nodes st4 x = Some ?x1" "nodes st4 y = Some ?y1"
    using 3(4) 4(4) dist by auto
  let ?x2 = "?x1\<lparr>pcolor := y OR colw c\<rparr>" and ?y2 = "?y1\<lparr>pcolor := paddr cs OR colw d\<rparr>"
  let ?st6 = "st4\<lparr>nodes := (nodes st4)(x \<mapsto> ?x2, y \<mapsto> ?y2)\<rparr>"
  show ?thesis
  proof (rule postI)
    show "m_rbt_rotate_left x st = Some ?st6"
      using x y even sub(4,5) 3(1) 4(1) xy4 xy
      by (simp add: m_rbt_rotate_left_def node_at_def set_left_def set_right_def upd_node_def access
          m_rbt_parent_def set_parent_at [OF xy4(1)] set_parent_at [where a = y] cong: if_cong)
    have "z \<notin> set (addrs b)" if "z \<in> set (addrs a) \<union> set (addrs e)" for z
      using dist that by auto
    then have "reps (nodes st4) x a" "reps (nodes st4) y e"
      by (subst reps_cong [where h = "nodes st"]; simp add: 3(4) 4(4) sub out)+
    moreover have "repc (nodes st4) y cs"
      by (subst repc_cong [where h = "nodes st3"]) (use 3(3) 4(4) dist in auto)
    ultimately show "trep ?st6 (plug (Nd d (Nd c a x b) y e) cs)"
      unfolding trep_plug using even sub 3(2) 4(2,3) dist xy by simp
    show "outside (set (addrs (plug (Nd c a x (Nd d b y e)) cs))) st ?st6"
      using 3(4) 4(4) by (simp add: outside_def)
  qed
qed

lemma rotate_right_plug:
  assumes "trep st (plug (Nd c (Nd d e y b) x a) cs)"
  shows "post st (plug (Nd c (Nd d e y b) x a) cs) (m_rbt_rotate_right x st)
           (plug (Nd d e y (Nd c b x a)) cs)"
proof -
  note even = trep_even [OF assms]
  have x: "nodes st x = Some \<lparr>pcolor = paddr cs OR colw c, n_left = y, n_right = raddr a\<rparr>"
    and y: "nodes st y = Some \<lparr>pcolor = x OR colw d, n_left = raddr e, n_right = raddr b\<rparr>"
    and sub: "reps (nodes st) x a" "reps (nodes st) y b" "reps (nodes st) y e" "y \<noteq> 0" "aligned2 y"
    and ctx: "repc (nodes st) x cs" "root st = zroot x cs"
    using assms by (auto simp: trep_plug)
  have dist: "distinct (before cs @ addrs e @ y # addrs b @ x # addrs a @ after cs)"
    using assms by (simp add: trep_plug)
  have xy: "x \<noteq> y" using dist by auto
  have out: "z \<notin> set (before cs)" "z \<notin> set (after cs)" "z \<noteq> x" "z \<noteq> y"
    if "z \<in> set (addrs a) \<union> set (addrs b) \<union> set (addrs e)" for z
    using dist that by auto
  let ?x1 = "\<lparr>pcolor = paddr cs OR colw c, n_left = raddr b, n_right = raddr a\<rparr>"
  let ?y1 = "\<lparr>pcolor = x OR colw d, n_left = raddr e, n_right = x\<rparr>"
  let ?st2 = "st\<lparr>nodes := (nodes st)(x \<mapsto> ?x1, y \<mapsto> ?y1)\<rparr>"
  have "repc (nodes ?st2) x cs" using ctx dist by (simp add: frame)
  then obtain st3 where 3: "replace_child (paddr cs) x y ?st2 = Some st3" "root st3 = zroot y cs"
    "repc (nodes st3) y cs" "\<And>b. b \<notin> set (before cs) \<union> set (after cs) \<Longrightarrow> nodes st3 b = nodes ?st2 b"
    by (rule replace_child_ctx [where y = y]) (use even ctx dist in auto)
  have "reps (nodes st3) y b"
    by (subst reps_cong [where h = "nodes st"]) (simp_all add: 3(4) sub out)
  then obtain st4 where 4:
    "(if raddr b \<noteq> 0 then m_rbt_set_parent (raddr b) x st3 else Some st3) = Some st4"
    "root st4 = root st3" "reps (nodes st4) x b"
    "\<And>z. z \<notin> set (addrs b) \<Longrightarrow> nodes st4 z = nodes st3 z"
    by (rule set_parent_subtree [where q = x]) (use sub dist in auto)
  have xy4: "nodes st4 x = Some ?x1" "nodes st4 y = Some ?y1"
    using 3(4) 4(4) dist by auto
  let ?x2 = "?x1\<lparr>pcolor := y OR colw c\<rparr>" and ?y2 = "?y1\<lparr>pcolor := paddr cs OR colw d\<rparr>"
  let ?st6 = "st4\<lparr>nodes := (nodes st4)(x \<mapsto> ?x2, y \<mapsto> ?y2)\<rparr>"
  show ?thesis
  proof (rule postI)
    show "m_rbt_rotate_right x st = Some ?st6"
      using x y even sub(4,5) 3(1) 4(1) xy4 xy
      by (simp add: m_rbt_rotate_right_def node_at_def set_left_def set_right_def upd_node_def access
          m_rbt_parent_def set_parent_at [OF xy4(1)] set_parent_at [where a = y] cong: if_cong)
    have "z \<notin> set (addrs b)" if "z \<in> set (addrs a) \<union> set (addrs e)" for z
      using dist that by auto
    then have "reps (nodes st4) x a" "reps (nodes st4) y e"
      by (subst reps_cong [where h = "nodes st"]; simp add: 3(4) 4(4) sub out)+
    moreover have "repc (nodes st4) y cs"
      by (subst repc_cong [where h = "nodes st3"]) (use 3(3) 4(4) dist in auto)
    ultimately show "trep ?st6 (plug (Nd d e y (Nd c b x a)) cs)"
      unfolding trep_plug using even sub 3(2) 4(2,3) dist xy by simp
    show "outside (set (addrs (plug (Nd c (Nd d e y b) x a) cs))) st ?st6"
      using 3(4) 4(4) by (simp add: outside_def)
  qed
qed

lemma set_black_plug:
  assumes "trep st (plug (Nd c l a r) cs)"
  shows "post st (plug (Nd c l a r) cs) (m_rbt_set_color a 1 st) (plug (Nd Black l a r) cs)"
  using set_color_plug [OF assms, of Black] by simp

lemma set_red_plug:
  assumes "trep st (plug (Nd c l a r) cs)"
  shows "post st (plug (Nd c l a r) cs) (m_rbt_set_color a 0 st) (plug (Nd Red l a r) cs)"
  using set_color_plug [OF assms, of Red] by simp

lemma focus_neq:
  assumes "trep st (plug (Nd c l a r) cs)"
  shows "a \<notin> set (addrs s) \<Longrightarrow> raddr s \<noteq> a"
    "raddr l \<noteq> a" "raddr r \<noteq> a"
    "\<And>d p s ds. cs = CL d p s # ds \<Longrightarrow> raddr s \<noteq> a \<and> p \<noteq> a \<and> raddr s \<noteq> p"
    "\<And>d p s ds. cs = CR s d p # ds \<Longrightarrow> raddr s \<noteq> a \<and> p \<noteq> a \<and> raddr s \<noteq> p"
proof -
  have a: "a \<noteq> 0" and d: "distinct (before cs @ (addrs l @ a # addrs r) @ after cs)"
    and r: "repc (nodes st) a cs"
    using assms by (simp_all add: trep_plug)
  show "a \<notin> set (addrs s) \<Longrightarrow> raddr s \<noteq> a" using a by (rule raddr_neq [rotated])
  show "raddr l \<noteq> a" using a d by (intro raddr_neq) auto
  show "raddr r \<noteq> a" using a d by (intro raddr_neq) auto
  show "raddr s \<noteq> a \<and> p \<noteq> a \<and> raddr s \<noteq> p" if "cs = CL d p s # ds" for d p s ds
    using a d r that by (intro conjI raddr_neq) auto
  show "raddr s \<noteq> a \<and> p \<noteq> a \<and> raddr s \<noteq> p" if "cs = CR s d p # ds" for d p s ds
    using a d r that by (intro conjI raddr_neq) auto
qed

end
