(* ===== verification/RBTree_Insert.thy ===== *)
theory RBTree_Insert
  imports RBTree_Shape
begin

text \<open>
  The red black invariants on the abstract tree, and the correctness of
  \<open>m_rbt_insert\<close>: the rebalancing loop never fails an assertion, ends, and restores the
  invariants without changing the order of the nodes.

  The invariants are stated relative to an address \<open>x\<close> that does not count as a black
  node; with \<open>x = 0\<close> these are the usual ones. The removal proof uses the node that is
  about to be unlinked as \<open>x\<close>.
\<close>

subsection \<open>The red black invariants\<close>

definition weight :: "addr \<Rightarrow> color \<Rightarrow> addr \<Rightarrow> nat" where
  "weight x c a = (if c = Black \<and> a \<noteq> x then 1 else 0)"

fun bh :: "addr \<Rightarrow> ptree \<Rightarrow> nat" where
  "bh x Tip = 0"
| "bh x (Nd c l a r) = bh x l + weight x c a"

fun invh :: "addr \<Rightarrow> ptree \<Rightarrow> bool" where
  "invh x Tip = True"
| "invh x (Nd c l a r) = (bh x l = bh x r \<and> invh x l \<and> invh x r)"

fun invc :: "ptree \<Rightarrow> bool" where
  "invc Tip = True"
| "invc (Nd c l a r) = ((c = Red \<longrightarrow> tcol l = Black \<and> tcol r = Black) \<and> invc l \<and> invc r)"

definition rbx :: "addr \<Rightarrow> ptree \<Rightarrow> bool" where
  "rbx x t \<longleftrightarrow> invc t \<and> invh x t \<and> tcol t = Black"

abbreviation rb :: "ptree \<Rightarrow> bool" where
  "rb t \<equiv> rbx 0 t"

text \<open>The same for a path: \<open>k\<close> is the black height of the subtree in the hole. The root has
  no parent; it may not be red, as if its parent were.\<close>

fun topcol :: "crumb list \<Rightarrow> color" where
  "topcol [] = Red"
| "topcol (CL c a r # cs) = c"
| "topcol (CR l c a # cs) = c"

fun cinv :: "addr \<Rightarrow> nat \<Rightarrow> crumb list \<Rightarrow> bool" where
  "cinv x k [] = True"
| "cinv x k (CL c a r # cs) =
     (invc r \<and> invh x r \<and> bh x r = k \<and> (c = Red \<longrightarrow> tcol r = Black \<and> topcol cs = Black) \<and>
      cinv x (k + weight x c a) cs)"
| "cinv x k (CR l c a # cs) =
     (invc l \<and> invh x l \<and> bh x l = k \<and> (c = Red \<longrightarrow> tcol l = Black \<and> topcol cs = Black) \<and>
      cinv x (k + weight x c a) cs)"

lemma color_not_Black [simp]: "c \<noteq> Black \<longleftrightarrow> c = Red" "c \<noteq> Red \<longleftrightarrow> c = Black"
  by (cases c; simp)+

lemma weight_simps [simp]: "weight x Red a = 0" "a \<noteq> x \<Longrightarrow> weight x Black a = 1" "weight x c x = 0"
  by (simp_all add: weight_def)

lemma rbx_plug:
  "rbx x (plug t cs) \<longleftrightarrow>
     invc t \<and> invh x t \<and> cinv x (bh x t) cs \<and> (tcol t = Red \<longrightarrow> topcol cs = Black)"
proof (induction t cs rule: plug.induct)
  case (1 t)
  then show ?case by (cases "tcol t") (auto simp: rbx_def)
next
  case (2 t c a r cs)
  then show ?case by (cases c; cases "tcol t") auto
next
  case (3 t l c a cs)
  then show ?case by (cases c; cases "tcol t") auto
qed

lemma bh_le_length: "invh x t \<Longrightarrow> x \<notin> set (addrs t) \<Longrightarrow> 2 ^ bh x t \<le> length (addrs t) + 1"
proof (induction t)
  case (Nd c l a r)
  then have "2 ^ bh x l \<le> length (addrs l) + 1" "2 ^ bh x r \<le> length (addrs r) + 1" "bh x l = bh x r"
    by auto
  then show ?case by (auto simp: weight_def)
qed simp

fun height :: "ptree \<Rightarrow> nat" where
  "height Tip = 0"
| "height (Nd c l a r) = Suc (max (height l) (height r))"

lemma height_bh:
  "invc t \<Longrightarrow> invh x t \<Longrightarrow> x \<notin> set (addrs t) \<Longrightarrow>
     height t \<le> 2 * bh x t + (if tcol t = Red then 1 else 0)"
proof (induction t)
  case (Nd c l a r)
  then have "height l \<le> 2 * bh x l + (if tcol l = Red then 1 else 0)"
    "height r \<le> 2 * bh x r + (if tcol r = Red then 1 else 0)" "bh x l = bh x r" "a \<noteq> x"
    by auto
  with Nd.prems(1) show ?case by (cases c; cases "tcol l"; cases "tcol r") auto
qed simp

lemma rb_height:
  assumes "rb t" "0 \<notin> set (addrs t)"
  shows "2 ^ height t \<le> (length (addrs t) + 1) ^ 2"
proof -
  have "height t \<le> 2 * bh 0 t" using height_bh [of t 0] assms by (simp add: rbx_def)
  then have "(2::nat) ^ height t \<le> 2 ^ (2 * bh 0 t)" by (rule power_increasing) simp
  also have "\<dots> = (2 ^ bh 0 t) ^ 2" by (metis power_mult mult.commute)
  also have "\<dots> \<le> (length (addrs t) + 1) ^ 2"
    using bh_le_length [of 0 t] assms by (intro power_mono) (auto simp: rbx_def)
  finally show ?thesis .
qed

subsection \<open>The insertion loop\<close>

lemmas loop_reads = parent_plug color_plug sibling_plug sibling_plug' node_at_plug

text \<open>The end of the loop body: recolour and rotate at the grandparent \<open>g\<close>.\<close>

abbreviation insert_tail :: "addr \<Rightarrow> addr \<Rightarrow> addr \<Rightarrow> M_RBTree \<Rightarrow> M_RBTree option" where
  "insert_tail p g u st \<equiv>
     m_rbt_set_color p 1 st \<bind> (\<lambda>st2. m_rbt_set_color g 0 st2 \<bind>
       (\<lambda>st3. node_at st3 g \<bind> (\<lambda>g'.
          if u = n_right g' then m_rbt_rotate_right g st3 else m_rbt_rotate_left g st3)))"

lemma insert_tail_right:
  assumes "trep st (plug (Nd Black (Nd Red x p c) g u) cs)"
  shows "post st (plug (Nd Black (Nd Red x p c) g u) cs) (insert_tail p g (raddr u) st)
           (plug (Nd Black x p (Nd Red c g u)) cs)"
proof (rule post_bind)
  show "post st (plug (Nd Black (Nd Red x p c) g u) cs) (m_rbt_set_color p 1 st)
          (plug (Nd Black (Nd Black x p c) g u) cs)"
    using set_black_plug [of st Red x p c "CL Black g u # cs"] assms by simp
next
  fix st1
  assume 1: "trep st1 (plug (Nd Black (Nd Black x p c) g u) cs)"
  show "post st1 (plug (Nd Black (Nd Black x p c) g u) cs)
     (m_rbt_set_color g 0 st1 \<bind> (\<lambda>st3. node_at st3 g \<bind> (\<lambda>g'.
        if raddr u = n_right g' then m_rbt_rotate_right g st3 else m_rbt_rotate_left g st3)))
     (plug (Nd Black x p (Nd Red c g u)) cs)"
    by (rule post_bind [OF set_red_plug [OF 1]])
      (simp_all add: node_at_plug rotate_right_plug del: plug.simps)
qed simp

lemma insert_tail_left:
  assumes "trep st (plug (Nd Black u g (Nd Red c p x)) cs)"
  shows "post st (plug (Nd Black u g (Nd Red c p x)) cs) (insert_tail p g (raddr u) st)
           (plug (Nd Black (Nd Red u g c) p x) cs)"
proof (rule post_bind)
  show "post st (plug (Nd Black u g (Nd Red c p x)) cs) (m_rbt_set_color p 1 st)
          (plug (Nd Black u g (Nd Black c p x)) cs)"
    using set_black_plug [of st Red c p x "CR u Black g # cs"] assms by simp
next
  fix st1
  assume 1: "trep st1 (plug (Nd Black u g (Nd Black c p x)) cs)"
  have "raddr u \<noteq> p"
    using focus_neq(5) [of st1 Black c p x, OF _ refl, of u Black g cs] 1 by simp
  then show "post st1 (plug (Nd Black u g (Nd Black c p x)) cs)
     (m_rbt_set_color g 0 st1 \<bind> (\<lambda>st3. node_at st3 g \<bind> (\<lambda>g'.
        if raddr u = n_right g' then m_rbt_rotate_right g st3 else m_rbt_rotate_left g st3)))
     (plug (Nd Black (Nd Red u g c) p x) cs)"
    by (intro post_bind [OF set_red_plug [OF 1]])
      (simp_all add: node_at_plug rotate_left_plug del: plug.simps)
qed simp

text \<open>The loop body at a red parent with a black uncle, in each of the four positions.\<close>

lemma insert_LL:
  assumes "trep st (plug (Nd Red a n b) (CL Red p c # CL Black g u # cs))" "tcol u = Black"
  shows "post st (plug (Nd Red a n b) (CL Red p c # CL Black g u # cs)) (insert_loop n st)
           (plug (Nd Black (Nd Red a n b) p (Nd Red c g u)) cs)"
proof -
  let ?N = "Nd Red a n b"
  have P: "trep st (plug (Nd Red ?N p c) (CL Black g u # cs))"
    and G: "trep st (plug (Nd Black (Nd Red ?N p c) g u) cs)"
    and U: "trep st (plug u (CR (Nd Red ?N p c) Black g # cs))" using assms(1) by simp_all
  note even = trep_even [OF assms(1)] trep_even [OF P] trep_even [OF G]
  have "raddr c \<noteq> n" "raddr u \<noteq> p"
    using focus_neq(4) [OF assms(1) refl] focus_neq(4) [OF P refl] by simp_all
  then have "insert_loop n st = insert_tail p g (raddr u) st"
    using even parent_plug [OF assms(1)] parent_plug [OF P] sibling_plug [OF P] color_plug [OF P]
      color_plug [OF U] node_at_plug [OF P] node_at_plug [OF G] assms(2)
    by (subst insert_loop.simps) simp
  then show ?thesis using insert_tail_right [OF G] by simp
qed

lemma insert_LR:
  assumes "trep st (plug (Nd Red a n b) (CR c Red p # CL Black g u # cs))" "tcol u = Black"
  shows "post st (plug (Nd Red a n b) (CR c Red p # CL Black g u # cs)) (insert_loop n st)
           (plug (Nd Black (Nd Red c p a) n (Nd Red b g u)) cs)"
proof -
  let ?N = "Nd Red a n b"
  have P: "trep st (plug (Nd Red c p ?N) (CL Black g u # cs))"
    and G: "trep st (plug (Nd Black (Nd Red c p ?N) g u) cs)"
    and U: "trep st (plug u (CR (Nd Red c p ?N) Black g # cs))" using assms(1) by simp_all
  note even = trep_even [OF assms(1)] trep_even [OF P] trep_even [OF G]
  have step: "insert_loop n st = m_rbt_rotate_left p st \<bind> insert_tail n g (raddr u)"
    using even parent_plug [OF assms(1)] parent_plug [OF P] sibling_plug [OF P] color_plug [OF P]
      color_plug [OF U] node_at_plug [OF P] node_at_plug [OF G] assms(2)
    by (subst insert_loop.simps) simp
  show ?thesis unfolding step
  proof (rule post_bind)
    show "post st (plug ?N (CR c Red p # CL Black g u # cs)) (m_rbt_rotate_left p st)
            (plug (Nd Black (Nd Red (Nd Red c p a) n b) g u) cs)"
      using rotate_left_plug [OF P] by simp
  qed (simp_all add: insert_tail_right)
qed

lemma insert_RR:
  assumes "trep st (plug (Nd Red a n b) (CR c Red p # CR u Black g # cs))" "tcol u = Black"
  shows "post st (plug (Nd Red a n b) (CR c Red p # CR u Black g # cs)) (insert_loop n st)
           (plug (Nd Black (Nd Red u g c) p (Nd Red a n b)) cs)"
proof -
  let ?N = "Nd Red a n b"
  have P: "trep st (plug (Nd Red c p ?N) (CR u Black g # cs))"
    and G: "trep st (plug (Nd Black u g (Nd Red c p ?N)) cs)"
    and U: "trep st (plug u (CL Black g (Nd Red c p ?N) # cs))" using assms(1) by simp_all
  note even = trep_even [OF assms(1)] trep_even [OF P] trep_even [OF G]
  have "raddr c \<noteq> n" "raddr u \<noteq> p"
    using focus_neq(5) [OF assms(1) refl] focus_neq(5) [OF P refl] by simp_all
  then have "insert_loop n st = insert_tail p g (raddr u) st"
    using even parent_plug [OF assms(1)] parent_plug [OF P] sibling_plug' [OF P] color_plug [OF P]
      color_plug [OF U] node_at_plug [OF P] node_at_plug [OF G] assms(2)
    by (subst insert_loop.simps) simp
  then show ?thesis using insert_tail_left [OF G] by simp
qed

lemma insert_RL:
  assumes "trep st (plug (Nd Red a n b) (CL Red p c # CR u Black g # cs))" "tcol u = Black"
  shows "post st (plug (Nd Red a n b) (CL Red p c # CR u Black g # cs)) (insert_loop n st)
           (plug (Nd Black (Nd Red u g a) n (Nd Red b p c)) cs)"
proof -
  let ?N = "Nd Red a n b"
  have P: "trep st (plug (Nd Red ?N p c) (CR u Black g # cs))"
    and G: "trep st (plug (Nd Black u g (Nd Red ?N p c)) cs)"
    and U: "trep st (plug u (CL Black g (Nd Red ?N p c) # cs))" using assms(1) by simp_all
  note even = trep_even [OF assms(1)] trep_even [OF P] trep_even [OF G]
  have "raddr u \<noteq> p" using focus_neq(5) [OF P refl] by simp
  then have step: "insert_loop n st = m_rbt_rotate_right p st \<bind> insert_tail n g (raddr u)"
    using even parent_plug [OF assms(1)] parent_plug [OF P] sibling_plug' [OF P] color_plug [OF P]
      color_plug [OF U] node_at_plug [OF P] node_at_plug [OF G] assms(2)
    by (subst insert_loop.simps) simp
  show ?thesis unfolding step
  proof (rule post_bind)
    show "post st (plug ?N (CL Red p c # CR u Black g # cs)) (m_rbt_rotate_right p st)
            (plug (Nd Black u g (Nd Red a n (Nd Red b p c))) cs)"
      using rotate_right_plug [OF P] by simp
  qed (simp_all add: insert_tail_left)
qed

text \<open>The loop body at a red parent \<open>p\<close> with a red uncle: the blackness of the
  grandparent moves down and the loop goes on there.\<close>

lemma insert_red_uncle_left:
  assumes "trep st (plug (Nd Red l p r) (CL Black g (Nd Red ul u ur) # cs))"
    and "m_rbt_parent st n = Some p"
    and IH: "\<And>st'. trep st' (plug (Nd Red (Nd Black l p r) g (Nd Black ul u ur)) cs) \<Longrightarrow>
      posts st' (plug (Nd Red (Nd Black l p r) g (Nd Black ul u ur)) cs) (insert_loop g st') Q"
  shows "posts st (plug (Nd Red l p r) (CL Black g (Nd Red ul u ur) # cs)) (insert_loop n st) Q"
proof -
  let ?P = "Nd Red l p r" and ?P' = "Nd Black l p r"
  have G: "trep st (plug (Nd Black ?P g (Nd Red ul u ur)) cs)"
    and U: "trep st (plug (Nd Red ul u ur) (CR ?P Black g # cs))" using assms(1) by simp_all
  have step: "insert_loop n st = m_rbt_set_color p 1 st \<bind> (\<lambda>st1. m_rbt_set_color u 1 st1 \<bind>
      (\<lambda>st2. m_rbt_set_color g 0 st2 \<bind> insert_loop g))"
    using trep_even [OF assms(1)] trep_even [OF G] parent_plug [OF assms(1)] assms(2)
      sibling_plug [OF assms(1)] color_plug [OF assms(1)] color_plug [OF U]
    by (subst insert_loop.simps) simp
  show ?thesis unfolding step
  proof (rule posts_bind [OF set_black_plug [OF assms(1)]], goal_cases)
    case (1 st1)
    then have "trep st1 (plug (Nd Red ul u ur) (CR ?P' Black g # cs))" by simp
    from set_black_plug [OF this]
    have "posts st1 (plug (Nd Red ul u ur) (CR ?P' Black g # cs))
      (m_rbt_set_color u 1 st1 \<bind> (\<lambda>st2. m_rbt_set_color g 0 st2 \<bind> insert_loop g)) Q"
    proof (rule posts_bind, goal_cases)
      case (1 st2)
      then have "trep st2 (plug (Nd Black ?P' g (Nd Black ul u ur)) cs)" by simp
      from posts_bind [OF set_red_plug [OF this] IH] show ?case by simp
    qed simp
    then show ?case by simp
  qed simp
qed

lemma insert_red_uncle_right:
  assumes "trep st (plug (Nd Red l p r) (CR (Nd Red ul u ur) Black g # cs))"
    and "m_rbt_parent st n = Some p"
    and IH: "\<And>st'. trep st' (plug (Nd Red (Nd Black ul u ur) g (Nd Black l p r)) cs) \<Longrightarrow>
      posts st' (plug (Nd Red (Nd Black ul u ur) g (Nd Black l p r)) cs) (insert_loop g st') Q"
  shows "posts st (plug (Nd Red l p r) (CR (Nd Red ul u ur) Black g # cs)) (insert_loop n st) Q"
proof -
  let ?P = "Nd Red l p r" and ?P' = "Nd Black l p r"
  have G: "trep st (plug (Nd Black (Nd Red ul u ur) g ?P) cs)"
    and U: "trep st (plug (Nd Red ul u ur) (CL Black g ?P # cs))" using assms(1) by simp_all
  have step: "insert_loop n st = m_rbt_set_color p 1 st \<bind> (\<lambda>st1. m_rbt_set_color u 1 st1 \<bind>
      (\<lambda>st2. m_rbt_set_color g 0 st2 \<bind> insert_loop g))"
    using trep_even [OF assms(1)] trep_even [OF G] parent_plug [OF assms(1)] assms(2)
      sibling_plug' [OF assms(1)] color_plug [OF assms(1)] color_plug [OF U]
    by (subst insert_loop.simps) simp
  show ?thesis unfolding step
  proof (rule posts_bind [OF set_black_plug [OF assms(1)]], goal_cases)
    case (1 st1)
    then have "trep st1 (plug (Nd Red ul u ur) (CL Black g ?P' # cs))" by simp
    from set_black_plug [OF this]
    have "posts st1 (plug (Nd Red ul u ur) (CL Black g ?P' # cs))
      (m_rbt_set_color u 1 st1 \<bind> (\<lambda>st2. m_rbt_set_color g 0 st2 \<bind> insert_loop g)) Q"
    proof (rule posts_bind, goal_cases)
      case (1 st2)
      then have "trep st2 (plug (Nd Black (Nd Black ul u ur) g ?P') cs)" by simp
      from posts_bind [OF set_red_plug [OF this] IH] show ?case by simp
    qed simp
    then show ?case by simp
  qed simp
qed

text \<open>The whole loop: the focus is a red node that may have a red parent.\<close>

lemma insert_loop_correct:
  assumes "trep st (plug (Nd Red a n b) cs)" "invc (Nd Red a n b)" "invh 0 (Nd Red a n b)"
    "cinv 0 (bh 0 (Nd Red a n b)) cs"
  shows "posts st (plug (Nd Red a n b) cs) (insert_loop n st)
           (\<lambda>t'. rb t' \<and> addrs t' = addrs (plug (Nd Red a n b) cs))"
  using assms
proof (induction "length cs" arbitrary: st a n b cs rule: less_induct)
  case less
  let ?N = "Nd Red a n b" and ?Q = "\<lambda>t'. rb t' \<and> addrs t' = addrs (plug (Nd Red a n b) cs)"
  note N = less.prems(1) and par = parent_plug [OF less.prems(1)]
  show ?case
  proof (cases cs)
    case Nil
    have "insert_loop n st = m_rbt_set_color n 1 st"
      using par Nil by (subst insert_loop.simps) simp
    moreover have "post st ?N (m_rbt_set_color n 1 st) (Nd Black a n b)"
      using set_black_plug [of st Red a n b "[]"] N Nil by simp
    ultimately show ?thesis using less.prems Nil
      by (intro postsI [where t' = "Nd Black a n b"]) (auto simp: rbx_def)
  next
    case (Cons k ds)
    show ?thesis
    proof (cases "topcol cs")
      case Black
      obtain c l p r where "plug ?N cs = plug (Nd Black l p r) ds" "caddr k = p"
        using Black Cons by (cases k) auto
      then have P: "trep st (plug (Nd Black l p r) ds)" using N by simp
      have "insert_loop n st = Some st"
        using par Cons \<open>caddr k = p\<close> trep_even [OF P] color_plug [OF P] by (subst insert_loop.simps) simp
      moreover have "rb (plug ?N cs)" using less.prems Black by (simp add: rbx_plug)
      ultimately show ?thesis using N by (auto intro: postsI post_refl)
    next
      case Red
      obtain k2 cs2 where ds: "ds = k2 # cs2" "topcol ds = Black"
        using Red less.prems(4) Cons by (cases k; cases ds) auto
      have black: "tcol t = Black \<or> (\<exists>l u r. t = Nd Red l u r)" for t
        by (cases t; cases "tcol t") auto
      have IH: "posts st' (plug t' cs2) (insert_loop g st') ?Q"
        if "t' = Nd Red l g r" "trep st' (plug t' cs2)" "invc t'" "invh 0 t'" "cinv 0 (bh 0 t') cs2"
          "addrs (plug t' cs2) = addrs (plug ?N cs)" for t' l g r st'
        using less.hyps [of cs2 st' l g r] that Cons ds by simp
      note facts = less.prems N Cons ds Red
      show ?thesis
      proof (cases k; cases k2)
        fix kc p c kg g u
        assume k: "k = CL kc p c" "k2 = CL kg g u"
        then have P: "trep st (plug (Nd Red ?N p c) (CL Black g u # cs2))"
          and N': "trep st (plug ?N (CL Red p c # CL Black g u # cs2))"
          and G: "trep st (plug (Nd Black (Nd Red ?N p c) g u) cs2)"
          using facts by auto
        note g = trep_even(1) [OF P] trep_even(1) [OF G] trep_even(1) [OF N]
        show ?thesis
        proof (cases "tcol u")
          case Black
          from insert_LL [OF N' this] show ?thesis
            using facts k g Black by (intro postsI) (auto simp: rbx_plug)
        next
          case Red
          then obtain ul v ur where u: "u = Nd Red ul v ur" using black [of u] by auto
          have v: "v \<noteq> 0" using G u by (simp add: trep_plug)
          have "posts st (plug (Nd Red ?N p c) (CL Black g u # cs2)) (insert_loop n st) ?Q" unfolding u
            by (rule insert_red_uncle_left [OF P [unfolded u] _ IH]) (use par facts k g u v in auto)
          then show ?thesis using facts k by simp
        qed
      next
        fix kc p c kg g u
        assume k: "k = CR c kc p" "k2 = CL kg g u"
        then have P: "trep st (plug (Nd Red c p ?N) (CL Black g u # cs2))"
          and N': "trep st (plug ?N (CR c Red p # CL Black g u # cs2))"
          and G: "trep st (plug (Nd Black (Nd Red c p ?N) g u) cs2)"
          using facts by auto
        note g = trep_even(1) [OF P] trep_even(1) [OF G] trep_even(1) [OF N]
        show ?thesis
        proof (cases "tcol u")
          case Black
          from insert_LR [OF N' this] show ?thesis
            using facts k g Black by (intro postsI) (auto simp: rbx_plug)
        next
          case Red
          then obtain ul v ur where u: "u = Nd Red ul v ur" using black [of u] by auto
          have v: "v \<noteq> 0" using G u by (simp add: trep_plug)
          have "posts st (plug (Nd Red c p ?N) (CL Black g u # cs2)) (insert_loop n st) ?Q" unfolding u
            by (rule insert_red_uncle_left [OF P [unfolded u] _ IH]) (use par facts k g u v in auto)
          then show ?thesis using facts k by simp
        qed
      next
        fix kc p c kg g u
        assume k: "k = CL kc p c" "k2 = CR u kg g"
        then have P: "trep st (plug (Nd Red ?N p c) (CR u Black g # cs2))"
          and N': "trep st (plug ?N (CL Red p c # CR u Black g # cs2))"
          and G: "trep st (plug (Nd Black u g (Nd Red ?N p c)) cs2)"
          using facts by auto
        note g = trep_even(1) [OF P] trep_even(1) [OF G] trep_even(1) [OF N]
        show ?thesis
        proof (cases "tcol u")
          case Black
          from insert_RL [OF N' this] show ?thesis
            using facts k g Black by (intro postsI) (auto simp: rbx_plug)
        next
          case Red
          then obtain ul v ur where u: "u = Nd Red ul v ur" using black [of u] by auto
          have v: "v \<noteq> 0" using G u by (simp add: trep_plug)
          have "posts st (plug (Nd Red ?N p c) (CR u Black g # cs2)) (insert_loop n st) ?Q" unfolding u
            by (rule insert_red_uncle_right [OF P [unfolded u] _ IH]) (use par facts k g u v in auto)
          then show ?thesis using facts k by simp
        qed
      next
        fix kc p c kg g u
        assume k: "k = CR c kc p" "k2 = CR u kg g"
        then have P: "trep st (plug (Nd Red c p ?N) (CR u Black g # cs2))"
          and N': "trep st (plug ?N (CR c Red p # CR u Black g # cs2))"
          and G: "trep st (plug (Nd Black u g (Nd Red c p ?N)) cs2)"
          using facts by auto
        note g = trep_even(1) [OF P] trep_even(1) [OF G] trep_even(1) [OF N]
        show ?thesis
        proof (cases "tcol u")
          case Black
          from insert_RR [OF N' this] show ?thesis
            using facts k g Black by (intro postsI) (auto simp: rbx_plug)
        next
          case Red
          then obtain ul v ur where u: "u = Nd Red ul v ur" using black [of u] by auto
          have v: "v \<noteq> 0" using G u by (simp add: trep_plug)
          have "posts st (plug (Nd Red c p ?N) (CR u Black g # cs2)) (insert_loop n st) ?Q" unfolding u
            by (rule insert_red_uncle_right [OF P [unfolded u] _ IH]) (use par facts k g u v in auto)
          then show ?thesis using facts k by simp
        qed
      qed
    qed
  qed
qed

subsection \<open>Insertion at a position\<close>

fun slot_of :: "crumb list \<Rightarrow> rslot" where
  "slot_of [] = RootSlot"
| "slot_of (CL c a r # cs) = LeftOf a"
| "slot_of (CR l c a # cs) = RightOf a"

text \<open>What the rest of the program sees of a red black tree: its nodes in order.\<close>

definition rbtree :: "M_RBTree \<Rightarrow> addr list \<Rightarrow> bool" where
  "rbtree st xs \<longleftrightarrow> (\<exists>t. trep st t \<and> rb t \<and> addrs t = xs)"

lemma rbtree_distinct: "rbtree st xs \<Longrightarrow> distinct xs"
  by (auto simp: rbtree_def trep_def)

lemma rbtree_nonnull: "rbtree st xs \<Longrightarrow> a \<in> set xs \<Longrightarrow> a \<noteq> 0"
  by (auto simp: rbtree_def trep_def dest: reps_mapped)

lemma link_new:
  assumes "trep st (plug Tip cs)" "n \<noteq> 0" "aligned2 n" "nodes st n \<noteq> None"
    "n \<notin> set (before cs) \<union> set (after cs)"
  obtains st3 where "(do { st1 \<leftarrow> set_left n 0 st; st2 \<leftarrow> set_right n 0 st1;
       st3 \<leftarrow> set_slot (slot_of cs) n st2; m_rbt_set_parent_color n (paddr cs) M_RB_RED st3 }) = Some st3"
    "trep st3 (plug (Nd Red Tip n Tip) cs)"
    "outside (insert n (set (addrs (plug Tip cs)))) st st3"
proof -
  obtain pc l r where m: "nodes st n = Some \<lparr>pcolor = pc, n_left = l, n_right = r\<rparr>"
    using assms(4) by (metis M_RBNode.cases not_None_eq)
  let ?n = "\<lparr>pcolor = paddr cs OR 0, n_left = 0, n_right = 0\<rparr>"
  note T = assms(1) [unfolded trep_plug] and n = assms(2,3,5)
  show ?thesis
  proof (cases cs)
    case Nil
    then show ?thesis using T n m
      by (intro that [of "st\<lparr>root := n, nodes := (nodes st)(n \<mapsto> ?n)\<rparr>"])
        (simp_all add: ops_defs trep_def outside_def access)
  next
    case (Cons k ds)
    show ?thesis
    proof (cases k)
      case (CL c a r)
      let ?a = "\<lparr>pcolor = paddr ds OR colw c, n_left = n, n_right = raddr r\<rparr>"
      have "a \<noteq> n" using n Cons CL by auto
      then show ?thesis using T n m Cons CL
        by (intro that [of "st\<lparr>nodes := (nodes st)(a \<mapsto> ?a, n \<mapsto> ?n)\<rparr>"])
          (simp_all add: ops_defs trep_plug outside_def access)
    next
      case (CR l c a)
      let ?a = "\<lparr>pcolor = paddr ds OR colw c, n_left = raddr l, n_right = n\<rparr>"
      have "a \<noteq> n" using n Cons CR by auto
      then show ?thesis using T n m Cons CR
        by (intro that [of "st\<lparr>nodes := (nodes st)(a \<mapsto> ?a, n \<mapsto> ?n)\<rparr>"])
          (simp_all add: ops_defs trep_plug outside_def access)
    qed
  qed
qed

lemma insert_at:
  assumes "trep st (plug Tip cs)" "rb (plug Tip cs)" "n \<noteq> 0" "aligned2 n" "nodes st n \<noteq> None"
    "n \<notin> set (before cs) \<union> set (after cs)"
  obtains st' where "m_rbt_insert (paddr cs) (slot_of cs) n st = Some st'"
    "rbtree st' (before cs @ n # after cs)"
    "outside (insert n (set (addrs (plug Tip cs)))) st st'"
proof -
  obtain st3 where 3: "(do { st1 \<leftarrow> set_left n 0 st; st2 \<leftarrow> set_right n 0 st1;
       st3 \<leftarrow> set_slot (slot_of cs) n st2; m_rbt_set_parent_color n (paddr cs) M_RB_RED st3 }) = Some st3"
    "trep st3 (plug (Nd Red Tip n Tip) cs)"
    "outside (insert n (set (addrs (plug Tip cs)))) st st3"
    using link_new [OF assms(1,3-6)] by blast
  have "posts st3 (plug (Nd Red Tip n Tip) cs) (insert_loop n st3)
          (\<lambda>t'. rb t' \<and> addrs t' = addrs (plug (Nd Red Tip n Tip) cs))"
    by (rule insert_loop_correct [OF 3(2)]) (use assms(2) in \<open>auto simp: rbx_plug\<close>)
  then obtain st' t' where 4: "insert_loop n st3 = Some st'" "trep st' t'" "rb t'"
    "addrs t' = before cs @ n # after cs" "outside (insert n (set (addrs (plug Tip cs)))) st3 st'"
    by (auto simp: posts_def post_def)
  have "m_rbt_insert (paddr cs) (slot_of cs) n st =
    (do { st1 \<leftarrow> set_left n 0 st; st2 \<leftarrow> set_right n 0 st1; st3 \<leftarrow> set_slot (slot_of cs) n st2;
          m_rbt_set_parent_color n (paddr cs) M_RB_RED st3 }) \<bind> insert_loop n"
    using assms(3) by (simp add: m_rbt_insert_def)
  also have "\<dots> = Some st'" unfolding 3(1) using 4(1) by simp
  finally show ?thesis
    by (rule that) (use 3(3) 4 in \<open>auto simp: rbtree_def outside_def\<close>)
qed

end
