(* ===== verification/RBTree_Rebalance.thy ===== *)
theory RBTree_Rebalance
  imports RBTree_Insert
begin

text \<open>
  The loop \<open>m_rbt_remove_rebalance\<close>. It runs while the node to be unlinked is still in
  the tree, so the invariants are those of the tree without it: the address \<open>x\<close> does not
  count. The focus of the loop is a subtree that is one black node short.
\<close>

abbreviation rebalance_tail ::
    "addr \<Rightarrow> addr \<Rightarrow> addr \<Rightarrow> addr \<Rightarrow> addr \<Rightarrow> M_RBTree \<Rightarrow> M_RBTree option" where
  "rebalance_tail node parent s sl sr st \<equiv>
     m_rbt_color st parent \<bind> (\<lambda>pcol. m_rbt_set_color parent 1 st \<bind>
       (\<lambda>st5. m_rbt_set_color s pcol st5 \<bind> (\<lambda>st6. node_at st6 parent \<bind>
         (\<lambda>p'. if node = n_left p'
               then m_rbt_set_color sr 1 st6 \<bind> m_rbt_rotate_left parent
               else m_rbt_set_color sl 1 st6 \<bind> m_rbt_rotate_right parent))))"

lemma rebalance_tail_left:
  assumes "trep st (plug (Nd cp (Nd c l a r) p (Nd d u s (Nd e vl v vr))) ds)"
  shows "post st (plug (Nd cp (Nd c l a r) p (Nd d u s (Nd e vl v vr))) ds)
     (rebalance_tail a p s sl v st)
     (plug (Nd cp (Nd Black (Nd c l a r) p u) s (Nd Black vl v vr)) ds)"
proof -
  let ?t = "Nd c l a r"
  have col: "m_rbt_color st p = Some (colw cp)" using color_plug [OF assms] by simp
  show ?thesis unfolding col Option.bind.simps
  proof (rule post_bind [OF set_black_plug [OF assms]], goal_cases)
    case (1 st5)
    then have "trep st5 (plug (Nd d u s (Nd e vl v vr)) (CR ?t Black p # ds))" by simp
    from set_color_plug [OF this, of cp]
    have "post st5 (plug (Nd Black ?t p (Nd d u s (Nd e vl v vr))) ds) (m_rbt_set_color s (colw cp) st5)
            (plug (Nd Black ?t p (Nd cp u s (Nd e vl v vr))) ds)" by simp
    then show ?case
    proof (rule post_bind, goal_cases)
      case (1 st6)
      then have "trep st6 (plug (Nd e vl v vr) (CR u cp s # CR ?t Black p # ds))" by simp
      from set_black_plug [OF this]
      have "post st6 (plug (Nd Black ?t p (Nd cp u s (Nd e vl v vr))) ds) (m_rbt_set_color v 1 st6)
              (plug (Nd Black ?t p (Nd cp u s (Nd Black vl v vr))) ds)" by simp
      then have "post st6 (plug (Nd Black ?t p (Nd cp u s (Nd e vl v vr))) ds)
          (m_rbt_set_color v 1 st6 \<bind> m_rbt_rotate_left p)
          (plug (Nd cp (Nd Black ?t p u) s (Nd Black vl v vr)) ds)"
        by (rule post_bind) (simp_all add: rotate_left_plug)
      then show ?case by (simp add: node_at_plug [OF 1])
    qed simp
  qed simp
qed

lemma rebalance_tail_right:
  assumes "trep st (plug (Nd cp (Nd d (Nd e vl v vr) s u) p (Nd c l a r)) ds)"
  shows "post st (plug (Nd cp (Nd d (Nd e vl v vr) s u) p (Nd c l a r)) ds)
     (rebalance_tail a p s v sr st)
     (plug (Nd cp (Nd Black vl v vr) s (Nd Black u p (Nd c l a r))) ds)"
proof -
  let ?t = "Nd c l a r"
  have col: "m_rbt_color st p = Some (colw cp)" using color_plug [OF assms] by simp
  have "trep st (plug (Nd d (Nd e vl v vr) s u) (CL cp p ?t # ds))" using assms by simp
  then have neq: "a \<noteq> s" using focus_neq(4) [OF _ refl] by fastforce
  show ?thesis unfolding col Option.bind.simps
  proof (rule post_bind [OF set_black_plug [OF assms]], goal_cases)
    case (1 st5)
    then have "trep st5 (plug (Nd d (Nd e vl v vr) s u) (CL Black p ?t # ds))" by simp
    from set_color_plug [OF this, of cp]
    have "post st5 (plug (Nd Black (Nd d (Nd e vl v vr) s u) p ?t) ds) (m_rbt_set_color s (colw cp) st5)
            (plug (Nd Black (Nd cp (Nd e vl v vr) s u) p ?t) ds)" by simp
    then show ?case
    proof (rule post_bind, goal_cases)
      case (1 st6)
      then have "trep st6 (plug (Nd e vl v vr) (CL cp s u # CL Black p ?t # ds))" by simp
      from set_black_plug [OF this]
      have "post st6 (plug (Nd Black (Nd cp (Nd e vl v vr) s u) p ?t) ds) (m_rbt_set_color v 1 st6)
              (plug (Nd Black (Nd cp (Nd Black vl v vr) s u) p ?t) ds)" by simp
      then have "post st6 (plug (Nd Black (Nd cp (Nd e vl v vr) s u) p ?t) ds)
          (m_rbt_set_color v 1 st6 \<bind> m_rbt_rotate_right p)
          (plug (Nd cp (Nd Black vl v vr) s (Nd Black u p ?t)) ds)"
        by (rule post_bind) (simp_all add: rotate_right_plug)
      then show ?case using neq by (simp add: node_at_plug [OF 1])
    qed simp
  qed simp
qed

subsection \<open>The loop body, case by case\<close>

lemma rebalance_red:
  assumes "trep st (plug (Nd Red l a r) cs)"
  shows "post st (plug (Nd Red l a r) cs) (m_rbt_remove_rebalance a st) (plug (Nd Black l a r) cs)"
proof -
  have "m_rbt_remove_rebalance a st = m_rbt_set_color a 1 st"
    using color_plug [OF assms] by (subst m_rbt_remove_rebalance.simps) simp
  then show ?thesis using set_black_plug [OF assms] by simp
qed

lemma rebalance_root:
  assumes "trep st (Nd Black l a r)"
  shows "m_rbt_remove_rebalance a st = Some st"
  using color_plug [of st "Nd Black l a r" "[]"] parent_plug [of st Black l a r "[]"] assms
  by (subst m_rbt_remove_rebalance.simps) simp

text \<open>Sibling black with two black children: the deficit moves to the parent.\<close>

lemma rebalance_up_left:
  assumes "trep st (plug (Nd Black l a r) (CL cp p (Nd Black u s v) # ds))"
    and "tcol u = Black" "tcol v = Black"
    and K: "\<And>st'. trep st' (plug (Nd cp (Nd Black l a r) p (Nd Red u s v)) ds) \<Longrightarrow>
      posts st' (plug (Nd cp (Nd Black l a r) p (Nd Red u s v)) ds) (m_rbt_remove_rebalance p st') Q"
  shows "posts st (plug (Nd Black l a r) (CL cp p (Nd Black u s v) # ds)) (m_rbt_remove_rebalance a st) Q"
proof -
  let ?t = "Nd Black l a r"
  note T = assms(1)
  have S: "trep st (plug (Nd Black u s v) (CR ?t cp p # ds))"
    and U: "trep st (plug u (CL Black s v # CR ?t cp p # ds))"
    and V: "trep st (plug v (CR u Black s # CR ?t cp p # ds))" using T by simp_all
  have step: "m_rbt_remove_rebalance a st = m_rbt_set_color s 0 st \<bind> m_rbt_remove_rebalance p"
    using color_plug [OF T] parent_plug [OF T] sibling_plug [OF T] color_plug [OF S] color_plug [OF U]
      color_plug [OF V] node_at_plug [OF S] trep_even [OF T] trep_even [OF S] assms(2,3)
    by (subst m_rbt_remove_rebalance.simps) simp
  have "posts st (plug (Nd Black u s v) (CR ?t cp p # ds))
      (m_rbt_set_color s 0 st \<bind> m_rbt_remove_rebalance p) Q"
    by (rule posts_bind [OF set_red_plug [OF S]]) (use K in simp_all)
  then show ?thesis unfolding step by simp
qed

lemma rebalance_up_right:
  assumes "trep st (plug (Nd Black l a r) (CR (Nd Black u s v) cp p # ds))"
    and "tcol u = Black" "tcol v = Black"
    and K: "\<And>st'. trep st' (plug (Nd cp (Nd Red u s v) p (Nd Black l a r)) ds) \<Longrightarrow>
      posts st' (plug (Nd cp (Nd Red u s v) p (Nd Black l a r)) ds) (m_rbt_remove_rebalance p st') Q"
  shows "posts st (plug (Nd Black l a r) (CR (Nd Black u s v) cp p # ds)) (m_rbt_remove_rebalance a st) Q"
proof -
  let ?t = "Nd Black l a r"
  note T = assms(1)
  have S: "trep st (plug (Nd Black u s v) (CL cp p ?t # ds))"
    and U: "trep st (plug u (CL Black s v # CL cp p ?t # ds))"
    and V: "trep st (plug v (CR u Black s # CL cp p ?t # ds))" using T by simp_all
  have step: "m_rbt_remove_rebalance a st = m_rbt_set_color s 0 st \<bind> m_rbt_remove_rebalance p"
    using color_plug [OF T] parent_plug [OF T] sibling_plug' [OF T] color_plug [OF S] color_plug [OF U]
      color_plug [OF V] node_at_plug [OF S] trep_even [OF T] trep_even [OF S] assms(2,3)
    by (subst m_rbt_remove_rebalance.simps) simp
  have "posts st (plug (Nd Black u s v) (CL cp p ?t # ds))
      (m_rbt_set_color s 0 st \<bind> m_rbt_remove_rebalance p) Q"
    by (rule posts_bind [OF set_red_plug [OF S]]) (use K in simp_all)
  then show ?thesis unfolding step by simp
qed

text \<open>Sibling black with a red child: recolour and rotate, and the loop ends.\<close>

lemma rebalance_near_left:
  assumes "trep st (plug (Nd Black l a r) (CL cp p (Nd Black (Nd Red ul u ur) s v) # ds))"
  shows "post st (plug (Nd Black l a r) (CL cp p (Nd Black (Nd Red ul u ur) s v) # ds))
    (m_rbt_remove_rebalance a st)
    (plug (Nd cp (Nd Black (Nd Black l a r) p ul) u (Nd Black ur s v)) ds)"
proof -
  let ?t = "Nd Black l a r" and ?u = "Nd Red ul u ur"
  note T = assms(1)
  have S: "trep st (plug (Nd Black ?u s v) (CR ?t cp p # ds))"
    and U: "trep st (plug ?u (CL Black s v # CR ?t cp p # ds))"
    and V: "trep st (plug v (CR ?u Black s # CR ?t cp p # ds))"
    and P: "trep st (plug (Nd cp ?t p (Nd Black ?u s v)) ds)" using T by simp_all
  have step: "m_rbt_remove_rebalance a st = m_rbt_set_color u 1 st \<bind> (\<lambda>st1. m_rbt_set_color s 0 st1 \<bind>
     (\<lambda>st2. m_rbt_rotate_right s st2 \<bind> rebalance_tail a p u u s))"
    using color_plug [OF T] parent_plug [OF T] sibling_plug [OF T] color_plug [OF S] color_plug [OF U]
      color_plug [OF V] node_at_plug [OF S] node_at_plug [OF P] trep_even [OF T] trep_even [OF S]
      trep_even [OF P]
    by (subst m_rbt_remove_rebalance.simps) simp
  have "post st (plug ?u (CL Black s v # CR ?t cp p # ds)) (m_rbt_remove_rebalance a st)
    (plug (Nd cp (Nd Black ?t p ul) u (Nd Black ur s v)) ds)"
    unfolding step
  proof (rule post_bind [OF set_black_plug [OF U]], goal_cases)
    case (1 st1)
    then have "trep st1 (plug (Nd Black (Nd Black ul u ur) s v) (CR ?t cp p # ds))" by simp
    from set_red_plug [OF this]
    have "post st1 (plug (Nd Black (Nd Black ul u ur) s v) (CR ?t cp p # ds))
      (m_rbt_set_color s 0 st1 \<bind> (\<lambda>st2. m_rbt_rotate_right s st2 \<bind> rebalance_tail a p u u s))
      (plug (Nd cp (Nd Black ?t p ul) u (Nd Black ur s v)) ds)"
    proof (rule post_bind, goal_cases)
      case (1 st2)
      from rotate_right_plug [OF 1] show ?case
        by (rule post_bind) (use rebalance_tail_left in simp_all)
    qed simp
    then show ?case by simp
  qed simp
  then show ?thesis by simp
qed

lemma rebalance_near_right:
  assumes "trep st (plug (Nd Black l a r) (CR (Nd Black v s (Nd Red ul u ur)) cp p # ds))"
  shows "post st (plug (Nd Black l a r) (CR (Nd Black v s (Nd Red ul u ur)) cp p # ds))
    (m_rbt_remove_rebalance a st)
    (plug (Nd cp (Nd Black v s ul) u (Nd Black ur p (Nd Black l a r))) ds)"
proof -
  let ?t = "Nd Black l a r" and ?u = "Nd Red ul u ur"
  note T = assms(1)
  have S: "trep st (plug (Nd Black v s ?u) (CL cp p ?t # ds))"
    and U: "trep st (plug ?u (CR v Black s # CL cp p ?t # ds))"
    and V: "trep st (plug v (CL Black s ?u # CL cp p ?t # ds))"
    and P: "trep st (plug (Nd cp (Nd Black v s ?u) p ?t) ds)" using T by simp_all
  have neq: "a \<noteq> s" using focus_neq(5) [OF T refl] by fastforce
  have step: "m_rbt_remove_rebalance a st = m_rbt_set_color u 1 st \<bind> (\<lambda>st1. m_rbt_set_color s 0 st1 \<bind>
     (\<lambda>st2. m_rbt_rotate_left s st2 \<bind> rebalance_tail a p u s u))"
    using color_plug [OF T] parent_plug [OF T] sibling_plug' [OF T] color_plug [OF S] color_plug [OF U]
      color_plug [OF V] node_at_plug [OF S] node_at_plug [OF P] trep_even [OF T] trep_even [OF S]
      trep_even [OF P] neq
    by (subst m_rbt_remove_rebalance.simps) simp
  have "post st (plug ?u (CR v Black s # CL cp p ?t # ds)) (m_rbt_remove_rebalance a st)
    (plug (Nd cp (Nd Black v s ul) u (Nd Black ur p ?t)) ds)"
    unfolding step
  proof (rule post_bind [OF set_black_plug [OF U]], goal_cases)
    case (1 st1)
    then have "trep st1 (plug (Nd Black v s (Nd Black ul u ur)) (CL cp p ?t # ds))" by simp
    from set_red_plug [OF this]
    have "post st1 (plug (Nd Black v s (Nd Black ul u ur)) (CL cp p ?t # ds))
      (m_rbt_set_color s 0 st1 \<bind> (\<lambda>st2. m_rbt_rotate_left s st2 \<bind> rebalance_tail a p u s u))
      (plug (Nd cp (Nd Black v s ul) u (Nd Black ur p ?t)) ds)"
    proof (rule post_bind, goal_cases)
      case (1 st2)
      from rotate_left_plug [OF 1] show ?case
        by (rule post_bind) (use rebalance_tail_right in simp_all)
    qed simp
    then show ?case by simp
  qed simp
  then show ?thesis by simp
qed

lemma rebalance_far_left:
  assumes "trep st (plug (Nd Black l a r) (CL cp p (Nd Black u s (Nd Red vl v vr)) # ds))" "tcol u = Black"
  shows "post st (plug (Nd Black l a r) (CL cp p (Nd Black u s (Nd Red vl v vr)) # ds))
    (m_rbt_remove_rebalance a st)
    (plug (Nd cp (Nd Black (Nd Black l a r) p u) s (Nd Black vl v vr)) ds)"
proof -
  let ?t = "Nd Black l a r" and ?v = "Nd Red vl v vr"
  note T = assms(1)
  have S: "trep st (plug (Nd Black u s ?v) (CR ?t cp p # ds))"
    and U: "trep st (plug u (CL Black s ?v # CR ?t cp p # ds))"
    and V: "trep st (plug ?v (CR u Black s # CR ?t cp p # ds))"
    and P: "trep st (plug (Nd cp ?t p (Nd Black u s ?v)) ds)" using T by simp_all
  have neq: "a \<noteq> s" using focus_neq(4) [OF T refl] by fastforce
  have step: "m_rbt_remove_rebalance a st = rebalance_tail a p s (raddr u) v st"
    using color_plug [OF T] parent_plug [OF T] sibling_plug [OF T] color_plug [OF S] color_plug [OF U]
      color_plug [OF V] node_at_plug [OF S] node_at_plug [OF P] trep_even [OF T] trep_even [OF S]
      trep_even [OF P] assms(2) neq
    by (subst m_rbt_remove_rebalance.simps) simp
  show ?thesis unfolding step using rebalance_tail_left [OF P] by simp
qed

lemma rebalance_far_right:
  assumes "trep st (plug (Nd Black l a r) (CR (Nd Black (Nd Red vl v vr) s u) cp p # ds))" "tcol u = Black"
  shows "post st (plug (Nd Black l a r) (CR (Nd Black (Nd Red vl v vr) s u) cp p # ds))
    (m_rbt_remove_rebalance a st)
    (plug (Nd cp (Nd Black vl v vr) s (Nd Black u p (Nd Black l a r))) ds)"
proof -
  let ?t = "Nd Black l a r" and ?v = "Nd Red vl v vr"
  note T = assms(1)
  have S: "trep st (plug (Nd Black ?v s u) (CL cp p ?t # ds))"
    and U: "trep st (plug u (CR ?v Black s # CL cp p ?t # ds))"
    and V: "trep st (plug ?v (CL Black s u # CL cp p ?t # ds))"
    and P: "trep st (plug (Nd cp (Nd Black ?v s u) p ?t) ds)" using T by simp_all
  have neq: "a \<noteq> s" using focus_neq(5) [OF T refl] by fastforce
  have step: "m_rbt_remove_rebalance a st = rebalance_tail a p s v (raddr u) st"
    using color_plug [OF T] parent_plug [OF T] sibling_plug' [OF T] color_plug [OF S] color_plug [OF U]
      color_plug [OF V] node_at_plug [OF S] node_at_plug [OF P] trep_even [OF T] trep_even [OF S]
      trep_even [OF P] assms(2) neq
    by (subst m_rbt_remove_rebalance.simps) simp
  show ?thesis unfolding step using rebalance_tail_right [OF P] by simp
qed

subsection \<open>The loop\<close>

definition deficient :: "addr \<Rightarrow> color \<Rightarrow> ptree \<Rightarrow> addr \<Rightarrow> ptree \<Rightarrow> crumb list \<Rightarrow> bool" where
  "deficient x c l a r cs \<longleftrightarrow>
     invc (Nd Black l a r) \<and> invh x (Nd c l a r) \<and> cinv x (Suc (bh x (Nd c l a r))) cs \<and>
     x \<in> set (addrs (Nd c l a r)) \<and> (c = Red \<longrightarrow> a \<noteq> x)"

definition repaired :: "addr \<Rightarrow> ptree \<Rightarrow> addr \<Rightarrow> ptree \<Rightarrow> crumb list \<Rightarrow> ptree \<Rightarrow> bool" where
  "repaired x l a r cs t' \<longleftrightarrow>
     rbx x t' \<and> addrs t' = before cs @ addrs l @ a # addrs r @ after cs \<and>
     (\<exists>c' cs'. t' = plug (Nd c' l a r) cs' \<and> slot_of cs' = slot_of cs)"

lemma repairedI:
  assumes "rbx x (plug (Nd c' l a r) cs')" "slot_of cs' = slot_of cs"
    "before cs' = before cs" "after cs' = after cs"
  shows "repaired x l a r cs (plug (Nd c' l a r) cs')"
  using assms by (auto simp: repaired_def)

lemma repaired_up:
  "repaired x (Nd c l a r) p v ds t' \<Longrightarrow> addrs v = addrs s \<Longrightarrow> repaired x l a r (CL cp p s # ds) t'"
  "repaired x v p (Nd c l a r) ds t' \<Longrightarrow> addrs v = addrs s \<Longrightarrow> repaired x l a r (CR s cp p # ds) t'"
proof -
  assume A: "repaired x (Nd c l a r) p v ds t'" "addrs v = addrs s"
  then obtain c' cs' where "t' = plug (Nd c' (Nd c l a r) p v) cs'" by (auto simp: repaired_def)
  then have "t' = plug (Nd c l a r) (CL c' p v # cs')" by simp
  then show "repaired x l a r (CL cp p s # ds) t'"
    using A unfolding repaired_def by (metis addrs_plug append.assoc append_Cons addrs.simps(2)
        before.simps(2) after.simps(2) slot_of.simps(2))
next
  assume A: "repaired x v p (Nd c l a r) ds t'" "addrs v = addrs s"
  then obtain c' cs' where "t' = plug (Nd c' v p (Nd c l a r)) cs'" by (auto simp: repaired_def)
  then have "t' = plug (Nd c l a r) (CR v c' p # cs')" by simp
  then show "repaired x l a r (CR s cp p # ds) t'"
    using A unfolding repaired_def by (metis addrs_plug append.assoc append_Cons append_Nil addrs.simps(2)
        before.simps(3) after.simps(3) slot_of.simps(3))
qed

lemma repaired_cong:
  assumes "repaired x l a r cs t'" "slot_of cs = slot_of ds" "before cs = before ds" "after cs = after ds"
  shows "repaired x l a r ds t'"
  using assms by (simp add: repaired_def)

lemma rebalance_black_left:
  assumes T: "trep st (plug (Nd Black l a r) (CL cp p s # ds))"
    and D: "deficient x Black l a r (CL cp p s # ds)" and s: "tcol s = Black"
    and K: "\<And>st' v. trep st' (plug (Nd cp (Nd Black l a r) p v) ds) \<Longrightarrow>
      deficient x cp (Nd Black l a r) p v ds \<Longrightarrow>
      posts st' (plug (Nd cp (Nd Black l a r) p v) ds) (m_rbt_remove_rebalance p st')
        (repaired x (Nd Black l a r) p v ds)"
  shows "posts st (plug (Nd Black l a r) (CL cp p s # ds)) (m_rbt_remove_rebalance a st)
           (repaired x l a r (CL cp p s # ds))"
proof -
  let ?t = "Nd Black l a r"
  have x: "p \<noteq> x" "x \<notin> set (addrs s)" using T D by (auto simp: trep_plug deficient_def)
  obtain u b v where sn: "s = Nd Black u b v" "b \<noteq> x"
    using D s x by (cases s) (auto simp: deficient_def)
  have wt: "weight x cp q = weight x cp p" if "q \<noteq> x" for q using that x by (simp add: weight_def)
  note inv = D [unfolded deficient_def] x
  consider "tcol u = Red" | "tcol u = Black" "tcol v = Red" | "tcol u = Black" "tcol v = Black"
    by (cases "tcol u"; cases "tcol v") auto
  then show ?thesis
  proof cases
    case 1
    then obtain ul w ur where u: "u = Nd Red ul w ur" by (cases u) auto
    have w: "w \<noteq> x" using x sn u by auto
    have "post st (plug ?t (CL cp p s # ds)) (m_rbt_remove_rebalance a st)
      (plug ?t (CL Black p ul # CL cp w (Nd Black ur b v) # ds))"
      using rebalance_near_left [of st l a r cp p ul w ur b v ds] T sn u by simp
    then show ?thesis
      by (rule postsI) (rule repairedI, use inv sn u wt [OF w] in \<open>auto simp: rbx_plug\<close>)
  next
    case 2
    then obtain vl w vr where v: "v = Nd Red vl w vr" by (cases v) auto
    have w: "w \<noteq> x" using x sn v by auto
    have "post st (plug ?t (CL cp p s # ds)) (m_rbt_remove_rebalance a st)
      (plug ?t (CL Black p u # CL cp b (Nd Black vl w vr) # ds))"
      using rebalance_far_left [of st l a r cp p u b vl w vr ds] T sn v 2 by simp
    then show ?thesis
      by (rule postsI) (rule repairedI, use inv sn v w 2 wt [OF sn(2)] in \<open>auto simp: rbx_plug\<close>)
  next
    case 3
    let ?v = "Nd Red u b v"
    have "posts st (plug ?t (CL cp p s # ds)) (m_rbt_remove_rebalance a st) (repaired x ?t p ?v ds)"
      unfolding sn(1)
      by (rule rebalance_up_left [OF _ 3 K]) (use T sn inv 3 in \<open>auto simp: deficient_def\<close>)
    then show ?thesis by (rule posts_mono) (rule repaired_up(1), use sn in auto)
  qed
qed

lemma rebalance_black_right:
  assumes T: "trep st (plug (Nd Black l a r) (CR s cp p # ds))"
    and D: "deficient x Black l a r (CR s cp p # ds)" and s: "tcol s = Black"
    and K: "\<And>st' v. trep st' (plug (Nd cp v p (Nd Black l a r)) ds) \<Longrightarrow>
      deficient x cp v p (Nd Black l a r) ds \<Longrightarrow>
      posts st' (plug (Nd cp v p (Nd Black l a r)) ds) (m_rbt_remove_rebalance p st')
        (repaired x v p (Nd Black l a r) ds)"
  shows "posts st (plug (Nd Black l a r) (CR s cp p # ds)) (m_rbt_remove_rebalance a st)
           (repaired x l a r (CR s cp p # ds))"
proof -
  let ?t = "Nd Black l a r"
  have x: "p \<noteq> x" "x \<notin> set (addrs s)" using T D by (auto simp: trep_plug deficient_def)
  obtain v b u where sn: "s = Nd Black v b u" "b \<noteq> x"
    using D s x by (cases s) (auto simp: deficient_def)
  have wt: "weight x cp q = weight x cp p" if "q \<noteq> x" for q using that x by (simp add: weight_def)
  note inv = D [unfolded deficient_def] x
  consider "tcol u = Red" | "tcol u = Black" "tcol v = Red" | "tcol u = Black" "tcol v = Black"
    by (cases "tcol u"; cases "tcol v") auto
  then show ?thesis
  proof cases
    case 1
    then obtain ul w ur where u: "u = Nd Red ul w ur" by (cases u) auto
    have w: "w \<noteq> x" using x sn u by auto
    have "post st (plug ?t (CR s cp p # ds)) (m_rbt_remove_rebalance a st)
      (plug ?t (CR ur Black p # CR (Nd Black v b ul) cp w # ds))"
      using rebalance_near_right [of st l a r v b ul w ur cp p ds] T sn u by simp
    then show ?thesis
      by (rule postsI) (rule repairedI, use inv sn u wt [OF w] in \<open>auto simp: rbx_plug\<close>)
  next
    case 2
    then obtain vl w vr where v: "v = Nd Red vl w vr" by (cases v) auto
    have w: "w \<noteq> x" using x sn v by auto
    have "post st (plug ?t (CR s cp p # ds)) (m_rbt_remove_rebalance a st)
      (plug ?t (CR u Black p # CR (Nd Black vl w vr) cp b # ds))"
      using rebalance_far_right [of st l a r vl w vr b u cp p ds] T sn v 2 by simp
    then show ?thesis
      by (rule postsI) (rule repairedI, use inv sn v w 2 wt [OF sn(2)] in \<open>auto simp: rbx_plug\<close>)
  next
    case 3
    let ?v = "Nd Red v b u"
    have "posts st (plug ?t (CR s cp p # ds)) (m_rbt_remove_rebalance a st) (repaired x ?v p ?t ds)"
      unfolding sn(1)
      by (rule rebalance_up_right [OF _ 3(2,1) K]) (use T sn inv 3 in \<open>auto simp: deficient_def\<close>)
    then show ?thesis by (rule posts_mono) (rule repaired_up(2), use sn in auto)
  qed
qed

text \<open>Sibling red: one rotation makes the sibling black and the parent red.\<close>

lemma rebalance_rot_left:
  assumes "trep st (plug (Nd Black l a r) (CL cp p (Nd Red u s v) # ds))"
    and K: "\<And>st'. trep st' (plug (Nd Black l a r) (CL Red p u # CL Black s v # ds)) \<Longrightarrow>
      posts st' (plug (Nd Black l a r) (CL Red p u # CL Black s v # ds)) (m_rbt_remove_rebalance a st') Q"
  shows "posts st (plug (Nd Black l a r) (CL cp p (Nd Red u s v) # ds)) (m_rbt_remove_rebalance a st) Q"
proof -
  let ?t = "Nd Black l a r"
  note T = assms(1)
  have P: "trep st (plug (Nd cp ?t p (Nd Red u s v)) ds)"
    and S: "trep st (plug (Nd Red u s v) (CR ?t cp p # ds))" using T by simp_all
  have step: "m_rbt_remove_rebalance a st = m_rbt_set_color p 0 st \<bind> (\<lambda>st1. m_rbt_set_color s 1 st1 \<bind>
      (\<lambda>st2. node_at st2 p \<bind> (\<lambda>p'. (if a = n_left p' then m_rbt_rotate_left p st2
         else m_rbt_rotate_right p st2) \<bind> m_rbt_remove_rebalance a)))"
    using color_plug [OF T] parent_plug [OF T] sibling_plug [OF T] color_plug [OF S]
      trep_even [OF T] trep_even [OF P]
    by (subst m_rbt_remove_rebalance.simps) simp
  have "posts st (plug (Nd cp ?t p (Nd Red u s v)) ds) (m_rbt_remove_rebalance a st) Q"
    unfolding step
  proof (rule posts_bind [OF set_red_plug [OF P]], goal_cases)
    case (1 st1)
    then have "trep st1 (plug (Nd Red u s v) (CR ?t Red p # ds))" by simp
    from set_black_plug [OF this]
    have "post st1 (plug (Nd Red ?t p (Nd Red u s v)) ds) (m_rbt_set_color s 1 st1)
      (plug (Nd Red ?t p (Nd Black u s v)) ds)" by simp
    then show ?case
    proof (rule posts_bind, goal_cases)
      case (1 st2)
      have "posts st2 (plug (Nd Red ?t p (Nd Black u s v)) ds)
         (m_rbt_rotate_left p st2 \<bind> m_rbt_remove_rebalance a) Q"
        by (rule posts_bind [OF rotate_left_plug [OF 1]]) (use K in simp_all)
      then show ?case by (simp add: node_at_plug [OF 1])
    qed simp
  qed simp
  then show ?thesis by simp
qed

lemma rebalance_rot_right:
  assumes "trep st (plug (Nd Black l a r) (CR (Nd Red v s u) cp p # ds))"
    and K: "\<And>st'. trep st' (plug (Nd Black l a r) (CR u Red p # CR v Black s # ds)) \<Longrightarrow>
      posts st' (plug (Nd Black l a r) (CR u Red p # CR v Black s # ds)) (m_rbt_remove_rebalance a st') Q"
  shows "posts st (plug (Nd Black l a r) (CR (Nd Red v s u) cp p # ds)) (m_rbt_remove_rebalance a st) Q"
proof -
  let ?t = "Nd Black l a r"
  note T = assms(1)
  have P: "trep st (plug (Nd cp (Nd Red v s u) p ?t) ds)"
    and S: "trep st (plug (Nd Red v s u) (CL cp p ?t # ds))" using T by simp_all
  have neq: "a \<noteq> s" using focus_neq(5) [OF T refl] by fastforce
  have step: "m_rbt_remove_rebalance a st = m_rbt_set_color p 0 st \<bind> (\<lambda>st1. m_rbt_set_color s 1 st1 \<bind>
      (\<lambda>st2. node_at st2 p \<bind> (\<lambda>p'. (if a = n_left p' then m_rbt_rotate_left p st2
         else m_rbt_rotate_right p st2) \<bind> m_rbt_remove_rebalance a)))"
    using color_plug [OF T] parent_plug [OF T] sibling_plug' [OF T] color_plug [OF S]
      trep_even [OF T] trep_even [OF P]
    by (subst m_rbt_remove_rebalance.simps) simp
  have "posts st (plug (Nd cp (Nd Red v s u) p ?t) ds) (m_rbt_remove_rebalance a st) Q"
    unfolding step
  proof (rule posts_bind [OF set_red_plug [OF P]], goal_cases)
    case (1 st1)
    then have "trep st1 (plug (Nd Red v s u) (CL Red p ?t # ds))" by simp
    from set_black_plug [OF this]
    have "post st1 (plug (Nd Red (Nd Red v s u) p ?t) ds) (m_rbt_set_color s 1 st1)
      (plug (Nd Red (Nd Black v s u) p ?t) ds)" by simp
    then show ?case
    proof (rule posts_bind, goal_cases)
      case (1 st2)
      have "posts st2 (plug (Nd Red (Nd Black v s u) p ?t) ds)
         (m_rbt_rotate_right p st2 \<bind> m_rbt_remove_rebalance a) Q"
        by (rule posts_bind [OF rotate_right_plug [OF 1]]) (use K in simp_all)
      then show ?case using neq by (simp add: node_at_plug [OF 1])
    qed simp
  qed simp
  then show ?thesis by simp
qed

lemma rebalance_red_repaired:
  assumes "trep st (plug (Nd Red l a r) cs)" "deficient x Red l a r cs"
  shows "posts st (plug (Nd Red l a r) cs) (m_rbt_remove_rebalance a st) (repaired x l a r cs)"
  by (rule postsI [OF rebalance_red [OF assms(1)]], rule repairedI)
    (use assms(2) in \<open>auto simp: deficient_def rbx_plug\<close>)

lemma rebalance_correct:
  assumes "trep st (plug (Nd c l a r) cs)" "deficient x c l a r cs"
  shows "posts st (plug (Nd c l a r) cs) (m_rbt_remove_rebalance a st) (repaired x l a r cs)"
  using assms
proof (induction "length cs" arbitrary: st c l a r cs rule: less_induct)
  case less
  note T = less.prems(1) and D = less.prems(2)
  show ?case
  proof (cases c)
    case Red
    then show ?thesis using rebalance_red_repaired T D by simp
  next
    case Black
    show ?thesis
    proof (cases cs rule: topcol.cases)
      case 1
      then have "post st (plug (Nd c l a r) cs) (m_rbt_remove_rebalance a st) (plug (Nd c l a r) cs)"
        using rebalance_root [of st l a r] T Black post_refl by simp
      then show ?thesis
        by (rule postsI) (rule repairedI, use D Black 1 in \<open>auto simp: deficient_def rbx_def\<close>)
    next
      case (2 cp p s ds)
      show ?thesis
      proof (cases "tcol s")
        case sB: Black
        show ?thesis using T D sB less.hyps unfolding Black 2
          by (intro rebalance_black_left) auto
      next
        case sR: Red
        then obtain u b v where s: "s = Nd Red u b v" by (cases s) auto
        have b: "b \<noteq> x" "p \<noteq> x" using T D 2 s by (auto simp: trep_plug deficient_def)
        have D': "deficient x Black l a r (CL Red p u # CL Black b v # ds)"
          using D b Black 2 s by (auto simp: deficient_def)
        have u: "tcol u = Black" using D 2 s by (simp add: deficient_def)
        have "posts st (plug (Nd Black l a r) (CL cp p s # ds)) (m_rbt_remove_rebalance a st)
           (repaired x l a r (CL Red p u # CL Black b v # ds))"
          unfolding s
          by (rule rebalance_rot_left, use T Black 2 s in simp,
              rule rebalance_black_left [OF _ D' u rebalance_red_repaired])
        then show ?thesis unfolding Black 2
          by (rule posts_mono) (erule repaired_cong, use s in auto)
      qed
    next
      case (3 s cp p ds)
      show ?thesis
      proof (cases "tcol s")
        case sB: Black
        show ?thesis using T D sB less.hyps unfolding Black 3
          by (intro rebalance_black_right) auto
      next
        case sR: Red
        then obtain v b u where s: "s = Nd Red v b u" by (cases s) auto
        have b: "b \<noteq> x" "p \<noteq> x" using T D 3 s by (auto simp: trep_plug deficient_def)
        have D': "deficient x Black l a r (CR u Red p # CR v Black b # ds)"
          using D b Black 3 s by (auto simp: deficient_def)
        have u: "tcol u = Black" using D 3 s by (simp add: deficient_def)
        have "posts st (plug (Nd Black l a r) (CR s cp p # ds)) (m_rbt_remove_rebalance a st)
           (repaired x l a r (CR u Red p # CR v Black b # ds))"
          unfolding s
          by (rule rebalance_rot_right, use T Black 3 s in simp,
              rule rebalance_black_right [OF _ D' u rebalance_red_repaired])
        then show ?thesis unfolding Black 3
          by (rule posts_mono) (erule repaired_cong, use s in auto)
      qed
    qed
  qed
qed

end
