(* ===== verification/RBTree_Search.thy ===== *)
theory RBTree_Search
  imports RBTree_Insert "HOL-Library.Multiset"
begin

text \<open>
  Searching (\<open>m_rbt_lookup\<close>, \<open>m_rbt_lookup_insert\<close>), the order of the keys, and walking
  the tree (\<open>m_rbt_first_node\<close>, \<open>m_rbt_next_node\<close> and their mirror images,
  \<open>m_rbt_deinit\<close>).
\<close>

subsection \<open>The order of the nodes\<close>

definition key_sorted :: "'k M_RBTreeOps \<Rightarrow> 'k set \<Rightarrow> addr list \<Rightarrow> bool" where
  "key_sorted ops K xs \<longleftrightarrow>
     sorted_wrt (\<lambda>a b. rb_cmp ops (rb_get_key ops a) (rb_get_key ops b) < 0) xs \<and>
     (\<forall>a \<in> set xs. rb_get_key ops a \<in> K)"

definition key_find :: "'k M_RBTreeOps \<Rightarrow> 'k \<Rightarrow> addr list \<Rightarrow> addr option" where
  "key_find ops k xs = List.find (\<lambda>a. rb_cmp ops k (rb_get_key ops a) = 0) xs"

subsection \<open>What a search reads\<close>

text \<open>Two trees and operations that a search for \<open>k\<close> cannot distinguish when it looks at no
  other nodes than \<open>C\<close>.\<close>

definition same_nodes :: "'k M_RBTreeOps \<Rightarrow> 'k \<Rightarrow> M_RBTree \<Rightarrow> addr set \<Rightarrow> 'k M_RBTreeOps \<Rightarrow> M_RBTree \<Rightarrow> bool" where
  "same_nodes ops k st C ops' st' \<longleftrightarrow> root st' = root st \<and>
     (\<forall>a \<in> C. nodes st' a = nodes st a \<and> rb_cmp ops' k (rb_get_key ops' a) = rb_cmp ops k (rb_get_key ops a))"

lemma lookup_loop_reads:
  assumes "trep st (plug t cs)"
  shows "\<exists>C. C \<subseteq> set (addrs t) \<and> card C \<le> height t \<and>
    (\<forall>ops' st'. same_nodes ops k st C ops' st' \<longrightarrow> lookup_loop ops' k st' (raddr t) = lookup_loop ops k st (raddr t))"
  using assms
proof (induction t arbitrary: cs)
  case Tip
  then show ?case by (intro exI [of _ "{}"]) (simp add: lookup_loop.simps)
next
  case (Nd c l a r)
  note read = trep_even [OF Nd.prems] node_at_plug [OF Nd.prems]
  let ?v = "rb_cmp ops k (rb_get_key ops a)"
  define t where "t = (if ?v < 0 then l else r)"
  have "\<exists>D \<subseteq> set (addrs t). card D \<le> height t \<and>
    (\<forall>ops' st'. same_nodes ops k st D ops' st' \<longrightarrow> lookup_loop ops' k st' (raddr t) = lookup_loop ops k st (raddr t))"
  proof (cases "?v < 0")
    case True
    have "trep st (plug l (CL c a r # cs))" using Nd.prems by simp
    from Nd.IH(1) [OF this] show ?thesis by (simp add: t_def True)
  next
    case False
    have "trep st (plug r (CR l c a # cs))" using Nd.prems by simp
    from Nd.IH(2) [OF this] show ?thesis by (simp add: t_def False)
  qed
  then obtain D where D: "D \<subseteq> set (addrs t)" "card D \<le> height t"
      "\<And>ops' st'. same_nodes ops k st D ops' st' \<Longrightarrow> lookup_loop ops' k st' (raddr t) = lookup_loop ops k st (raddr t)"
    by blast
  have "finite D" using D(1) by (rule finite_subset) simp
  then have "card (insert a D) \<le> height (Nd c l a r)"
    using D(2) card_insert_le_m1 [of "Suc (card D)" D a] by (auto simp: t_def card_insert_if split: if_splits)
  moreover have "lookup_loop ops' k st' a = lookup_loop ops k st a" if S: "same_nodes ops k st (insert a D) ops' st'" for ops' st'
  proof -
    have "same_nodes ops k st D ops' st'" "node_at st' a = node_at st a" "rb_cmp ops' k (rb_get_key ops' a) = ?v"
      using S by (auto simp: same_nodes_def node_at_def rd_def)
    then show ?thesis using read(1,7) D(3) [of ops' st']
      by (subst (1 2) lookup_loop.simps) (auto simp: Let_def t_def)
  qed
  ultimately show ?case using D(1) by (intro exI [of _ "insert a D"]) (auto simp: t_def split: if_splits)
qed

locale rb_table = key_cmp "rb_cmp ops" K for ops :: "'k M_RBTreeOps" and K :: "'k set"
begin

abbreviation key :: "addr \<Rightarrow> 'k" where "key \<equiv> rb_get_key ops"
abbreviation cmp :: "'k \<Rightarrow> 'k \<Rightarrow> int" where "cmp \<equiv> rb_cmp ops"

lemma left_of:
  assumes "key_sorted ops K (us @ a # vs)" "k \<in> K" "cmp k (key a) < 0"
  shows "\<forall>b \<in> set (a # vs). cmp k (key b) < 0"
proof
  fix b
  assume b: "b \<in> set (a # vs)"
  show "cmp k (key b) < 0"
  proof (cases "b = a")
    case False
    then have "cmp (key a) (key b) < 0" "key a \<in> K" "key b \<in> K"
      using b assms(1) by (auto simp: key_sorted_def sorted_wrt_append)
    then show ?thesis using cmp_less_trans [of k "key a" "key b"] assms by simp
  qed (use assms in simp)
qed

lemma right_of:
  assumes "key_sorted ops K (us @ a # vs)" "k \<in> K" "0 < cmp k (key a)"
  shows "\<forall>b \<in> set (us @ [a]). 0 < cmp k (key b)"
proof
  fix b
  assume b: "b \<in> set (us @ [a])"
  have a: "key a \<in> K" using assms(1) by (auto simp: key_sorted_def)
  show "0 < cmp k (key b)"
  proof (cases "b = a")
    case False
    then have "cmp (key b) (key a) < 0" "key b \<in> K"
      using b assms(1) by (auto simp: key_sorted_def sorted_wrt_append)
    moreover have "cmp (key a) k < 0" using assms a cmp_flip by blast
    ultimately have "cmp (key b) k < 0"
      using cmp_less_trans [of "key b" "key a" k] assms a by simp
    then show ?thesis using cmp_flip assms \<open>key b \<in> K\<close> by blast
  qed (use assms in simp)
qed

lemma find_left:
  assumes "key_sorted ops K (us @ a # vs)" "k \<in> K" "cmp k (key a) < 0"
  shows "key_find ops k (us @ a # vs) = key_find ops k us"
proof -
  have "List.find (\<lambda>b. cmp k (key b) = 0) (a # vs) = None"
    using left_of [OF assms] by (fastforce simp: find_None_iff)
  then show ?thesis by (simp add: key_find_def find_append split: option.splits)
qed

lemma find_right:
  assumes "key_sorted ops K (us @ a # vs)" "k \<in> K" "0 < cmp k (key a)"
  shows "key_find ops k (us @ a # vs) = key_find ops k vs"
proof -
  have "List.find (\<lambda>b. cmp k (key b) = 0) us = None" "cmp k (key a) \<noteq> 0"
    using right_of [OF assms] by (fastforce simp: find_None_iff)+
  then show ?thesis by (simp add: key_find_def find_append split: option.splits)
qed

lemma find_here:
  assumes "key_sorted ops K (us @ a # vs)" "k \<in> K" "cmp k (key a) = 0"
  shows "key_find ops k (us @ a # vs) = Some a"
proof -
  have "List.find (\<lambda>b. cmp k (key b) = 0) us = None"
  proof (rule ccontr)
    assume "List.find (\<lambda>b. cmp k (key b) = 0) us \<noteq> None"
    then obtain b where b: "b \<in> set us" "cmp k (key b) = 0" by (auto simp: find_None_iff)
    then have "cmp (key b) (key a) < 0" "key b \<in> K" "key a \<in> K"
      using assms(1) by (auto simp: key_sorted_def sorted_wrt_append)
    then show False using cmp_trans_less [of k "key b" "key a"] b assms by simp
  qed
  then show ?thesis using assms by (simp add: key_find_def find_append)
qed

lemma lookup_loop_tree:
  assumes "trep st (plug t cs)" "key_sorted ops K (addrs t)" "k \<in> K"
  shows "lookup_loop ops k st (raddr t) =
    Some (case key_find ops k (addrs t) of None \<Rightarrow> 0 | Some a \<Rightarrow> a)"
  using assms
proof (induction t arbitrary: cs)
  case Tip
  then show ?case by (subst lookup_loop.simps) (simp add: key_find_def)
next
  case (Nd c l a r)
  note read = trep_even [OF Nd.prems(1)] node_at_plug [OF Nd.prems(1)]
  have S: "key_sorted ops K (addrs l @ a # addrs r)" using Nd.prems(2) by simp
  then have sub: "key_sorted ops K (addrs l)" "key_sorted ops K (addrs r)" "key a \<in> K"
    by (auto simp: key_sorted_def sorted_wrt_append)
  consider "cmp k (key a) = 0" | "cmp k (key a) < 0" | "0 < cmp k (key a)" by linarith
  then show ?case
  proof cases
    case 1
    then show ?thesis using read find_here [OF S Nd.prems(3) 1]
      by (subst lookup_loop.simps) simp
  next
    case 2
    then show ?thesis
      using read Nd.IH(1) [of "CL c a r # cs"] Nd.prems sub find_left [OF S Nd.prems(3) 2]
      by (subst lookup_loop.simps) simp
  next
    case 3
    then show ?thesis
      using read Nd.IH(2) [of "CR l c a # cs"] Nd.prems sub find_right [OF S Nd.prems(3) 3]
      by (subst lookup_loop.simps) simp
  qed
qed

lemma lookup_insert_loop_tree:
  assumes "trep st (plug t cs)" "key_sorted ops K (addrs t)" "k \<in> K"
  shows "(\<exists>a. key_find ops k (addrs t) = Some a \<and>
            lookup_insert_loop ops k st (paddr cs) (slot_of cs) (raddr t) = Some (a, None)) \<or>
    (\<exists>ds. key_find ops k (addrs t) = None \<and> plug t cs = plug Tip (ds @ cs) \<and>
       lookup_insert_loop ops k st (paddr cs) (slot_of cs) (raddr t) =
         Some (0, Some (paddr (ds @ cs), slot_of (ds @ cs))) \<and>
       (\<forall>b \<in> set (before ds). 0 < cmp k (key b)) \<and> (\<forall>b \<in> set (after ds). cmp k (key b) < 0))"
  using assms
proof (induction t arbitrary: cs)
  case Tip
  have "lookup_insert_loop ops k st (paddr cs) (slot_of cs) 0 = Some (0, Some (paddr cs, slot_of cs))"
    by (subst lookup_insert_loop.simps) simp
  then show ?case by (intro disjI2 exI [of _ "[]"]) (simp add: key_find_def)
next
  case (Nd c l a r)
  note read = trep_even [OF Nd.prems(1)] node_at_plug [OF Nd.prems(1)]
  have S: "key_sorted ops K (addrs l @ a # addrs r)" using Nd.prems(2) by simp
  then have sub: "key_sorted ops K (addrs l)" "key_sorted ops K (addrs r)" "key a \<in> K"
    by (auto simp: key_sorted_def sorted_wrt_append)
  consider "cmp k (key a) = 0" | "cmp k (key a) < 0" | "0 < cmp k (key a)" by linarith
  then show ?case
  proof cases
    case 1
    then show ?thesis using read find_here [OF S Nd.prems(3) 1]
      by (subst lookup_insert_loop.simps) simp
  next
    case 2
    then have step: "lookup_insert_loop ops k st (paddr cs) (slot_of cs) a =
        lookup_insert_loop ops k st (paddr (CL c a r # cs)) (slot_of (CL c a r # cs)) (raddr l)"
      using read by (subst lookup_insert_loop.simps) simp
    note found = find_left [OF S Nd.prems(3) 2] and gt = left_of [OF S Nd.prems(3) 2]
    have "trep st (plug l (CL c a r # cs))" using Nd.prems by simp
    from Nd.IH(1) [OF this sub(1) Nd.prems(3)] show ?thesis
    proof (elim disjE exE conjE)
      fix ds
      assume "plug l (CL c a r # cs) = plug Tip (ds @ CL c a r # cs)"
      then show ?thesis if "lookup_insert_loop ops k st (paddr (CL c a r # cs)) (slot_of (CL c a r # cs)) (raddr l)
          = Some (0, Some (paddr (ds @ CL c a r # cs), slot_of (ds @ CL c a r # cs)))"
        "key_find ops k (addrs l) = None"
        "\<forall>b \<in> set (before ds). 0 < cmp k (key b)" "\<forall>b \<in> set (after ds). cmp k (key b) < 0"
        using step found gt that
        by (intro disjI2 exI [of _ "ds @ [CL c a r]"]) (auto simp del: lookup_insert_loop.simps)
    qed (use step found in simp)
  next
    case 3
    then have step: "lookup_insert_loop ops k st (paddr cs) (slot_of cs) a =
        lookup_insert_loop ops k st (paddr (CR l c a # cs)) (slot_of (CR l c a # cs)) (raddr r)"
      using read by (subst lookup_insert_loop.simps) simp
    note found = find_right [OF S Nd.prems(3) 3] and lt = right_of [OF S Nd.prems(3) 3]
    have "trep st (plug r (CR l c a # cs))" using Nd.prems by simp
    from Nd.IH(2) [OF this sub(2) Nd.prems(3)] show ?thesis
    proof (elim disjE exE conjE)
      fix ds
      assume "plug r (CR l c a # cs) = plug Tip (ds @ CR l c a # cs)"
      then show ?thesis if "lookup_insert_loop ops k st (paddr (CR l c a # cs)) (slot_of (CR l c a # cs)) (raddr r)
          = Some (0, Some (paddr (ds @ CR l c a # cs), slot_of (ds @ CR l c a # cs)))"
        "key_find ops k (addrs r) = None"
        "\<forall>b \<in> set (before ds). 0 < cmp k (key b)" "\<forall>b \<in> set (after ds). cmp k (key b) < 0"
        using step found lt that
        by (intro disjI2 exI [of _ "ds @ [CR l c a]"]) (auto simp del: lookup_insert_loop.simps)
    qed (use step found in simp)
  qed
qed

lemma lookup_tree:
  assumes "rbtree st xs" "key_sorted ops K xs" "k \<in> K"
  shows "m_rbt_lookup ops k st = Some (case key_find ops k xs of None \<Rightarrow> 0 | Some a \<Rightarrow> a)"
proof -
  obtain t where "trep st t" "addrs t = xs" using assms(1) by (auto simp: rbtree_def)
  then show ?thesis
    using lookup_loop_tree [of st t "[]" k] assms by (simp add: m_rbt_lookup_def trep_def)
qed

lemma lookup_insert_found:
  assumes "rbtree st xs" "key_sorted ops K xs" "k \<in> K" "key_find ops k xs = Some a"
  shows "m_rbt_lookup_insert ops k st = Some (a, None)"
proof -
  obtain t where "trep st t" "addrs t = xs" using assms(1) by (auto simp: rbtree_def)
  then show ?thesis
    using lookup_insert_loop_tree [of st t "[]" k] assms by (simp add: m_rbt_lookup_insert_def trep_def)
qed

lemma lookup_insert_new:
  assumes "rbtree st xs" "key_sorted ops K xs" "key n \<in> K" "key_find ops (key n) xs = None"
    and n: "n \<noteq> 0" "aligned2 n" "nodes st n \<noteq> None" "n \<notin> set xs"
  obtains p pos st' us vs where "m_rbt_lookup_insert ops (key n) st = Some (0, Some (p, pos))"
    "m_rbt_insert p pos n st = Some st'" "xs = us @ vs" "rbtree st' (us @ n # vs)"
    "key_sorted ops K (us @ n # vs)" "outside (insert n (set xs)) st st'"
proof -
  obtain t where t: "trep st t" "rb t" "addrs t = xs" using assms(1) by (auto simp: rbtree_def)
  then obtain ds where ds: "t = plug Tip ds"
    "m_rbt_lookup_insert ops (key n) st = Some (0, Some (paddr ds, slot_of ds))"
    "\<forall>b \<in> set (before ds). 0 < cmp (key n) (key b)" "\<forall>b \<in> set (after ds). cmp (key n) (key b) < 0"
    using lookup_insert_loop_tree [of st t "[]" "key n"] assms
    by (auto simp: m_rbt_lookup_insert_def trep_def)
  have xs: "xs = before ds @ after ds" using t ds by simp
  obtain st' where ins: "m_rbt_insert (paddr ds) (slot_of ds) n st = Some st'"
    "rbtree st' (before ds @ n # after ds)" "outside (insert n (set (addrs (plug Tip ds)))) st st'"
    by (rule insert_at [of st ds n]) (use t ds n xs in auto)
  have "key_sorted ops K (before ds @ n # after ds)"
    using assms(2,3) ds(3,4) cmp_flip unfolding xs by (auto simp: key_sorted_def sorted_wrt_append)
  then show ?thesis using that [OF ds(2) ins(1) xs ins(2)] ins(3) xs by simp
qed

end

interpretation int_table: rb_table "\<lparr>rb_get_key = key, rb_cmp = m_int_cmp_func, rb_free_node = fr\<rparr>" "{k. k < 2 ^ 31}"
  for key fr
  by (rule rb_table.intro, unfold M_RBTreeOps.select_convs) (rule int_cmp.key_cmp_axioms)

interpretation ptr_table: rb_table "\<lparr>rb_get_key = key, rb_cmp = m_ptr_cmp_func, rb_free_node = fr\<rparr>" "{k. k < 2 ^ 31}"
  for key fr
  by (rule rb_table.intro, unfold M_RBTreeOps.select_convs) (rule ptr_cmp.key_cmp_axioms)

interpretation cstr_table: rb_table "\<lparr>rb_get_key = key, rb_cmp = m_cstr_cmp_func str, rb_free_node = fr\<rparr>" UNIV
  for key str fr
  by (rule rb_table.intro, unfold M_RBTreeOps.select_convs) (rule cstr_cmp.key_cmp_axioms)

interpretation cstr_case_table:
  rb_table "\<lparr>rb_get_key = key, rb_cmp = m_cstr_casecmp_func str, rb_free_node = fr\<rparr>" UNIV
  for key str fr
  by (rule rb_table.intro, unfold M_RBTreeOps.select_convs) (rule cstr_casecmp.key_cmp_axioms)

subsection \<open>Walking the tree\<close>

definition head_or_null :: "addr list \<Rightarrow> addr" where
  "head_or_null xs = (case xs of [] \<Rightarrow> 0 | a # _ \<Rightarrow> a)"

lemma head_or_null_simps [simp]:
  "head_or_null [] = 0" "head_or_null (a # xs) = a"
  "head_or_null (xs @ ys) = (if xs = [] then head_or_null ys else hd xs)"
  by (cases xs; simp add: head_or_null_def)+

lemma addrs_Nil_iff [simp]: "addrs t = [] \<longleftrightarrow> t = Tip"
  by (cases t) auto

lemma leftmost_plug:
  "trep st (plug (Nd c l a r) cs) \<Longrightarrow> leftmost st a = Some (head_or_null (addrs (Nd c l a r)))"
proof (induction l arbitrary: c a r cs)
  case Tip
  then show ?case by (subst leftmost.simps) (simp add: node_at_plug [OF Tip])
next
  case (Nd d ll b lr)
  have sub: "trep st (plug (Nd d ll b lr) (CL c a r # cs))" using Nd.prems by simp
  show ?case using Nd.IH(1) [OF sub] trep_even [OF sub]
    by (subst leftmost.simps) (simp add: node_at_plug [OF Nd.prems])
qed

lemma rightmost_plug:
  "trep st (plug (Nd c l a r) cs) \<Longrightarrow> rightmost st a = Some (last (addrs (Nd c l a r)))"
proof (induction r arbitrary: c l a cs)
  case Tip
  then show ?case by (subst rightmost.simps) (simp add: node_at_plug [OF Tip])
next
  case (Nd d rl b rr)
  have sub: "trep st (plug (Nd d rl b rr) (CR l c a # cs))" using Nd.prems by simp
  show ?case using Nd.IH(2) [OF sub] trep_even [OF sub]
    by (subst rightmost.simps) (simp add: node_at_plug [OF Nd.prems])
qed

lemma next_up_plug:
  "trep st (plug (Nd c l a r) cs) \<Longrightarrow> next_up st a (paddr cs) = Some (head_or_null (after cs))"
proof (induction cs arbitrary: c l a r)
  case Nil
  then show ?case by (subst next_up.simps) simp
next
  case (Cons k cs)
  show ?case
  proof (cases k)
    case (CL d p s)
    then have P: "trep st (plug (Nd d (Nd c l a r) p s) cs)" using Cons.prems by simp
    then show ?thesis using CL trep_even [OF P] by (subst next_up.simps) (simp add: node_at_plug [OF P])
  next
    case (CR s d p)
    then have P: "trep st (plug (Nd d s p (Nd c l a r)) cs)" using Cons.prems by simp
    have "raddr s \<noteq> a" using focus_neq(5) [OF Cons.prems] CR by blast
    then show ?thesis using CR trep_even [OF P] parent_plug [OF P] Cons.IH [OF P]
      by (subst next_up.simps) (simp add: node_at_plug [OF P])
  qed
qed

lemma prev_up_plug:
  "trep st (plug (Nd c l a r) cs) \<Longrightarrow> prev_up st a (paddr cs) = Some (head_or_null (rev (before cs)))"
proof (induction cs arbitrary: c l a r)
  case Nil
  then show ?case by (subst prev_up.simps) simp
next
  case (Cons k cs)
  show ?case
  proof (cases k)
    case (CR s d p)
    then have P: "trep st (plug (Nd d s p (Nd c l a r)) cs)" using Cons.prems by simp
    then show ?thesis using CR trep_even [OF P] by (subst prev_up.simps) (simp add: node_at_plug [OF P])
  next
    case (CL d p s)
    then have P: "trep st (plug (Nd d (Nd c l a r) p s) cs)" using Cons.prems by simp
    have "raddr s \<noteq> a" using focus_neq(4) [OF Cons.prems] CL by blast
    then show ?thesis using CL trep_even [OF P] parent_plug [OF P] Cons.IH [OF P]
      by (subst prev_up.simps) (simp add: node_at_plug [OF P])
  qed
qed

lemma first_node: "rbtree st xs \<Longrightarrow> m_rbt_first_node st = Some (head_or_null xs)"
proof -
  assume "rbtree st xs"
  then obtain t where t: "trep st t" "addrs t = xs" "root st = raddr t"
    by (auto simp: rbtree_def trep_def)
  show ?thesis
  proof (cases t)
    case (Nd c l a r)
    then show ?thesis using t leftmost_plug [of st c l a r "[]"] trep_even(1) [of st c l a r "[]"]
      by (auto simp: m_rbt_first_node_def)
  qed (use t in \<open>simp add: m_rbt_first_node_def\<close>)
qed

lemma last_node: "rbtree st xs \<Longrightarrow> m_rbt_last_node st = Some (head_or_null (rev xs))"
proof -
  assume "rbtree st xs"
  then obtain t where t: "trep st t" "addrs t = xs" "root st = raddr t"
    by (auto simp: rbtree_def trep_def)
  show ?thesis
  proof (cases t)
    case (Nd c l a r)
    then show ?thesis using t rightmost_plug [of st c l a r "[]"] trep_even(1) [of st c l a r "[]"]
      by (auto simp: m_rbt_last_node_def hd_rev)
  qed (use t in \<open>simp add: m_rbt_last_node_def\<close>)
qed

lemma split_at:
  assumes "rbtree st (us @ a # vs)"
  obtains c l r cs where "trep st (plug (Nd c l a r) cs)" "us = before cs @ addrs l"
    "vs = addrs r @ after cs"
proof -
  obtain t where t: "trep st t" "addrs t = us @ a # vs" using assms by (auto simp: rbtree_def)
  then have "a \<in> set (addrs t)" by simp
  then obtain c l r cs where p: "t = plug (Nd c l a r) cs" by (rule tree_at)
  have "distinct (us @ a # vs)" using t by (simp add: trep_def)
  moreover have "us @ a # vs = (before cs @ addrs l) @ a # (addrs r @ after cs)"
    using t p by simp
  ultimately have "us = before cs @ addrs l \<and> vs = addrs r @ after cs"
    by (metis append_Cons_eq_iff distinct_split_notin)
  then show ?thesis using that t p by blast
qed

lemma next_node:
  assumes "rbtree st (us @ a # vs)"
  shows "m_rbt_next_node st a = Some (head_or_null vs)"
proof -
  obtain c l r cs where p: "trep st (plug (Nd c l a r) cs)" "vs = addrs r @ after cs"
    by (rule split_at [OF assms])
  show ?thesis
  proof (cases r)
    case Tip
    then show ?thesis using p next_up_plug [OF p(1)] parent_plug [OF p(1)] trep_even [OF p(1)]
      by (simp add: m_rbt_next_node_def node_at_plug [OF p(1)])
  next
    case (Nd d rl b rr)
    then have sub: "trep st (plug (Nd d rl b rr) (CR l c a # cs))" using p by simp
    show ?thesis using p(2) Nd leftmost_plug [OF sub] trep_even [OF p(1)] trep_even [OF sub]
      by (simp add: m_rbt_next_node_def node_at_plug [OF p(1)])
  qed
qed

lemma prev_node:
  assumes "rbtree st (us @ a # vs)"
  shows "m_rbt_prev_node st a = Some (head_or_null (rev us))"
proof -
  obtain c l r cs where p: "trep st (plug (Nd c l a r) cs)" "us = before cs @ addrs l"
    by (rule split_at [OF assms])
  show ?thesis
  proof (cases l)
    case Tip
    then show ?thesis using p prev_up_plug [OF p(1)] parent_plug [OF p(1)] trep_even [OF p(1)]
      by (simp add: m_rbt_prev_node_def node_at_plug [OF p(1)])
  next
    case (Nd d ll b lr)
    then have sub: "trep st (plug (Nd d ll b lr) (CL c a r # cs))" using p by simp
    show ?thesis using p(2) Nd rightmost_plug [OF sub] trep_even [OF p(1)] trep_even [OF sub]
      by (simp add: m_rbt_prev_node_def node_at_plug [OF p(1)] hd_rev)
  qed
qed

subsection \<open>Clearing the tree\<close>

fun visit :: "(addr \<Rightarrow> M_RBTree \<Rightarrow> M_RBTree option) \<Rightarrow> addr list \<Rightarrow> M_RBTree \<Rightarrow> M_RBTree option" where
  "visit f [] st = Some st"
| "visit f (a # xs) st = f a st \<bind> visit f xs"

lemma visit_append: "visit f (xs @ ys) st = visit f xs st \<bind> visit f ys"
  by (induction xs arbitrary: st) (auto intro!: Option.bind_cong)

fun postorder :: "ptree \<Rightarrow> addr list" where
  "postorder Tip = []"
| "postorder (Nd c l a r) = postorder l @ postorder r @ [a]"

lemma mset_postorder: "mset (postorder t) = mset (addrs t)"
  by (induction t) auto

text \<open>What a \<open>free_node\<close> callback promises: it returns on a node that is still there and
  leaves the other nodes alone.\<close>

definition frees :: "(addr \<Rightarrow> M_RBTree \<Rightarrow> M_RBTree option) \<Rightarrow> addr set \<Rightarrow> bool" where
  "frees f A \<longleftrightarrow> (\<forall>b \<in> A. \<forall>st. nodes st b \<noteq> None \<longrightarrow>
     (\<exists>st'. f b st = Some st' \<and> (\<forall>z. z \<noteq> b \<longrightarrow> nodes st' z = nodes st z)))"

lemma free_node_tree:
  assumes "reps (nodes st) p t" "distinct (addrs t)" "frees f (set (addrs t))"
  shows "\<exists>st'. (if raddr t \<noteq> 0 then m_rbt_free_node f (raddr t) st else Some st) = Some st' \<and>
    visit f (postorder t) st = Some st' \<and> (\<forall>z. z \<notin> set (addrs t) \<longrightarrow> nodes st' z = nodes st z)"
  using assms
proof (induction t arbitrary: st p)
  case (Nd c l a r)
  have fr: "frees f (set (addrs l))" "frees f (set (addrs r))" "frees f {a}"
    using Nd.prems(3) by (auto simp: frees_def)
  have n: "a \<noteq> 0" "nodes st a = Some \<lparr>pcolor = p OR colw c, n_left = raddr l, n_right = raddr r\<rparr>"
    using Nd.prems by auto
  obtain st1 where 1: "(if raddr l \<noteq> 0 then m_rbt_free_node f (raddr l) st else Some st) = Some st1"
    "visit f (postorder l) st = Some st1" "\<And>z. z \<notin> set (addrs l) \<Longrightarrow> nodes st1 z = nodes st z"
    using Nd.IH(1) [of st a] Nd.prems fr by auto
  have "nodes st1 b = nodes st b" if "b \<in> set (addrs r)" for b
    using 1(3) Nd.prems(2) that by auto
  then have "reps (nodes st1) a r" using reps_cong [of r "nodes st1" "nodes st"] Nd.prems(1) by simp
  then obtain st2 where 2: "(if raddr r \<noteq> 0 then m_rbt_free_node f (raddr r) st1 else Some st1) = Some st2"
    "visit f (postorder r) st1 = Some st2" "\<And>z. z \<notin> set (addrs r) \<Longrightarrow> nodes st2 z = nodes st1 z"
    using Nd.IH(2) [of st1 a] Nd.prems fr by auto
  have a1: "nodes st1 a = nodes st a" "nodes st2 a = nodes st a" using 1(3) 2(3) Nd.prems(2) by auto
  then obtain st3 where 3: "f a st2 = Some st3" "\<And>z. z \<noteq> a \<Longrightarrow> nodes st3 z = nodes st2 z"
    using fr(3) n(2) unfolding frees_def by (metis option.distinct(1) singletonI)
  have "m_rbt_free_node f a st =
    (if raddr l \<noteq> 0 then m_rbt_free_node f (raddr l) st else Some st) \<bind> (\<lambda>st1. node_at st1 a \<bind>
      (\<lambda>n1. (if n_right n1 \<noteq> 0 then m_rbt_free_node f (n_right n1) st1 else Some st1) \<bind> f a))"
    using n by (subst m_rbt_free_node.simps) (simp add: node_at_def access)
  also have "\<dots> = (if raddr r \<noteq> 0 then m_rbt_free_node f (raddr r) st1 else Some st1) \<bind> f a"
    unfolding 1(1) using n a1 by (simp add: node_at_def access)
  also have "\<dots> = Some st3" unfolding 2(1) using 3(1) by simp
  finally have "m_rbt_free_node f a st = Some st3" .
  moreover have "visit f (postorder (Nd c l a r)) st = Some st3"
    using 1(2) 2(2) 3(1) by (simp add: visit_append)
  ultimately show ?case using n(1) 1(3) 2(3) 3(2) by auto
qed simp

lemma deinit_tree:
  assumes "rbtree st xs" "rb_free_node ops = Some f" "frees f (set xs)"
  obtains ys st' where "mset ys = mset xs" "m_rbt_deinit ops st = Some st'" "visit f ys st = Some st'"
    "\<And>z. z \<notin> set xs \<Longrightarrow> nodes st' z = nodes st z"
proof -
  obtain t where t: "trep st t" "addrs t = xs" "root st = raddr t" "reps (nodes st) 0 t" "distinct (addrs t)"
    using assms(1) by (auto simp: rbtree_def trep_def)
  obtain st' where "(if raddr t \<noteq> 0 then m_rbt_free_node f (raddr t) st else Some st) = Some st'"
    "visit f (postorder t) st = Some st'" "\<forall>z. z \<notin> set (addrs t) \<longrightarrow> nodes st' z = nodes st z"
    using free_node_tree [OF t(4,5)] assms(3) t(2) by blast
  then show ?thesis
    using t assms(2) by (intro that [of "postorder t" st']) (simp_all add: m_rbt_deinit_def mset_postorder split: if_splits)
qed

end
