(* ===== verification/RBTree_Remove.thy ===== *)
theory RBTree_Remove
  imports RBTree_Rebalance RBTree_Search
begin

text \<open>
  \<open>m_rbt_remove\<close>: the choice of the node that leaves its place, the exchange of that node
  with the removed one, and the unlinking. Together with the rebalancing loop: removal takes
  exactly the given node out of the order of the nodes and keeps the invariants.
\<close>

fun blacken :: "ptree \<Rightarrow> ptree" where
  "blacken Tip = Tip"
| "blacken (Nd c l a r) = Nd Black l a r"

lemma blacken_simps [simp]: "raddr (blacken t) = raddr t" "addrs (blacken t) = addrs t"
  "tcol (blacken t) = Black"
  by (cases t; simp)+

subsection \<open>Paths below a node\<close>

fun pq :: "addr \<Rightarrow> crumb list \<Rightarrow> addr" where
  "pq q [] = q"
| "pq q (k # cs) = caddr k"

fun repi :: "(addr \<rightharpoonup> M_RBNode) \<Rightarrow> addr \<Rightarrow> addr \<Rightarrow> crumb list \<Rightarrow> bool" where
  "repi h q x [] = True"
| "repi h q x (CL c a r # cs) =
     (a \<noteq> 0 \<and> aligned2 a \<and>
      h a = Some \<lparr>pcolor = pq q cs OR colw c, n_left = x, n_right = raddr r\<rparr> \<and>
      reps h a r \<and> repi h q a cs)"
| "repi h q x (CR l c a # cs) =
     (a \<noteq> 0 \<and> aligned2 a \<and>
      h a = Some \<lparr>pcolor = pq q cs OR colw c, n_left = raddr l, n_right = x\<rparr> \<and>
      reps h a l \<and> repi h q a cs)"

lemma paddr_append: "paddr (ics @ cs) = pq (paddr cs) ics"
  by (cases ics) auto

lemma repc_append: "repc h x (ics @ cs) \<longleftrightarrow> repi h (paddr cs) x ics \<and> repc h (zroot x ics) cs"
  by (induction h x ics rule: repc.induct) (auto simp: paddr_append)

lemma zroot_append: "zroot x (ics @ cs) = zroot (zroot x ics) cs"
  by (induction x ics rule: zroot.induct) auto

lemma repi_cong:
  "(\<And>b. b \<in> set (before cs) \<union> set (after cs) \<Longrightarrow> h' b = h b) \<Longrightarrow> repi h' q x cs = repi h q x cs"
proof (induction h' q x cs rule: repi.induct)
  case (2 h' q x c a r cs)
  then show ?case using reps_cong [of r h' h] by auto
next
  case (3 h' q x l c a cs)
  then show ?case using reps_cong [of l h' h] by auto
qed simp

lemma zroot_in: "ics \<noteq> [] \<Longrightarrow> zroot x ics \<in> set (before ics) \<union> set (after ics)"
proof (induction x ics rule: zroot.induct)
  case (2 x k cs)
  then show ?case by (cases "cs = []"; cases k) auto
qed simp

lemma repi_mapped:
  "repi h q x ics \<Longrightarrow> ics \<noteq> [] \<Longrightarrow> zroot x ics \<noteq> 0 \<and> aligned2 (zroot x ics) \<and>
     (\<exists>c l r. h (zroot x ics) = Some \<lparr>pcolor = q OR colw c, n_left = l, n_right = r\<rparr>)"
proof (induction h q x ics rule: repi.induct)
  case (2 h q x c a r cs)
  then show ?case by (cases "cs = []") auto
next
  case (3 h q x l c a cs)
  then show ?case by (cases "cs = []") auto
qed simp

lemma repi_top_upd:
  assumes "repi h q x ics" "ics \<noteq> []" "distinct (before ics @ after ics)"
    "h (zroot x ics) = Some \<lparr>pcolor = q OR colw c, n_left = l, n_right = r\<rparr>" "aligned2 q"
    "h' (zroot x ics) = Some \<lparr>pcolor = q' OR colw c, n_left = l, n_right = r\<rparr>"
    "\<And>b. b \<noteq> zroot x ics \<Longrightarrow> h' b = h b"
  shows "repi h' q' x ics"
  using assms
proof (induction h q x ics rule: repi.induct)
  case (2 h q x d a s cs)
  have z: "zroot a cs \<in> set (before cs) \<union> set (after cs)" if "cs \<noteq> []" using that by (rule zroot_in)
  then have out1: "zroot a cs \<noteq> a" if "cs \<noteq> []" using "2.prems"(3) that by auto
  have out2: "zroot a cs \<notin> set (addrs s)" using "2.prems"(3) z by (cases "cs = []") auto
  have "h' b = h b" if "b \<in> set (addrs s)" for b
    using that out2 by (intro "2.prems"(7)) auto
  then have "reps h' a s" using "2.prems"(1) reps_cong [of s h' h] by simp
  moreover have "d = c" if "cs = []"
  proof -
    have "q OR colw d = q OR colw c" using "2.prems"(1,4) that by simp
    then show ?thesis using pc_color [OF "2.prems"(5)] by (metis colw_eq_iff)
  qed
  moreover have "h' a = h a" if "cs \<noteq> []" using out1 [OF that] "2.prems"(7) [of a] by simp
  ultimately show ?case using 2 by (cases cs) auto
next
  case (3 h q x s d a cs)
  have z: "zroot a cs \<in> set (before cs) \<union> set (after cs)" if "cs \<noteq> []" using that by (rule zroot_in)
  then have out1: "zroot a cs \<noteq> a" if "cs \<noteq> []" using "3.prems"(3) that by auto
  have out2: "zroot a cs \<notin> set (addrs s)" using "3.prems"(3) z by (cases "cs = []") auto
  have "h' b = h b" if "b \<in> set (addrs s)" for b
    using that out2 by (intro "3.prems"(7)) auto
  then have "reps h' a s" using "3.prems"(1) reps_cong [of s h' h] by simp
  moreover have "d = c" if "cs = []"
  proof -
    have "q OR colw d = q OR colw c" using "3.prems"(1,4) that by simp
    then show ?thesis using pc_color [OF "3.prems"(5)] by (metis colw_eq_iff)
  qed
  moreover have "h' a = h a" if "cs \<noteq> []" using out1 [OF that] "3.prems"(7) [of a] by simp
  ultimately show ?case using 3 by (cases cs) auto
qed simp

subsection \<open>Unlinking\<close>

fun is_left_slot :: "crumb list \<Rightarrow> bool" where
  "is_left_slot (CL c a r # cs) = True"
| "is_left_slot _ = False"

lemma set_child_ctx:
  assumes "repc (nodes st) x cs" "distinct (before cs @ after cs)" "root st = zroot x cs"
  obtains st' where
    "(if paddr cs \<noteq> 0 then (if is_left_slot cs then set_left (paddr cs) y st
       else set_right (paddr cs) y st) else Some (st\<lparr>root := y\<rparr>)) = Some st'"
    "root st' = zroot y cs" "repc (nodes st') y cs"
    "\<And>b. b \<notin> set (before cs) \<union> set (after cs) \<Longrightarrow> nodes st' b = nodes st b"
proof (cases cs)
  case Nil
  then show ?thesis using assms by (intro that [of "st\<lparr>root := y\<rparr>"]) auto
next
  case (Cons k ds)
  show ?thesis
  proof (cases k)
    case (CL c a r)
    let ?n = "\<lparr>pcolor = paddr ds OR colw c, n_left = y, n_right = raddr r\<rparr>"
    show ?thesis using assms Cons CL
      by (intro that [of "st\<lparr>nodes := (nodes st)(a \<mapsto> ?n)\<rparr>"]) (auto simp: ops_defs access)
  next
    case (CR l c a)
    let ?n = "\<lparr>pcolor = paddr ds OR colw c, n_left = raddr l, n_right = y\<rparr>"
    show ?thesis using assms Cons CR
      by (intro that [of "st\<lparr>nodes := (nodes st)(a \<mapsto> ?n)\<rparr>"]) (auto simp: ops_defs access)
  qed
qed

lemma unlink_ctx:
  assumes "repc (nodes st) x cs" "root st = zroot x cs" "reps (nodes st) q ch"
    "distinct (before cs @ addrs ch @ after cs)"
  obtains st' where "remove_unlink (paddr cs) (is_left_slot cs) (raddr ch) st = Some st'"
    "trep st' (plug (blacken ch) cs)"
    "\<And>b. b \<notin> set (before cs) \<union> set (addrs ch) \<union> set (after cs) \<Longrightarrow> nodes st' b = nodes st b"
proof -
  obtain st1 where 1:
    "(if paddr cs \<noteq> 0 then (if is_left_slot cs then set_left (paddr cs) (raddr ch) st
       else set_right (paddr cs) (raddr ch) st) else Some (st\<lparr>root := raddr ch\<rparr>)) = Some st1"
    "root st1 = zroot (raddr ch) cs" "repc (nodes st1) (raddr ch) cs"
    "\<And>b. b \<notin> set (before cs) \<union> set (after cs) \<Longrightarrow> nodes st1 b = nodes st b"
    by (rule set_child_ctx [of st x cs "raddr ch"]) (use assms in auto)
  have out: "b \<notin> set (before cs)" "b \<notin> set (after cs)" if "b \<in> set (addrs ch)" for b
    using assms(4) that by auto
  have ch: "reps (nodes st1) q ch"
    by (subst reps_cong [where h = "nodes st"]) (simp_all add: 1(4) assms out)
  show ?thesis
  proof (cases ch)
    case Tip
    then show ?thesis using 1 ch assms(4)
      by (intro that [of st1]) (auto simp: remove_unlink_def trep_plug)
  next
    case (Nd c l a r)
    let ?n = "\<lparr>pcolor = paddr cs OR 1, n_left = raddr l, n_right = raddr r\<rparr>"
    let ?st2 = "st1\<lparr>nodes := (nodes st1)(a \<mapsto> ?n)\<rparr>"
    have n: "a \<noteq> 0" "nodes st1 a = Some \<lparr>pcolor = q OR colw c, n_left = raddr l, n_right = raddr r\<rparr>"
      using ch Nd by auto
    have a: "a \<notin> set (before cs) \<union> set (after cs)" using out [of a] Nd by auto
    show ?thesis
    proof (rule that [of ?st2])
      show "remove_unlink (paddr cs) (is_left_slot cs) (raddr ch) st = Some ?st2"
        unfolding remove_unlink_def 1(1) using n Nd by (simp add: ops_defs access)
      show "trep ?st2 (plug (blacken ch) cs)"
        using 1(2,3) ch assms(4) Nd a by (simp add: trep_plug)
    qed (use 1(4) Nd in auto)
  qed
qed

subsection \<open>The exchange\<close>

lemma swap_ctx:
  assumes T: "trep st (plug (Nd c ll s Tip) (ics @ CL cn a r # cs))"
  shows "\<exists>st'. remove_swap a s st = Some st' \<and>
    repc (nodes st') (if ics = [] then 0 else s) (ics @ CL cn s r # cs) \<and>
    root st' = zroot (if ics = [] then 0 else s) (ics @ CL cn s r # cs) \<and>
    reps (nodes st') s ll \<and>
    (\<forall>b. b \<notin> set (addrs (plug (Nd c ll s Tip) (ics @ CL cn a r # cs))) \<longrightarrow> nodes st' b = nodes st b)"
proof -
  let ?top = "zroot s ics"
  have ctx: "repi (nodes st) a s ics" "repc (nodes st) a cs" "reps (nodes st) a r"
    "reps (nodes st) s ll" "root st = zroot a cs" "a \<noteq> 0" "aligned2 a" "s \<noteq> 0" "aligned2 s"
    and na: "nodes st a = Some \<lparr>pcolor = paddr cs OR colw cn, n_left = ?top, n_right = raddr r\<rparr>"
    and ns: "nodes st s = Some \<lparr>pcolor = paddr (ics @ CL cn a r # cs) OR colw c, n_left = raddr ll, n_right = 0\<rparr>"
    using T by (auto simp: trep_plug repc_append zroot_append)
  have dist: "distinct (before cs @ before ics @ addrs ll @ s # after ics @ a # addrs r @ after cs)"
    using T by (simp add: trep_plug)
  have al: "aligned2 (paddr cs)" by (rule repc_paddr [OF ctx(2)])
  have pic: "set (before ics) \<union> set (after ics) \<subseteq> - ({s, a} \<union> set (addrs ll) \<union> set (addrs r) \<union> set (before cs) \<union> set (after cs))"
    using dist by auto
  have top: "?top \<in> set (before ics) \<union> set (after ics)" "?top \<noteq> s" "?top \<noteq> a" if "ics \<noteq> []"
    using zroot_in [OF that, of s] pic by auto
  have same: "s = ?top \<longleftrightarrow> ics = []" using top(2) by (cases "ics = []") auto
  let ?left = "if ics = [] then 0 else ?top"
  let ?s = "\<lparr>pcolor = paddr cs OR colw cn, n_left = ?left, n_right = raddr r\<rparr>"
  let ?st3 = "st\<lparr>nodes := (nodes st)(s \<mapsto> ?s)\<rparr>"
  have i3: "repi (nodes ?st3) a s ics"
    by (subst repi_cong [where h = "nodes st"]) (use pic ctx in auto)
  obtain st4 where 4: "(if ?left \<noteq> 0 then m_rbt_set_parent ?left s ?st3 else Some ?st3) = Some st4"
    "root st4 = root st" "repi (nodes st4) s s ics"
    "\<And>b. b \<notin> set (before ics) \<union> set (after ics) \<Longrightarrow> nodes st4 b = nodes ?st3 b"
  proof (cases "ics = []")
    case True
    then show ?thesis by (intro that [of ?st3]) auto
  next
    case False
    then obtain d l r' where t: "?top \<noteq> 0" "aligned2 ?top"
      "nodes ?st3 ?top = Some \<lparr>pcolor = a OR colw d, n_left = l, n_right = r'\<rparr>"
      using repi_mapped [OF i3] by blast
    let ?st4 = "?st3\<lparr>nodes := (nodes ?st3)(?top \<mapsto> \<lparr>pcolor = s OR colw d, n_left = l, n_right = r'\<rparr>)\<rparr>"
    have "repi (nodes ?st4) s s ics"
      by (rule repi_top_upd [OF i3 False _ t(3)]) (use dist ctx in auto)
    then show ?thesis
      using False t top set_parent_at [OF t(3,1)] ctx(7) by (intro that [of ?st4]) auto
  qed
  have "nodes st4 b = nodes st b" if "b \<in> set (addrs r)" for b
    using that dist by (subst "4"(4)) auto
  then have r4: "reps (nodes st4) a r" using reps_cong [of r "nodes st4" "nodes st"] ctx(3) by simp
  obtain st5 where 5: "(if raddr r \<noteq> 0 then m_rbt_set_parent (raddr r) s st4 else Some st4) = Some st5"
    "root st5 = root st4" "reps (nodes st5) s r" "\<And>b. b \<notin> set (addrs r) \<Longrightarrow> nodes st5 b = nodes st4 b"
    by (rule set_parent_subtree [OF r4, of s]) (use ctx dist in auto)
  have "nodes st5 b = nodes st b" if "b \<in> set (before cs) \<union> set (after cs)" for b
    using that dist by (subst "5"(4), force, subst "4"(4)) auto
  then have c5: "repc (nodes st5) a cs" using repc_cong [of cs "nodes st5" "nodes st"] ctx(2) by blast
  obtain st6 where 6: "replace_child (paddr cs) a s st5 = Some st6" "root st6 = zroot s cs"
    "repc (nodes st6) s cs" "\<And>b. b \<notin> set (before cs) \<union> set (after cs) \<Longrightarrow> nodes st6 b = nodes st5 b"
    by (rule replace_child_ctx [OF c5, of s]) (use ctx dist 4(2) 5(2) in auto)
  show ?thesis
  proof (intro exI [of _ st6] conjI allI impI)
    have "remove_swap a s st = (if ?left \<noteq> 0 then m_rbt_set_parent ?left s ?st3 else Some ?st3) \<bind>
      (\<lambda>st4. (if raddr r \<noteq> 0 then m_rbt_set_parent (raddr r) s st4 else Some st4) \<bind>
        replace_child (paddr cs) a s)"
      using na ns ctx al top(2) same
      by (simp add: remove_swap_def node_at_def m_rbt_parent_def set_left_def set_right_def
          upd_node_def access Let_def)
    then show "remove_swap a s st = Some st6" by (simp only: 4(1) 5(1) 6(1) Option.bind.simps)
    show "root st6 = zroot (if ics = [] then 0 else s) (ics @ CL cn s r # cs)"
      using 6(2) by (simp add: zroot_append)
    have eq: "nodes st6 b = nodes ?st3 b" if "b \<in> insert s (set (addrs ll))" for b
      using that dist by (subst "6"(4), force, subst "5"(4), force, subst "4"(4)) auto
    have "nodes st6 b = nodes st4 b" if "b \<in> set (before ics) \<union> set (after ics)" for b
      using that dist by (subst "6"(4), force, subst "5"(4)) auto
    then have "repi (nodes st6) s s ics" using repi_cong [of ics "nodes st6" "nodes st4"] 4(3) by blast
    moreover have "nodes st6 b = nodes st5 b" if "b \<in> set (addrs r)" for b
      using that dist by (subst "6"(4)) auto
    then have "reps (nodes st6) s r" using reps_cong [of r "nodes st6" "nodes st5"] 5(3) by simp
    moreover have "nodes st6 s = Some ?s" using eq by simp
    ultimately show "repc (nodes st6) (if ics = [] then 0 else s) (ics @ CL cn s r # cs)"
      using 6(3) ctx by (auto simp: repc_append)
    have "nodes st6 b = nodes st b" if "b \<in> set (addrs ll)" for b
      using eq [of b] that dist by auto
    then show "reps (nodes st6) s ll" using reps_cong [of ll "nodes st6" "nodes st"] ctx(4) by simp
    fix b
    assume "b \<notin> set (addrs (plug (Nd c ll s Tip) (ics @ CL cn a r # cs)))"
    then show "nodes st6 b = nodes st b" by (simp add: 6(4) 5(4) 4(4))
  qed
qed

subsection \<open>The right spine of a subtree\<close>

fun rights :: "crumb list \<Rightarrow> bool" where
  "rights [] = True"
| "rights (CL c a r # cs) = False"
| "rights (CR l c a # cs) = rights cs"

lemma rights_append [simp]: "rights (cs @ ds) \<longleftrightarrow> rights cs \<and> rights ds"
  by (induction cs rule: rights.induct) auto

lemma rights_after [simp]: "rights cs \<Longrightarrow> after cs = []"
  by (induction cs rule: rights.induct) auto

lemma rights_slot:
  "rights ics \<Longrightarrow> is_left_slot (ics @ CL c a r # cs) \<longleftrightarrow> ics = []"
  "paddr (ics @ CL c a r # cs) = (if ics = [] then a else paddr ics)"
  by (cases ics rule: rights.cases; simp)+

lemma right_spine:
  "t \<noteq> Tip \<Longrightarrow> \<exists>c l s ics. t = plug (Nd c l s Tip) ics \<and> rights ics"
proof (induction t)
  case (Nd c l a r)
  show ?case
  proof (cases r)
    case Tip
    then show ?thesis by (intro exI [of _ c] exI [of _ l] exI [of _ a] exI [of _ "[]"]) simp
  next
    case (Nd d u b v)
    then obtain c' l' s ics where "r = plug (Nd c' l' s Tip) ics" "rights ics" using Nd.IH(2) by auto
    then show ?thesis
      by (intro exI [of _ c'] exI [of _ l'] exI [of _ s] exI [of _ "ics @ [CR l c a]"])
        (simp add: plug_append)
  qed
qed simp

lemma next_is_ancestor:
  "after cs = a # vs \<Longrightarrow> \<exists>ics c r ds. cs = ics @ CL c a r # ds \<and> rights ics"
proof (induction cs rule: after.induct)
  case (2 c b r cs)
  then show ?case by (intro exI [of _ "[]"]) auto
next
  case (3 l c b cs)
  then obtain ics d r ds where "cs = ics @ CL d a r # ds" "rights ics" by auto
  then show ?case by (intro exI [of _ "CR l c b # ics"]) auto
qed simp

fun slot_parent :: "rslot \<Rightarrow> addr" where
  "slot_parent RootSlot = 0"
| "slot_parent (LeftOf a) = a"
| "slot_parent (RightOf a) = a"

lemma slot_position:
  assumes "slot_of cs = slot_of ds"
  shows "paddr cs = paddr ds" "is_left_slot cs = is_left_slot ds"
proof -
  have "paddr ds = slot_parent (slot_of ds)" "is_left_slot ds \<longleftrightarrow> (\<exists>a. slot_of ds = LeftOf a)" for ds
    by (cases ds rule: slot_of.cases; simp)+
  then show "paddr cs = paddr ds" "is_left_slot cs = is_left_slot ds" using assms by simp_all
qed

subsection \<open>The plan\<close>

lemma remove_plan_one:
  assumes T: "trep st (plug (Nd c sl s sr) cs)" and "sl = Tip \<or> sr = Tip"
  shows "remove_plan s st = Some (s, paddr cs, is_left_slot cs, raddr (if sl \<noteq> Tip then sl else sr))"
proof (cases cs rule: slot_of.cases)
  case (2 d p r ds)
  then have "trep st (plug (Nd d (Nd c sl s sr) p r) ds)" using T by simp
  then show ?thesis
    using 2 assms(2) trep_even [OF T] parent_plug [OF T] node_at_plug [OF T] node_at_plug
    by (auto simp: remove_plan_def)
next
  case 1
  then show ?thesis
    using assms(2) trep_even [OF T] parent_plug [OF T] node_at_plug [OF T]
    by (auto simp: remove_plan_def)
next
  case (3 l d p ds)
  then have "trep st (plug (Nd d l p (Nd c sl s sr)) ds)" "raddr l \<noteq> s"
    using T focus_neq(5) [OF T 3] by simp_all
  then show ?thesis
    using 3 assms(2) trep_even [OF T] parent_plug [OF T] node_at_plug [OF T] node_at_plug
    by (auto simp: remove_plan_def)
qed

lemma remove_plan_two:
  assumes T: "trep st (plug (Nd c ll s Tip) (ics @ CL cn a r # cs))" "rights ics" "r \<noteq> Tip"
  shows "remove_plan a st = Some (s, if ics = [] then s else paddr ics, ics = [], raddr ll)"
proof -
  let ?L = "plug (Nd c ll s Tip) ics"
  have A: "trep st (plug (Nd cn ?L a r) cs)" using T(1) by (simp add: plug_append)
  have L: "raddr ?L = zroot s ics" by (simp add: raddr_plug)
  then have "?L \<noteq> Tip" by (metis addrs_plug addrs.simps append_is_Nil_conv list.distinct(1))
  then obtain d u b v where Lb: "?L = Nd d u b v" by (cases ?L) auto
  then have B: "trep st (plug (Nd d u b v) (CL cn a r # cs))" using A by simp
  have "last (addrs ?L) = s" using T(2) by simp
  then have rm: "rightmost st (raddr ?L) = Some s" using rightmost_plug [OF B] Lb by simp
  have top: "s = zroot s ics \<longleftrightarrow> ics = []"
  proof (cases "ics = []")
    case False
    then have "zroot s ics \<in> set (before ics) \<union> set (after ics)" by (rule zroot_in)
    then show ?thesis using T(1) False by (auto simp: trep_plug)
  qed simp
  note reads = trep_even [OF A] node_at_plug [OF A] node_at_plug [OF T(1)] trep_even [OF T(1)]
    parent_plug [OF T(1)] rm top L trep_even(1) [OF B] Lb
  show ?thesis
  proof (cases ics rule: rights.cases)
    case 1
    then show ?thesis using reads T(3) by (simp add: remove_plan_def)
  next
    case (3 l e p ds)
    then have P: "trep st (plug (Nd e l p (Nd c ll s Tip)) (ds @ CL cn a r # cs))" using T(1) by simp
    have "raddr l \<noteq> s" using focus_neq(5) [OF T(1)] 3 by simp
    then show ?thesis using reads T(3) 3 node_at_plug [OF P] by (simp add: remove_plan_def)
  qed (use T in simp)
qed

subsection \<open>The invariants without the removed node\<close>

lemma bh_ghost: "x \<notin> set (addrs t) \<Longrightarrow> y \<notin> set (addrs t) \<Longrightarrow> bh x t = bh y t"
  by (induction t) (auto simp: weight_def)

lemma invh_ghost: "x \<notin> set (addrs t) \<Longrightarrow> y \<notin> set (addrs t) \<Longrightarrow> invh x t = invh y t"
proof (induction t)
  case (Nd c l a r)
  then show ?case using bh_ghost [of x l y] bh_ghost [of x r y] by simp
qed simp

lemma cinv_ghost:
  "x \<notin> set (before cs) \<union> set (after cs) \<Longrightarrow> y \<notin> set (before cs) \<union> set (after cs) \<Longrightarrow>
     cinv x k cs = cinv y k cs"
proof (induction x k cs rule: cinv.induct)
  case (2 x k c a r cs)
  then have "bh x r = bh y r" "invh x r = invh y r" "weight x c a = weight y c a"
    using bh_ghost [of x r y] invh_ghost [of x r y] by (auto simp: weight_def)
  then show ?case using 2 by simp
next
  case (3 x k l c a cs)
  then have "bh x l = bh y l" "invh x l = invh y l" "weight x c a = weight y c a"
    using bh_ghost [of x l y] invh_ghost [of x l y] by (auto simp: weight_def)
  then show ?case using 3 by simp
qed simp

lemma cinv_rename:
  "a \<noteq> x \<Longrightarrow> b \<noteq> x \<Longrightarrow> cinv x k (ics @ CL c a r # cs) = cinv x k (ics @ CL c b r # cs)"
proof (induction x k ics rule: cinv.induct)
  case (2 x k d e s ics)
  then show ?case by (cases ics rule: topcol.cases) auto
next
  case (3 x k s d e ics)
  then show ?case by (cases ics rule: topcol.cases) auto
qed (simp add: weight_def)

lemma rb_one_child:
  assumes "rb (plug (Nd c sl s sr) cs)" "(sl = Tip \<and> ch = sr) \<or> (sr = Tip \<and> ch = sl)"
    "ch \<noteq> Tip" "0 \<notin> set (addrs (Nd c sl s sr))"
  shows "rb (plug (blacken ch) cs)"
proof -
  have inv: "invc (Nd c sl s sr)" "invh 0 (Nd c sl s sr)" "cinv 0 (bh 0 (Nd c sl s sr)) cs"
    using assms(1) by (auto simp: rbx_plug)
  then have h: "bh 0 ch = 0" "invc ch" "invh 0 ch" using assms(2) by auto
  then obtain l a r where ch: "ch = Nd Red l a r" "bh 0 l = 0"
    using assms(2-4) by (cases ch; cases "tcol ch") (auto simp: weight_def split: if_splits)
  then have "c = Black" using inv(1) assms(2) by (cases c) auto
  moreover have "a \<noteq> 0" "s \<noteq> 0" using assms(2,4) ch by auto
  ultimately show ?thesis using inv h ch assms(2) by (auto simp: rbx_plug)
qed

text \<open>Before a leaf is unlinked the loop runs on it.\<close>

lemma rebalance_leaf:
  assumes T: "trep st (plug (Nd c Tip s Tip) cs)" and "rb (plug (Nd c Tip s Tip) cs)"
  shows "posts st (plug (Nd c Tip s Tip) cs) (m_rbt_remove_rebalance s st) (repaired s Tip s Tip cs)"
proof -
  have s: "s \<noteq> 0" "s \<notin> set (before cs) \<union> set (after cs)" using T by (auto simp: trep_plug)
  have "0 \<notin> set (before cs) \<union> set (after cs)"
    using T reps_mapped [of "nodes st" 0 "plug (Nd c Tip s Tip) cs" 0] by (auto simp: trep_def)
  then have g: "cinv s k cs = cinv 0 k cs" for k using s by (intro cinv_ghost) auto
  have c0: "cinv 0 (bh 0 (Nd c Tip s Tip)) cs" "c = Red \<longrightarrow> topcol cs = Black"
    using assms(2) by (auto simp: rbx_plug)
  show ?thesis
  proof (cases c)
    case Red
    show ?thesis unfolding Red
      by (rule postsI [OF rebalance_red], use T Red in simp, rule repairedI)
        (use c0 g Red in \<open>auto simp: rbx_plug\<close>)
  next
    case Black
    then show ?thesis using T c0 g s
      by (intro rebalance_correct) (auto simp: deficient_def)
  qed
qed

lemma repaired_unlinked:
  assumes "rbx s (plug (Nd c Tip s Tip) cs)" "s \<notin> set (before cs) \<union> set (after cs)"
    "0 \<notin> set (before cs) \<union> set (after cs)"
  shows "rb (plug Tip cs)"
  using assms cinv_ghost [OF assms(2,3)] by (simp add: rbx_plug)

subsection \<open>The exchange and the unlinking together\<close>

lemma exchange_unlink:
  assumes T: "trep st (plug (Nd c ll s Tip) (ics @ CL cn a r # cs))" and "rights ics"
  obtains st' where "(remove_swap a s st \<bind>
      remove_unlink (if ics = [] then s else paddr ics) (ics = []) (raddr ll)) = Some st'"
    "trep st' (plug (blacken ll) (ics @ CL cn s r # cs))"
    "outside (set (addrs (plug (Nd c ll s Tip) (ics @ CL cn a r # cs)))) st st'"
proof -
  obtain st1 where 1: "remove_swap a s st = Some st1"
    "repc (nodes st1) (if ics = [] then 0 else s) (ics @ CL cn s r # cs)"
    "root st1 = zroot (if ics = [] then 0 else s) (ics @ CL cn s r # cs)"
    "reps (nodes st1) s ll"
    "\<forall>b. b \<notin> set (addrs (plug (Nd c ll s Tip) (ics @ CL cn a r # cs))) \<longrightarrow> nodes st1 b = nodes st b"
    using swap_ctx [OF T] by (elim exE conjE)
  obtain st2 where 2:
    "remove_unlink (paddr (ics @ CL cn s r # cs)) (is_left_slot (ics @ CL cn s r # cs)) (raddr ll) st1 = Some st2"
    "trep st2 (plug (blacken ll) (ics @ CL cn s r # cs))"
    "\<And>b. b \<notin> set (before (ics @ CL cn s r # cs)) \<union> set (addrs ll) \<union> set (after (ics @ CL cn s r # cs)) \<Longrightarrow>
       nodes st2 b = nodes st1 b"
    by (rule unlink_ctx [OF 1(2-4)]) (use T in \<open>auto simp: trep_plug\<close>)
  show ?thesis
  proof (rule that [OF _ 2(2)])
    show "(remove_swap a s st \<bind>
      remove_unlink (if ics = [] then s else paddr ics) (ics = []) (raddr ll)) = Some st2"
      using 1(1) 2(1) rights_slot(1) [OF assms(2), of cn s r cs] rights_slot(2) [of ics cn s r cs] by simp
    show "outside (set (addrs (plug (Nd c ll s Tip) (ics @ CL cn a r # cs)))) st st2"
      unfolding outside_def
    proof (intro allI impI)
      fix b
      assume b: "b \<notin> set (addrs (plug (Nd c ll s Tip) (ics @ CL cn a r # cs)))"
      then have "nodes st2 b = nodes st1 b" by (intro 2(3)) auto
      then show "nodes st2 b = nodes st b" using 1(5) b by simp
    qed
  qed
qed

subsection \<open>Removal\<close>

lemma m_rbt_remove_plan:
  assumes "remove_plan a st = Some (s, p, lf, ch)" "a \<noteq> 0"
  shows "m_rbt_remove a st =
    (if ch = 0 then m_rbt_remove_rebalance s st else Some st) \<bind>
      (\<lambda>st1. (if s \<noteq> a then remove_swap a s st1 else Some st1) \<bind> remove_unlink p lf ch)"
  using assms by (simp add: m_rbt_remove_def)

definition removed :: "M_RBTree \<Rightarrow> ptree \<Rightarrow> addr \<Rightarrow> M_RBTree option \<Rightarrow> bool" where
  "removed st t a res \<longleftrightarrow> (\<exists>us vs st' t'. addrs t = us @ a # vs \<and> res = Some st' \<and>
     trep st' t' \<and> rb t' \<and> addrs t' = us @ vs \<and> outside (set (addrs t)) st st')"

lemma removedI:
  "addrs t = us @ a # vs \<Longrightarrow> res = Some st' \<Longrightarrow> trep st' t' \<Longrightarrow> rb t' \<Longrightarrow> addrs t' = us @ vs \<Longrightarrow>
     outside (set (addrs t)) st st' \<Longrightarrow> removed st t a res"
  by (auto simp: removed_def)

lemma trep_zero: "trep st (plug t cs) \<Longrightarrow> 0 \<notin> set (before cs) \<union> set (addrs t) \<union> set (after cs)"
  using reps_mapped [of "nodes st" 0 "plug t cs" 0] by (auto simp: trep_def)

text \<open>A node with at most one child is unlinked itself.\<close>

lemma remove_one:
  assumes T: "trep st (plug (Nd c sl a sr) cs)" and rb: "rb (plug (Nd c sl a sr) cs)"
    and ch: "(sl = Tip \<and> ch = sr) \<or> (sr = Tip \<and> ch = sl)"
  shows "removed st (plug (Nd c sl a sr) cs) a (m_rbt_remove a st)"
proof -
  let ?t = "plug (Nd c sl a sr) cs"
  have plan: "remove_plan a st = Some (a, paddr cs, is_left_slot cs, raddr ch)"
    using remove_plan_one [OF T] ch by (auto split: if_splits)
  note step = m_rbt_remove_plan [OF plan trep_even(1) [OF T]]
  have sub: "reps (nodes st) a ch" using T ch by (auto simp: trep_plug)
  show ?thesis
  proof (cases "ch = Tip")
    case False
    then have st1: "m_rbt_remove a st = remove_unlink (paddr cs) (is_left_slot cs) (raddr ch) st"
      using step raddr_zero_iff [OF sub] by simp
    obtain st' where u: "remove_unlink (paddr cs) (is_left_slot cs) (raddr ch) st = Some st'"
      "trep st' (plug (blacken ch) cs)"
      "\<And>b. b \<notin> set (before cs) \<union> set (addrs ch) \<union> set (after cs) \<Longrightarrow> nodes st' b = nodes st b"
      by (rule unlink_ctx [OF _ _ sub]) (use T ch in \<open>auto simp: trep_plug\<close>)
    have "rb (plug (blacken ch) cs)"
      by (rule rb_one_child [OF rb ch False]) (use trep_zero [OF T] in auto)
    moreover have "addrs ?t = (before cs @ addrs sl) @ a # (addrs sr @ after cs)" by simp
    moreover have "outside (set (addrs ?t)) st st'" using u(3) ch by (auto simp: outside_def)
    ultimately show ?thesis
      unfolding st1 using u(1,2) ch
      by (intro removedI [where us = "before cs @ addrs sl" and vs = "addrs sr @ after cs"]) auto
  next
    case True
    then have leaf: "sl = Tip" "sr = Tip" using ch by auto
    obtain st1 t1 where r: "m_rbt_remove_rebalance a st = Some st1" "trep st1 t1"
      "outside (set (addrs ?t)) st st1" "repaired a Tip a Tip cs t1"
      using rebalance_leaf [of st c a cs] T rb leaf by (auto simp: posts_def post_def)
    then obtain c' cs' where t1: "t1 = plug (Nd c' Tip a Tip) cs'" "slot_of cs' = slot_of cs"
      and ad: "before cs' @ a # after cs' = before cs @ a # after cs" and rb1: "rbx a t1"
      by (auto simp: repaired_def)
    have pos: "paddr cs' = paddr cs" "is_left_slot cs' = is_left_slot cs"
      using slot_position [OF t1(2)] .
    have T1: "trep st1 (plug (Nd c' Tip a Tip) cs')" using r(2) t1 by simp
    obtain st' where u: "remove_unlink (paddr cs') (is_left_slot cs') (raddr Tip) st1 = Some st'"
      "trep st' (plug (blacken Tip) cs')"
      "\<And>b. b \<notin> set (before cs') \<union> set (addrs Tip) \<union> set (after cs') \<Longrightarrow> nodes st' b = nodes st1 b"
      by (rule unlink_ctx [of st1 a cs' 0 Tip]) (use T1 in \<open>auto simp: trep_plug\<close>)
    have res: "m_rbt_remove a st = Some st'" using step True r(1) u(1) pos by simp
    have inv: "rb (plug Tip cs')"
      by (rule repaired_unlinked [of a c' cs']) (use rb1 t1 T1 trep_zero [OF T1] in \<open>auto simp: trep_plug\<close>)
    have eq: "addrs ?t = before cs' @ a # after cs'" using leaf ad by simp
    have "outside (set (addrs ?t)) st st'"
      using u(3) r(3) unfolding outside_def eq by auto
    then show ?thesis
      by (rule removedI [OF eq res _ inv, rotated 2]) (use u(2) in simp_all)
  qed
qed

text \<open>A node with two children is replaced by its predecessor.\<close>

lemma remove_two:
  assumes T: "trep st (plug (Nd c ll s Tip) (ics @ CL cn a r # cs))"
    and rb: "rb (plug (Nd c ll s Tip) (ics @ CL cn a r # cs))" and ics: "rights ics" and r: "r \<noteq> Tip"
  shows "removed st (plug (Nd c ll s Tip) (ics @ CL cn a r # cs)) a (m_rbt_remove a st)"
proof -
  let ?cs = "ics @ CL cn a r # cs"
  let ?t = "plug (Nd c ll s Tip) ?cs"
  note plan = remove_plan_two [OF T ics r]
  have z: "0 \<notin> set (addrs ?t)" using trep_zero [OF T] by auto
  have "a \<noteq> 0" "s \<noteq> a" "s \<noteq> 0" using T by (auto simp: trep_plug repc_append)
  note step = m_rbt_remove_plan [OF plan \<open>a \<noteq> 0\<close>]
  have sub: "reps (nodes st) s ll" using T by (auto simp: trep_plug)
  have rbs: "cinv 0 k (ics' @ CL d s q # ds) = cinv 0 k (ics' @ CL d a q # ds)" for k ics' d q ds
    using \<open>a \<noteq> 0\<close> \<open>s \<noteq> 0\<close> by (rule cinv_rename [symmetric])
  show ?thesis
  proof (cases "ll = Tip")
    case False
    obtain st' where u: "(remove_swap a s st \<bind>
        remove_unlink (if ics = [] then s else paddr ics) (ics = []) (raddr ll)) = Some st'"
      "trep st' (plug (blacken ll) (ics @ CL cn s r # cs))" "outside (set (addrs ?t)) st st'"
      by (rule exchange_unlink [OF T ics])
    have "rb (plug (blacken ll) ?cs)"
      by (rule rb_one_child [OF rb]) (use False z in auto)
    then have "rb (plug (blacken ll) (ics @ CL cn s r # cs))" by (simp add: rbx_plug rbs)
    moreover have "m_rbt_remove a st = Some st'"
      using step False raddr_zero_iff [OF sub] u(1) \<open>s \<noteq> a\<close> by simp
    ultimately show ?thesis
      using u(2,3) ics
      by (intro removedI [where us = "before cs @ before ics @ addrs ll @ [s]" and vs = "addrs r @ after cs"]) auto
  next
    case True
    obtain st1 t1 where rr: "m_rbt_remove_rebalance s st = Some st1" "trep st1 t1"
      "outside (set (addrs ?t)) st st1" "repaired s Tip s Tip ?cs t1"
      using rebalance_leaf [of st c s ?cs] T rb True by (auto simp: posts_def post_def)
    then obtain c' cs' where t1: "t1 = plug (Nd c' Tip s Tip) cs'" "slot_of cs' = slot_of ?cs"
      and ad: "before cs' @ s # after cs' = before ?cs @ s # after ?cs" and rb1: "rbx s t1"
      by (auto simp: repaired_def)
    have T1: "trep st1 (plug (Nd c' Tip s Tip) cs')" using rr(2) t1 by simp
    then have "distinct (before cs' @ s # after cs')" by (simp add: trep_plug)
    then have "after cs' = a # addrs r @ after cs"
      using ad ics by (metis append_Cons_eq_iff distinct_split_notin after.simps(2) after_append
          append_Nil rights_after)
    then obtain ics' d q ds where cs': "cs' = ics' @ CL d a q # ds" "rights ics'"
      using next_is_ancestor by blast
    have pos: "ics' = [] \<longleftrightarrow> ics = []" "(if ics' = [] then s else paddr ics') = (if ics = [] then s else paddr ics)"
      using slot_position [OF t1(2)] rights_slot(1) [OF ics, of cn a r cs]
        rights_slot(1) [OF cs'(2), of d a q ds] rights_slot(2) [of ics cn a r cs]
        rights_slot(2) [of ics' d a q ds] cs'(1) by auto
    note T2 = T1 [unfolded cs'(1)]
    obtain st' where u: "(remove_swap a s st1 \<bind>
        remove_unlink (if ics' = [] then s else paddr ics') (ics' = []) (raddr Tip)) = Some st'"
      "trep st' (plug (blacken Tip) (ics' @ CL d s q # ds))"
      "outside (set (addrs (plug (Nd c' Tip s Tip) (ics' @ CL d a q # ds)))) st1 st'"
      by (rule exchange_unlink [OF T2 cs'(2)])
    have res: "m_rbt_remove a st = Some st'"
      using step True rr(1) u(1) pos \<open>s \<noteq> a\<close> by simp
    have "rb (plug Tip cs')"
      by (rule repaired_unlinked [of s c' cs']) (use rb1 t1 T1 trep_zero [OF T1] in \<open>auto simp: trep_plug\<close>)
    then have inv: "rb (plug Tip (ics' @ CL d s q # ds))" by (simp add: rbx_plug rbs cs')
    have "addrs ?t = before cs' @ s # after cs'" using True ad by simp
    then have eq: "addrs ?t = (before ds @ before ics' @ [s]) @ a # (addrs q @ after ds)"
      using cs' by simp
    have "outside (set (addrs ?t)) st st'"
      using u(3) rr(3) cs' unfolding outside_def eq by auto
    then show ?thesis
      by (rule removedI [OF eq res _ inv, rotated 2]) (use u(2) cs' in simp_all)
  qed
qed

lemma remove_tree:
  assumes "rbtree st (us @ a # vs)"
  obtains st' where "m_rbt_remove a st = Some st'" "rbtree st' (us @ vs)"
    "outside (set (us @ a # vs)) st st'"
proof -
  obtain t where t: "trep st t" "rb t" "addrs t = us @ a # vs" using assms by (auto simp: rbtree_def)
  then have "a \<in> set (addrs t)" by simp
  then obtain c l r cs where p: "t = plug (Nd c l a r) cs" by (rule tree_at)
  have "removed st t a (m_rbt_remove a st)"
  proof (cases "l = Tip \<or> r = Tip")
    case True
    then obtain ch where "(l = Tip \<and> ch = r) \<or> (r = Tip \<and> ch = l)" by auto
    then show ?thesis unfolding p by (intro remove_one) (use t p in auto)
  next
    case False
    then obtain d ll s ics where l: "l = plug (Nd d ll s Tip) ics" "rights ics"
      using right_spine by blast
    then have "t = plug (Nd d ll s Tip) (ics @ CL c a r # cs)" using p by (simp add: plug_append)
    then show ?thesis using t l(2) False remove_two [of st d ll s ics c a r cs] by simp
  qed
  then obtain us' vs' st' t' where r: "addrs t = us' @ a # vs'" "m_rbt_remove a st = Some st'"
    "trep st' t'" "rb t'" "addrs t' = us' @ vs'" "outside (set (addrs t)) st st'"
    by (auto simp: removed_def)
  have "distinct (us @ a # vs)" using t by (simp add: trep_def)
  then have "us' = us" "vs' = vs"
    using r(1) t(3) by (metis append_Cons_eq_iff distinct_split_notin)+
  then show ?thesis using that r t(3) by (auto simp: rbtree_def)
qed

end
