(* ===== verification/RBTree_Dom.thy ===== *)
theory RBTree_Dom
  imports RBTree
begin

text \<open>No operation of the red black tree allocates or frees a node.\<close>

definition allocated :: "M_RBTree \<Rightarrow> addr set" where
  "allocated st = dom (nodes st)"

lemma dom_upd_node: "upd_node a f st = Some st' \<Longrightarrow> allocated st' = allocated st"
  unfolding allocated_def upd_node_def bind_eq_Some_conv using dom_wr by fastforce

lemma allocated_root [simp]: "allocated (st\<lparr>root := a\<rparr>) = allocated st"
  by (simp add: allocated_def)

lemma dom_set_color: "m_rbt_set_color a c st = Some st' \<Longrightarrow> allocated st' = allocated st"
  by (auto simp: m_rbt_set_color_def split: if_splits dest!: dom_upd_node)

lemma dom_set_field:
  "set_left a v st = Some st' \<Longrightarrow> allocated st' = allocated st"
  "set_right a v st = Some st' \<Longrightarrow> allocated st' = allocated st"
  "m_rbt_set_parent a v st = Some st' \<Longrightarrow> allocated st' = allocated st"
  "m_rbt_set_parent_color a v c st = Some st' \<Longrightarrow> allocated st' = allocated st"
  "set_slot s v st = Some st' \<Longrightarrow> allocated st' = allocated st"
  "replace_child p x y st = Some st' \<Longrightarrow> allocated st' = allocated st"
proof -
  show L: "allocated st' = allocated st" if "set_left a v st = Some st'" for a v st'
    using that by (auto simp: set_left_def dest!: dom_upd_node)
  show R: "allocated st' = allocated st" if "set_right a v st = Some st'" for a v st'
    using that by (auto simp: set_right_def dest!: dom_upd_node)
  show "m_rbt_set_parent a v st = Some st' \<Longrightarrow> allocated st' = allocated st"
    by (auto simp: m_rbt_set_parent_def dest!: dom_upd_node)
  show "m_rbt_set_parent_color a v c st = Some st' \<Longrightarrow> allocated st' = allocated st"
    by (auto simp: m_rbt_set_parent_color_def dest!: dom_upd_node)
  show "set_slot s v st = Some st' \<Longrightarrow> allocated st' = allocated st"
    by (cases s) (auto dest!: L R)
  show "replace_child p x y st = Some st' \<Longrightarrow> allocated st' = allocated st"
    by (auto simp: replace_child_def bind_eq_Some_conv split: if_splits dest!: L R)
qed

lemmas dom_dest = dom_set_color dom_set_field

lemma dom_rotate:
  "m_rbt_rotate_left a st = Some st' \<Longrightarrow> allocated st' = allocated st"
  "m_rbt_rotate_right a st = Some st' \<Longrightarrow> allocated st' = allocated st"
  by (auto simp: m_rbt_rotate_left_def m_rbt_rotate_right_def bind_eq_Some_conv split: if_splits dest!: dom_dest)

text \<open>The loops: a judgement that is composed along the code.\<close>

definition keeps :: "M_RBTree \<Rightarrow> M_RBTree option \<Rightarrow> bool" where
  "keeps st r \<longleftrightarrow> (\<forall>st'. r = Some st' \<longrightarrow> allocated st' = allocated st)"

lemma keepsD: "keeps st r \<Longrightarrow> r = Some st' \<Longrightarrow> allocated st' = allocated st"
  by (simp add: keeps_def)

lemma keeps_Some: "allocated st1 = allocated st \<Longrightarrow> keeps st (Some st1)"
  by (simp add: keeps_def)

lemma keeps_if: "keeps st r \<Longrightarrow> keeps st q \<Longrightarrow> keeps st (if c then r else q)"
  by simp

lemma keeps_bind:
  "keeps st r \<Longrightarrow> (\<And>st1. allocated st1 = allocated st \<Longrightarrow> keeps st (f st1)) \<Longrightarrow> keeps st (r \<bind> f)"
  unfolding keeps_def bind_eq_Some_conv by metis

lemma keeps_read:
  fixes r :: "M_RBNode option" and q :: "addr option" and u :: "unit option"
  shows "(\<And>x. keeps st (f x)) \<Longrightarrow> keeps st (r \<bind> f)"
    and "(\<And>x. keeps st (g x)) \<Longrightarrow> keeps st (q \<bind> g)"
    and "(\<And>x. keeps st (k x)) \<Longrightarrow> keeps st (u \<bind> k)"
  unfolding keeps_def bind_eq_Some_conv by blast+

lemma keeps_op:
  assumes "allocated st1 = allocated st"
  shows "keeps st (upd_node a f st1)" "keeps st (m_rbt_set_color a w st1)"
    "keeps st (set_left a v st1)" "keeps st (set_right a v st1)" "keeps st (m_rbt_set_parent a v st1)"
    "keeps st (m_rbt_set_parent_color a v w st1)" "keeps st (set_slot s v st1)"
    "keeps st (replace_child p x y st1)" "keeps st (m_rbt_rotate_left a st1)"
    "keeps st (m_rbt_rotate_right a st1)"
  using assms by (auto simp: keeps_def dest!: dom_dest dom_upd_node dom_rotate)

lemma bind_if: "Option.bind (if c then r else q) f = (if c then Option.bind r f else Option.bind q f)"
  by simp

lemmas keeps_rules = keeps_if keeps_bind keeps_read keeps_op keeps_Some

lemma dom_insert_loop:
  assumes "insert_loop a st = Some st'"
  shows "allocated st' = allocated st"
proof (rule insert_loop.raw_induct [where P = "\<lambda>a st st'. allocated st' = allocated st", OF _ assms], goal_cases)
  case (1 f a st st')
  have IH: "keeps st (f b st1)" if "allocated st1 = allocated st" for b st st1
    using 1(1) [of b st1] that by (simp add: keeps_def)
  show ?case
    by (rule keepsD [OF _ 1(2)], unfold bind_if Option.bind_assoc Option.bind.simps fst_conv snd_conv prod.case,
      intro keeps_rules IH) (assumption | rule refl)+
qed

lemma keeps_insert_loop: "allocated st1 = allocated st \<Longrightarrow> keeps st (insert_loop a st1)"
  by (auto simp: keeps_def dest: dom_insert_loop)

lemma dom_insert: "m_rbt_insert p pos a st = Some st' \<Longrightarrow> allocated st' = allocated st"
  by (erule keepsD [rotated], unfold m_rbt_insert_def, intro keeps_rules keeps_insert_loop)
    (assumption | rule refl)+

lemma dom_rebalance:
  assumes "m_rbt_remove_rebalance a st = Some st'"
  shows "allocated st' = allocated st"
proof (rule m_rbt_remove_rebalance.raw_induct [where P = "\<lambda>a st st'. allocated st' = allocated st", OF _ assms], goal_cases)
  case (1 f a st st')
  have IH: "keeps st (f b st1)" if "allocated st1 = allocated st" for b st st1
    using 1(1) [of b st1] that by (simp add: keeps_def)
  show ?case
    by (rule keepsD [OF _ 1(2)], unfold bind_if Option.bind_assoc Option.bind.simps fst_conv snd_conv prod.case,
      intro keeps_rules IH) (assumption | rule refl)+
qed

lemma dom_remove: "m_rbt_remove a st = Some st' \<Longrightarrow> allocated st' = allocated st"
proof -
  assume r: "m_rbt_remove a st = Some st'"
  obtain s p lf ch where plan: "remove_plan a st = Some (s, p, lf, ch)"
    using r by (auto simp: m_rbt_remove_def bind_eq_Some_conv)
  have "keeps st1 (m_rbt_remove_rebalance s st1)" for st1
    by (auto simp: keeps_def dest: dom_rebalance)
  moreover have "keeps st1 (remove_swap a s st1)" for st1
    unfolding remove_swap_def Let_def by (intro keeps_rules) (assumption | rule refl)+
  moreover have "keeps st1 (remove_unlink p lf ch st1)" for st1
    unfolding remove_unlink_def bind_if Option.bind.simps by (intro keeps_rules) (assumption | simp)+
  ultimately show ?thesis
    using r plan by (auto simp: m_rbt_remove_def bind_eq_Some_conv keeps_def split: if_splits)
qed

end
