(* ===== verification/Table.thy ===== *)
theory Table
  imports Hash RBTree_Remove RBTree_Dom
begin

text \<open>
  What a container of \<open>include/\<close> promises to its clients, stated once: a table of nodes in
  which a node is found by its key. The hash table and the red black tree provide this interface;
  a client is proved against the interface only. \<open>P\<close> is the pool of nodes the client owns:
  the structures behind their addresses stay allocated.
\<close>

subsection \<open>Clients\<close>

datatype 'k request = Find 'k | Add addr | Del 'k

fun exec :: "(addr \<Rightarrow> 'k) \<Rightarrow> ('k \<Rightarrow> 's \<Rightarrow> addr option) \<Rightarrow> (addr \<Rightarrow> 's \<Rightarrow> (bool \<times> 's) option) \<Rightarrow>
    ('k \<Rightarrow> 's \<Rightarrow> (addr \<times> 's) option) \<Rightarrow> 'k request \<Rightarrow> 's \<Rightarrow> (addr \<times> 's) option" where
  "exec key look put del (Find k) s = do { r \<leftarrow> look k s; Some (r, s) }"
| "exec key look put del (Add n) s = do {
     r \<leftarrow> look (key n) s;
     (if r \<noteq> 0 then Some (r, s)
      else do { p \<leftarrow> put n s; Some (if fst p then n else 0, snd p) }) }"
| "exec key look put del (Del k) s = del k s"

fun run :: "('o \<Rightarrow> 's \<Rightarrow> (addr \<times> 's) option) \<Rightarrow> 'o list \<Rightarrow> 's \<Rightarrow> (addr list \<times> 's) option" where
  "run step [] s = Some ([], s)"
| "run step (x # xs) s = do {
     r \<leftarrow> step x s;
     rs \<leftarrow> run step xs (snd r);
     Some (fst r # fst rs, snd rs) }"

subsection \<open>The abstract table: a set of nodes\<close>

definition answer :: "('k \<Rightarrow> addr \<Rightarrow> bool) \<Rightarrow> 'k \<Rightarrow> addr set \<Rightarrow> addr \<Rightarrow> bool" where
  "answer m k N r \<longleftrightarrow> (if \<exists>a \<in> N. m k a then r \<in> N \<and> m k r else r = 0)"

fun spec :: "(addr \<Rightarrow> 'k) \<Rightarrow> ('k \<Rightarrow> addr \<Rightarrow> bool) \<Rightarrow> bool \<Rightarrow> 'k request \<Rightarrow> addr set \<Rightarrow> addr \<Rightarrow> addr set \<Rightarrow> bool" where
  "spec key m mem (Find k) N r N' \<longleftrightarrow> N' = N \<and> answer m k N r"
| "spec key m mem (Add n) N r N' \<longleftrightarrow>
     (if \<exists>a \<in> N. m (key n) a then N' = N \<and> answer m (key n) N r
      else r = n \<and> N' = insert n N \<or> \<not> mem \<and> r = 0 \<and> N' = N)"
| "spec key m mem (Del k) N r N' \<longleftrightarrow> answer m k N r \<and> N' = N - {r}"

fun spec_run :: "('o \<Rightarrow> addr set \<Rightarrow> addr \<Rightarrow> addr set \<Rightarrow> bool) \<Rightarrow> 'o list \<Rightarrow> addr set \<Rightarrow> addr list \<Rightarrow> addr set \<Rightarrow> bool" where
  "spec_run step [] N rs N' \<longleftrightarrow> rs = [] \<and> N' = N"
| "spec_run step (x # xs) N rs N' \<longleftrightarrow>
     (\<exists>r rs' N1. rs = r # rs' \<and> step x N r N1 \<and> spec_run step xs N1 rs' N')"

fun request_ok :: "addr set \<Rightarrow> 'k set \<Rightarrow> 'k request \<Rightarrow> bool" where
  "request_ok P K (Find k) \<longleftrightarrow> k \<in> K"
| "request_ok P K (Add n) \<longleftrightarrow> n \<in> P"
| "request_ok P K (Del k) \<longleftrightarrow> k \<in> K"

locale node_table =
  fixes rep :: "'s \<Rightarrow> addr set \<Rightarrow> bool"
    and key :: "addr \<Rightarrow> 'k" and m :: "'k \<Rightarrow> addr \<Rightarrow> bool"
    and P :: "addr set" and K :: "'k set" and mem :: bool
    and look :: "'k \<Rightarrow> 's \<Rightarrow> addr option"
    and put :: "addr \<Rightarrow> 's \<Rightarrow> (bool \<times> 's) option"
    and del :: "'k \<Rightarrow> 's \<Rightarrow> (addr \<times> 's) option"
  assumes rep_pool: "rep s N \<Longrightarrow> N \<subseteq> P \<and> 0 \<notin> P \<and> key ` P \<subseteq> K"
    and rep_self: "rep s N \<Longrightarrow> n \<in> P \<Longrightarrow> m (key n) n"
    and look_law: "rep s N \<Longrightarrow> k \<in> K \<Longrightarrow> \<exists>r. look k s = Some r \<and> answer m k N r"
    and put_law: "rep s N \<Longrightarrow> n \<in> P \<Longrightarrow> \<not> (\<exists>a \<in> N. m (key n) a) \<Longrightarrow>
      \<exists>ok s'. put n s = Some (ok, s') \<and> rep s' (if ok then insert n N else N) \<and> (mem \<longrightarrow> ok)"
    and del_law: "rep s N \<Longrightarrow> k \<in> K \<Longrightarrow>
      \<exists>r s'. del k s = Some (r, s') \<and> answer m k N r \<and> rep s' (N - {r})"
begin

lemma exec_refines:
  assumes "rep s N" "request_ok P K q"
  shows "\<exists>r s' N'. exec key look put del q s = Some (r, s') \<and> spec key m mem q N r N' \<and> rep s' N'"
proof (cases q)
  case (Find k)
  then show ?thesis using look_law [OF assms(1), of k] assms by auto
next
  case (Del k)
  then show ?thesis using del_law [OF assms(1), of k] assms by auto
next
  case (Add n)
  then have n: "n \<in> P" "key n \<in> K" using assms rep_pool [OF assms(1)] by auto
  obtain r where r: "look (key n) s = Some r" "answer m (key n) N r"
    using look_law [OF assms(1) n(2)] by blast
  show ?thesis
  proof (cases "\<exists>a \<in> N. m (key n) a")
    case True
    then have "r \<noteq> 0" using r(2) rep_pool [OF assms(1)] by (auto simp: answer_def)
    then show ?thesis using r Add True assms(1) by auto
  next
    case False
    then have "r = 0" using r(2) by (simp add: answer_def)
    moreover obtain ok s' where "put n s = Some (ok, s')" "rep s' (if ok then insert n N else N)"
      "mem \<longrightarrow> ok" using put_law [OF assms(1) n(1) False] by blast
    ultimately show ?thesis using r(1) Add False
      by (intro exI [of _ "if ok then n else 0"] exI [of _ s'] exI [of _ "if ok then insert n N else N"])
        (cases ok; simp)
  qed
qed

lemma run_refines:
  "rep s N \<Longrightarrow> \<forall>q \<in> set qs. request_ok P K q \<Longrightarrow>
    \<exists>rs s' N'. run (exec key look put del) qs s = Some (rs, s') \<and>
      spec_run (spec key m mem) qs N rs N' \<and> rep s' N'"
proof (induction qs arbitrary: s N)
  case (Cons q qs)
  then obtain r s1 N1 where 1: "exec key look put del q s = Some (r, s1)" "spec key m mem q N r N1"
    "rep s1 N1" using exec_refines [of s N q] by auto
  then obtain rs s' N' where "run (exec key look put del) qs s1 = Some (rs, s')"
    "spec_run (spec key m mem) qs N1 rs N'" "rep s' N'" using Cons by fastforce
  then show ?case using 1
    by (intro exI [of _ "r # rs"] exI [of _ s'] exI [of _ N']) auto
qed simp

end

subsection \<open>The red black tree provides the interface\<close>

text \<open>The documented use: \<open>m_rbt_lookup_insert\<close> gives the position for
  \<open>m_rbt_insert\<close>.\<close>

definition rbt_put :: "'k M_RBTreeOps \<Rightarrow> addr \<Rightarrow> M_RBTree \<Rightarrow> (bool \<times> M_RBTree) option" where
  "rbt_put ops n st = do {
     r \<leftarrow> m_rbt_lookup_insert ops (rb_get_key ops n) st;
     (case snd r of
        Some (p, pos) \<Rightarrow> do { st' \<leftarrow> m_rbt_insert p pos n st; Some (True, st') }
      | None \<Rightarrow> Some (False, st)) }"

definition rbt_del :: "'k M_RBTreeOps \<Rightarrow> 'k \<Rightarrow> M_RBTree \<Rightarrow> (addr \<times> M_RBTree) option" where
  "rbt_del ops k st = do {
     a \<leftarrow> m_rbt_lookup ops k st;
     (if a = 0 then Some (0, st) else do { st' \<leftarrow> m_rbt_remove a st; Some (a, st') }) }"

definition rbt_table :: "'k M_RBTreeOps \<Rightarrow> 'k set \<Rightarrow> addr set \<Rightarrow> M_RBTree \<Rightarrow> addr set \<Rightarrow> bool" where
  "rbt_table ops K P st N \<longleftrightarrow>
     (\<exists>xs. rbtree st xs \<and> set xs = N \<and> key_sorted ops K xs) \<and> N \<subseteq> P \<and>
     (\<forall>a \<in> P. a \<noteq> 0 \<and> aligned2 a \<and> nodes st a \<noteq> None \<and> rb_get_key ops a \<in> K)"

abbreviation rbt_matches :: "'k M_RBTreeOps \<Rightarrow> 'k \<Rightarrow> addr \<Rightarrow> bool" where
  "rbt_matches ops k a \<equiv> rb_cmp ops k (rb_get_key ops a) = 0"

locale rb_pool = rb_table ops K for ops :: "'k M_RBTreeOps" and K +
  fixes P :: "addr set"
begin

lemma find_answer: "answer (rbt_matches ops) k (set xs) (case key_find ops k xs of None \<Rightarrow> 0 | Some a \<Rightarrow> a)"
proof (cases "key_find ops k xs")
  case None
  moreover from this have "\<forall>a \<in> set xs. \<not> rbt_matches ops k a"
    by (auto simp: key_find_def find_None_iff)
  ultimately show ?thesis by (auto simp: answer_def)
next
  case (Some a)
  then have "a \<in> set xs" "rbt_matches ops k a" by (auto simp: key_find_def find_Some_iff)
  then show ?thesis using Some by (auto simp: answer_def)
qed

lemma remove_sorted: "key_sorted ops K (us @ a # vs) \<Longrightarrow> key_sorted ops K (us @ vs)"
  by (auto simp: key_sorted_def sorted_wrt_append)

lemma rbt_find_law:
  assumes "rbt_table ops K P st N" "k \<in> K"
  shows "\<exists>r. m_rbt_lookup ops k st = Some r \<and> answer (rbt_matches ops) k N r"
  using assms find_answer lookup_tree by (auto simp: rbt_table_def)

lemma rbt_put_law:
  assumes T: "rbt_table ops K P st N" and n: "n \<in> P" and new: "\<not> (\<exists>a \<in> N. rbt_matches ops (key n) a)"
  shows "\<exists>ok st'. rbt_put ops n st = Some (ok, st') \<and>
    rbt_table ops K P st' (if ok then insert n N else N) \<and> (True \<longrightarrow> ok)"
proof -
  obtain xs where xs: "rbtree st xs" "set xs = N" "key_sorted ops K xs"
    using T by (auto simp: rbt_table_def)
  have P: "n \<noteq> 0" "aligned2 n" "nodes st n \<noteq> None" "key n \<in> K" using T n by (auto simp: rbt_table_def)
  have none: "key_find ops (key n) xs = None" using new xs(2) by (auto simp: key_find_def find_None_iff)
  have "n \<notin> set xs" using new xs(2) cmp_refl [OF P(4)] by auto
  then obtain p pos st' us vs where r: "m_rbt_lookup_insert ops (key n) st = Some (0, Some (p, pos))"
    "m_rbt_insert p pos n st = Some st'" "xs = us @ vs" "rbtree st' (us @ n # vs)"
    "key_sorted ops K (us @ n # vs)"
    using lookup_insert_new [OF xs(1,3) P(4) none P(1-3)] by metis
  have "rbt_put ops n st = Some (True, st')" using r by (simp add: rbt_put_def)
  moreover have "allocated st' = allocated st" using r(2) by (rule dom_insert)
  then have "rbt_table ops K P st' (insert n N)"
    using T r(3-5) xs(2) n unfolding rbt_table_def allocated_def by (auto simp: dom_def set_eq_iff)
  ultimately show ?thesis by auto
qed

lemma rbt_del_law:
  assumes T: "rbt_table ops K P st N" and k: "k \<in> K"
  shows "\<exists>r st'. rbt_del ops k st = Some (r, st') \<and> answer (rbt_matches ops) k N r \<and>
    rbt_table ops K P st' (N - {r})"
proof -
  obtain r where r: "m_rbt_lookup ops k st = Some r" "answer (rbt_matches ops) k N r"
    using rbt_find_law [OF assms] by blast
  obtain xs where xs: "rbtree st xs" "set xs = N" "key_sorted ops K xs"
    using T by (auto simp: rbt_table_def)
  have nz: "0 \<notin> N" using T by (auto simp: rbt_table_def)
  show ?thesis
  proof (cases "r = 0")
    case True
    then show ?thesis using r T nz by (intro exI [of _ r] exI [of _ st]) (auto simp: rbt_del_def)
  next
    case False
    then have "r \<in> set xs" using r(2) xs(2) by (auto simp: answer_def split: if_splits)
    then obtain us vs where sp: "xs = us @ r # vs" by (blast dest: set_split_ex)
    obtain st' where rm: "m_rbt_remove r st = Some st'" "rbtree st' (us @ vs)"
      using remove_tree [of st us r vs] xs(1) sp by blast
    have d: "r \<notin> set us" "r \<notin> set vs" using rbtree_distinct [OF xs(1)] sp by auto
    have "allocated st' = allocated st" using rm(1) by (rule dom_remove)
    then have "rbt_table ops K P st' (N - {r})"
      using T rm(2) xs sp d remove_sorted [of us r vs] unfolding rbt_table_def allocated_def
      by (auto simp: dom_def set_eq_iff intro!: exI [of _ "us @ vs"])
    then show ?thesis using r rm(1) False by (auto simp: rbt_del_def)
  qed
qed

end

sublocale rb_pool < tab: node_table "rbt_table ops K P" "rb_get_key ops" "rbt_matches ops" P K True
  "m_rbt_lookup ops" "rbt_put ops" "rbt_del ops"
proof unfold_locales
  fix s N n
  show "rbt_table ops K P s N \<Longrightarrow> N \<subseteq> P \<and> 0 \<notin> P \<and> rb_get_key ops ` P \<subseteq> K"
    by (auto simp: rbt_table_def)
  show "rbt_table ops K P s N \<Longrightarrow> n \<in> P \<Longrightarrow> rbt_matches ops (rb_get_key ops n) n"
    by (auto simp: rbt_table_def cmp_refl)
qed (rule rbt_find_law rbt_put_law rbt_del_law; assumption)+

context rb_pool
begin

lemmas rbt_run = tab.run_refines

end

interpretation int_pool: rb_pool "\<lparr>rb_get_key = key, rb_cmp = m_int_cmp_func, rb_free_node = fr\<rparr>"
    "{k. k < 2 ^ 31}" P
  for key fr P
  by (rule rb_pool.intro) (rule int_table.rb_table_axioms)

interpretation cstr_pool: rb_pool "\<lparr>rb_get_key = key, rb_cmp = m_cstr_cmp_func str, rb_free_node = fr\<rparr>"
    UNIV P
  for key str fr P
  by (rule rb_pool.intro) (rule cstr_table.rb_table_axioms)

lemma rbt_table_init:
  assumes "\<forall>a \<in> P. a \<noteq> 0 \<and> aligned2 a \<and> nodes st a \<noteq> None \<and> rb_get_key ops a \<in> K"
  shows "rbt_table ops K P (m_rbt_init st) {}"
proof -
  have "trep (m_rbt_init st) Tip" "rb Tip" by (simp_all add: trep_def m_rbt_init_def rbx_def)
  then have "rbtree (m_rbt_init st) []" by (auto simp: rbtree_def intro!: exI [of _ Tip])
  then show ?thesis using assms
    by (auto simp: rbt_table_def key_sorted_def m_rbt_init_def intro!: exI [of _ "[]"])
qed

text \<open>A search after any run looks at few nodes.\<close>

lemma lookup_reads:
  assumes "rbtree st xs"
  shows "\<exists>C. C \<subseteq> set xs \<and> 2 ^ card C \<le> (card (set xs) + 1) ^ 2 \<and>
    (\<forall>ops' st'. same_nodes ops k st C ops' st' \<longrightarrow> m_rbt_lookup ops' k st' = m_rbt_lookup ops k st)"
proof -
  obtain t where t: "trep st t" "rb t" "addrs t = xs" using assms by (auto simp: rbtree_def)
  obtain C where C: "C \<subseteq> set xs" "card C \<le> height t"
      "\<And>ops' st'. same_nodes ops k st C ops' st' \<Longrightarrow> lookup_loop ops' k st' (raddr t) = lookup_loop ops k st (raddr t)"
    using lookup_loop_reads [of st t "[]" ops k] t by auto
  have "0 \<notin> set (addrs t)" using trep_zero [of st t "[]"] t by simp
  then have "2 ^ height t \<le> (length xs + 1) ^ 2" using rb_height [of t] t by simp
  moreover have "(2 :: nat) ^ card C \<le> 2 ^ height t" using C(2) by (rule power_increasing) simp
  ultimately have "2 ^ card C \<le> (card (set xs) + 1) ^ 2"
    unfolding distinct_card [OF rbtree_distinct [OF assms]] by (rule order.trans [rotated])
  moreover have "root st = raddr t" using t(1) by (simp add: trep_def)
  then have "m_rbt_lookup ops' k st' = m_rbt_lookup ops k st" if "same_nodes ops k st C ops' st'" for ops' st'
    using C(3) [OF that] that by (simp add: m_rbt_lookup_def same_nodes_def)
  ultimately show ?thesis using C(1) by blast
qed

subsection \<open>The hash table provides the interface\<close>

text \<open>The documented use: the table grows before a node is inserted. A failed allocation leaves
  the table as it was.\<close>

definition hash_put :: "'k M_HashOps \<Rightarrow> addr \<Rightarrow> M_Hash \<times> sheap \<Rightarrow> (bool \<times> M_Hash \<times> sheap) option" where
  "hash_put ops n s = do {
     r \<leftarrow> m_hash_resize ops s;
     (if fst r = M_OK then do { s' \<leftarrow> m_hash_insert ops n (snd (snd r)); Some (True, s') }
      else Some (False, snd (snd r))) }"

definition hash_table :: "'k M_HashOps \<Rightarrow> addr set \<Rightarrow> M_Hash \<times> sheap \<Rightarrow> addr set \<Rightarrow> bool" where
  "hash_table ops P s N \<longleftrightarrow> hash_nodes ops s N \<and> N \<subseteq> P \<and> finite P \<and> card P < 2 ^ 32 \<and>
     (\<forall>a \<in> P. a \<noteq> 0 \<and> snd s a \<noteq> None)"

locale hash_pool = hash_contract "kv ops" "equal ops" for ops :: "'k M_HashOps" +
  fixes P :: "addr set"
begin

lemma contract_ops: "contract ops"
  using hash_contract_axioms by (simp add: contract_def)

lemma hash_find_law:
  assumes "hash_table ops P s N"
  shows "\<exists>r. m_hash_lookup ops k s = Some r \<and> answer (matches ops) k N r"
proof -
  obtain bs where bs: "hash_rep ops s bs" "N = set (concat bs)"
    using assms by (auto simp: hash_table_def hash_nodes_def)
  obtain r where "m_hash_lookup_with_kv ops k s = Some (r, kv ops k)"
    "if \<exists>a \<in> N. matches ops k a then r \<in> N \<and> matches ops k r else r = 0"
    using lookup_rep [OF contract_ops bs(1), of k] unfolding bs(2) by blast
  then show ?thesis by (intro exI [of _ r]) (simp add: m_hash_lookup_def answer_def)
qed

lemma hash_del_law:
  assumes "hash_table ops P s N"
  shows "\<exists>r s'. m_hash_remove ops k s = Some (r, s') \<and> answer (matches ops) k N r \<and>
    hash_table ops P s' (N - {r})"
proof -
  have H: "hash_nodes ops s N" "0 \<notin> N" using assms by (auto simp: hash_table_def)
  from remove_nodes [OF contract_ops H(1), of k] show ?thesis
  proof (elim disjE bexE conjE exE)
    fix x s'
    assume "x \<in> N" "matches ops k x" "m_hash_remove ops k s = Some (x, s')"
      "hash_nodes ops s' (N - {x})" "dom (snd s') = dom (snd s)"
    then show ?thesis using assms
      by (intro exI [of _ x] exI [of _ s']) (auto simp: answer_def hash_table_def dom_def set_eq_iff)
  qed (use assms H in \<open>auto simp: answer_def\<close>)
qed

lemma card_room:
  assumes "hash_nodes ops s N" "N \<subseteq> P" "finite P" "card P < 2 ^ 32" "n \<in> P" "n \<notin> N"
  shows "h_size (fst s) \<noteq> - 1"
proof
  assume m: "h_size (fst s) = - 1"
  obtain bs where bs: "hash_rep ops s bs" "N = set (concat bs)"
    using assms(1) by (auto simp: hash_nodes_def)
  then have "card N = unat (h_size (fst s))"
    using distinct_card [of "concat bs"] by (simp add: hash_rep_def del: set_concat)
  then have "card N = 2 ^ 32 - 1" using m by (simp add: unsigned_minus_1_eq_mask mask_eq_exp_minus_1)
  moreover have "card N < card P" using assms(2,3,5,6) by (intro psubset_card_mono) auto
  ultimately show False using assms(4) by simp
qed

lemma hash_put_law:
  assumes T: "hash_table ops P s N" and n: "n \<in> P" and new: "\<not> (\<exists>a \<in> N. matches ops (get_key ops n) a)"
  shows "\<exists>ok s'. hash_put ops n s = Some (ok, s') \<and>
    hash_table ops P s' (if ok then insert n N else N) \<and> ((\<forall>z. alloc_buf ops z) \<longrightarrow> ok)"
proof -
  have H: "hash_nodes ops s N" "N \<subseteq> P" "finite P" "card P < 2 ^ 32" "n \<noteq> 0" "snd s n \<noteq> None"
    using T n by (auto simp: hash_table_def)
  have "n \<notin> N" using new eq_refl by (auto simp: matches_def)
  from resize_nodes [OF H(1)] show ?thesis
  proof (elim disjE exE conjE)
    fix s1 fr
    assume 1: "m_hash_resize ops s = Some (M_OK, fr, s1)" "hash_nodes ops s1 N" "nlist (fst s1) \<noteq> 0"
      "dom (snd s1) = dom (snd s)"
    have "snd s1 n \<noteq> None" using H(6) 1(4) by (auto simp: dom_def set_eq_iff)
    then obtain v where v: "snd s1 n = Some v" by auto
    obtain s' where s': "m_hash_insert_with_kv n (kv ops (get_key ops n)) s1 = Some s'"
      "hash_nodes ops s' (insert n N)" "dom (snd s') = dom (snd s1)"
      using insert_nodes [OF 1(2,3) refl H(5) v \<open>n \<notin> N\<close> card_room [OF 1(2) H(2-4) n \<open>n \<notin> N\<close>]] by blast
    have "hash_put ops n s = Some (True, s')" using 1(1) s'(1) by (simp add: hash_put_def m_hash_insert_def)
    moreover have "hash_table ops P s' (insert n N)"
      using T n s' 1(4) by (auto simp: hash_table_def dom_def set_eq_iff)
    ultimately show ?thesis by auto
  next
    assume "\<not> alloc_buf ops (8 * ucast (M_MAX (h_size (fst s)) 9))"
      "m_hash_resize ops s = Some (M_ERR_NO_MEM, None, s)"
    then show ?thesis using T by (intro exI [of _ False] exI [of _ s]) (auto simp: hash_put_def)
  qed
qed

end

sublocale hash_pool < tab: node_table "hash_table ops P" "get_key ops" "matches ops" P UNIV
  "\<forall>z. alloc_buf ops z" "m_hash_lookup ops" "hash_put ops" "m_hash_remove ops"
proof unfold_locales
  fix s N n
  show "hash_table ops P s N \<Longrightarrow> N \<subseteq> P \<and> 0 \<notin> P \<and> get_key ops ` P \<subseteq> UNIV"
    by (auto simp: hash_table_def)
  show "hash_table ops P s N \<Longrightarrow> n \<in> P \<Longrightarrow> matches ops (get_key ops n) n"
    by (simp add: matches_def eq_refl)
qed (rule hash_find_law hash_put_law hash_del_law; assumption)+

context hash_pool
begin

lemmas hash_run = tab.run_refines

end

interpretation int_hash_pool: hash_pool
  "\<lparr>get_key = key, kv = m_int_hash_kv_func, equal = m_int_hash_equal_func, free_node = fr, alloc_buf = al\<rparr>" P
  for key fr al P
  by (rule hash_pool.intro, unfold M_HashOps.select_convs) (rule int_hash.hash_contract_axioms)

interpretation ptr_hash_pool: hash_pool
  "\<lparr>get_key = key, kv = m_ptr_hash_kv_func, equal = m_ptr_hash_equal_func, free_node = fr, alloc_buf = al\<rparr>" P
  for key fr al P
  by (rule hash_pool.intro, unfold M_HashOps.select_convs) (rule ptr_hash.hash_contract_axioms)

lemma hash_table_init:
  assumes "finite P" "card P < 2 ^ 32" "\<forall>a \<in> P. a \<noteq> 0 \<and> h a \<noteq> None"
  shows "hash_table ops P (m_hash_init, h) {}"
  using assms hash_init_rep [of ops h] by (auto simp: hash_table_def hash_nodes_def intro!: exI [of _ "[]"])

end
