(* ===== verification/DList.thy ===== *)
theory DList
  imports Macros
begin

text \<open>
  The intrusive doubly linked list of \<open>include/m_list.h\<close>: a circular list through a head
  node. The heap maps the address of each \<open>M_List\<close> to its two links; every operation is
  the sequence of reads and writes of the C function, in its order, so that aliasing of the head
  with its neighbours (the empty list, a list of one node) is part of the model. The traversal
  macros are loops over a body that may change the heap.

  \<open>dlist h head xs\<close> says that \<open>h\<close> holds a well formed list with head \<open>head\<close>
  and the nodes \<open>xs\<close>, front to back; it is the abstraction relation of the component.
\<close>

record M_List =
  l_prev :: addr
  l_next :: addr

type_synonym dheap = "addr \<rightharpoonup> M_List"

subsection \<open>Operations\<close>

definition m_list_empty :: "addr \<Rightarrow> dheap \<Rightarrow> bool option" where
  "m_list_empty head h = do { n \<leftarrow> rd h head; Some (l_next n = head) }"

definition m_list_init :: "addr \<Rightarrow> dheap \<Rightarrow> dheap option" where
  "m_list_init head h = do {
     c_assert (head \<noteq> 0);
     h1 \<leftarrow> wr h head (l_prev_update (\<lambda>_. head));
     wr h1 head (l_next_update (\<lambda>_. head)) }"

definition m_list_append :: "addr \<Rightarrow> addr \<Rightarrow> dheap \<Rightarrow> dheap option" where
  "m_list_append head node h = do {
     c_assert (head \<noteq> 0 \<and> node \<noteq> 0);
     hn \<leftarrow> rd h head;
     h1 \<leftarrow> wr h node (l_prev_update (\<lambda>_. l_prev hn));
     h2 \<leftarrow> wr h1 node (l_next_update (\<lambda>_. head));
     hn2 \<leftarrow> rd h2 head;
     h3 \<leftarrow> wr h2 (l_prev hn2) (l_next_update (\<lambda>_. node));
     wr h3 head (l_prev_update (\<lambda>_. node)) }"

definition m_list_prepend :: "addr \<Rightarrow> addr \<Rightarrow> dheap \<Rightarrow> dheap option" where
  "m_list_prepend head node h = do {
     c_assert (head \<noteq> 0 \<and> node \<noteq> 0);
     h1 \<leftarrow> wr h node (l_prev_update (\<lambda>_. head));
     hn \<leftarrow> rd h1 head;
     h2 \<leftarrow> wr h1 node (l_next_update (\<lambda>_. l_next hn));
     hn2 \<leftarrow> rd h2 head;
     h3 \<leftarrow> wr h2 (l_next hn2) (l_prev_update (\<lambda>_. node));
     wr h3 head (l_next_update (\<lambda>_. node)) }"

definition m_list_remove :: "addr \<Rightarrow> dheap \<Rightarrow> dheap option" where
  "m_list_remove node h = do {
     n \<leftarrow> rd h node;
     h1 \<leftarrow> wr h (l_prev n) (l_next_update (\<lambda>_. l_next n));
     n1 \<leftarrow> rd h1 node;
     wr h1 (l_next n1) (l_prev_update (\<lambda>_. l_prev n1)) }"

text \<open>The traversal macros. The loop body works on the heap and on the caller's variables
  \<open>'a\<close>. The safe variants read the neighbour before the loop condition is tested and
  before the body runs.\<close>

partial_function (option) m_list_foreach_loop ::
    "addr \<Rightarrow> (addr \<Rightarrow> dheap \<times> 'a \<Rightarrow> (dheap \<times> 'a) option) \<Rightarrow> addr \<Rightarrow> dheap \<times> 'a \<Rightarrow> (dheap \<times> 'a) option" where
  "m_list_foreach_loop head body node s =
     (if node = head then Some s
      else do { s' \<leftarrow> body node s; n \<leftarrow> rd (fst s') node;
                m_list_foreach_loop head body (l_next n) s' })"

definition m_list_foreach ::
    "addr \<Rightarrow> (addr \<Rightarrow> dheap \<times> 'a \<Rightarrow> (dheap \<times> 'a) option) \<Rightarrow> dheap \<times> 'a \<Rightarrow> (dheap \<times> 'a) option" where
  "m_list_foreach head body s = do {
     n \<leftarrow> rd (fst s) head; m_list_foreach_loop head body (l_next n) s }"

partial_function (option) m_list_foreach_r_loop ::
    "addr \<Rightarrow> (addr \<Rightarrow> dheap \<times> 'a \<Rightarrow> (dheap \<times> 'a) option) \<Rightarrow> addr \<Rightarrow> dheap \<times> 'a \<Rightarrow> (dheap \<times> 'a) option" where
  "m_list_foreach_r_loop head body node s =
     (if node = head then Some s
      else do { s' \<leftarrow> body node s; n \<leftarrow> rd (fst s') node;
                m_list_foreach_r_loop head body (l_prev n) s' })"

definition m_list_foreach_r ::
    "addr \<Rightarrow> (addr \<Rightarrow> dheap \<times> 'a \<Rightarrow> (dheap \<times> 'a) option) \<Rightarrow> dheap \<times> 'a \<Rightarrow> (dheap \<times> 'a) option" where
  "m_list_foreach_r head body s = do {
     n \<leftarrow> rd (fst s) head; m_list_foreach_r_loop head body (l_prev n) s }"

partial_function (option) m_list_foreach_safe_loop ::
    "addr \<Rightarrow> (addr \<Rightarrow> dheap \<times> 'a \<Rightarrow> (dheap \<times> 'a) option) \<Rightarrow> addr \<Rightarrow> dheap \<times> 'a \<Rightarrow> (dheap \<times> 'a) option" where
  "m_list_foreach_safe_loop head body node s = do {
     n \<leftarrow> rd (fst s) node;
     (if node = head then Some s
      else do { s' \<leftarrow> body node s;
                m_list_foreach_safe_loop head body (l_next n) s' }) }"

definition m_list_foreach_safe ::
    "addr \<Rightarrow> (addr \<Rightarrow> dheap \<times> 'a \<Rightarrow> (dheap \<times> 'a) option) \<Rightarrow> dheap \<times> 'a \<Rightarrow> (dheap \<times> 'a) option" where
  "m_list_foreach_safe head body s = do {
     n \<leftarrow> rd (fst s) head; m_list_foreach_safe_loop head body (l_next n) s }"

partial_function (option) m_list_foreach_safe_r_loop ::
    "addr \<Rightarrow> (addr \<Rightarrow> dheap \<times> 'a \<Rightarrow> (dheap \<times> 'a) option) \<Rightarrow> addr \<Rightarrow> dheap \<times> 'a \<Rightarrow> (dheap \<times> 'a) option" where
  "m_list_foreach_safe_r_loop head body node s = do {
     n \<leftarrow> rd (fst s) node;
     (if node = head then Some s
      else do { s' \<leftarrow> body node s;
                m_list_foreach_safe_r_loop head body (l_prev n) s' }) }"

definition m_list_foreach_safe_r ::
    "addr \<Rightarrow> (addr \<Rightarrow> dheap \<times> 'a \<Rightarrow> (dheap \<times> 'a) option) \<Rightarrow> dheap \<times> 'a \<Rightarrow> (dheap \<times> 'a) option" where
  "m_list_foreach_safe_r head body s = do {
     n \<leftarrow> rd (fst s) head; m_list_foreach_safe_r_loop head body (l_prev n) s }"

text \<open>The variants over the containing structures: \<open>off\<close> is the offset of the list
  node in the structure, the loop variable is the address of the structure.\<close>

partial_function (option) m_list_foreach_value_loop ::
    "addr \<Rightarrow> u64 \<Rightarrow> (addr \<Rightarrow> dheap \<times> 'a \<Rightarrow> (dheap \<times> 'a) option) \<Rightarrow> addr \<Rightarrow> dheap \<times> 'a \<Rightarrow> (dheap \<times> 'a) option" where
  "m_list_foreach_value_loop head off body val s =
     (if val = m_node_value head off then Some s
      else do { s' \<leftarrow> body val s; n \<leftarrow> rd (fst s') (val + off);
                m_list_foreach_value_loop head off body (m_node_value (l_next n) off) s' })"

definition m_list_foreach_value ::
    "addr \<Rightarrow> u64 \<Rightarrow> (addr \<Rightarrow> dheap \<times> 'a \<Rightarrow> (dheap \<times> 'a) option) \<Rightarrow> dheap \<times> 'a \<Rightarrow> (dheap \<times> 'a) option" where
  "m_list_foreach_value head off body s = do {
     n \<leftarrow> rd (fst s) head;
     m_list_foreach_value_loop head off body (m_node_value (l_next n) off) s }"

partial_function (option) m_list_foreach_value_r_loop ::
    "addr \<Rightarrow> u64 \<Rightarrow> (addr \<Rightarrow> dheap \<times> 'a \<Rightarrow> (dheap \<times> 'a) option) \<Rightarrow> addr \<Rightarrow> dheap \<times> 'a \<Rightarrow> (dheap \<times> 'a) option" where
  "m_list_foreach_value_r_loop head off body val s =
     (if val = m_node_value head off then Some s
      else do { s' \<leftarrow> body val s; n \<leftarrow> rd (fst s') (val + off);
                m_list_foreach_value_r_loop head off body (m_node_value (l_prev n) off) s' })"

definition m_list_foreach_value_r ::
    "addr \<Rightarrow> u64 \<Rightarrow> (addr \<Rightarrow> dheap \<times> 'a \<Rightarrow> (dheap \<times> 'a) option) \<Rightarrow> dheap \<times> 'a \<Rightarrow> (dheap \<times> 'a) option" where
  "m_list_foreach_value_r head off body s = do {
     n \<leftarrow> rd (fst s) head;
     m_list_foreach_value_r_loop head off body (m_node_value (l_prev n) off) s }"

partial_function (option) m_list_foreach_value_safe_loop ::
    "addr \<Rightarrow> u64 \<Rightarrow> (addr \<Rightarrow> dheap \<times> 'a \<Rightarrow> (dheap \<times> 'a) option) \<Rightarrow> addr \<Rightarrow> dheap \<times> 'a \<Rightarrow> (dheap \<times> 'a) option" where
  "m_list_foreach_value_safe_loop head off body val s = do {
     n \<leftarrow> rd (fst s) (val + off);
     (if val = m_node_value head off then Some s
      else do { s' \<leftarrow> body val s;
                m_list_foreach_value_safe_loop head off body (m_node_value (l_next n) off) s' }) }"

definition m_list_foreach_value_safe ::
    "addr \<Rightarrow> u64 \<Rightarrow> (addr \<Rightarrow> dheap \<times> 'a \<Rightarrow> (dheap \<times> 'a) option) \<Rightarrow> dheap \<times> 'a \<Rightarrow> (dheap \<times> 'a) option" where
  "m_list_foreach_value_safe head off body s = do {
     n \<leftarrow> rd (fst s) head;
     m_list_foreach_value_safe_loop head off body (m_node_value (l_next n) off) s }"

partial_function (option) m_list_foreach_value_safe_r_loop ::
    "addr \<Rightarrow> u64 \<Rightarrow> (addr \<Rightarrow> dheap \<times> 'a \<Rightarrow> (dheap \<times> 'a) option) \<Rightarrow> addr \<Rightarrow> dheap \<times> 'a \<Rightarrow> (dheap \<times> 'a) option" where
  "m_list_foreach_value_safe_r_loop head off body val s = do {
     n \<leftarrow> rd (fst s) (val + off);
     (if val = m_node_value head off then Some s
      else do { s' \<leftarrow> body val s;
                m_list_foreach_value_safe_r_loop head off body (m_node_value (l_prev n) off) s' }) }"

definition m_list_foreach_value_safe_r ::
    "addr \<Rightarrow> u64 \<Rightarrow> (addr \<Rightarrow> dheap \<times> 'a \<Rightarrow> (dheap \<times> 'a) option) \<Rightarrow> dheap \<times> 'a \<Rightarrow> (dheap \<times> 'a) option" where
  "m_list_foreach_value_safe_r head off body s = do {
     n \<leftarrow> rd (fst s) head;
     m_list_foreach_value_safe_r_loop head off body (m_node_value (l_prev n) off) s }"

subsection \<open>The abstraction relation\<close>

text \<open>\<open>dseg h p xs q\<close>: the nodes \<open>xs\<close> are linked in both directions, the first
  one back to \<open>p\<close>, the last one on to \<open>q\<close>.\<close>

fun dseg :: "dheap \<Rightarrow> addr \<Rightarrow> addr list \<Rightarrow> addr \<Rightarrow> bool" where
  "dseg h p [] q = True"
| "dseg h p (x # xs) q =
     (h x = Some \<lparr>l_prev = p, l_next = hd (xs @ [q])\<rparr> \<and> dseg h x xs q)"

definition dlist :: "dheap \<Rightarrow> addr \<Rightarrow> addr list \<Rightarrow> bool" where
  "dlist h head xs \<longleftrightarrow>
     distinct (head # xs) \<and> 0 \<notin> set (head # xs) \<and> dseg h (last (head # xs)) (head # xs) head"

lemma dseg_upd [simp, frame]: "a \<notin> set xs \<Longrightarrow> dseg (h(a := v)) p xs q = dseg h p xs q"
  by (induction xs arbitrary: p) auto

lemma dseg_append:
  "dseg h p (xs @ ys) q \<longleftrightarrow> dseg h p xs (hd (ys @ [q])) \<and> dseg h (last (p # xs)) ys q"
  by (induction xs arbitrary: p) (auto simp: hd_append)

lemma dlist_empty_heap: "dlist h head [] \<longleftrightarrow> head \<noteq> 0 \<and> h head = Some \<lparr>l_prev = head, l_next = head\<rparr>"
  by (auto simp: dlist_def)

lemma dlist_frame [frame]: "a \<notin> set (head # xs) \<Longrightarrow> dlist (h(a := v)) head xs = dlist h head xs"
  by (auto simp: dlist_def)

lemma dlist_init:
  assumes "head \<noteq> 0" "h head = Some n"
  shows "\<exists>h'. m_list_init head h = Some h' \<and> dlist h' head [] \<and> (\<forall>a. a \<noteq> head \<longrightarrow> h' a = h a)"
  using assms by (simp add: m_list_init_def access dlist_def)

lemma dlist_is_empty:
  assumes "dlist h head xs"
  shows "m_list_empty head h = Some (xs = [])"
  using assms by (cases xs) (auto simp: dlist_def m_list_empty_def access)

subsection \<open>Insertion and removal\<close>

lemma dlist_append:
  assumes "dlist h head xs" "h node = Some n" "node \<noteq> 0" "node \<notin> set (head # xs)"
  shows "\<exists>h'. m_list_append head node h = Some h' \<and> dlist h' head (xs @ [node]) \<and>
    dom h' = dom h \<and> (\<forall>a. a \<notin> set (head # node # xs) \<longrightarrow> h' a = h a)"
  using assms
  by (cases xs rule: rev_cases)
    (auto simp: m_list_append_def access dlist_def dseg_append hd_append split: list.splits)

lemma dlist_prepend:
  assumes "dlist h head xs" "h node = Some n" "node \<noteq> 0" "node \<notin> set (head # xs)"
  shows "\<exists>h'. m_list_prepend head node h = Some h' \<and> dlist h' head (node # xs) \<and>
    dom h' = dom h \<and> (\<forall>a. a \<notin> set (head # node # xs) \<longrightarrow> h' a = h a)"
  using assms
  by (cases xs) (auto simp: m_list_prepend_def access dlist_def hd_append split: list.splits)

lemma dlist_remove:
  assumes "dlist h head (xs @ a # ys)"
  shows "\<exists>h'. m_list_remove a h = Some h' \<and> dlist h' head (xs @ ys) \<and>
    dom h' = dom h \<and> h' a = h a \<and> (\<forall>b. b \<notin> set (head # xs @ ys) \<longrightarrow> h' b = h b)"
  using assms
  by (cases xs rule: rev_cases; cases ys)
    (auto simp: m_list_remove_def access dlist_def dseg_append)

subsection \<open>Traversal\<close>

declare m_list_foreach_loop.simps [code] m_list_foreach_r_loop.simps [code]
  m_list_foreach_safe_loop.simps [code] m_list_foreach_safe_r_loop.simps [code]

text \<open>A body that keeps the heap sees the nodes once each, in list order.\<close>

lemma foreach_loop_dseg:
  assumes "dseg h p xs head" "head \<notin> set xs" "0 \<notin> set xs"
  shows "m_list_foreach_loop head (\<lambda>a (h, acc). Some (h, f a acc)) (hd (xs @ [head])) (h, acc) =
    Some (h, fold f xs acc)"
  using assms
proof (induction xs arbitrary: p acc)
  case Nil
  then show ?case by (simp add: m_list_foreach_loop.simps)
next
  case (Cons x xs)
  then show ?case by (subst m_list_foreach_loop.simps) (auto simp: access)
qed

lemma dlist_foreach:
  assumes "dlist h head xs"
  shows "m_list_foreach head (\<lambda>a (h, acc). Some (h, f a acc)) (h, acc) = Some (h, fold f xs acc)"
  using assms foreach_loop_dseg [of h head xs head f acc]
  by (auto simp: m_list_foreach_def dlist_def access)

lemma foreach_r_loop_dseg:
  assumes "dseg h head xs q" "head \<notin> set xs" "0 \<notin> set xs"
  shows "m_list_foreach_r_loop head (\<lambda>a (h, acc). Some (h, f a acc)) (last (head # xs)) (h, acc) =
    Some (h, fold f (rev xs) acc)"
  using assms
proof (induction xs arbitrary: q acc rule: rev_induct)
  case Nil
  then show ?case by (simp add: m_list_foreach_r_loop.simps)
next
  case (snoc x xs)
  then have "m_list_foreach_r_loop head (\<lambda>a (h, acc). Some (h, f a acc)) (last (head # xs)) (h, f x acc) =
      Some (h, fold f (rev xs) (f x acc))"
    by (auto simp: dseg_append)
  with snoc.prems show ?case by (subst m_list_foreach_r_loop.simps) (auto simp: access dseg_append)
qed

lemma dlist_foreach_r:
  assumes "dlist h head xs"
  shows "m_list_foreach_r head (\<lambda>a (h, acc). Some (h, f a acc)) (h, acc) =
    Some (h, fold f (rev xs) acc)"
proof -
  have "h head = Some \<lparr>l_prev = last (head # xs), l_next = hd (xs @ [head])\<rparr>"
    using assms by (auto simp: dlist_def)
  with assms foreach_r_loop_dseg [of h head xs head f acc] show ?thesis
    by (auto simp: m_list_foreach_r_def dlist_def access)
qed

text \<open>The value macros visit the containing structures of the same nodes.\<close>

lemma foreach_value_loop_dseg:
  assumes "dseg h p xs head" "0 \<notin> set (head # xs)" "head \<notin> set xs"
  shows "m_list_foreach_value_loop head off (\<lambda>a (h, acc). map_option (Pair h) (f a acc))
      (hd (xs @ [head]) - off) (h, acc) = map_option (Pair h) (fold_opt f (map (\<lambda>a. a - off) xs) acc)"
  using assms
proof (induction xs arbitrary: p acc)
  case Nil
  then show ?case
    by (simp add: m_list_foreach_value_loop.simps m_node_value_def M_CONTAINER_OF_def)
next
  case (Cons x xs)
  have "hd (xs @ [head]) \<noteq> 0" using Cons.prems by (cases xs) auto
  with Cons show ?case
    by (subst m_list_foreach_value_loop.simps)
      (cases "f (x - off) acc"; auto simp: access m_node_value_def M_CONTAINER_OF_def)
qed

lemma dlist_foreach_value_opt:
  assumes "dlist h head xs"
  shows "m_list_foreach_value head off (\<lambda>a (h, acc). map_option (Pair h) (f a acc)) (h, acc) =
    map_option (Pair h) (fold_opt f (map (\<lambda>a. a - off) xs) acc)"
proof -
  have "hd (xs @ [head]) \<noteq> 0" using assms by (cases xs) (auto simp: dlist_def)
  with assms foreach_value_loop_dseg [of h head xs head off f acc] show ?thesis
    by (auto simp: m_list_foreach_value_def dlist_def access m_node_value_def M_CONTAINER_OF_def)
qed

lemma dlist_foreach_value:
  assumes "dlist h head xs"
  shows "m_list_foreach_value head off (\<lambda>a (h, acc). Some (h, f a acc)) (h, acc) =
    Some (h, fold f (map (\<lambda>a. a - off) xs) acc)"
  using dlist_foreach_value_opt [OF assms, of off "\<lambda>a s. Some (f a s)" acc]
  by (simp add: fold_opt_Some)

lemma foreach_value_r_loop_dseg:
  assumes "dseg h head xs q" "0 \<notin> set (head # xs)" "head \<notin> set xs"
  shows "m_list_foreach_value_r_loop head off (\<lambda>a (h, acc). Some (h, f a acc))
      (last (head # xs) - off) (h, acc) = Some (h, fold f (rev (map (\<lambda>a. a - off) xs)) acc)"
  using assms
proof (induction xs arbitrary: q acc rule: rev_induct)
  case Nil
  then show ?case
    by (simp add: m_list_foreach_value_r_loop.simps m_node_value_def M_CONTAINER_OF_def)
next
  case (snoc x xs)
  have "last (head # xs) \<noteq> 0" using snoc.prems last_in_set [of "head # xs"] by auto
  moreover have "m_list_foreach_value_r_loop head off (\<lambda>a (h, acc). Some (h, f a acc))
      (last (head # xs) - off) (h, f (x - off) acc) =
      Some (h, fold f (rev (map (\<lambda>a. a - off) xs)) (f (x - off) acc))"
    using snoc by (auto simp: dseg_append)
  ultimately show ?case using snoc.prems
    by (subst m_list_foreach_value_r_loop.simps)
      (auto simp: access dseg_append m_node_value_def M_CONTAINER_OF_def)
qed

lemma dlist_foreach_value_r:
  assumes "dlist h head xs"
  shows "m_list_foreach_value_r head off (\<lambda>a (h, acc). Some (h, f a acc)) (h, acc) =
    Some (h, fold f (rev (map (\<lambda>a. a - off) xs)) acc)"
proof -
  have "h head = Some \<lparr>l_prev = last (head # xs), l_next = hd (xs @ [head])\<rparr>"
    using assms by (auto simp: dlist_def)
  moreover have "last (head # xs) \<noteq> 0"
    using assms last_in_set [of "head # xs"] by (auto simp: dlist_def)
  ultimately show ?thesis
    using assms foreach_value_r_loop_dseg [of h head xs head off f acc]
    by (auto simp: m_list_foreach_value_r_def dlist_def access m_node_value_def M_CONTAINER_OF_def)
qed

text \<open>The use the safe macros are documented for: the body unlinks the current node when
  \<open>P\<close> holds of it, and releases it. Releasing is removing the address from the heap.\<close>

definition remove_and_free ::
    "(addr \<Rightarrow> bool) \<Rightarrow> addr \<Rightarrow> dheap \<times> addr list \<Rightarrow> (dheap \<times> addr list) option" where
  "remove_and_free P node s =
     (if P node then do { h' \<leftarrow> m_list_remove node (fst s); Some (h'(node := None), snd s @ [node]) }
      else Some (fst s, snd s @ [node]))"

lemma dlist_remove_and_free:
  assumes "dlist h head (xs @ a # ys)"
  shows "\<exists>h'. remove_and_free P a (h, acc) = Some (h', acc @ [a]) \<and>
    dlist h' head (xs @ filter (Not \<circ> P) [a] @ ys) \<and> (P a \<longrightarrow> h' a = None) \<and>
    (\<forall>b. b \<notin> set (head # xs @ a # ys) \<longrightarrow> h' b = h b)"
proof (cases "P a")
  case True
  obtain h' where h': "m_list_remove a h = Some h'" "dlist h' head (xs @ ys)"
      "\<forall>b. b \<notin> set (head # xs @ ys) \<longrightarrow> h' b = h b"
    using dlist_remove [OF assms] by blast
  have "a \<notin> set (head # xs @ ys)" using assms by (auto simp: dlist_def)
  then have "dlist (h'(a := None)) head (xs @ ys)" using h'(2) dlist_frame by blast
  with True h' show ?thesis by (auto simp: remove_and_free_def)
next
  case False
  with assms show ?thesis by (auto simp: remove_and_free_def)
qed

lemma foreach_safe_loop_remove:
  assumes "dlist h head (xs @ ys)"
  shows "\<exists>h'. m_list_foreach_safe_loop head (remove_and_free P) (hd (ys @ [head])) (h, acc) =
      Some (h', acc @ ys) \<and>
    dlist h' head (xs @ filter (Not \<circ> P) ys) \<and> (\<forall>a \<in> set ys. P a \<longrightarrow> h' a = None) \<and>
    (\<forall>b. b \<notin> set (head # xs @ ys) \<longrightarrow> h' b = h b)"
  using assms
proof (induction ys arbitrary: xs h acc)
  case Nil
  then obtain n where "head \<noteq> 0" "h head = Some n" by (auto simp: dlist_def)
  with Nil show ?case by (subst m_list_foreach_safe_loop.simps) (auto simp: access)
next
  case (Cons a ys)
  let ?rest = "xs @ filter (Not \<circ> P) [a]"
  have ne: "a \<noteq> head" "a \<noteq> 0" "a \<notin> set (head # xs @ ys)" using Cons.prems by (auto simp: dlist_def)
  obtain p where n: "h a = Some \<lparr>l_prev = p, l_next = hd (ys @ [head])\<rparr>"
    using Cons.prems by (auto simp: dlist_def dseg_append)
  obtain h1 where h1: "remove_and_free P a (h, acc) = Some (h1, acc @ [a])"
      "dlist h1 head (?rest @ ys)" "P a \<longrightarrow> h1 a = None"
      "\<forall>b. b \<notin> set (head # xs @ a # ys) \<longrightarrow> h1 b = h b"
    using dlist_remove_and_free [OF Cons.prems, of P acc] by (auto simp: append_assoc)
  obtain h2 where h2: "m_list_foreach_safe_loop head (remove_and_free P) (hd (ys @ [head]))
        (h1, acc @ [a]) = Some (h2, (acc @ [a]) @ ys)"
      "dlist h2 head (?rest @ filter (Not \<circ> P) ys)" "\<forall>b \<in> set ys. P b \<longrightarrow> h2 b = None"
      "\<forall>b. b \<notin> set (head # ?rest @ ys) \<longrightarrow> h2 b = h1 b"
    using Cons.IH [OF h1(2)] by blast
  have "P a \<longrightarrow> h2 a = None" using h1(3) h2(4) ne by auto
  with h1(1,4) h2 ne n show ?case
    by (subst m_list_foreach_safe_loop.simps) (auto simp: access)
qed

lemma dlist_foreach_safe_remove:
  assumes "dlist h head xs"
  shows "\<exists>h'. m_list_foreach_safe head (remove_and_free P) (h, []) = Some (h', xs) \<and>
    dlist h' head (filter (Not \<circ> P) xs) \<and> (\<forall>a \<in> set xs. P a \<longrightarrow> h' a = None)"
proof -
  have "\<exists>p. h head = Some \<lparr>l_prev = p, l_next = hd (xs @ [head])\<rparr>" "head \<noteq> 0"
    using assms by (auto simp: dlist_def)
  moreover have "dlist h head ([] @ xs)" using assms by simp
  ultimately show ?thesis
    using foreach_safe_loop_remove [of h head "[]" xs P "[]"]
    by (auto simp: m_list_foreach_safe_def access)
qed

lemma foreach_safe_r_loop_remove:
  assumes "dlist h head (ys @ xs)"
  shows "\<exists>h'. m_list_foreach_safe_r_loop head (remove_and_free P) (last (head # ys)) (h, acc) =
      Some (h', acc @ rev ys) \<and>
    dlist h' head (filter (Not \<circ> P) ys @ xs) \<and> (\<forall>a \<in> set ys. P a \<longrightarrow> h' a = None) \<and>
    (\<forall>b. b \<notin> set (head # ys @ xs) \<longrightarrow> h' b = h b)"
  using assms
proof (induction ys arbitrary: xs h acc rule: rev_induct)
  case Nil
  then obtain n where "head \<noteq> 0" "h head = Some n" by (auto simp: dlist_def)
  with Nil show ?case by (subst m_list_foreach_safe_r_loop.simps) (auto simp: access)
next
  case (snoc a ys)
  let ?rest = "filter (Not \<circ> P) [a] @ xs"
  have prem: "dlist h head (ys @ a # xs)" using snoc.prems by simp
  have ne: "a \<noteq> head" "a \<noteq> 0" "a \<notin> set (head # ys @ xs)" using prem by (auto simp: dlist_def)
  obtain q where n: "h a = Some \<lparr>l_prev = last (head # ys), l_next = q\<rparr>"
    using prem by (auto simp: dlist_def dseg_append)
  obtain h1 where h1: "remove_and_free P a (h, acc) = Some (h1, acc @ [a])"
      "dlist h1 head (ys @ ?rest)" "P a \<longrightarrow> h1 a = None"
      "\<forall>b. b \<notin> set (head # ys @ a # xs) \<longrightarrow> h1 b = h b"
    using dlist_remove_and_free [OF prem, of P acc] by (auto simp: append_assoc)
  obtain h2 where h2: "m_list_foreach_safe_r_loop head (remove_and_free P) (last (head # ys))
        (h1, acc @ [a]) = Some (h2, (acc @ [a]) @ rev ys)"
      "dlist h2 head (filter (Not \<circ> P) ys @ ?rest)" "\<forall>b \<in> set ys. P b \<longrightarrow> h2 b = None"
      "\<forall>b. b \<notin> set (head # ys @ ?rest) \<longrightarrow> h2 b = h1 b"
    using snoc.IH [OF h1(2)] by blast
  have "P a \<longrightarrow> h2 a = None" using h1(3) h2(4) ne by auto
  with h1(1,4) h2 ne n show ?case
    by (subst m_list_foreach_safe_r_loop.simps) (auto simp: access)
qed

lemma dlist_foreach_safe_r_remove:
  assumes "dlist h head xs"
  shows "\<exists>h'. m_list_foreach_safe_r head (remove_and_free P) (h, []) = Some (h', rev xs) \<and>
    dlist h' head (filter (Not \<circ> P) xs) \<and> (\<forall>a \<in> set xs. P a \<longrightarrow> h' a = None)"
proof -
  have "h head = Some \<lparr>l_prev = last (head # xs), l_next = hd (xs @ [head])\<rparr>" "head \<noteq> 0"
    using assms by (auto simp: dlist_def)
  moreover have "dlist h head (xs @ [])" using assms by simp
  ultimately show ?thesis
    using foreach_safe_r_loop_remove [of h head xs "[]" P "[]"]
    by (auto simp: m_list_foreach_safe_r_def access)
qed

text \<open>The same over the containing structures.\<close>

lemma dlist_hd_last_nonnull:
  assumes "dlist h head (xs @ ys)"
  shows "hd (ys @ [head]) \<noteq> 0" and "last (head # xs) \<noteq> 0"
proof -
  have nn: "0 \<notin> set (xs @ ys)" "head \<noteq> 0" using assms by (auto simp: dlist_def)
  then show "hd (ys @ [head]) \<noteq> 0" by (cases ys) auto
  from nn show "last (head # xs) \<noteq> 0" by (cases xs rule: rev_cases) auto
qed

lemma foreach_value_safe_loop_remove:
  assumes "dlist h head (xs @ ys)"
  shows "\<exists>h'. m_list_foreach_value_safe_loop head off (\<lambda>val. remove_and_free P (val + off)) (hd (ys @ [head]) - off) (h, acc) =
      Some (h', acc @ ys) \<and>
    dlist h' head (xs @ filter (Not \<circ> P) ys) \<and> (\<forall>a \<in> set ys. P a \<longrightarrow> h' a = None) \<and>
    (\<forall>b. b \<notin> set (head # xs @ ys) \<longrightarrow> h' b = h b)"
  using assms
proof (induction ys arbitrary: xs h acc)
  case Nil
  then obtain n where "head \<noteq> 0" "h head = Some n" by (auto simp: dlist_def)
  with Nil show ?case by (subst m_list_foreach_value_safe_loop.simps) (auto simp: access node_val)
next
  case (Cons a ys)
  let ?rest = "xs @ filter (Not \<circ> P) [a]"
  have ne: "a \<noteq> head" "a \<noteq> 0" "a \<notin> set (head # xs @ ys)" using Cons.prems by (auto simp: dlist_def)
  obtain p nx where n: "h a = Some \<lparr>l_prev = p, l_next = nx\<rparr>" and nx: "hd (ys @ [head]) = nx"
    using Cons.prems by (auto simp: dlist_def dseg_append)
  have nz: "nx \<noteq> 0" "head \<noteq> 0"
    using dlist_hd_last_nonnull(1) [of h head "xs @ [a]" ys] Cons.prems nx by (auto simp: dlist_def)
  obtain h1 where h1: "remove_and_free P a (h, acc) = Some (h1, acc @ [a])"
      "dlist h1 head (?rest @ ys)" "P a \<longrightarrow> h1 a = None"
      "\<forall>b. b \<notin> set (head # xs @ a # ys) \<longrightarrow> h1 b = h b"
    using dlist_remove_and_free [OF Cons.prems, of P acc] by (auto simp: append_assoc)
  obtain h2 where h2: "m_list_foreach_value_safe_loop head off (\<lambda>val. remove_and_free P (val + off)) (hd (ys @ [head]) - off)
        (h1, acc @ [a]) = Some (h2, (acc @ [a]) @ ys)"
      "dlist h2 head (?rest @ filter (Not \<circ> P) ys)" "\<forall>b \<in> set ys. P b \<longrightarrow> h2 b = None"
      "\<forall>b. b \<notin> set (head # ?rest @ ys) \<longrightarrow> h2 b = h1 b"
    using Cons.IH [OF h1(2)] by blast
  have "P a \<longrightarrow> h2 a = None" using h1(3) h2(4) ne by auto
  with h1(1,4) h2 ne n nz show ?case unfolding nx
    by (subst m_list_foreach_value_safe_loop.simps) (auto simp: access node_val)
qed

lemma dlist_foreach_value_safe_remove:
  assumes "dlist h head xs"
  shows "\<exists>h'. m_list_foreach_value_safe head off (\<lambda>val. remove_and_free P (val + off)) (h, []) = Some (h', xs) \<and>
    dlist h' head (filter (Not \<circ> P) xs) \<and> (\<forall>a \<in> set xs. P a \<longrightarrow> h' a = None)"
proof -
  obtain p nx where n: "h head = Some \<lparr>l_prev = p, l_next = nx\<rparr>" "head \<noteq> 0"
      and nx: "hd (xs @ [head]) = nx"
    using assms by (auto simp: dlist_def)
  have "nx \<noteq> 0" using dlist_hd_last_nonnull(1) [of h head "[]" xs] assms nx by simp
  with n show ?thesis
    using foreach_value_safe_loop_remove [of h head "[]" xs off P "[]"] assms unfolding nx
    by (auto simp: m_list_foreach_value_safe_def access node_val)
qed

lemma foreach_value_safe_r_loop_remove:
  assumes "dlist h head (ys @ xs)"
  shows "\<exists>h'. m_list_foreach_value_safe_r_loop head off (\<lambda>val. remove_and_free P (val + off)) (last (head # ys) - off) (h, acc) =
      Some (h', acc @ rev ys) \<and>
    dlist h' head (filter (Not \<circ> P) ys @ xs) \<and> (\<forall>a \<in> set ys. P a \<longrightarrow> h' a = None) \<and>
    (\<forall>b. b \<notin> set (head # ys @ xs) \<longrightarrow> h' b = h b)"
  using assms
proof (induction ys arbitrary: xs h acc rule: rev_induct)
  case Nil
  then obtain n where "head \<noteq> 0" "h head = Some n" by (auto simp: dlist_def)
  with Nil show ?case by (subst m_list_foreach_value_safe_r_loop.simps) (auto simp: access node_val)
next
  case (snoc a ys)
  let ?rest = "filter (Not \<circ> P) [a] @ xs"
  have prem: "dlist h head (ys @ a # xs)" using snoc.prems by simp
  have ne: "a \<noteq> head" "a \<noteq> 0" "a \<notin> set (head # ys @ xs)" using prem by (auto simp: dlist_def)
  obtain q nx where n: "h a = Some \<lparr>l_prev = nx, l_next = q\<rparr>" and nx: "last (head # ys) = nx"
    using prem by (auto simp: dlist_def dseg_append)
  have nz: "nx \<noteq> 0" "head \<noteq> 0"
    using dlist_hd_last_nonnull(2) [of h head ys "a # xs"] prem nx by (auto simp: dlist_def)
  obtain h1 where h1: "remove_and_free P a (h, acc) = Some (h1, acc @ [a])"
      "dlist h1 head (ys @ ?rest)" "P a \<longrightarrow> h1 a = None"
      "\<forall>b. b \<notin> set (head # ys @ a # xs) \<longrightarrow> h1 b = h b"
    using dlist_remove_and_free [OF prem, of P acc] by (auto simp: append_assoc)
  obtain h2 where h2: "m_list_foreach_value_safe_r_loop head off (\<lambda>val. remove_and_free P (val + off)) (last (head # ys) - off)
        (h1, acc @ [a]) = Some (h2, (acc @ [a]) @ rev ys)"
      "dlist h2 head (filter (Not \<circ> P) ys @ ?rest)" "\<forall>b \<in> set ys. P b \<longrightarrow> h2 b = None"
      "\<forall>b. b \<notin> set (head # ys @ ?rest) \<longrightarrow> h2 b = h1 b"
    using snoc.IH [OF h1(2)] by blast
  have "P a \<longrightarrow> h2 a = None" using h1(3) h2(4) ne by auto
  with h1(1,4) h2 ne n nz show ?case unfolding nx
    by (subst m_list_foreach_value_safe_r_loop.simps) (auto simp: access node_val)
qed

lemma dlist_foreach_value_safe_r_remove:
  assumes "dlist h head xs"
  shows "\<exists>h'. m_list_foreach_value_safe_r head off (\<lambda>val. remove_and_free P (val + off)) (h, []) = Some (h', rev xs) \<and>
    dlist h' head (filter (Not \<circ> P) xs) \<and> (\<forall>a \<in> set xs. P a \<longrightarrow> h' a = None)"
proof -
  obtain q nx where n: "h head = Some \<lparr>l_prev = nx, l_next = q\<rparr>" "head \<noteq> 0"
      and nx: "last (head # xs) = nx"
    using assms by (auto simp: dlist_def)
  have "nx \<noteq> 0" using dlist_hd_last_nonnull(2) [of h head xs "[]"] assms nx by simp
  with n show ?thesis
    using foreach_value_safe_r_loop_remove [of h head xs "[]" off P "[]"] assms unfolding nx
    by (auto simp: m_list_foreach_value_safe_r_def access node_val)
qed

end
