(* ===== verification/RBTree_Iter.thy ===== *)
theory RBTree_Iter
  imports RBTree_Remove RBTree_Dom
begin

text \<open>
  The traversal macros of \<open>m_rbtree.h\<close>, as loops over a body that may change the tree. The
  safe variants fetch the next node before the body runs, so that the body may remove the current
  node; \<open>remove_if\<close> is that documented use. The \<open>value\<close> variants walk the structures
  that contain the nodes at the offset \<open>off\<close>.
\<close>

type_synonym 'a titer = "M_RBTree \<times> 'a"

subsection \<open>The macros\<close>

partial_function (option) m_rbt_foreach_loop ::
    "(addr \<Rightarrow> 'a titer \<Rightarrow> 'a titer option) \<Rightarrow> addr \<Rightarrow> 'a titer \<Rightarrow> 'a titer option" where
  "m_rbt_foreach_loop body node s =
     (if node = 0 then Some s
      else do { s' \<leftarrow> body node s; n \<leftarrow> m_rbt_next_node (fst s') node;
                m_rbt_foreach_loop body n s' })"

definition m_rbt_foreach ::
    "(addr \<Rightarrow> 'a titer \<Rightarrow> 'a titer option) \<Rightarrow> 'a titer \<Rightarrow> 'a titer option" where
  "m_rbt_foreach body s = do { n \<leftarrow> m_rbt_first_node (fst s); m_rbt_foreach_loop body n s }"

partial_function (option) m_rbt_foreach_safe_loop ::
    "(addr \<Rightarrow> 'a titer \<Rightarrow> 'a titer option) \<Rightarrow> addr \<Rightarrow> 'a titer \<Rightarrow> 'a titer option" where
  "m_rbt_foreach_safe_loop body node s = do {
     nnext \<leftarrow> m_rbt_next_node (fst s) node;
     (if node = 0 then Some s
      else do { s' \<leftarrow> body node s; m_rbt_foreach_safe_loop body nnext s' }) }"

definition m_rbt_foreach_safe ::
    "(addr \<Rightarrow> 'a titer \<Rightarrow> 'a titer option) \<Rightarrow> 'a titer \<Rightarrow> 'a titer option" where
  "m_rbt_foreach_safe body s = do { n \<leftarrow> m_rbt_first_node (fst s); m_rbt_foreach_safe_loop body n s }"

partial_function (option) m_rbt_foreach_value_loop ::
    "u64 \<Rightarrow> (addr \<Rightarrow> 'a titer \<Rightarrow> 'a titer option) \<Rightarrow> addr \<Rightarrow> 'a titer \<Rightarrow> 'a titer option" where
  "m_rbt_foreach_value_loop off body val s =
     (if val = 0 then Some s
      else do { s' \<leftarrow> body val s; n \<leftarrow> m_rbt_next_node (fst s') (val + off);
                m_rbt_foreach_value_loop off body (m_node_value n off) s' })"

definition m_rbt_foreach_value ::
    "u64 \<Rightarrow> (addr \<Rightarrow> 'a titer \<Rightarrow> 'a titer option) \<Rightarrow> 'a titer \<Rightarrow> 'a titer option" where
  "m_rbt_foreach_value off body s = do {
     n \<leftarrow> m_rbt_first_node (fst s);
     m_rbt_foreach_value_loop off body (m_node_value n off) s }"

partial_function (option) m_rbt_foreach_value_safe_loop ::
    "u64 \<Rightarrow> (addr \<Rightarrow> 'a titer \<Rightarrow> 'a titer option) \<Rightarrow> addr \<Rightarrow> 'a titer \<Rightarrow> 'a titer option" where
  "m_rbt_foreach_value_safe_loop off body val s = do {
     nval \<leftarrow> (if val \<noteq> 0 then do { n \<leftarrow> m_rbt_next_node (fst s) (val + off); Some (m_node_value n off) }
             else Some 0);
     (if val = 0 then Some s
      else do { s' \<leftarrow> body val s; m_rbt_foreach_value_safe_loop off body nval s' }) }"

definition m_rbt_foreach_value_safe ::
    "u64 \<Rightarrow> (addr \<Rightarrow> 'a titer \<Rightarrow> 'a titer option) \<Rightarrow> 'a titer \<Rightarrow> 'a titer option" where
  "m_rbt_foreach_value_safe off body s = do {
     n \<leftarrow> m_rbt_first_node (fst s);
     m_rbt_foreach_value_safe_loop off body (m_node_value n off) s }"

partial_function (option) m_rbt_foreach_r_loop ::
    "(addr \<Rightarrow> 'a titer \<Rightarrow> 'a titer option) \<Rightarrow> addr \<Rightarrow> 'a titer \<Rightarrow> 'a titer option" where
  "m_rbt_foreach_r_loop body node s =
     (if node = 0 then Some s
      else do { s' \<leftarrow> body node s; n \<leftarrow> m_rbt_prev_node (fst s') node;
                m_rbt_foreach_r_loop body n s' })"

definition m_rbt_foreach_r ::
    "(addr \<Rightarrow> 'a titer \<Rightarrow> 'a titer option) \<Rightarrow> 'a titer \<Rightarrow> 'a titer option" where
  "m_rbt_foreach_r body s = do { n \<leftarrow> m_rbt_last_node (fst s); m_rbt_foreach_r_loop body n s }"

partial_function (option) m_rbt_foreach_safe_r_loop ::
    "(addr \<Rightarrow> 'a titer \<Rightarrow> 'a titer option) \<Rightarrow> addr \<Rightarrow> 'a titer \<Rightarrow> 'a titer option" where
  "m_rbt_foreach_safe_r_loop body node s = do {
     nnext \<leftarrow> m_rbt_prev_node (fst s) node;
     (if node = 0 then Some s
      else do { s' \<leftarrow> body node s; m_rbt_foreach_safe_r_loop body nnext s' }) }"

definition m_rbt_foreach_safe_r ::
    "(addr \<Rightarrow> 'a titer \<Rightarrow> 'a titer option) \<Rightarrow> 'a titer \<Rightarrow> 'a titer option" where
  "m_rbt_foreach_safe_r body s = do { n \<leftarrow> m_rbt_last_node (fst s); m_rbt_foreach_safe_r_loop body n s }"

partial_function (option) m_rbt_foreach_value_r_loop ::
    "u64 \<Rightarrow> (addr \<Rightarrow> 'a titer \<Rightarrow> 'a titer option) \<Rightarrow> addr \<Rightarrow> 'a titer \<Rightarrow> 'a titer option" where
  "m_rbt_foreach_value_r_loop off body val s =
     (if val = 0 then Some s
      else do { s' \<leftarrow> body val s; n \<leftarrow> m_rbt_prev_node (fst s') (val + off);
                m_rbt_foreach_value_r_loop off body (m_node_value n off) s' })"

definition m_rbt_foreach_value_r ::
    "u64 \<Rightarrow> (addr \<Rightarrow> 'a titer \<Rightarrow> 'a titer option) \<Rightarrow> 'a titer \<Rightarrow> 'a titer option" where
  "m_rbt_foreach_value_r off body s = do {
     n \<leftarrow> m_rbt_last_node (fst s);
     m_rbt_foreach_value_r_loop off body (m_node_value n off) s }"

partial_function (option) m_rbt_foreach_value_safe_r_loop ::
    "u64 \<Rightarrow> (addr \<Rightarrow> 'a titer \<Rightarrow> 'a titer option) \<Rightarrow> addr \<Rightarrow> 'a titer \<Rightarrow> 'a titer option" where
  "m_rbt_foreach_value_safe_r_loop off body val s = do {
     nval \<leftarrow> (if val \<noteq> 0 then do { n \<leftarrow> m_rbt_prev_node (fst s) (val + off); Some (m_node_value n off) }
             else Some 0);
     (if val = 0 then Some s
      else do { s' \<leftarrow> body val s; m_rbt_foreach_value_safe_r_loop off body nval s' }) }"

definition m_rbt_foreach_value_safe_r ::
    "u64 \<Rightarrow> (addr \<Rightarrow> 'a titer \<Rightarrow> 'a titer option) \<Rightarrow> 'a titer \<Rightarrow> 'a titer option" where
  "m_rbt_foreach_value_safe_r off body s = do {
     n \<leftarrow> m_rbt_last_node (fst s);
     m_rbt_foreach_value_safe_r_loop off body (m_node_value n off) s }"

subsection \<open>Reading traversals\<close>

lemma head_or_null_rev_snoc [simp]: "head_or_null (rev (xs @ [a])) = a"
  by simp

lemma node_val_Null [simp]: "m_node_value 0 off = 0"
  by (simp add: m_node_value_def)

definition hval :: "u64 \<Rightarrow> addr list \<Rightarrow> addr" where
  "hval off vs = m_node_value (head_or_null vs) off"

lemma hval_simps [simp]: "hval off [] = 0" "a \<noteq> 0 \<Longrightarrow> hval off (a # vs) = a - off"
  by (simp_all add: hval_def node_val)

lemma foreach_loop_tree:
  assumes "rbtree st (us @ vs)"
  shows "m_rbt_foreach_loop (\<lambda>a (s, acc). Some (s, f a acc)) (head_or_null vs) (st, acc) =
    Some (st, fold f vs acc)"
  using assms
proof (induction vs arbitrary: us acc)
  case Nil
  then show ?case by (subst m_rbt_foreach_loop.simps) simp
next
  case (Cons a vs)
  have "a \<noteq> 0" using rbtree_nonnull [OF Cons.prems] by simp
  then show ?case using next_node [OF Cons.prems] Cons.IH [of "us @ [a]" "f a acc"] Cons.prems
    by (subst m_rbt_foreach_loop.simps) simp
qed

lemma foreach_tree:
  "rbtree st xs \<Longrightarrow>
    m_rbt_foreach (\<lambda>a (s, acc). Some (s, f a acc)) (st, acc) = Some (st, fold f xs acc)"
  using foreach_loop_tree [of st "[]" xs] first_node [of st xs] by (simp add: m_rbt_foreach_def)

lemma foreach_r_loop_tree:
  assumes "rbtree st (us @ vs)"
  shows "m_rbt_foreach_r_loop (\<lambda>a (s, acc). Some (s, f a acc)) (head_or_null (rev us)) (st, acc) =
    Some (st, fold f (rev us) acc)"
  using assms
proof (induction us arbitrary: vs acc rule: rev_induct)
  case Nil
  then show ?case by (subst m_rbt_foreach_r_loop.simps) simp
next
  case (snoc a us)
  have T: "rbtree st (us @ a # vs)" using snoc.prems by simp
  have "a \<noteq> 0" using rbtree_nonnull [OF T] by simp
  then show ?case using prev_node [OF T] snoc.IH [of "a # vs" "f a acc"] T
    by (subst m_rbt_foreach_r_loop.simps) simp
qed

lemma foreach_r_tree:
  "rbtree st xs \<Longrightarrow>
    m_rbt_foreach_r (\<lambda>a (s, acc). Some (s, f a acc)) (st, acc) = Some (st, fold f (rev xs) acc)"
  using foreach_r_loop_tree [of st xs "[]"] last_node [of st xs] by (simp add: m_rbt_foreach_r_def)

text \<open>The values; no node is at the address \<open>off\<close>, that is, no value at NULL.\<close>

lemma foreach_value_loop_tree:
  assumes "rbtree st (us @ vs)" "off \<notin> set vs"
  shows "m_rbt_foreach_value_loop off (\<lambda>a (s, acc). Some (s, f a acc)) (hval off vs) (st, acc) =
    Some (st, fold f (map (\<lambda>a. a - off) vs) acc)"
  using assms
proof (induction vs arbitrary: us acc)
  case Nil
  then show ?case by (subst m_rbt_foreach_value_loop.simps) simp
next
  case (Cons a vs)
  have "a \<noteq> 0" "a - off \<noteq> 0" using rbtree_nonnull [OF Cons.prems(1)] Cons.prems(2) by auto
  then show ?case using next_node [OF Cons.prems(1)] Cons.IH [of "us @ [a]" "f (a - off) acc"] Cons.prems
    by (subst m_rbt_foreach_value_loop.simps) (simp add: hval_def [symmetric])
qed

lemma foreach_value_tree:
  "rbtree st xs \<Longrightarrow> off \<notin> set xs \<Longrightarrow>
    m_rbt_foreach_value off (\<lambda>a (s, acc). Some (s, f a acc)) (st, acc) =
      Some (st, fold f (map (\<lambda>a. a - off) xs) acc)"
  using foreach_value_loop_tree [of st "[]" xs] first_node [of st xs]
  by (simp add: m_rbt_foreach_value_def hval_def)

lemma foreach_value_r_loop_tree:
  assumes "rbtree st (us @ vs)" "off \<notin> set us"
  shows "m_rbt_foreach_value_r_loop off (\<lambda>a (s, acc). Some (s, f a acc)) (hval off (rev us)) (st, acc) =
    Some (st, fold f (map (\<lambda>a. a - off) (rev us)) acc)"
  using assms
proof (induction us arbitrary: vs acc rule: rev_induct)
  case Nil
  then show ?case by (subst m_rbt_foreach_value_r_loop.simps) simp
next
  case (snoc a us)
  have T: "rbtree st (us @ a # vs)" using snoc.prems by simp
  have "a \<noteq> 0" "a - off \<noteq> 0" using rbtree_nonnull [OF T] snoc.prems(2) by auto
  then show ?case using prev_node [OF T] snoc.IH [of "a # vs" "f (a - off) acc"] T snoc.prems(2)
    by (subst m_rbt_foreach_value_r_loop.simps) (simp add: hval_def [symmetric])
qed

lemma foreach_value_r_tree:
  "rbtree st xs \<Longrightarrow> off \<notin> set xs \<Longrightarrow>
    m_rbt_foreach_value_r off (\<lambda>a (s, acc). Some (s, f a acc)) (st, acc) =
      Some (st, fold f (map (\<lambda>a. a - off) (rev xs)) acc)"
  using foreach_value_r_loop_tree [of st xs "[]"] last_node [of st xs]
  by (simp add: m_rbt_foreach_value_r_def hval_def)

subsection \<open>Removing traversals\<close>

definition remove_if :: "(addr \<Rightarrow> bool) \<Rightarrow> u64 \<Rightarrow> addr \<Rightarrow> addr list titer \<Rightarrow> addr list titer option" where
  "remove_if P off a s =
     (if P a then do { st' \<leftarrow> m_rbt_remove (a + off) (fst s); Some (st', snd s @ [a]) }
      else Some (fst s, snd s @ [a]))"

lemma remove_if_step:
  assumes "rbtree st (us @ a # vs)"
  shows "\<exists>st' us'. remove_if P off (a - off) (st, acc) = Some (st', acc @ [a - off]) \<and>
    us' = us @ filter (\<lambda>a. \<not> P (a - off)) [a] \<and> rbtree st' (us' @ vs)"
proof -
  obtain st' where "m_rbt_remove a st = Some st'" "rbtree st' (us @ vs)"
    by (rule remove_tree [OF assms])
  then show ?thesis using assms by (cases "P (a - off)") (auto simp: remove_if_def)
qed

lemma foreach_value_safe_loop_tree:
  assumes "rbtree st (us @ vs)" "off \<notin> set vs"
  shows "\<exists>st'. m_rbt_foreach_value_safe_loop off (remove_if P off) (hval off vs) (st, acc) =
      Some (st', acc @ map (\<lambda>a. a - off) vs) \<and> rbtree st' (us @ filter (\<lambda>a. \<not> P (a - off)) vs)"
  using assms
proof (induction vs arbitrary: us st acc)
  case Nil
  then show ?case by (subst m_rbt_foreach_value_safe_loop.simps) simp
next
  case (Cons a vs)
  have nz: "a \<noteq> 0" "a - off \<noteq> 0" using rbtree_nonnull [OF Cons.prems(1)] Cons.prems(2) by auto
  obtain st1 us1 where 1: "remove_if P off (a - off) (st, acc) = Some (st1, acc @ [a - off])"
    "us1 = us @ filter (\<lambda>a. \<not> P (a - off)) [a]" "rbtree st1 (us1 @ vs)"
    using remove_if_step [OF Cons.prems(1)] by blast
  from Cons.IH [OF 1(3), of "acc @ [a - off]"] Cons.prems(2) show ?case
    using nz next_node [OF Cons.prems(1)] 1(1,2)
    by (subst m_rbt_foreach_value_safe_loop.simps) (auto simp: hval_def [symmetric])
qed

lemma foreach_value_safe_tree:
  assumes "rbtree st xs" "off \<notin> set xs"
  shows "\<exists>st'. m_rbt_foreach_value_safe off (remove_if P off) (st, []) =
      Some (st', map (\<lambda>a. a - off) xs) \<and> rbtree st' (filter (\<lambda>a. \<not> P (a - off)) xs)"
  using foreach_value_safe_loop_tree [of st "[]" xs off P "[]"] assms first_node [OF assms(1)]
  by (simp add: m_rbt_foreach_value_safe_def hval_def)

lemma foreach_value_safe_r_loop_tree:
  assumes "rbtree st (us @ vs)" "off \<notin> set us"
  shows "\<exists>st'. m_rbt_foreach_value_safe_r_loop off (remove_if P off) (hval off (rev us)) (st, acc) =
      Some (st', acc @ map (\<lambda>a. a - off) (rev us)) \<and> rbtree st' (filter (\<lambda>a. \<not> P (a - off)) us @ vs)"
  using assms
proof (induction us arbitrary: vs st acc rule: rev_induct)
  case Nil
  then show ?case by (subst m_rbt_foreach_value_safe_r_loop.simps) simp
next
  case (snoc a us)
  have T: "rbtree st (us @ a # vs)" using snoc.prems by simp
  have nz: "a \<noteq> 0" "a - off \<noteq> 0" using rbtree_nonnull [OF T] snoc.prems(2) by auto
  obtain st1 where 1: "remove_if P off (a - off) (st, acc) = Some (st1, acc @ [a - off])"
    "rbtree st1 (us @ filter (\<lambda>a. \<not> P (a - off)) [a] @ vs)"
    using remove_if_step [OF T, of P off acc] by auto
  from snoc.IH [OF 1(2), of "acc @ [a - off]"] snoc.prems(2) show ?case
    using nz prev_node [OF T] 1(1)
    by (subst m_rbt_foreach_value_safe_r_loop.simps) (auto simp: hval_def [symmetric])
qed

lemma foreach_value_safe_r_tree:
  assumes "rbtree st xs" "off \<notin> set xs"
  shows "\<exists>st'. m_rbt_foreach_value_safe_r off (remove_if P off) (st, []) =
      Some (st', map (\<lambda>a. a - off) (rev xs)) \<and> rbtree st' (filter (\<lambda>a. \<not> P (a - off)) xs)"
  using foreach_value_safe_r_loop_tree [of st xs "[]" off P "[]"] assms last_node [OF assms(1)]
  by (simp add: m_rbt_foreach_value_safe_r_def hval_def)

text \<open>The node variants, with the same bodies at offset zero.\<close>

lemma foreach_safe_loop_tree:
  assumes "rbtree st (us @ vs)"
  shows "\<exists>st'. m_rbt_foreach_safe_loop (remove_if P 0) (head_or_null vs) (st, acc) =
      Some (st', acc @ vs) \<and> rbtree st' (us @ filter (\<lambda>a. \<not> P a) vs)"
  using assms
proof (induction vs arbitrary: us st acc)
  case Nil
  then show ?case by (subst m_rbt_foreach_safe_loop.simps) (simp add: m_rbt_next_node_def)
next
  case (Cons a vs)
  have nz: "a \<noteq> 0" using rbtree_nonnull [OF Cons.prems] by simp
  obtain st1 where 1: "remove_if P 0 a (st, acc) = Some (st1, acc @ [a])"
    "rbtree st1 ((us @ filter (\<lambda>a. \<not> P a) [a]) @ vs)"
    using remove_if_step [OF Cons.prems, of P 0 acc] by (auto simp: comp_def)
  from Cons.IH [OF 1(2), of "acc @ [a]"] show ?case
    using nz next_node [OF Cons.prems] 1(1) by (subst m_rbt_foreach_safe_loop.simps) auto
qed

lemma foreach_safe_tree:
  assumes "rbtree st xs"
  shows "\<exists>st'. m_rbt_foreach_safe (remove_if P 0) (st, []) = Some (st', xs) \<and>
    rbtree st' (filter (\<lambda>a. \<not> P a) xs)"
  using foreach_safe_loop_tree [of st "[]" xs P "[]"] assms first_node [OF assms]
  by (simp add: m_rbt_foreach_safe_def)

lemma foreach_safe_r_loop_tree:
  assumes "rbtree st (us @ vs)"
  shows "\<exists>st'. m_rbt_foreach_safe_r_loop (remove_if P 0) (head_or_null (rev us)) (st, acc) =
      Some (st', acc @ rev us) \<and> rbtree st' (filter (\<lambda>a. \<not> P a) us @ vs)"
  using assms
proof (induction us arbitrary: vs st acc rule: rev_induct)
  case Nil
  then show ?case by (subst m_rbt_foreach_safe_r_loop.simps) (simp add: m_rbt_prev_node_def)
next
  case (snoc a us)
  have T: "rbtree st (us @ a # vs)" using snoc.prems by simp
  have nz: "a \<noteq> 0" using rbtree_nonnull [OF T] by simp
  obtain st1 where 1: "remove_if P 0 a (st, acc) = Some (st1, acc @ [a])"
    "rbtree st1 (us @ filter (\<lambda>a. \<not> P a) [a] @ vs)"
    using remove_if_step [OF T, of P 0 acc] by (auto simp: comp_def)
  from snoc.IH [OF 1(2), of "acc @ [a]"] show ?case
    using nz prev_node [OF T] 1(1) by (subst m_rbt_foreach_safe_r_loop.simps) auto
qed

lemma foreach_safe_r_tree:
  assumes "rbtree st xs"
  shows "\<exists>st'. m_rbt_foreach_safe_r (remove_if P 0) (st, []) = Some (st', rev xs) \<and>
    rbtree st' (filter (\<lambda>a. \<not> P a) xs)"
  using foreach_safe_r_loop_tree [of st xs "[]" P "[]"] assms last_node [OF assms]
  by (simp add: m_rbt_foreach_safe_r_def)

end
