(* ===== verification/Hash_Iter.thy ===== *)
theory Hash_Iter
  imports Hash
begin

text \<open>
  The remaining traversal macros of \<open>m_hash.h\<close>: \<open>m_hash_foreach_prev\<close>, which gives
  its body the place that points to the current node, and the variants over the structures that
  contain the nodes at the offset \<open>off\<close>.
\<close>

subsection \<open>The macros\<close>

partial_function (option) m_hash_prev_loop ::
    "(addr \<Rightarrow> hslot \<Rightarrow> 'a hstate \<Rightarrow> 'a hstate option) \<Rightarrow> hslot \<Rightarrow> 'a hstate \<Rightarrow> 'a hstate option" where
  "m_hash_prev_loop body pnode s = do {
     node \<leftarrow> read_slot (fst s) pnode;
     (if node = 0 then Some s
      else do {
        s' \<leftarrow> body node pnode s;
        cur \<leftarrow> read_slot (fst s') pnode;
        m_hash_prev_loop body (if cur = node then NextOf node else pnode) s' }) }"

partial_function (option) m_hash_foreach_prev_from ::
    "(addr \<Rightarrow> hslot \<Rightarrow> 'a hstate \<Rightarrow> 'a hstate option) \<Rightarrow> u32 \<Rightarrow> 'a hstate \<Rightarrow> 'a hstate option" where
  "m_hash_foreach_prev_from body pos s =
     (if pos < nlist (fst (fst s)) then do {
        s' \<leftarrow> m_hash_prev_loop body (Bucket pos) s;
        m_hash_foreach_prev_from body (pos + 1) s' }
      else Some s)"

definition m_hash_foreach_prev ::
    "(addr \<Rightarrow> hslot \<Rightarrow> 'a hstate \<Rightarrow> 'a hstate option) \<Rightarrow> 'a hstate \<Rightarrow> 'a hstate option" where
  "m_hash_foreach_prev body s = m_hash_foreach_prev_from body 0 s"

partial_function (option) m_hash_value_loop ::
    "u64 \<Rightarrow> (addr \<Rightarrow> 'a hstate \<Rightarrow> 'a hstate option) \<Rightarrow> addr \<Rightarrow> 'a hstate \<Rightarrow> 'a hstate option" where
  "m_hash_value_loop off body val s =
     (if val = 0 then Some s
      else do { s' \<leftarrow> body val s; n \<leftarrow> rd (snd (fst s')) (val + off);
                m_hash_value_loop off body (m_node_value (s_next n) off) s' })"

partial_function (option) m_hash_foreach_value_from ::
    "u64 \<Rightarrow> (addr \<Rightarrow> 'a hstate \<Rightarrow> 'a hstate option) \<Rightarrow> u32 \<Rightarrow> 'a hstate \<Rightarrow> 'a hstate option" where
  "m_hash_foreach_value_from off body pos s =
     (if pos < nlist (fst (fst s)) then do {
        node \<leftarrow> bucket (fst (fst s)) pos;
        s' \<leftarrow> m_hash_value_loop off body (m_node_value node off) s;
        m_hash_foreach_value_from off body (pos + 1) s' }
      else Some s)"

definition m_hash_foreach_value ::
    "u64 \<Rightarrow> (addr \<Rightarrow> 'a hstate \<Rightarrow> 'a hstate option) \<Rightarrow> 'a hstate \<Rightarrow> 'a hstate option" where
  "m_hash_foreach_value off body s = m_hash_foreach_value_from off body 0 s"

text \<open>\<open>m_hash_foreach_value_safe\<close> computes the next value with \<open>M_CONTAINER_OF\<close>, not
  with \<open>m_node_value\<close>, so that the end of a chain is not NULL when the offset is not
  zero.\<close>

partial_function (option) m_hash_value_safe_loop ::
    "u64 \<Rightarrow> (addr \<Rightarrow> 'a hstate \<Rightarrow> 'a hstate option) \<Rightarrow> addr \<Rightarrow> 'a hstate \<Rightarrow> 'a hstate option" where
  "m_hash_value_safe_loop off body val s =
     (if val = 0 then Some s
      else do { n \<leftarrow> rd (snd (fst s)) (val + off);
                s' \<leftarrow> body val s;
                m_hash_value_safe_loop off body (M_CONTAINER_OF (s_next n) off) s' })"

partial_function (option) m_hash_foreach_value_safe_from ::
    "u64 \<Rightarrow> (addr \<Rightarrow> 'a hstate \<Rightarrow> 'a hstate option) \<Rightarrow> u32 \<Rightarrow> 'a hstate \<Rightarrow> 'a hstate option" where
  "m_hash_foreach_value_safe_from off body pos s =
     (if pos < nlist (fst (fst s)) then do {
        node \<leftarrow> bucket (fst (fst s)) pos;
        s' \<leftarrow> m_hash_value_safe_loop off body (m_node_value node off) s;
        m_hash_foreach_value_safe_from off body (pos + 1) s' }
      else Some s)"

definition m_hash_foreach_value_safe ::
    "u64 \<Rightarrow> (addr \<Rightarrow> 'a hstate \<Rightarrow> 'a hstate option) \<Rightarrow> 'a hstate \<Rightarrow> 'a hstate option" where
  "m_hash_foreach_value_safe off body s = m_hash_foreach_value_safe_from off body 0 s"

partial_function (option) m_hash_value_prev_loop ::
    "u64 \<Rightarrow> (addr \<Rightarrow> hslot \<Rightarrow> 'a hstate \<Rightarrow> 'a hstate option) \<Rightarrow> hslot \<Rightarrow> 'a hstate \<Rightarrow> 'a hstate option" where
  "m_hash_value_prev_loop off body pnode s = do {
     node \<leftarrow> read_slot (fst s) pnode;
     (let val = (if node \<noteq> 0 then M_CONTAINER_OF node off else 0) in
      if val = 0 then Some s
      else do {
        s' \<leftarrow> body val pnode s;
        cur \<leftarrow> read_slot (fst s') pnode;
        m_hash_value_prev_loop off body (if cur = val + off then NextOf (val + off) else pnode) s' }) }"

partial_function (option) m_hash_foreach_value_prev_from ::
    "u64 \<Rightarrow> (addr \<Rightarrow> hslot \<Rightarrow> 'a hstate \<Rightarrow> 'a hstate option) \<Rightarrow> u32 \<Rightarrow> 'a hstate \<Rightarrow> 'a hstate option" where
  "m_hash_foreach_value_prev_from off body pos s =
     (if pos < nlist (fst (fst s)) then do {
        s' \<leftarrow> m_hash_value_prev_loop off body (Bucket pos) s;
        m_hash_foreach_value_prev_from off body (pos + 1) s' }
      else Some s)"

definition m_hash_foreach_value_prev ::
    "u64 \<Rightarrow> (addr \<Rightarrow> hslot \<Rightarrow> 'a hstate \<Rightarrow> 'a hstate option) \<Rightarrow> 'a hstate \<Rightarrow> 'a hstate option" where
  "m_hash_foreach_value_prev off body s = m_hash_foreach_value_prev_from off body 0 s"

subsection \<open>Removal through the place of the node\<close>

lemma read_prev_slot:
  assumes rep: "hash_rep ops s bs" and i: "i < length bs" "bs ! i = us @ vs"
  shows "read_slot s (prev_slot i us) = Some (case vs of [] \<Rightarrow> 0 | x # _ \<Rightarrow> x)"
proof -
  obtain H h where s: "s = (H, h)" by (cases s)
  obtain a where a: "bucket H (of_nat i) = Some a" "sseg h a (us @ vs)"
    using hash_rep_bucket [OF rep, of "of_nat i"] unat_of_nat_index [OF rep i(1)] i by (auto simp: s)
  show ?thesis
  proof (cases us rule: rev_cases)
    case Nil
    then show ?thesis using a by (cases vs) (auto simp: s prev_slot_def)
  next
    case (snoc ws u)
    then have "sseg h u (u # vs)" using a(2) sseg_suffix [of h a ws u vs] by simp
    then show ?thesis using snoc by (cases vs) (auto simp: s prev_slot_def access)
  qed
qed

text \<open>The documented body: remove the current node through its place when \<open>P\<close> holds of
  the value.\<close>

definition prev_remove_if ::
    "(addr \<Rightarrow> bool) \<Rightarrow> addr \<Rightarrow> hslot \<Rightarrow> addr list hstate \<Rightarrow> addr list hstate option" where
  "prev_remove_if P val pnode s =
     (if P val then do { r \<leftarrow> m_hash_remove_from_prev pnode (fst s); Some (snd r, snd s @ [val]) }
      else Some (fst s, snd s @ [val]))"

lemma chain_node_nonnull:
  assumes "hash_rep ops s bs" "i < length bs" "bs ! i = us @ x # vs"
  shows "x \<noteq> 0"
proof -
  have "x \<in> set (bs ! i)" using assms(3) by simp
  then have "x \<in> set (concat bs)" using assms(2) unfolding in_concat_iff by blast
  then show ?thesis by (rule hash_rep_mapped(1) [OF assms(1)])
qed

lemma prev_remove_step:
  assumes rep: "hash_rep ops s bs" and i: "i < length bs" "bs ! i = us @ x # vs"
  shows "\<exists>s' us'. prev_remove_if P v (prev_slot i us) (s, acc) = Some (s', acc @ [v]) \<and>
    us' = (if P v then us else us @ [x]) \<and> hash_rep ops s' (bs[i := us' @ vs]) \<and>
    nlist (fst s') = nlist (fst s) \<and>
    (\<exists>cur. read_slot s' (prev_slot i us) = Some cur \<and>
      (if cur = x then NextOf x else prev_slot i us) = prev_slot i us')"
proof (cases "P v")
  case True
  obtain s' where s': "m_hash_remove_from_prev (prev_slot i us) s = Some (x, s')"
    "hash_rep ops s' (bs[i := us @ vs])" "nlist (fst s') = nlist (fst s)"
    using remove_from_prev_rep [OF rep i] by blast
  have "x \<noteq> 0" by (rule chain_node_nonnull [OF rep i])
  moreover have "x \<notin> set vs"
    using rep i by (auto simp: hash_rep_def concat_split [OF i(1)] simp del: set_concat)
  ultimately have "(case vs of [] \<Rightarrow> 0 | y # _ \<Rightarrow> y) \<noteq> x" by (cases vs) auto
  moreover have "read_slot s' (prev_slot i us) = Some (case vs of [] \<Rightarrow> 0 | y # _ \<Rightarrow> y)"
    by (rule read_prev_slot [OF s'(2)]) (use i in auto)
  ultimately show ?thesis using s' True by (auto simp: prev_remove_if_def)
next
  case False
  have "read_slot s (prev_slot i us) = Some x" using read_prev_slot [OF rep i] by simp
  moreover have "bs[i := us @ x # vs] = bs" using list_update_id [of bs i] i(2) by simp
  ultimately show ?thesis using False rep by (auto simp: prev_remove_if_def prev_slot_def)
qed

lemma prev_loop_rep:
  assumes "hash_rep ops s bs" "i < length bs" "bs ! i = us @ vs"
  shows "\<exists>s'. m_hash_prev_loop (prev_remove_if P) (prev_slot i us) (s, acc) = Some (s', acc @ vs) \<and>
    hash_rep ops s' (bs[i := us @ filter (\<lambda>a. \<not> P a) vs]) \<and> nlist (fst s') = nlist (fst s)"
  using assms
proof (induction vs arbitrary: us s bs acc)
  case Nil
  show ?case using Nil read_prev_slot [OF Nil] list_update_id [of bs i] by (subst m_hash_prev_loop.simps) simp
next
  case (Cons x vs)
  have x: "x \<noteq> 0" by (rule chain_node_nonnull [OF Cons.prems])
  have rd: "read_slot s (prev_slot i us) = Some x" using read_prev_slot [OF Cons.prems] by simp
  obtain s1 us1 cur where 1: "prev_remove_if P x (prev_slot i us) (s, acc) = Some (s1, acc @ [x])"
    "us1 = (if P x then us else us @ [x])" "hash_rep ops s1 (bs[i := us1 @ vs])"
    "nlist (fst s1) = nlist (fst s)" "read_slot s1 (prev_slot i us) = Some cur"
    "(if cur = x then NextOf x else prev_slot i us) = prev_slot i us1"
    using prev_remove_step [OF Cons.prems, of P x acc] by blast
  obtain s2 where 2: "m_hash_prev_loop (prev_remove_if P) (prev_slot i us1) (s1, acc @ [x]) =
      Some (s2, (acc @ [x]) @ vs)" "nlist (fst s2) = nlist (fst s1)"
    "hash_rep ops s2 ((bs[i := us1 @ vs])[i := us1 @ filter (\<lambda>a. \<not> P a) vs])"
    using Cons.IH [OF 1(3), of us1 "acc @ [x]"] Cons.prems(2) by auto
  have "m_hash_prev_loop (prev_remove_if P) (prev_slot i us) (s, acc) = Some (s2, acc @ x # vs)"
    using rd x 1(1,5,6) 2(1) by (subst m_hash_prev_loop.simps) simp
  then show ?case using 1(2,4) 2(2,3) by auto
qed

lemma foreach_prev_rep:
  assumes rep: "hash_rep ops s bs"
  shows "\<exists>s'. m_hash_foreach_prev (prev_remove_if P) (s, []) = Some (s', concat bs) \<and>
    hash_rep ops s' (map (filter (\<lambda>a. \<not> P a)) bs)"
proof -
  let ?f = "filter (\<lambda>a. \<not> P a)"
  have len: "length bs = unat (nlist (fst s))" using rep by (simp add: hash_rep_def)
  have small: "unat (of_nat j :: u32) = j" if "j \<le> length bs" for j
    using that len unsigned_less [of "nlist (fst s)", where ?'a = nat]
    by (simp add: unat_of_nat take_bit_eq_mod)
  have "\<exists>s'. m_hash_foreach_prev_from (prev_remove_if P) (of_nat i) (t, concat (take i bs)) =
      Some (s', concat bs) \<and> hash_rep ops s' (map ?f bs)"
    if "i \<le> length bs" "hash_rep ops t (map ?f (take i bs) @ drop i bs)" "nlist (fst t) = nlist (fst s)" for i t
    using that
  proof (induction "length bs - i" arbitrary: i t)
    case 0
    then have "i = length bs" by simp
    then show ?case using 0 len small
      by (subst m_hash_foreach_prev_from.simps) (simp add: word_less_nat_alt)
  next
    case (Suc m)
    then have i: "i < length bs" by simp
    let ?bs = "map ?f (take i bs) @ drop i bs"
    have lt: "of_nat i < nlist (fst t)"
      using i small [of i] len Suc.prems(3) by (simp add: word_less_nat_alt)
    obtain t1 where 1: "m_hash_prev_loop (prev_remove_if P) (prev_slot i []) (t, concat (take i bs)) =
        Some (t1, concat (take i bs) @ bs ! i)" "hash_rep ops t1 (?bs[i := [] @ ?f (bs ! i)])"
      "nlist (fst t1) = nlist (fst t)"
      using prev_loop_rep [OF Suc.prems(2), of i "[]" "bs ! i" P "concat (take i bs)"] i
      by (auto simp: nth_append)
    have "?bs[i := [] @ ?f (bs ! i)] = map ?f (take (Suc i) bs) @ drop (Suc i) bs"
      using i by (simp add: list_update_append take_Suc_conv_app_nth Cons_nth_drop_Suc [symmetric])
    then show ?case
      using Suc.hyps(1) [of "Suc i" t1] Suc.hyps(2) Suc.prems(3) 1 i lt
      by (subst m_hash_foreach_prev_from.simps)
        (simp add: prev_slot_def take_Suc_conv_app_nth add.commute)
  qed
  from this [of 0 s] rep show ?thesis by (simp add: m_hash_foreach_prev_def)
qed

subsection \<open>Traversals over the containing structures\<close>

lemma value_loop_opt:
  "sseg h a xs \<Longrightarrow> off \<notin> set xs \<Longrightarrow>
    m_hash_value_loop off (\<lambda>a (s, acc). map_option (Pair s) (f a acc)) (m_node_value a off) ((H, h), acc) =
      map_option (Pair (H, h)) (fold_opt f (map (\<lambda>a. a - off) xs) acc)"
proof (induction xs arbitrary: a acc)
  case Nil
  then show ?case by (subst m_hash_value_loop.simps) (simp add: m_node_value_def)
next
  case (Cons x xs)
  then obtain b where b: "x \<noteq> 0" "a = x" "h x = Some \<lparr>s_next = b\<rparr>" "sseg h b xs" by auto
  have "x \<noteq> off" using Cons.prems(2) by auto
  then show ?case using b Cons.IH [OF b(4)] Cons.prems(2)
    by (subst m_hash_value_loop.simps)
      (cases "f (x - off) acc"; simp add: m_node_value_def [of x] M_CONTAINER_OF_def access)
qed

lemma foreach_value_opt:
  assumes rep: "hash_rep ops (H, h) bs" and off: "off \<notin> set (concat bs)"
  shows "m_hash_foreach_value off (\<lambda>a (s, acc). map_option (Pair s) (f a acc)) ((H, h), acc) =
    map_option (Pair (H, h)) (fold_opt f (map (\<lambda>a. a - off) (concat bs)) acc)"
proof -
  have len: "length bs = unat (nlist H)" using rep by (simp add: hash_rep_def)
  have small: "unat (of_nat j :: u32) = j" if "j \<le> length bs" for j
    using that len unsigned_less [of "nlist H", where ?'a = nat]
    by (simp add: unat_of_nat take_bit_eq_mod)
  have "m_hash_foreach_value_from off (\<lambda>a (s, acc). map_option (Pair s) (f a acc)) (of_nat i) ((H, h), acc) =
      map_option (Pair (H, h)) (fold_opt f (map (\<lambda>a. a - off) (concat (drop i bs))) acc)"
    if "i \<le> length bs" for i acc
    using that
  proof (induction "length bs - i" arbitrary: i acc)
    case 0
    then have "i = length bs" by simp
    then show ?case
      using len small by (subst m_hash_foreach_value_from.simps) (simp add: word_less_nat_alt)
  next
    case (Suc m)
    then have i: "i < length bs" by simp
    have u: "unat (of_nat i :: u32) = i" using small i by simp
    obtain a where a: "bucket H (of_nat i) = Some a" "sseg h a (bs ! i)"
      using hash_rep_bucket [OF rep, of "of_nat i"] u i by auto
    have "off \<notin> set (bs ! i)" using off i unfolding in_concat_iff by blast
    note step = value_loop_opt [OF a(2) this, of f H]
    have IH: "m_hash_foreach_value_from off (\<lambda>a (s, acc). map_option (Pair s) (f a acc)) (of_nat (Suc i))
        ((H, h), acc') = map_option (Pair (H, h)) (fold_opt f (map (\<lambda>a. a - off) (concat (drop (Suc i) bs))) acc')" for acc'
      using Suc.hyps(1) [of "Suc i"] Suc.hyps(2) i by simp
    have split: "drop i bs = bs ! i # drop (Suc i) bs" using i by (simp add: Cons_nth_drop_Suc)
    show ?case
      using a i u len step IH
      by (subst m_hash_foreach_value_from.simps)
        (cases "fold_opt f (map (\<lambda>a. a - off) (bs ! i)) acc";
          simp add: word_less_nat_alt add.commute split fold_opt_append)
  qed
  from this [of 0 acc] show ?thesis by (simp add: m_hash_foreach_value_def)
qed

lemma foreach_value_pure:
  assumes rep: "hash_rep ops (H, h) bs" and off: "off \<notin> set (concat bs)"
  shows "m_hash_foreach_value off (\<lambda>a (s, acc). Some (s, f a acc)) ((H, h), acc) =
    Some ((H, h), fold f (map (\<lambda>a. a - off) (concat bs)) acc)"
  using foreach_value_opt [OF assms, of "\<lambda>a s. Some (f a s)" acc]
  by (simp add: fold_opt_Some)

text \<open>The safe variant leaves the end of every chain as a pointer that is not NULL and reads
  through it, unless the node is the first member of its structure.\<close>

lemma value_safe_loop_faults:
  assumes "sseg h a xs" "xs \<noteq> []" "off \<noteq> 0" "off \<notin> set xs"
  shows "m_hash_value_safe_loop off (\<lambda>a (s, acc). Some (s, f a acc)) (M_CONTAINER_OF a off) ((H, h), acc) = None"
  using assms
proof (induction xs arbitrary: a acc)
  case (Cons x xs)
  then obtain b where b: "x \<noteq> 0" "a = x" "h x = Some \<lparr>s_next = b\<rparr>" "sseg h b xs" by auto
  have "m_hash_value_safe_loop off (\<lambda>a (s, acc). Some (s, f a acc)) (M_CONTAINER_OF b off) ((H, h), f (x - off) acc) = None"
  proof (cases xs)
    case Nil
    then show ?thesis using b(4) Cons.prems(3)
      by (subst m_hash_value_safe_loop.simps) (simp add: M_CONTAINER_OF_def)
  qed (use Cons.IH [OF b(4)] Cons.prems in simp)
  moreover have "x \<noteq> off" using Cons.prems(4) by auto
  ultimately show ?case using b
    by (subst m_hash_value_safe_loop.simps) (simp add: M_CONTAINER_OF_def access)
qed simp

lemma foreach_value_safe_faults:
  assumes rep: "hash_rep ops (H, h) bs" and off: "off \<noteq> 0" "off \<notin> set (concat bs)"
    and ne: "concat bs \<noteq> []"
  shows "m_hash_foreach_value_safe off (\<lambda>a (s, acc). Some (s, f a acc)) ((H, h), acc) = None"
proof -
  let ?body = "\<lambda>a (s, acc). Some (s, f a acc)"
  have len: "length bs = unat (nlist H)" using rep by (simp add: hash_rep_def)
  have small: "unat (of_nat j :: u32) = j" if "j \<le> length bs" for j
    using that len unsigned_less [of "nlist H", where ?'a = nat]
    by (simp add: unat_of_nat take_bit_eq_mod)
  have "m_hash_foreach_value_safe_from off ?body (of_nat i) ((H, h), acc) = None"
    if "i \<le> length bs" "concat (drop i bs) \<noteq> []" for i acc
    using that
  proof (induction "length bs - i" arbitrary: i acc)
    case 0
    then show ?case by simp
  next
    case (Suc m)
    then have i: "i < length bs" by simp
    have u: "unat (of_nat i :: u32) = i" using small i by simp
    have lt: "of_nat i < nlist H" using i u len by (simp add: word_less_nat_alt)
    obtain a where a: "bucket H (of_nat i) = Some a" "sseg h a (bs ! i)"
      using hash_rep_bucket [OF rep, of "of_nat i"] u i by auto
    show ?case
    proof (cases "bs ! i = []")
      case True
      then have "concat (drop (Suc i) bs) \<noteq> []" using Suc.prems(2) i
        by (simp add: Cons_nth_drop_Suc [symmetric])
      then have "m_hash_foreach_value_safe_from off ?body (of_nat (Suc i)) ((H, h), acc) = None"
        using Suc.hyps(1) [of "Suc i"] Suc.hyps(2) i by simp
      moreover have "m_hash_value_safe_loop off ?body (m_node_value a off) ((H, h), acc) = Some ((H, h), acc)"
        using a(2) True by (subst m_hash_value_safe_loop.simps) (simp add: m_node_value_def)
      ultimately show ?thesis using a(1) lt
        by (subst m_hash_foreach_value_safe_from.simps) (simp add: add.commute)
    next
      case False
      then have "a \<noteq> 0" using a(2) by (cases "bs ! i") auto
      moreover have "off \<notin> set (bs ! i)" using off(2) i unfolding in_concat_iff by blast
      ultimately have "m_hash_value_safe_loop off ?body (m_node_value a off) ((H, h), acc) = None"
        using value_safe_loop_faults [OF a(2) False off(1)] by (simp add: m_node_value_def)
      then show ?thesis using a(1) lt
        by (subst m_hash_foreach_value_safe_from.simps) simp
    qed
  qed
  from this [of 0 acc] ne show ?thesis by (simp add: m_hash_foreach_value_safe_def)
qed

end
