(* ===== verification/Containers.thy ===== *)
theory Containers
  imports Table DList RBTree_Iter Hash_Iter
begin

text \<open>
  The properties of the containers of \<open>include/\<close>: lists, hash table, red black tree. Each
  is followed by a witness at a concrete heap.
\<close>

subsection \<open>Red black tree\<close>

text \<open>A concrete tree of one black node and a free node, for the witnesses.\<close>

definition demo_ops :: "u64 M_RBTreeOps" where
  "demo_ops = \<lparr>rb_get_key = (\<lambda>a. a), rb_cmp = m_int_cmp_func, rb_free_node = None\<rparr>"

definition demo_tree :: M_RBTree where
  "demo_tree = \<lparr>root = 2, nodes =
     [2 \<mapsto> \<lparr>pcolor = 1, n_left = 0, n_right = 0\<rparr>, 4 \<mapsto> \<lparr>pcolor = 0, n_left = 0, n_right = 0\<rparr>]\<rparr>"

lemma demo_trep: "trep demo_tree (Nd Black Tip 2 Tip)"
  by (simp add: trep_def demo_tree_def aligned2_def)

lemma demo_rbtree: "rbtree demo_tree [2]"
  using demo_trep by (auto simp: rbtree_def rbx_def intro!: exI [of _ "Nd Black Tip 2 Tip"])

lemma demo_sorted: "key_sorted demo_ops {k. k < 2 ^ 31} [2]"
  by (simp add: key_sorted_def demo_ops_def)

lemma demo_contract: "key_cmp (rb_cmp demo_ops) {k. k < 2 ^ 31}"
  unfolding demo_ops_def M_RBTreeOps.select_convs by (rule int_cmp.key_cmp_axioms)

lemma demo_pool: "rbt_table demo_ops {k. k < 2 ^ 31} {2, 4} demo_tree {2}"
  using demo_rbtree demo_sorted
  by (auto simp: rbt_table_def demo_tree_def demo_ops_def aligned2_def intro!: exI [of _ "[2]"])

text \<open>C1: The red black tree refines a table of nodes with keys. Under the documented contract of
  the comparison function, every sequence of lookups, insertions and removals of a client runs to
  its end without a failed assertion or a bad access, answers as the abstract table does, and ends
  in a valid red black tree (ordered, balanced, with correct parent links) of the abstract
  table's nodes.\<close>

theorem rbt_run_refines:
  assumes "key_cmp (rb_cmp ops) K" "rbt_table ops K P st N" "\<forall>q \<in> set qs. request_ok P K q"
  shows "\<exists>rs st' N'.
    run (exec (rb_get_key ops) (m_rbt_lookup ops) (rbt_put ops) (rbt_del ops)) qs st = Some (rs, st') \<and>
    spec_run (spec (rb_get_key ops) (rbt_matches ops) True) qs N rs N' \<and> rbt_table ops K P st' N'"
proof -
  have "rb_pool ops K" using assms(1) by (simp add: rb_pool_def rb_table_def)
  from rb_pool.rbt_run [OF this assms(2,3)] show ?thesis .
qed

theorem rbt_run_refines_witness:
  "\<exists>rs st' N'.
    run (exec (rb_get_key demo_ops) (m_rbt_lookup demo_ops) (rbt_put demo_ops) (rbt_del demo_ops))
      [Add 4, Del 2] demo_tree = Some (rs, st') \<and>
    spec_run (spec (rb_get_key demo_ops) (rbt_matches demo_ops) True) [Add 4, Del 2] {2} rs N' \<and>
    rbt_table demo_ops {k. k < 2 ^ 31} {2, 4} st' N'"
  by (rule rbt_run_refines [OF demo_contract demo_pool]) simp

text \<open>C3: Removal. \<open>m_rbt_remove\<close> applied to any node of a valid tree succeeds, takes
  exactly that node out of the order of the nodes, leaves a valid red black tree, and writes no node
  outside of the tree.\<close>

theorem rbt_remove_correct:
  assumes "rbtree st (us @ a # vs)"
  shows "\<exists>st'. m_rbt_remove a st = Some st' \<and> rbtree st' (us @ vs) \<and>
    outside (set (us @ a # vs)) st st' \<and> allocated st' = allocated st"
proof -
  obtain st' where "m_rbt_remove a st = Some st'" "rbtree st' (us @ vs)"
    "outside (set (us @ a # vs)) st st'" by (rule remove_tree [OF assms])
  then show ?thesis using dom_remove by blast
qed

theorem rbt_remove_correct_witness:
  "\<exists>st'. m_rbt_remove 2 demo_tree = Some st' \<and> rbtree st' ([] @ []) \<and>
    outside (set ([] @ 2 # [])) demo_tree st' \<and> allocated st' = allocated demo_tree"
  using rbt_remove_correct [of demo_tree "[]" 2 "[]"] demo_rbtree by simp

text \<open>C4: Insertion. For a new node whose key is not in the tree, \<open>m_rbt_lookup_insert\<close>
  finds no node and gives a position, \<open>m_rbt_insert\<close> at that position succeeds, and the
  result is a valid red black tree whose order is the old one with the new node at the place its key
  belongs.\<close>

theorem rbt_insert_correct:
  assumes "key_cmp (rb_cmp ops) K" "rbtree st xs" "key_sorted ops K xs" "rb_get_key ops n \<in> K"
    "key_find ops (rb_get_key ops n) xs = None" "n \<noteq> 0" "aligned2 n" "nodes st n \<noteq> None" "n \<notin> set xs"
  shows "\<exists>p pos st' us vs. m_rbt_lookup_insert ops (rb_get_key ops n) st = Some (0, Some (p, pos)) \<and>
    m_rbt_insert p pos n st = Some st' \<and> xs = us @ vs \<and> rbtree st' (us @ n # vs) \<and>
    key_sorted ops K (us @ n # vs) \<and> outside (insert n (set xs)) st st'"
proof -
  have "rb_table ops K" using assms(1) by (simp add: rb_table_def)
  then show ?thesis
    by (rule rb_table.lookup_insert_new [OF _ assms(2-9)]) (intro exI conjI)
qed

theorem rbt_insert_correct_witness:
  "\<exists>p pos st' us vs. m_rbt_lookup_insert demo_ops 4 demo_tree = Some (0, Some (p, pos)) \<and>
    m_rbt_insert p pos 4 demo_tree = Some st' \<and> [2] = us @ vs \<and> rbtree st' (us @ 4 # vs) \<and>
    key_sorted demo_ops {k. k < 2 ^ 31} (us @ 4 # vs) \<and> outside (insert 4 (set [2])) demo_tree st'"
proof -
  have k: "rb_get_key demo_ops 4 = 4" by (simp add: demo_ops_def)
  have f: "key_find demo_ops (rb_get_key demo_ops 4) [2] = None"
    by (simp add: key_find_def demo_ops_def m_int_cmp_func_def)
  have n: "(4::addr) \<in> {k. k < 2 ^ 31}" "(4::addr) \<noteq> 0" "aligned2 4" "nodes demo_tree 4 \<noteq> None"
    "(4::addr) \<notin> set [2]"
    by (simp_all add: demo_tree_def aligned2_def)
  then have "rb_get_key demo_ops 4 \<in> {k. k < 2 ^ 31}" by (simp only: k)
  from rbt_insert_correct [OF demo_contract demo_rbtree demo_sorted this f n(2-5)]
  show ?thesis by (simp only: k)
qed

text \<open>C5: Search. On a valid ordered tree \<open>m_rbt_lookup\<close> terminates and returns a node
  whose key compares equal, or NULL exactly when there is none.\<close>

theorem rbt_lookup_correct:
  assumes "key_cmp (rb_cmp ops) K" "rbtree st xs" "key_sorted ops K xs" "k \<in> K"
  shows "\<exists>r. m_rbt_lookup ops k st = Some r \<and>
    (if \<exists>a \<in> set xs. rb_cmp ops k (rb_get_key ops a) = 0
     then r \<in> set xs \<and> rb_cmp ops k (rb_get_key ops r) = 0 else r = 0)"
proof -
  have "rb_pool ops K" "rb_table ops K" using assms(1) by (simp_all add: rb_pool_def rb_table_def)
  from rb_table.lookup_tree [OF this(2) assms(2-4)] rb_pool.find_answer [OF this(1), of k xs]
  show ?thesis by (auto simp: answer_def)
qed

theorem rbt_lookup_correct_witness:
  "\<exists>r. m_rbt_lookup demo_ops 4 demo_tree = Some r \<and>
    (if \<exists>a \<in> set [2]. rb_cmp demo_ops 4 (rb_get_key demo_ops a) = 0
     then r \<in> set [2] \<and> rb_cmp demo_ops 4 (rb_get_key demo_ops r) = 0 else r = 0)"
  by (rule rbt_lookup_correct [OF demo_contract demo_rbtree demo_sorted]) simp

text \<open>C6: Balance. From \<open>m_rbt_init\<close>, every sequence of lookups, insertions and removals
  runs to its end, and on the tree of \<open>n\<close> nodes that it leaves a search for any key looks at
  no more than \<open>2 * log2 (n + 1)\<close> nodes: there is a set \<open>C\<close> of that size such that the
  answer is the same on every tree, and with every comparison function, that agrees on the root and
  on the nodes in \<open>C\<close>.\<close>

theorem rbt_balanced:
  assumes "key_cmp (rb_cmp ops) K" "\<forall>a \<in> P. a \<noteq> 0 \<and> aligned2 a \<and> nodes st a \<noteq> None \<and> rb_get_key ops a \<in> K"
    "\<forall>q \<in> set qs. request_ok P K q"
  shows "\<exists>rs st' N C.
    run (exec (rb_get_key ops) (m_rbt_lookup ops) (rbt_put ops) (rbt_del ops)) qs (m_rbt_init st) = Some (rs, st') \<and>
    spec_run (spec (rb_get_key ops) (rbt_matches ops) True) qs {} rs N \<and>
    C \<subseteq> N \<and> 2 ^ card C \<le> (card N + 1) ^ 2 \<and>
    (\<forall>ops' st2. same_nodes ops k st' C ops' st2 \<longrightarrow> m_rbt_lookup ops' k st2 = m_rbt_lookup ops k st')"
proof -
  have "rb_pool ops K" using assms(1) by (simp add: rb_pool_def rb_table_def)
  from rb_pool.rbt_run [OF this rbt_table_init [OF assms(2)] assms(3)] obtain rs st' N where
    r: "run (exec (rb_get_key ops) (m_rbt_lookup ops) (rbt_put ops) (rbt_del ops)) qs (m_rbt_init st) = Some (rs, st')"
      "spec_run (spec (rb_get_key ops) (rbt_matches ops) True) qs {} rs N" "rbt_table ops K P st' N" by blast
  then obtain xs where "rbtree st' xs" "set xs = N" by (auto simp: rbt_table_def)
  with lookup_reads [of st' xs ops k] r show ?thesis by blast
qed

theorem rbt_balanced_witness:
  "\<exists>rs st' N C.
    run (exec (rb_get_key demo_ops) (m_rbt_lookup demo_ops) (rbt_put demo_ops) (rbt_del demo_ops))
      [Add 4, Add 2, Del 4] (m_rbt_init demo_tree) = Some (rs, st') \<and>
    spec_run (spec (rb_get_key demo_ops) (rbt_matches demo_ops) True) [Add 4, Add 2, Del 4] {} rs N \<and>
    C \<subseteq> N \<and> 2 ^ card C \<le> (card N + 1) ^ 2 \<and>
    (\<forall>ops' st2. same_nodes demo_ops 7 st' C ops' st2 \<longrightarrow> m_rbt_lookup ops' 7 st2 = m_rbt_lookup demo_ops 7 st')"
  by (rule rbt_balanced [OF demo_contract, of "{2, 4}"]) (auto simp: demo_tree_def demo_ops_def aligned2_def)

text \<open>C7: Walking. The first, last, next and previous node functions walk the nodes of a
  valid tree in order, in both directions, and return NULL at the ends.\<close>

theorem rbt_walk_correct:
  assumes "rbtree st (us @ a # vs)"
  shows "m_rbt_next_node st a = Some (head_or_null vs) \<and>
    m_rbt_prev_node st a = Some (head_or_null (rev us)) \<and>
    m_rbt_first_node st = Some (head_or_null (us @ a # vs)) \<and>
    m_rbt_last_node st = Some (head_or_null (rev (us @ a # vs)))"
  by (intro conjI next_node [OF assms] prev_node [OF assms] first_node [OF assms] last_node [OF assms])

theorem rbt_walk_correct_witness:
  "m_rbt_next_node demo_tree 2 = Some (head_or_null []) \<and>
    m_rbt_prev_node demo_tree 2 = Some (head_or_null (rev [])) \<and>
    m_rbt_first_node demo_tree = Some (head_or_null ([] @ 2 # [])) \<and>
    m_rbt_last_node demo_tree = Some (head_or_null (rev ([] @ 2 # [])))"
  by (rule rbt_walk_correct) (simp add: demo_rbtree)

text \<open>C8: Clearing. \<open>m_rbt_deinit\<close> calls \<open>free_node\<close> exactly once on each node,
  never reads a node after it was released, and leaves every other node alone.\<close>

theorem rbt_deinit_correct:
  assumes "rbtree st xs" "rb_free_node ops = Some f" "frees f (set xs)"
  shows "\<exists>ys st'. mset ys = mset xs \<and> m_rbt_deinit ops st = Some st' \<and> visit f ys st = Some st' \<and>
    (\<forall>z. z \<notin> set xs \<longrightarrow> nodes st' z = nodes st z)"
  using deinit_tree [OF assms] by metis

definition demo_free :: "addr \<Rightarrow> M_RBTree \<Rightarrow> M_RBTree option" where
  "demo_free a st = do { n \<leftarrow> rd (nodes st) a; Some (st\<lparr>nodes := (nodes st)(a := None)\<rparr>) }"

lemma demo_frees: "frees demo_free {2}"
  by (auto simp: frees_def demo_free_def access)

theorem rbt_deinit_correct_witness:
  "\<exists>ys st'. mset ys = mset [2] \<and>
    m_rbt_deinit (demo_ops\<lparr>rb_free_node := Some demo_free\<rparr>) demo_tree = Some st' \<and>
    visit demo_free ys demo_tree = Some st' \<and> (\<forall>z. z \<notin> set [2] \<longrightarrow> nodes st' z = nodes demo_tree z)"
  by (rule rbt_deinit_correct [OF demo_rbtree]) (simp_all add: demo_frees)

subsection \<open>Hash table\<close>

text \<open>A concrete hash table for the witnesses: the free node 24 and the node 16 in the chain of
  its key (the address itself) in a buffer of nine chains.\<close>

definition demo_hops :: "u64 M_HashOps" where
  "demo_hops = \<lparr>get_key = (\<lambda>a. a), kv = m_int_hash_kv_func, equal = m_int_hash_equal_func,
     free_node = Some release, alloc_buf = (\<lambda>_. True)\<rparr>"

definition demo_hash :: "M_Hash \<times> sheap" where
  "demo_hash = (\<lparr>lists = Some ((replicate 9 0)[7 := 16]), h_size = 1, nlist = 9\<rparr>,
     [16 \<mapsto> \<lparr>s_next = 0\<rparr>, 24 \<mapsto> \<lparr>s_next = 0\<rparr>])"

abbreviation demo_chains :: "addr list list" where
  "demo_chains \<equiv> [[], [], [], [], [], [], [], [16], []]"

lemma demo_chains_expand: "(replicate 9 (0::addr))[7 := 16] = [0, 0, 0, 0, 0, 0, 0, 16, 0]"
  by (simp add: numeral_eq_Suc)

lemma demo_hash_rep: "hash_rep demo_hops demo_hash demo_chains"
  unfolding hash_rep_def demo_hash_def demo_hops_def demo_chains_expand
  by (auto simp: buffer_def node_index_def m_int_hash_kv_func_def nth_Cons' unat_mod split: if_splits)

lemma demo_hash_nodes: "hash_nodes demo_hops demo_hash {16}"
  using demo_hash_rep by (auto simp: hash_nodes_def intro!: exI [of _ demo_chains])

lemma demo_hash_contract: "hash_contract (kv demo_hops) (equal demo_hops)"
  unfolding demo_hops_def M_HashOps.select_convs by (rule int_hash.hash_contract_axioms)

lemma demo_hash_pool: "hash_table demo_hops {16, 24} demo_hash {16}"
  using demo_hash_nodes by (simp add: hash_table_def demo_hash_def)

text \<open>C2: The hash table refines a table of nodes with keys. Under the contract of the key
  functions, every sequence of lookups, insertions (growing the buffer first, as documented) and
  removals of a client runs to its end without a failed assertion or a bad access, answers as the
  abstract table does, fails to insert only when the allocator fails, and ends in a well formed
  hash table of the abstract table's nodes.\<close>

theorem hash_run_refines:
  assumes "hash_contract (kv ops) (equal ops)" "hash_table ops P s N" "\<forall>q \<in> set qs. request_ok P UNIV q"
  shows "\<exists>rs s' N'.
    run (exec (get_key ops) (m_hash_lookup ops) (hash_put ops) (m_hash_remove ops)) qs s = Some (rs, s') \<and>
    spec_run (spec (get_key ops) (matches ops) (\<forall>z. alloc_buf ops z)) qs N rs N' \<and>
    hash_table ops P s' N'"
  using hash_pool.hash_run [OF hash_pool.intro [OF assms(1)] assms(2,3)] .

theorem hash_run_refines_witness:
  "\<exists>rs s' N'.
    run (exec (get_key demo_hops) (m_hash_lookup demo_hops) (hash_put demo_hops) (m_hash_remove demo_hops))
      [Add 24, Del 16, Find 16] demo_hash = Some (rs, s') \<and>
    spec_run (spec (get_key demo_hops) (matches demo_hops) (\<forall>z. alloc_buf demo_hops z))
      [Add 24, Del 16, Find 16] {16} rs N' \<and>
    hash_table demo_hops {16, 24} s' N'"
  by (rule hash_run_refines [OF demo_hash_contract demo_hash_pool]) simp

text \<open>C9: Growth. \<open>m_hash_resize\<close> keeps the set of nodes; when it reports success there
  is a buffer and fewer than three nodes per chain on average; when the allocation fails the table
  is unchanged. No node is lost or duplicated while the chains are rebuilt in place, and the old
  buffer is given to \<open>free_buf\<close> with its own size exactly when it is replaced.\<close>

theorem hash_resize_correct:
  assumes "hash_nodes ops s N"
  shows "(\<exists>s' fr. m_hash_resize ops s = Some (M_OK, fr, s') \<and> hash_nodes ops s' N \<and>
      fr = (if nlist (fst s) * 3 \<le> h_size (fst s) then old_buffer (fst s) else None) \<and>
      unat (h_size (fst s')) < 3 * unat (nlist (fst s')) \<and> nlist (fst s') \<noteq> 0 \<and>
      h_size (fst s') = h_size (fst s) \<and> dom (snd s') = dom (snd s)) \<or>
    nlist (fst s) * 3 \<le> h_size (fst s) \<and> \<not> alloc_buf ops (8 * ucast (M_MAX (h_size (fst s)) 9)) \<and>
      m_hash_resize ops s = Some (M_ERR_NO_MEM, None, s)"
  by (rule resize_nodes [OF assms])

theorem hash_resize_correct_witness:
  "(\<exists>s' fr. m_hash_resize demo_hops demo_hash = Some (M_OK, fr, s') \<and> hash_nodes demo_hops s' {16} \<and>
      fr = (if nlist (fst demo_hash) * 3 \<le> h_size (fst demo_hash) then old_buffer (fst demo_hash) else None) \<and>
      unat (h_size (fst s')) < 3 * unat (nlist (fst s')) \<and> nlist (fst s') \<noteq> 0 \<and>
      h_size (fst s') = h_size (fst demo_hash) \<and> dom (snd s') = dom (snd demo_hash)) \<or>
    nlist (fst demo_hash) * 3 \<le> h_size (fst demo_hash) \<and>
      \<not> alloc_buf demo_hops (8 * ucast (M_MAX (h_size (fst demo_hash)) 9)) \<and>
      m_hash_resize demo_hops demo_hash = Some (M_ERR_NO_MEM, None, demo_hash)"
  by (rule hash_resize_correct [OF demo_hash_nodes])

text \<open>C10: Search and removal. \<open>m_hash_remove\<close> unlinks and returns a node whose key is
  equal to the given one, decrements the size and keeps all other nodes, or changes nothing and
  returns NULL when there is none; \<open>m_hash_lookup_with_kv\<close> finds a node under the same
  condition and reports the hash value.\<close>

theorem hash_remove_correct:
  assumes "hash_contract (kv ops) (equal ops)" "hash_nodes ops s N"
  shows "(\<exists>r. m_hash_lookup_with_kv ops key s = Some (r, kv ops key) \<and>
      (if \<exists>a \<in> N. matches ops key a then r \<in> N \<and> matches ops key r else r = 0)) \<and>
    ((\<exists>x \<in> N. matches ops key x \<and> (\<exists>s'. m_hash_remove ops key s = Some (x, s') \<and>
       hash_nodes ops s' (N - {x}) \<and> dom (snd s') = dom (snd s))) \<or>
     (\<forall>a \<in> N. \<not> matches ops key a) \<and> m_hash_remove ops key s = Some (0, s))"
proof
  have c: "contract ops" using assms(1) by (simp add: contract_def)
  show "(\<exists>x \<in> N. matches ops key x \<and> (\<exists>s'. m_hash_remove ops key s = Some (x, s') \<and>
       hash_nodes ops s' (N - {x}) \<and> dom (snd s') = dom (snd s))) \<or>
     (\<forall>a \<in> N. \<not> matches ops key a) \<and> m_hash_remove ops key s = Some (0, s)"
    by (rule remove_nodes [OF c assms(2)])
  obtain bs where bs: "hash_rep ops s bs" "N = set (concat bs)"
    using assms(2) by (auto simp: hash_nodes_def)
  show "\<exists>r. m_hash_lookup_with_kv ops key s = Some (r, kv ops key) \<and>
      (if \<exists>a \<in> N. matches ops key a then r \<in> N \<and> matches ops key r else r = 0)"
    unfolding bs(2) by (rule lookup_rep [OF c bs(1)])
qed

theorem hash_remove_correct_witness:
  "(\<exists>r. m_hash_lookup_with_kv demo_hops 16 demo_hash = Some (r, kv demo_hops 16) \<and>
      (if \<exists>a \<in> {16}. matches demo_hops 16 a then r \<in> {16} \<and> matches demo_hops 16 r else r = 0)) \<and>
    ((\<exists>x \<in> {16}. matches demo_hops 16 x \<and> (\<exists>s'. m_hash_remove demo_hops 16 demo_hash = Some (x, s') \<and>
       hash_nodes demo_hops s' ({16} - {x}) \<and> dom (snd s') = dom (snd demo_hash))) \<or>
     (\<forall>a \<in> {16}. \<not> matches demo_hops 16 a) \<and> m_hash_remove demo_hops 16 demo_hash = Some (0, demo_hash))"
  by (rule hash_remove_correct [OF demo_hash_contract demo_hash_nodes])

text \<open>C11: Release. \<open>m_hash_deinit\<close> with a release function as \<open>free_node\<close>
  releases every node of the table exactly once, reads no released node, touches nothing else, and
  gives the buffer to \<open>free_buf\<close> with the size it was allocated with.\<close>

theorem hash_deinit_correct:
  assumes "hash_rep ops s bs" "free_node ops = Some release"
  shows "\<exists>h'. m_hash_deinit ops s = Some (h', if lists (fst s) = None then None
        else Some (8 * ucast (nlist (fst s)))) \<and>
    (\<forall>a. h' a = (if a \<in> set (concat bs) then None else snd s a))"
  by (rule deinit_rep [OF assms release_releases])

theorem hash_deinit_correct_witness:
  "\<exists>h'. m_hash_deinit demo_hops demo_hash = Some (h', if lists (fst demo_hash) = None then None
        else Some (8 * ucast (nlist (fst demo_hash)))) \<and>
    (\<forall>a. h' a = (if a \<in> set (concat demo_chains) then None else snd demo_hash a))"
  by (rule hash_deinit_correct [OF demo_hash_rep]) (simp add: demo_hops_def)

text \<open>C12: Traversal. \<open>m_hash_foreach\<close> calls its body once on every node, chain after
  chain, and leaves the table unchanged when the body does.\<close>

theorem hash_foreach_correct:
  assumes "hash_rep ops (H, h) bs"
  shows "m_hash_foreach (\<lambda>a (s, acc). Some (s, acc @ [a])) ((H, h), []) = Some ((H, h), concat bs) \<and>
    distinct (concat bs)"
  using foreach_pure [OF assms, of "\<lambda>a acc. acc @ [a]" "[]"] assms
  by (simp add: fold_append_single hash_rep_def del: set_concat)

theorem hash_foreach_correct_witness:
  "m_hash_foreach (\<lambda>a (s, acc). Some (s, acc @ [a])) ((fst demo_hash, snd demo_hash), []) =
    Some ((fst demo_hash, snd demo_hash), concat demo_chains) \<and> distinct (concat demo_chains)"
  by (rule hash_foreach_correct [where ops = demo_hops]) (simp add: demo_hash_rep)

subsection \<open>Linked lists\<close>

definition demo_dheap :: dheap where
  "demo_dheap = [1 \<mapsto> \<lparr>l_prev = 3, l_next = 2\<rparr>, 2 \<mapsto> \<lparr>l_prev = 1, l_next = 3\<rparr>,
     3 \<mapsto> \<lparr>l_prev = 2, l_next = 1\<rparr>, 4 \<mapsto> \<lparr>l_prev = 0, l_next = 0\<rparr>]"

lemma demo_dlist: "dlist demo_dheap 1 [2, 3]"
  by (simp add: dlist_def demo_dheap_def)

text \<open>C13: Editing a doubly linked list. \<open>m_list_init\<close> makes the empty list of any
  head, \<open>m_list_empty\<close> tells exactly whether a list is empty. Appending and prepending a node to
  any list, the empty one included, and removing any node of a list, its only one included (the head
  aliases its neighbours when the list is short), do to the represented sequence what their names say,
  keep the circular structure of both link directions, and write only nodes of the list.\<close>

theorem dlist_edit_correct:
  assumes "dlist h head xs" "h node = Some n" "node \<noteq> 0" "node \<notin> set (head # xs)"
  shows "(\<exists>h'. m_list_init head h = Some h' \<and> dlist h' head [] \<and> (\<forall>b. b \<noteq> head \<longrightarrow> h' b = h b)) \<and>
    m_list_empty head h = Some (xs = []) \<and>
    (\<exists>h'. m_list_append head node h = Some h' \<and> dlist h' head (xs @ [node]) \<and>
      dom h' = dom h \<and> (\<forall>b. b \<notin> set (head # node # xs) \<longrightarrow> h' b = h b)) \<and>
    (\<exists>h'. m_list_prepend head node h = Some h' \<and> dlist h' head (node # xs) \<and>
      dom h' = dom h \<and> (\<forall>b. b \<notin> set (head # node # xs) \<longrightarrow> h' b = h b)) \<and>
    (\<forall>us a vs. xs = us @ a # vs \<longrightarrow>
      (\<exists>h'. m_list_remove a h = Some h' \<and> dlist h' head (us @ vs) \<and>
        dom h' = dom h \<and> h' a = h a \<and> (\<forall>b. b \<notin> set (head # us @ vs) \<longrightarrow> h' b = h b)))"
proof -
  obtain m where "head \<noteq> 0" "h head = Some m" using assms(1) by (auto simp: dlist_def)
  from dlist_init [where h = h, OF this] show ?thesis
    using dlist_append [OF assms] dlist_prepend [OF assms] dlist_is_empty [OF assms(1)] dlist_remove assms(1)
    by (intro conjI allI impI) simp_all
qed

theorem dlist_edit_correct_witness:
  "m_list_empty 1 demo_dheap = Some False \<and>
    (\<exists>h'. m_list_append 1 4 demo_dheap = Some h' \<and> dlist h' 1 [2, 3, 4]) \<and>
    (\<exists>h'. m_list_prepend 1 4 demo_dheap = Some h' \<and> dlist h' 1 [4, 2, 3]) \<and>
    (\<exists>h'. m_list_remove 2 demo_dheap = Some h' \<and> dlist h' 1 [3]) \<and>
    (\<exists>h. m_list_init 1 demo_dheap = Some h \<and> m_list_empty 1 h = Some True \<and>
      (\<exists>h'. m_list_append 1 4 h = Some h' \<and> dlist h' 1 [4]) \<and> (\<exists>h'. m_list_prepend 1 4 h = Some h' \<and> dlist h' 1 [4]))"
proof -
  have four: "demo_dheap 4 = Some \<lparr>l_prev = 0, l_next = 0\<rparr>" "(4 :: addr) \<noteq> 0" "(4 :: addr) \<notin> set [1, 2, 3]" "(4 :: addr) \<notin> set [1]"
    by (simp_all add: demo_dheap_def)
  note full = dlist_edit_correct [OF demo_dlist four(1-3)]
  then obtain h where h: "m_list_init 1 demo_dheap = Some h" "dlist h 1 []" "h 4 = Some \<lparr>l_prev = 0, l_next = 0\<rparr>"
    using four by auto
  have removed: "\<exists>h'. m_list_remove 2 demo_dheap = Some h' \<and> dlist h' 1 [3]"
    using full [THEN conjunct2, THEN conjunct2, THEN conjunct2, THEN conjunct2, rule_format, of "[]" 2 "[3]"] by auto
  note empty = dlist_edit_correct [OF h(2,3) four(2,4)]
  from full obtain a p where 1: "m_list_append 1 4 demo_dheap = Some a" "dlist a 1 ([2, 3] @ [4])"
    "m_list_prepend 1 4 demo_dheap = Some p" "dlist p 1 (4 # [2, 3])" by (elim conjE exE) iprover
  from empty obtain a' p' where 2: "m_list_append 1 4 h = Some a'" "dlist a' 1 ([] @ [4])"
    "m_list_prepend 1 4 h = Some p'" "dlist p' 1 (4 # [])" by (elim conjE exE) iprover
  have "m_list_empty 1 demo_dheap = Some False" "m_list_empty 1 h = Some True" using full empty by simp_all
  then show ?thesis using 1 2 h(1) removed by simp
qed

text \<open>The safe traversals. With a body that unlinks and releases the nodes selected by
  \<open>P\<close>, the safe macros visit every node once in their direction, never read a released
  node, and leave the list of the nodes that were not selected.\<close>

theorem dlist_safe_traversal_correct:
  assumes "dlist h head xs"
  shows "(\<exists>h'. m_list_foreach_safe head (remove_and_free P) (h, []) = Some (h', xs) \<and>
      dlist h' head (filter (Not \<circ> P) xs) \<and> (\<forall>a \<in> set xs. P a \<longrightarrow> h' a = None)) \<and>
    (\<exists>h'. m_list_foreach_safe_r head (remove_and_free P) (h, []) = Some (h', rev xs) \<and>
      dlist h' head (filter (Not \<circ> P) xs) \<and> (\<forall>a \<in> set xs. P a \<longrightarrow> h' a = None))"
  using dlist_foreach_safe_remove [OF assms] dlist_foreach_safe_r_remove [OF assms] by simp

theorem dlist_safe_traversal_correct_witness:
  "(\<exists>h'. m_list_foreach_safe 1 (remove_and_free (\<lambda>a. a = 2)) (demo_dheap, []) = Some (h', [2, 3]) \<and>
      dlist h' 1 (filter (Not \<circ> (\<lambda>a. a = 2)) [2, 3]) \<and> (\<forall>a \<in> set [2, 3]. a = 2 \<longrightarrow> h' a = None)) \<and>
    (\<exists>h'. m_list_foreach_safe_r 1 (remove_and_free (\<lambda>a. a = 2)) (demo_dheap, []) = Some (h', rev [2, 3]) \<and>
      dlist h' 1 (filter (Not \<circ> (\<lambda>a. a = 2)) [2, 3]) \<and> (\<forall>a \<in> set [2, 3]. a = 2 \<longrightarrow> h' a = None))"
  by (rule dlist_safe_traversal_correct [OF demo_dlist])

definition demo_sheap :: sheap where
  "demo_sheap = [1 \<mapsto> \<lparr>s_next = 2\<rparr>, 2 \<mapsto> \<lparr>s_next = 3\<rparr>, 3 \<mapsto> \<lparr>s_next = 0\<rparr>,
     4 \<mapsto> \<lparr>s_next = 7\<rparr>]"

lemma demo_slist: "slist demo_sheap 1 [2, 3]"
  by (simp add: slist_def demo_sheap_def)

text \<open>C15: The singly linked list is a stack: push puts a node in front, pop takes the front node
  and returns it, NULL on the empty list, and popping after pushing gives back the node and the
  sequence.\<close>

theorem slist_stack_correct:
  assumes "slist h head xs" "h node = Some n" "node \<noteq> 0" "node \<notin> set (head # xs)"
  shows "(\<exists>h1 h2. m_slist_push head node h = Some h1 \<and> slist h1 head (node # xs) \<and>
      m_slist_pop head h1 = Some (node, h2) \<and> slist h2 head xs \<and> dom h2 = dom h \<and>
      (\<forall>a. a \<noteq> head \<and> a \<noteq> node \<longrightarrow> h2 a = h a)) \<and>
    (\<exists>h'. m_slist_pop head h = Some (if xs = [] then 0 else hd xs, h') \<and> slist h' head (tl xs)) \<and>
    m_slist_empty head h = Some (xs = [])"
proof (intro conjI)
  obtain h1 where 1: "m_slist_push head node h = Some h1" "slist h1 head (node # xs)" "dom h1 = dom h"
    "\<forall>a. a \<noteq> head \<and> a \<noteq> node \<longrightarrow> h1 a = h a" using slist_push [OF assms] by blast
  obtain h2 where 2: "m_slist_pop head h1 = Some (node, h2)" "slist h2 head xs" "dom h2 = dom h1"
    "\<forall>a. a \<noteq> head \<longrightarrow> h2 a = h1 a" using slist_pop_Cons [OF 1(2)] by blast
  show "\<exists>h1 h2. m_slist_push head node h = Some h1 \<and> slist h1 head (node # xs) \<and>
      m_slist_pop head h1 = Some (node, h2) \<and> slist h2 head xs \<and> dom h2 = dom h \<and>
      (\<forall>a. a \<noteq> head \<and> a \<noteq> node \<longrightarrow> h2 a = h a)"
    using 1 2 by (intro exI [of _ h1] exI [of _ h2]) simp
  show "\<exists>h'. m_slist_pop head h = Some (if xs = [] then 0 else hd xs, h') \<and> slist h' head (tl xs)"
    using assms(1) slist_pop_Nil [of h head] slist_pop_Cons [of h head "hd xs" "tl xs"]
    by (cases xs) auto
  show "m_slist_empty head h = Some (xs = [])" by (rule slist_is_empty [OF assms(1)])
qed

theorem slist_stack_correct_witness:
  "(\<exists>h1 h2. m_slist_push 1 4 demo_sheap = Some h1 \<and> slist h1 1 (4 # [2, 3]) \<and>
      m_slist_pop 1 h1 = Some (4, h2) \<and> slist h2 1 [2, 3] \<and> dom h2 = dom demo_sheap \<and>
      (\<forall>a. a \<noteq> 1 \<and> a \<noteq> 4 \<longrightarrow> h2 a = demo_sheap a)) \<and>
    (\<exists>h'. m_slist_pop 1 demo_sheap = Some (if [2, 3] = ([]::addr list) then 0 else hd [2, 3], h') \<and>
      slist h' 1 (tl [2, 3])) \<and>
    m_slist_empty 1 demo_sheap = Some ([2, 3] = ([]::addr list))"
  by (rule slist_stack_correct [OF demo_slist, where n = "\<lparr>s_next = 7\<rparr>"])
    (simp_all add: demo_sheap_def)

text \<open>The safe traversal of a singly linked list visits every node once, in order, also when
  its body releases the node, and reads no released node.\<close>

theorem slist_safe_traversal_correct:
  assumes "slist h head xs"
  shows "\<exists>h'. m_slist_foreach_safe head slist_release (h, []) = Some (h', xs) \<and>
    (\<forall>a. h' a = (if a \<in> set xs then None else h a))"
  by (rule slist_foreach_safe_free [OF assms])

theorem slist_safe_traversal_correct_witness:
  "\<exists>h'. m_slist_foreach_safe 1 slist_release (demo_sheap, []) = Some (h', [2, 3]) \<and>
    (\<forall>a. h' a = (if a \<in> set [2, 3] then None else demo_sheap a))"
  by (rule slist_safe_traversal_correct [OF demo_slist])

subsection \<open>Comparison functions and alignment\<close>

text \<open>C17: The integer comparison function meets the contract of the red black tree on keys below
  \<open>2 ^ 31\<close>, where its result is the exact difference; in general it compares only the low
  32 bits of the keys, so two keys are reported equal exactly when they agree modulo
  \<open>2 ^ 32\<close>.\<close>

theorem int_cmp_contract:
  "key_cmp m_int_cmp_func {k. k < 2 ^ 31} \<and>
    (a < 2 ^ 31 \<longrightarrow> b < 2 ^ 31 \<longrightarrow> m_int_cmp_func a b = uint a - uint b) \<and>
    (m_int_cmp_func a b = 0 \<longleftrightarrow> uint a mod 2 ^ 32 = uint b mod 2 ^ 32)"
  using int_cmp.key_cmp_axioms m_int_cmp_small m_int_cmp_zero_iff by blast

theorem int_cmp_contract_witness:
  "key_cmp m_int_cmp_func {k. k < 2 ^ 31} \<and> m_int_cmp_func 3 5 = uint (3 :: u64) - uint (5 :: u64) \<and>
    (m_int_cmp_func 3 (3 + 2 ^ 32) = 0 \<longleftrightarrow> uint (3 :: u64) mod 2 ^ 32 = uint (3 + 2 ^ 32 :: u64) mod 2 ^ 32)"
  using int_cmp_contract [of 3 5] int_cmp_contract [of 3 "3 + 2 ^ 32"] by simp

text \<open>\<open>M_ALIGN_UP\<close> to a power of two rounds up to the least multiple that is not
  below the argument, and \<open>M_ALIGN_DOWN\<close> down to the greatest one that is not above, as
  long as the rounded value fits.\<close>

theorem align_correct:
  assumes "k < 64" "unat n + 2 ^ k - 1 < 2 ^ 64"
  shows "2 ^ k dvd unat (M_ALIGN_UP n (2 ^ k)) \<and> unat n \<le> unat (M_ALIGN_UP n (2 ^ k)) \<and>
    unat (M_ALIGN_UP n (2 ^ k)) < unat n + 2 ^ k \<and>
    2 ^ k dvd unat (M_ALIGN_DOWN n (2 ^ k)) \<and> unat (M_ALIGN_DOWN n (2 ^ k)) \<le> unat n \<and>
    unat n < unat (M_ALIGN_DOWN n (2 ^ k)) + 2 ^ k"
proof -
  have "unat n mod 2 ^ k < 2 ^ k" by simp
  then have "unat n < unat n div 2 ^ k * 2 ^ k + 2 ^ k"
    using div_mult_mod_eq [of "unat n" "2 ^ k"] by linarith
  then show ?thesis
    using round_up_least [of "2 ^ k" "unat n"]
    unfolding M_ALIGN_UP_unat [OF assms] M_ALIGN_DOWN_unat by simp
qed

theorem align_correct_witness:
  "2 ^ 4 dvd unat (M_ALIGN_UP 35 (2 ^ 4)) \<and> unat (35 :: u64) \<le> unat (M_ALIGN_UP 35 (2 ^ 4)) \<and>
    unat (M_ALIGN_UP 35 (2 ^ 4)) < unat (35 :: u64) + 2 ^ 4 \<and>
    2 ^ 4 dvd unat (M_ALIGN_DOWN 35 (2 ^ 4)) \<and> unat (M_ALIGN_DOWN 35 (2 ^ 4)) \<le> unat (35 :: u64) \<and>
    unat (35 :: u64) < unat (M_ALIGN_DOWN 35 (2 ^ 4)) + 2 ^ 4"
  by (rule align_correct) simp_all

subsection \<open>Traversals that change the container\<close>

text \<open>C26: \<open>m_rbt_foreach_safe\<close> and its reverse with a body that removes the nodes selected
  by \<open>P\<close> visit every node once, in order, and leave a valid red black tree of the other
  nodes: the next node, fetched before the body runs, is still the right one after a removal has
  rebalanced the tree.\<close>

theorem rbt_safe_traversal_correct:
  assumes "rbtree st xs"
  shows "(\<exists>st'. m_rbt_foreach_safe (remove_if P 0) (st, []) = Some (st', xs) \<and>
      rbtree st' (filter (\<lambda>a. \<not> P a) xs)) \<and>
    (\<exists>st'. m_rbt_foreach_safe_r (remove_if P 0) (st, []) = Some (st', rev xs) \<and>
      rbtree st' (filter (\<lambda>a. \<not> P a) xs))"
  using foreach_safe_tree [OF assms] foreach_safe_r_tree [OF assms] by simp

theorem rbt_safe_traversal_correct_witness:
  "(\<exists>st'. m_rbt_foreach_safe (remove_if (\<lambda>a. a = 2) 0) (demo_tree, []) = Some (st', [2]) \<and>
      rbtree st' (filter (\<lambda>a. \<not> a = 2) [2])) \<and>
    (\<exists>st'. m_rbt_foreach_safe_r (remove_if (\<lambda>a. a = 2) 0) (demo_tree, []) = Some (st', rev [2]) \<and>
      rbtree st' (filter (\<lambda>a. \<not> a = 2) [2]))"
  by (rule rbt_safe_traversal_correct [OF demo_rbtree])

text \<open>\<open>m_hash_foreach_prev\<close> with a body that removes the nodes selected by \<open>P\<close>
  through the place it is given visits every node once and leaves a well formed table of the other
  nodes.\<close>

theorem hash_foreach_prev_correct:
  assumes "hash_rep ops s bs"
  shows "\<exists>s'. m_hash_foreach_prev (prev_remove_if P) (s, []) = Some (s', concat bs) \<and>
    hash_rep ops s' (map (filter (\<lambda>a. \<not> P a)) bs)"
  by (rule foreach_prev_rep [OF assms])

theorem hash_foreach_prev_correct_witness:
  "\<exists>s'. m_hash_foreach_prev (prev_remove_if (\<lambda>a. a = 16)) (demo_hash, []) = Some (s', concat demo_chains) \<and>
    hash_rep demo_hops s' (map (filter (\<lambda>a. \<not> a = 16)) demo_chains)"
  by (rule hash_foreach_prev_correct [OF demo_hash_rep])

text \<open>C28: \<open>m_hash_foreach_value_safe\<close> does not work when the hash node is not the first
  member of the structure. It computes the next value without the test for NULL, so at the end of a
  chain the loop goes on with an address that is no structure and faults, on every table that is not
  empty, even when the body changes nothing.\<close>

theorem hash_foreach_value_safe_fault:
  assumes "hash_rep ops (H, h) bs" "off \<noteq> 0" "off \<notin> set (concat bs)" "concat bs \<noteq> []"
  shows "m_hash_foreach_value_safe off (\<lambda>a (s, acc). Some (s, f a acc)) ((H, h), acc) = None"
  by (rule foreach_value_safe_faults [OF assms])

theorem hash_foreach_value_safe_fault_witness:
  "m_hash_foreach_value_safe 8 (\<lambda>a (s, acc). Some (s, a # acc)) ((fst demo_hash, snd demo_hash), []) = None"
  by (rule hash_foreach_value_safe_fault [where ops = demo_hops and bs = demo_chains])
    (simp_all add: demo_hash_rep)

end
