(* ===== verification/GC_Root.thy ===== *)
theory GC_Root
  imports Hash
begin

text \<open>
  The root table of \<open>src/m_gc_root.c\<close>: reference counted entries in a hash table. The link
  of an entry is at offset 0 of \<open>M_GCRootNode\<close>, so the address of the entry and of its hash
  node are equal; the links are in the node heap of the hash table, the other members in
  \<open>root_nodes\<close>. \<open>env\<close> is what the allocator answers: the address of the next entry
  (0 when there is no memory) and whether a buffer of a given size can be had. \<open>m_assert_alloc\<close>
  aborts, which is the result \<open>None\<close>.
\<close>

record M_GCRootNode =
  rn_ptr :: addr
  rn_ref :: u32

record gc_roots =
  root_hash :: M_Hash
  root_links :: sheap
  root_nodes :: "addr \<rightharpoonup> M_GCRootNode"

record root_env =
  new_entry :: "gc_roots \<Rightarrow> addr"
  buffer_fits :: "u64 \<Rightarrow> bool"

subsection \<open>The key functions and operations\<close>

text \<open>\<open>gc_root_get_key\<close> returns the entry itself, not the pointer it stores.\<close>

definition gc_root_get_key :: "addr \<Rightarrow> u64" where
  "gc_root_get_key node = m_node_value node 0"

definition gc_root_free_node :: "addr \<Rightarrow> sheap \<Rightarrow> sheap option" where
  "gc_root_free_node ptr h =
     (let rn = m_node_value ptr 0 in
      if rn = 0 then Some h
      else if h rn = None then None
      else Some (h(rn := None)))"

definition gc_root_hash_ops :: "root_env \<Rightarrow> u64 M_HashOps" where
  "gc_root_hash_ops env = \<lparr>get_key = gc_root_get_key, kv = m_ptr_hash_kv_func,
     equal = m_ptr_hash_equal_func, free_node = Some gc_root_free_node, alloc_buf = buffer_fits env\<rparr>"

definition gc_root_hash_startup :: "gc_roots \<Rightarrow> gc_roots" where
  "gc_root_hash_startup s = s\<lparr>root_hash := m_hash_init\<rparr>"

definition gc_root_hash_shutdown :: "root_env \<Rightarrow> gc_roots \<Rightarrow> gc_roots option" where
  "gc_root_hash_shutdown env s = do {
     r \<leftarrow> m_hash_deinit (gc_root_hash_ops env) (root_hash s, root_links s);
     Some (s\<lparr>root_links := fst r, root_nodes := root_nodes s |` dom (fst r)\<rparr>) }"

definition m_gc_add_root :: "root_env \<Rightarrow> addr \<Rightarrow> gc_roots \<Rightarrow> gc_roots option" where
  "m_gc_add_root env ptr s = do {
     c_assert (ptr \<noteq> 0);
     r \<leftarrow> m_hash_lookup_with_kv (gc_root_hash_ops env) ptr (root_hash s, root_links s);
     (if fst r \<noteq> 0 then do {
        nodes \<leftarrow> wr (root_nodes s) (m_node_value (fst r) 0) (rn_ref_update (\<lambda>n. n + 1));
        Some (s\<lparr>root_nodes := nodes\<rparr>) }
      else do {
        (let rn = new_entry env s in do {
          c_assert (rn \<noteq> 0);
          (let links = (root_links s)(rn \<mapsto> \<lparr>s_next = 0\<rparr>);
               nodes = (root_nodes s)(rn \<mapsto> \<lparr>rn_ptr = ptr, rn_ref = 1\<rparr>) in do {
            z \<leftarrow> m_hash_resize (gc_root_hash_ops env) (root_hash s, links);
            c_assert (fst z = M_OK);
            t \<leftarrow> m_hash_insert_with_kv rn (snd r) (snd (snd z));
            Some \<lparr>root_hash = fst t, root_links = snd t, root_nodes = nodes\<rparr> }) }) }) }"

definition m_gc_remove_root :: "root_env \<Rightarrow> addr \<Rightarrow> gc_roots \<Rightarrow> gc_roots option" where
  "m_gc_remove_root env ptr s = do {
     c_assert (ptr \<noteq> 0);
     r \<leftarrow> m_hash_lookup_with_prev (gc_root_hash_ops env) ptr (root_hash s, root_links s);
     (if fst r \<noteq> 0 then do {
        rn \<leftarrow> rd (root_nodes s) (m_node_value (fst r) 0);
        (if rn_ref rn = 1 then do {
           prev \<leftarrow> snd r;
           t \<leftarrow> m_hash_remove_from_prev prev (root_hash s, root_links s);
           links \<leftarrow> gc_root_free_node (fst r) (snd (snd t));
           Some \<lparr>root_hash = fst (snd t), root_links = links,
                 root_nodes = (root_nodes s)(fst r := None)\<rparr> }
         else do {
           nodes \<leftarrow> wr (root_nodes s) (fst r) (rn_ref_update (\<lambda>n. n - 1));
           Some (s\<lparr>root_nodes := nodes\<rparr>) }) }
      else Some s) }"

subsection \<open>The shape of the table\<close>

text \<open>An entry is filed under the hash value of its pointer when it is inserted and under the
  hash value of its own address when the buffer grows, so all that can be said of its place is that
  it is the one of some key: \<open>root_rep env s N\<close> says that the table holds the entries
  \<open>N\<close>, each with its data, every one filed under some key.\<close>

abbreviation filed :: "root_env \<Rightarrow> (addr \<Rightarrow> u64) \<Rightarrow> u64 M_HashOps" where
  "filed env key \<equiv> (gc_root_hash_ops env)\<lparr>get_key := key\<rparr>"

definition root_rep :: "root_env \<Rightarrow> gc_roots \<Rightarrow> addr set \<Rightarrow> bool" where
  "root_rep env s N \<longleftrightarrow>
     (\<exists>key. hash_nodes (filed env key) (root_hash s, root_links s) N) \<and>
     (\<forall>a \<in> N. root_nodes s a \<noteq> None)"

lemma filed_self [simp]: "filed env gc_root_get_key = gc_root_hash_ops env"
  by (simp add: gc_root_hash_ops_def)

lemma root_key [simp]: "gc_root_get_key node = node"
  by (simp add: gc_root_get_key_def m_node_value_def M_CONTAINER_OF_def)

lemma root_ops_simps [simp]:
  "get_key (gc_root_hash_ops env) = gc_root_get_key"
  "kv (gc_root_hash_ops env) = m_ptr_hash_kv_func"
  "equal (gc_root_hash_ops env) = m_ptr_hash_equal_func"
  "free_node (gc_root_hash_ops env) = Some gc_root_free_node"
  "alloc_buf (gc_root_hash_ops env) = buffer_fits env"
  by (simp_all add: gc_root_hash_ops_def)

lemma root_startup_rep: "root_rep env (gc_root_hash_startup s) {}"
proof -
  have "hash_nodes (filed env gc_root_get_key) (m_hash_init, root_links s) {}"
    unfolding hash_nodes_def by (intro exI [of _ "[]"] conjI hash_init_rep) simp
  then show ?thesis 
    unfolding root_rep_def
    by (intro conjI exI [of _ gc_root_get_key]) (simp_all add: gc_root_hash_startup_def)
qed

lemma hash_nodes_refile:
  assumes "hash_nodes (filed env key) s N" "n \<notin> N"
  shows "hash_nodes (filed env (key(n := k))) s N"
proof -
  obtain bs where bs: "hash_rep (filed env key) s bs" "N = set (concat bs)"
    using assms(1) by (auto simp: hash_nodes_def)
  have "hash_rep (filed env (key(n := k))) s bs"
    using assms(2) bs(2) by (intro hash_rep_key_cong [OF _ bs(1)]) auto
  then show ?thesis using bs(2) by (auto simp: hash_nodes_def)
qed

lemma hash_nodes_frame:
  assumes "hash_nodes ops (H, h) N" "n \<notin> N"
  shows "hash_nodes ops (H, h(n := v)) N"
  using assms unfolding hash_nodes_def hash_rep_def by (auto simp: chains_frame simp del: set_concat)

text \<open>A pointer that is not the address of an entry is never found, whatever is registered.\<close>

lemma root_chain_missing:
  assumes "hash_rep ops s bs" "ptr \<notin> set (concat bs)" "unat pos < length bs"
  shows "\<exists>a. bucket (fst s) pos = Some a \<and>
    m_hash_lookup_loop (gc_root_hash_ops env) ptr (snd s) a = Some 0 \<and>
    m_hash_lookup_prev_loop (gc_root_hash_ops env) ptr (snd s) p a = Some (0, None)"
proof -
  obtain a where a: "bucket (fst s) pos = Some a" "sseg (snd s) a (bs ! unat pos)"
    using hash_rep_bucket [OF assms(1,3)] by blast
  have "\<forall>u \<in> set (bs ! unat pos). \<not> equal (gc_root_hash_ops env) ptr (get_key (gc_root_hash_ops env) u)"
    using assms(2,3) unfolding in_concat_iff by (auto simp: m_ptr_hash_equal_func_def)
  from a(1) lookup_loop_missing [OF a(2) this] lookup_prev_loop_missing [OF a(2) this]
  show ?thesis by simp
qed

lemma root_lookup_missing:
  assumes "root_rep env s N" "ptr \<notin> N"
  shows "m_hash_lookup_with_kv (gc_root_hash_ops env) ptr (root_hash s, root_links s) =
      Some (0, m_ptr_hash_kv_func ptr)"
    and "m_hash_lookup_with_prev (gc_root_hash_ops env) ptr (root_hash s, root_links s) = Some (0, None)"
proof -
  let ?s = "(root_hash s, root_links s)"
  obtain key bs where rep: "hash_rep (filed env key) ?s bs" and N: "N = set (concat bs)"
    using assms(1) by (auto simp: root_rep_def hash_nodes_def)
  have "m_hash_lookup_with_kv (gc_root_hash_ops env) ptr ?s = Some (0, m_ptr_hash_kv_func ptr) \<and>
      m_hash_lookup_with_prev (gc_root_hash_ops env) ptr ?s = Some (0, None)"
  proof (cases "h_size (root_hash s) = 0")
    case True
    then show ?thesis by (simp add: m_hash_lookup_with_kv_def m_hash_lookup_with_prev_def)
  next
    case False
    let ?p = "m_ptr_hash_kv_func ptr mod nlist (root_hash s)"
    have nl: "nlist (root_hash s) \<noteq> 0" using hash_rep_size_pos [OF rep] False by simp
    then have i: "unat ?p < length bs" using hash_rep_index [OF rep] by simp
    obtain a where "bucket (root_hash s) ?p = Some a"
      "m_hash_lookup_loop (gc_root_hash_ops env) ptr (root_links s) a = Some 0"
      "m_hash_lookup_prev_loop (gc_root_hash_ops env) ptr (root_links s) (Bucket ?p) a = Some (0, None)"
      using root_chain_missing [OF rep _ i, of ptr env "Bucket ?p"] assms(2) N by auto
    then show ?thesis using False nl
      by (simp add: m_hash_lookup_with_kv_def m_hash_lookup_with_prev_def hash_pos_def)
  qed
  then show "m_hash_lookup_with_kv (gc_root_hash_ops env) ptr ?s = Some (0, m_ptr_hash_kv_func ptr)"
    and "m_hash_lookup_with_prev (gc_root_hash_ops env) ptr ?s = Some (0, None)" by simp_all
qed

subsection \<open>The operations\<close>

lemma add_root_new_entry:
  assumes rep: "root_rep env s N" and ptr: "ptr \<noteq> 0" "ptr \<notin> N"
    and rn: "new_entry env s = rn" "rn \<noteq> 0" "rn \<notin> N"
    and room: "\<And>z. buffer_fits env z" "h_size (root_hash s) \<noteq> - 1"
  shows "\<exists>s'. m_gc_add_root env ptr s = Some s' \<and> root_rep env s' (insert rn N) \<and>
    root_nodes s' = (root_nodes s)(rn \<mapsto> \<lparr>rn_ptr = ptr, rn_ref = 1\<rparr>)"
proof -
  let ?ops = "gc_root_hash_ops env" and ?links = "(root_links s)(rn \<mapsto> \<lparr>s_next = 0\<rparr>)"
  obtain key where key: "hash_nodes (filed env key) (root_hash s, root_links s) N"
    and data: "\<forall>a \<in> N. root_nodes s a \<noteq> None" using rep by (auto simp: root_rep_def)
  have "hash_nodes (filed env key) (root_hash s, ?links) N"
    by (rule hash_nodes_frame [OF key rn(3)])
  then have "\<exists>t fr. m_hash_resize ?ops (root_hash s, ?links) = Some (M_OK, fr, t) \<and>
      hash_nodes (if nlist (root_hash s) * 3 \<le> h_size (root_hash s) then ?ops else filed env key) t N \<and>
      nlist (fst t) \<noteq> 0 \<and> h_size (fst t) = h_size (root_hash s) \<and> dom (snd t) = dom ?links"
    (is "\<exists>t fr. ?P t fr")
    using resize_nodes_from [of "filed env key" "(root_hash s, ?links)" N ?ops] room(1)
    unfolding fst_conv snd_conv root_ops_simps by blast
  then obtain t fr where
    t: "m_hash_resize ?ops (root_hash s, ?links) = Some (M_OK, fr, t)" "nlist (fst t) \<noteq> 0"
      "h_size (fst t) = h_size (root_hash s)" "dom (snd t) = dom ?links"
    and k: "hash_nodes (if nlist (root_hash s) * 3 \<le> h_size (root_hash s) then ?ops else filed env key) t N"
    by (elim exE conjE)
  have "hash_nodes (filed env (if nlist (root_hash s) * 3 \<le> h_size (root_hash s)
      then gc_root_get_key else key)) t N" using k by (simp split: if_splits)
  then obtain key' where key': "hash_nodes (filed env key') t N" ..
  have "hash_nodes (filed env (key'(rn := ptr))) t N" by (rule hash_nodes_refile [OF key' rn(3)])
  moreover obtain n where n: "snd t rn = Some n" using t(4) by auto
  ultimately obtain u where u: "m_hash_insert_with_kv rn (m_ptr_hash_kv_func ptr) t = Some u"
      "hash_nodes (filed env (key'(rn := ptr))) u (insert rn N)"
    using insert_nodes [of "filed env (key'(rn := ptr))" t N "m_ptr_hash_kv_func ptr" rn n] t rn room(2)
    by auto
  have run: "m_gc_add_root env ptr s = Some \<lparr>root_hash = fst u, root_links = snd u,
      root_nodes = (root_nodes s)(rn \<mapsto> \<lparr>rn_ptr = ptr, rn_ref = 1\<rparr>)\<rparr>"
    using root_lookup_missing(1) [OF rep ptr(2)] ptr(1) rn t(1) u(1)
    by (simp add: m_gc_add_root_def Let_def)
  have "root_rep env \<lparr>root_hash = fst u, root_links = snd u,
      root_nodes = (root_nodes s)(rn \<mapsto> \<lparr>rn_ptr = ptr, rn_ref = 1\<rparr>)\<rparr> (insert rn N)"
    using u(2) data by (auto simp: root_rep_def)
  with run show ?thesis by auto
qed

lemma remove_root_missing:
  assumes "root_rep env s N" "ptr \<noteq> 0" "ptr \<notin> N"
  shows "m_gc_remove_root env ptr s = Some s"
  using root_lookup_missing(2) [OF assms(1,3)] assms(2) by (simp add: m_gc_remove_root_def)

lemma root_free_releases: "releases gc_root_free_node"
  by (simp add: releases_def gc_root_free_node_def m_node_value_def M_CONTAINER_OF_def)

lemma root_shutdown_rep:
  assumes "root_rep env s N"
  shows "\<exists>s'. gc_root_hash_shutdown env s = Some s' \<and>
    (\<forall>a. root_links s' a = (if a \<in> N then None else root_links s a)) \<and>
    (\<forall>a \<in> N. root_nodes s' a = None)"
proof -
  obtain key bs where rep: "hash_rep (filed env key) (root_hash s, root_links s) bs"
    and N: "N = set (concat bs)" using assms by (auto simp: root_rep_def hash_nodes_def)
  obtain h' fr where "m_hash_deinit (gc_root_hash_ops env) (root_hash s, root_links s) = Some (h', fr)"
      "\<forall>a. h' a = (if a \<in> N then None else root_links s a)"
    using deinit_rep [OF rep, of "gc_root_hash_ops env" gc_root_free_node] root_free_releases N by auto
  then show ?thesis by (auto simp: gc_root_hash_shutdown_def restrict_map_def)
qed

end
