(* ===== verification/GC_Buf.thy ===== *)
theory GC_Buf
  imports Macros
begin

text \<open>
  The allocation functions of \<open>include/m_malloc.h\<close> and the buffer functions of
  \<open>src/m_gc_buf.c\<close>. The C heap maps the address of each live block to its words; a word is
  \<open>None\<close> until it is written. Where \<open>malloc\<close> and \<open>realloc\<close> place a block, and
  when they fail, is the choice of the C library: an \<open>allocator\<close> is a parameter, and
  \<open>allocator_ok\<close> says what the C standard promises of it. Using a pointer that is not a live
  block is undefined and has the result \<open>None\<close>, as has \<open>abort\<close>.
\<close>

record cmem =
  blocks :: "addr \<rightharpoonup> u64 option list"

record allocator =
  malloc_at :: "cmem \<Rightarrow> u64 \<Rightarrow> addr"
  realloc_at :: "cmem \<Rightarrow> addr \<Rightarrow> u64 \<Rightarrow> addr"

definition allocator_ok :: "allocator \<Rightarrow> bool" where
  "allocator_ok A \<longleftrightarrow>
     (\<forall>m sz. malloc_at A m sz = 0 \<or> blocks m (malloc_at A m sz) = None) \<and>
     (\<forall>m p sz. realloc_at A m p sz = 0 \<or> realloc_at A m p sz = p \<or>
        blocks m (realloc_at A m p sz) = None)"

definition block_words :: "u64 \<Rightarrow> nat" where
  "block_words sz = (unat sz + 7) div 8"

subsection \<open>\<open>m_malloc.h\<close>\<close>

definition m_malloc :: "allocator \<Rightarrow> u64 \<Rightarrow> cmem \<Rightarrow> (addr \<times> cmem) option" where
  "m_malloc A sz m =
     (let p = malloc_at A m sz in
      if p = 0 then Some (0, m)
      else Some (p, m\<lparr>blocks := (blocks m)(p \<mapsto> replicate (block_words sz) None)\<rparr>))"

definition m_free :: "addr \<Rightarrow> cmem \<Rightarrow> cmem option" where
  "m_free p m =
     (if p = 0 then Some m
      else if blocks m p = None then None
      else Some (m\<lparr>blocks := (blocks m)(p := None)\<rparr>))"

definition m_realloc :: "allocator \<Rightarrow> addr \<Rightarrow> u64 \<Rightarrow> cmem \<Rightarrow> (addr \<times> cmem) option" where
  "m_realloc A p sz m =
     (if p = 0 then m_malloc A sz m
      else case blocks m p of
        None \<Rightarrow> None
      | Some c \<Rightarrow>
          if sz = 0 then Some (0, m\<lparr>blocks := (blocks m)(p := None)\<rparr>)
          else let q = realloc_at A m p sz; n = block_words sz in
            if q = 0 then Some (0, m)
            else Some (q, m\<lparr>blocks := (blocks m)(p := None, q \<mapsto> take n (c @ replicate n None))\<rparr>))"

definition m_malloc0 :: "allocator \<Rightarrow> u64 \<Rightarrow> cmem \<Rightarrow> (addr \<times> cmem) option" where
  "m_malloc0 A sz m = do {
     r \<leftarrow> m_malloc A sz m;
     (if fst r \<noteq> 0
      then Some (fst r, (snd r)\<lparr>blocks := (blocks (snd r))(fst r \<mapsto> replicate (block_words sz) (Some 0))\<rparr>)
      else Some r) }"

definition m_assert_alloc :: "addr \<Rightarrow> unit option" where
  "m_assert_alloc p = (if p = 0 then None else Some ())"

definition M_NEW :: "allocator \<Rightarrow> u64 \<Rightarrow> u64 \<Rightarrow> cmem \<Rightarrow> (addr \<times> cmem) option" where
  "M_NEW A type_size n m = m_malloc A (type_size * n) m"

definition M_NEW0 :: "allocator \<Rightarrow> u64 \<Rightarrow> u64 \<Rightarrow> cmem \<Rightarrow> (addr \<times> cmem) option" where
  "M_NEW0 A type_size n m = m_malloc0 A (type_size * n) m"

definition M_RENEW :: "allocator \<Rightarrow> addr \<Rightarrow> u64 \<Rightarrow> u64 \<Rightarrow> cmem \<Rightarrow> (addr \<times> cmem) option" where
  "M_RENEW A p type_size n m = m_realloc A p (type_size * n) m"

subsection \<open>\<open>m_gc_buf.c\<close>\<close>

definition m_gc_alloc_buf :: "allocator \<Rightarrow> u64 \<Rightarrow> u32 \<Rightarrow> cmem \<Rightarrow> (addr \<times> cmem) option" where
  "m_gc_alloc_buf A sz flags m = m_malloc A (gc_size_align sz) m"

definition m_gc_free_buf :: "addr \<Rightarrow> u32 \<Rightarrow> u32 \<Rightarrow> cmem \<Rightarrow> cmem option" where
  "m_gc_free_buf p sz flags m = (if p = 0 \<or> sz = 0 then Some m else m_free p m)"

text \<open>The size given to \<open>m_gc_free_buf\<close> is converted from \<open>size_t\<close> to
  \<open>uint32_t\<close>.\<close>

definition m_gc_realloc_buf ::
    "allocator \<Rightarrow> addr \<Rightarrow> u64 \<Rightarrow> u64 \<Rightarrow> u32 \<Rightarrow> cmem \<Rightarrow> (addr \<times> cmem) option" where
  "m_gc_realloc_buf A p old_size new_size flags m =
     (if p = 0 \<or> old_size = 0 then m_gc_alloc_buf A new_size flags m
      else if new_size = 0 then do { m' \<leftarrow> m_gc_free_buf p (ucast old_size) flags m; Some (0, m') }
      else if new_size \<le> old_size then Some (p, m)
      else m_realloc A p (gc_size_align new_size) m)"

subsection \<open>What the functions guarantee\<close>

text \<open>\<open>block_of m p sz\<close>: \<open>p\<close> is a live block that was obtained for \<open>sz\<close> bytes.\<close>

definition block_of :: "cmem \<Rightarrow> addr \<Rightarrow> u64 \<Rightarrow> bool" where
  "block_of m p sz \<longleftrightarrow> p \<noteq> 0 \<and> (\<exists>c. blocks m p = Some c \<and> unat sz \<le> 8 * length c)"

lemma unat_gc_size_align:
  assumes "unat sz + 7 < 2 ^ 64"
  shows "unat (gc_size_align sz) = (unat sz + 7) div 8 * 8"
proof -
  have "M_ALIGN_UP sz (2 ^ 3) = gc_size_align sz" by (simp add: gc_size_align_def)
  with M_ALIGN_UP_unat [of 3 sz] assms show ?thesis by simp
qed

lemma block_words_align:
  assumes "unat sz + 7 < 2 ^ 64"
  shows "block_words (gc_size_align sz) = (unat sz + 7) div 8"
  by (simp add: block_words_def unat_gc_size_align [OF assms])

lemma alloc_buf_block:
  assumes "allocator_ok A" "unat sz + 7 < 2 ^ 64"
  shows "\<exists>p m'. m_gc_alloc_buf A sz flags m = Some (p, m') \<and>
    (if p = 0 then m' = m
     else block_of m' p sz \<and> blocks m p = None \<and> (\<forall>a. a \<noteq> p \<longrightarrow> blocks m' a = blocks m a))"
proof -
  have "unat sz \<le> 8 * ((unat sz + 7) div 8)" by linarith
  then show ?thesis using assms
    by (auto simp: m_gc_alloc_buf_def m_malloc_def Let_def block_of_def block_words_align
        allocator_ok_def)
qed

lemma free_buf_block:
  assumes "block_of m p sz" "n \<noteq> 0"
  shows "m_gc_free_buf p n flags m = Some (m\<lparr>blocks := (blocks m)(p := None)\<rparr>)"
  using assms by (auto simp: m_gc_free_buf_def m_free_def block_of_def)

lemma realloc_buf_block:
  assumes A: "allocator_ok A" and p: "block_of m p old" and c: "blocks m p = Some c"
    and sz: "old \<noteq> 0" "new \<noteq> 0" "unat new + 7 < 2 ^ 64"
    and len: "8 * length c \<le> (unat old + 7) div 8 * 8"
  shows "\<exists>q m'. m_gc_realloc_buf A p old new flags m = Some (q, m') \<and>
    (if q = 0 then m' = m
     else block_of m' q new \<and> (\<exists>c'. blocks m' q = Some c' \<and> take (length c) c' = c) \<and>
       (q \<noteq> p \<longrightarrow> blocks m q = None \<and> blocks m' p = None) \<and>
       (\<forall>a. a \<noteq> p \<and> a \<noteq> q \<longrightarrow> blocks m' a = blocks m a))"
proof (cases "new \<le> old")
  case True
  then have "unat new \<le> unat old" by (simp add: word_le_nat_alt)
  with True p sz show ?thesis
    by (auto simp: m_gc_realloc_buf_def block_of_def c)
next
  case False
  then have lt: "unat old < unat new" by (simp add: word_le_nat_alt not_le)
  let ?n = "(unat new + 7) div 8"
  have n: "unat new \<le> 8 * ?n" "length c \<le> ?n" using len lt by linarith+
  have "unat (gc_size_align new) \<noteq> 0"
    using sz(2) unat_gc_size_align [OF sz(3)] by (simp add: unat_eq_0 [symmetric])
  then have nz: "gc_size_align new \<noteq> 0" by auto
  let ?q = "realloc_at A m p (gc_size_align new)"
  have q: "?q = 0 \<or> ?q = p \<or> blocks m ?q = None" using A by (simp add: allocator_ok_def)
  have "p \<noteq> 0" using p by (simp add: block_of_def)
  then have run: "m_gc_realloc_buf A p old new flags m =
      (if ?q = 0 then Some (0, m)
       else Some (?q, m\<lparr>blocks := (blocks m)(p := None, ?q \<mapsto> take ?n (c @ replicate ?n None))\<rparr>))"
    using False sz nz by (simp add: m_gc_realloc_buf_def m_realloc_def c Let_def block_words_align)
  show ?thesis
  proof (cases "?q = 0")
    case True
    then show ?thesis using run by simp
  next
    case False
    then show ?thesis using run q n by (auto simp: block_of_def)
  qed
qed

text \<open>Shrinking to nothing releases the block, unless the old size is a multiple of
  \<open>2 ^ 32\<close>: then the size becomes 0 on its way to \<open>m_gc_free_buf\<close> and the block
  leaks.\<close>

lemma realloc_buf_zero:
  assumes "block_of m p old" "old \<noteq> 0"
  shows "m_gc_realloc_buf A p old 0 flags m = Some (0,
    if unat old mod 2 ^ 32 = 0 then m else m\<lparr>blocks := (blocks m)(p := None)\<rparr>)"
proof -
  have "p \<noteq> 0" using assms(1) by (simp add: block_of_def)
  moreover have "(ucast old :: u32) = 0 \<longleftrightarrow> unat old mod 2 ^ 32 = 0"
    by (simp add: unat_eq_0 [symmetric] unsigned_ucast_eq take_bit_eq_mod)
  ultimately show ?thesis
    using assms free_buf_block [OF assms(1)]
    by (cases "(ucast old :: u32) = 0") (auto simp: m_gc_realloc_buf_def m_gc_free_buf_def)
qed

end
