(* ===== verification/GC_Map.thy ===== *)
theory GC_Map
  imports Macros
begin

text \<open>
  The page mapping of \<open>src/m_gc_map.c\<close>. The address space maps every mapped byte to its
  execute permission. The system call \<open>mmap\<close> is not part of the repository: where it places
  a mapping and when it fails is the parameter \<open>os\<close>, a function of the address space, the
  hint address and the size; \<open>mmap_ok\<close> states what its documentation promises.
\<close>

type_synonym vmem = "addr \<rightharpoonup> bool"
type_synonym os = "vmem \<Rightarrow> addr \<Rightarrow> u64 \<Rightarrow> addr"

definition M_PAGE_SIZE :: u64 where "M_PAGE_SIZE = 4096"
definition M_PAGE_MASK :: u64 where "M_PAGE_MASK = M_PAGE_SIZE - 1"
definition MAP_FAILED :: addr where "MAP_FAILED = - 1"
definition M_GC_MAP_FL_EXEC :: u32 where "M_GC_MAP_FL_EXEC = 1"

definition set_range :: "addr \<Rightarrow> u64 \<Rightarrow> bool option \<Rightarrow> vmem \<Rightarrow> vmem" where
  "set_range a n v m = (\<lambda>x. if x - a < n then v else m x)"

definition sys_mmap :: "os \<Rightarrow> addr \<Rightarrow> u64 \<Rightarrow> u32 \<Rightarrow> vmem \<Rightarrow> addr \<times> vmem" where
  "sys_mmap os ptr sz flags m =
     (let r = os m ptr sz in
      if r \<noteq> MAP_FAILED then (r, set_range r sz (Some (flags AND M_GC_MAP_FL_EXEC \<noteq> 0)) m)
      else (0, m))"

definition sys_munmap :: "addr \<Rightarrow> u64 \<Rightarrow> vmem \<Rightarrow> vmem" where
  "sys_munmap ptr sz m = set_range ptr sz None m"

definition page_round :: "u64 \<Rightarrow> u64" where
  "page_round sz = (sz + M_PAGE_MASK) AND NOT M_PAGE_MASK"

text \<open>The last part of \<open>gc_mmap\<close>: a mapping that is large enough, from which the unaligned
  parts are unmapped. \<open>sz\<close> is the rounded size.\<close>

definition gc_mmap_big :: "os \<Rightarrow> u64 \<Rightarrow> u32 \<Rightarrow> vmem \<Rightarrow> addr \<times> vmem" where
  "gc_mmap_big os sz flags m =
     (let (pu8, m1) = sys_mmap os 0 (sz + M_PAGE_SIZE - 1) flags m in
      if pu8 = 0 then (0, m1)
      else let diff = pu8 AND M_PAGE_MASK in
        if diff \<noteq> 0 then
          let d = M_PAGE_SIZE - diff; m2 = sys_munmap pu8 d m1; ptr = pu8 + d in
          (ptr, sys_munmap (pu8 + (d + sz)) (M_PAGE_SIZE - 1 - d) m2)
        else (pu8, sys_munmap (pu8 + sz) (M_PAGE_SIZE - 1) m1))"

definition gc_mmap :: "os \<Rightarrow> u64 \<Rightarrow> u32 \<Rightarrow> vmem \<Rightarrow> addr \<times> vmem" where
  "gc_mmap os n flags m =
     (let sz = page_round n; (pu8, m1) = sys_mmap os 0 sz flags m in
      if pu8 = MAP_FAILED then (0, m1)
      else if pu8 AND M_PAGE_MASK = 0 then (pu8, m1)
      else
        let diff = M_PAGE_SIZE - (pu8 AND M_PAGE_MASK);
            (r, m2) = sys_mmap os (pu8 + sz) diff flags m1 in
        if r \<noteq> 0 then (pu8 + diff, sys_munmap pu8 diff m2)
        else
          let diff' = pu8 AND M_PAGE_MASK;
              (r', m3) = sys_mmap os (pu8 - diff') diff' flags m2 in
          if r' \<noteq> 0 then (pu8 - diff', sys_munmap (pu8 + sz - diff') diff' m3)
          else gc_mmap_big os sz flags (sys_munmap pu8 sz m3))"

definition gc_munmap :: "addr \<Rightarrow> u64 \<Rightarrow> vmem \<Rightarrow> vmem" where
  "gc_munmap ptr sz m = sys_munmap ptr sz m"

subsection \<open>What \<open>mmap\<close> promises\<close>

text \<open>A mapping succeeds with a fresh range of user addresses, above the first page and below
  the end of the address space, or fails. \<open>hint_exact\<close>: a hint is honoured, or the call
  fails, as with \<open>MAP_FIXED_NOREPLACE\<close>.\<close>

definition mmap_ok :: "os \<Rightarrow> bool" where
  "mmap_ok os \<longleftrightarrow> (\<forall>m hint sz. os m hint sz = MAP_FAILED \<or>
     4096 \<le> unat (os m hint sz) \<and> unat (os m hint sz) + unat sz + 4096 < 2 ^ 64 \<and>
     (\<forall>x. x - os m hint sz < sz \<longrightarrow> m x = None))"

definition page_aligned :: "os \<Rightarrow> bool" where
  "page_aligned os \<longleftrightarrow> (\<forall>m hint sz. os m hint sz = MAP_FAILED \<or> os m hint sz AND M_PAGE_MASK = 0)"

definition hint_exact :: "os \<Rightarrow> bool" where
  "hint_exact os \<longleftrightarrow> (\<forall>m hint sz. hint \<noteq> 0 \<longrightarrow> os m hint sz = MAP_FAILED \<or> os m hint sz = hint)"

text \<open>What a caller of \<open>gc_mmap\<close> expects: NULL and an unchanged address space, or exactly
  one new page aligned mapping of the rounded size.\<close>

definition new_pages :: "u64 \<Rightarrow> u32 \<Rightarrow> vmem \<Rightarrow> addr \<times> vmem \<Rightarrow> bool" where
  "new_pages sz flags m r \<longleftrightarrow>
     (if fst r = 0 then snd r = m
      else fst r AND M_PAGE_MASK = 0 \<and> (\<forall>x. x - fst r < sz \<longrightarrow> m x = None) \<and>
        snd r = set_range (fst r) sz (Some (flags AND M_GC_MAP_FL_EXEC \<noteq> 0)) m)"

definition mapped_pages :: "u64 \<Rightarrow> u32 \<Rightarrow> vmem \<Rightarrow> addr \<times> vmem \<Rightarrow> bool" where
  "mapped_pages n = new_pages (page_round n)"

subsection \<open>Ranges\<close>

lemma in_range:
  fixes x :: u64
  assumes "unat a + unat n \<le> 2 ^ 64"
  shows "x - a < n \<longleftrightarrow> unat a \<le> unat x \<and> unat x < unat a + unat n"
proof (cases "unat a \<le> unat x")
  case True
  then have "unat (x - a) = unat x - unat a" by (simp add: unat_sub_if')
  with True show ?thesis by (auto simp: word_less_nat_alt)
next
  case False
  then have "unat (x - a) = 2 ^ 64 + unat x - unat a" by (simp add: unat_sub_if')
  with False assms show ?thesis by (auto simp: word_less_nat_alt)
qed

lemma unat_page_mask: "unat (a AND M_PAGE_MASK) = unat a mod 4096"
proof -
  have "M_PAGE_MASK = mask 12" by (simp add: M_PAGE_MASK_def M_PAGE_SIZE_def mask_eq_exp_minus_1)
  then have "unat (a AND M_PAGE_MASK) = unat (take_bit 12 a)" by (simp add: take_bit_eq_mask)
  also have "\<dots> = take_bit 12 (unat a)" by (simp add: unsigned_take_bit_eq)
  finally show ?thesis by (simp add: take_bit_eq_mod)
qed

lemma page_mask_zero: "a AND M_PAGE_MASK = 0 \<longleftrightarrow> unat a mod 4096 = 0"
  by (metis unat_eq_0 unat_page_mask)

lemma page_aligned_round: "unat (page_round n) mod 4096 = 0"
proof -
  have "M_ALIGN_DOWN (n + M_PAGE_MASK) (2 ^ 12) = page_round n"
    by (simp add: M_ALIGN_DOWN_def page_round_def M_PAGE_MASK_def M_PAGE_SIZE_def)
  with M_ALIGN_DOWN_unat [of "n + M_PAGE_MASK" 12] show ?thesis by simp
qed

lemma page_round_bound: "unat (page_round n) + 4096 \<le> 2 ^ 64"
proof -
  have "unat (page_round n) < 2 ^ 64" using unsigned_less [of "page_round n"] by simp
  moreover have "4096 dvd unat (page_round n)" using page_aligned_round by (simp add: dvd_eq_mod_eq_0)
  ultimately show ?thesis by (auto elim!: dvdE)
qed

lemma unat_plus_nowrap: "unat a + unat n < 2 ^ 64 \<Longrightarrow> unat (a + n) = unat a + unat n" for a :: u64
  by (simp add: unat_plus_if')

lemma unat_minus_le: "unat n \<le> unat a \<Longrightarrow> unat (a - n) = unat a - unat n" for a :: u64
  by (simp add: unat_sub_if')

lemma mmap_result:
  assumes "mmap_ok os" "os m hint sz \<noteq> MAP_FAILED"
  shows "4096 \<le> unat (os m hint sz)" "unat (os m hint sz) + unat sz + 4096 < 2 ^ 64"
    "x - os m hint sz < sz \<Longrightarrow> m x = None"
  using assms unfolding mmap_ok_def by blast+

lemma sys_mmap_fresh:
  assumes "mmap_ok os"
  obtains "sys_mmap os hint sz flags m = (0, m)"
  | a where "sys_mmap os hint sz flags m = (a, set_range a sz (Some (flags AND M_GC_MAP_FL_EXEC \<noteq> 0)) m)"
      "os m hint sz = a" "4096 \<le> unat a" "unat a + unat sz + 4096 < 2 ^ 64"
      "\<And>x. x - a < sz \<Longrightarrow> m x = None"
proof (cases "os m hint sz = MAP_FAILED")
  case True
  then show ?thesis by (intro that(1)) (simp add: sys_mmap_def)
next
  case False
  then show ?thesis using mmap_result [OF assms False]
    by (intro that(2)) (simp_all add: sys_mmap_def Let_def)
qed

lemma not_map_failed: "unat a + 4096 < 2 ^ 64 \<Longrightarrow> a \<noteq> MAP_FAILED"
proof
  assume lt: "unat a + 4096 < 2 ^ 64" and "a = MAP_FAILED"
  then have "unat a = mask 64" by (simp only: MAP_FAILED_def unsigned_minus_1_eq_mask) simp
  with lt show False by (simp add: mask_eq_exp_minus_1)
qed

subsection \<open>Correctness on systems whose pages are aligned\<close>

lemma gc_mmap_page_aligned:
  assumes "mmap_ok os" "page_aligned os"
  shows "mapped_pages n flags m (gc_mmap os n flags m)"
  using assms(1)
proof (rule sys_mmap_fresh [of os 0 "page_round n" flags m])
  assume "sys_mmap os 0 (page_round n) flags m = (0, m)"
  then show ?thesis by (simp add: gc_mmap_def mapped_pages_def new_pages_def MAP_FAILED_def)
next
  fix a
  assume a: "sys_mmap os 0 (page_round n) flags m =
      (a, set_range a (page_round n) (Some (flags AND M_GC_MAP_FL_EXEC \<noteq> 0)) m)"
    "os m 0 (page_round n) = a" "4096 \<le> unat a" "unat a + unat (page_round n) + 4096 < 2 ^ 64"
    "\<And>x. x - a < page_round n \<Longrightarrow> m x = None"
  have "a \<noteq> MAP_FAILED" using a(4) by (intro not_map_failed) linarith
  moreover from this have "a AND M_PAGE_MASK = 0" using assms(2) a(2) by (auto simp: page_aligned_def)
  moreover have "a \<noteq> 0" using a(3) by auto
  ultimately show ?thesis using a by (simp add: gc_mmap_def mapped_pages_def new_pages_def)
qed

subsection \<open>Correctness on other systems that honour hints\<close>

lemma set_range_trim_front:
  assumes "unat a + unat d + unat n < 2 ^ 64" "unat e = unat d + unat n"
    "\<And>x. x - a < e \<Longrightarrow> m x = None"
  shows "set_range a d None (set_range a e v m) = set_range (a + d) n v m"
proof
  fix x
  have u: "unat (a + d) = unat a + unat d" using assms(1) by (intro unat_plus_nowrap) linarith
  have r: "x - a < d \<longleftrightarrow> unat a \<le> unat x \<and> unat x < unat a + unat d"
    "x - a < e \<longleftrightarrow> unat a \<le> unat x \<and> unat x < unat a + unat e"
    "x - (a + d) < n \<longleftrightarrow> unat (a + d) \<le> unat x \<and> unat x < unat (a + d) + unat n"
    using assms(1,2) u by (intro in_range; linarith)+
  have "unat a \<le> unat x \<Longrightarrow> unat x < unat a + unat d \<Longrightarrow> m x = None"
    using assms(2) assms(3) [of x] r(2) by simp
  then show "set_range a d None (set_range a e v m) x = set_range (a + d) n v m x"
    unfolding set_range_def r u using assms(2) by auto
qed

lemma set_range_trim_back:
  assumes "unat a + unat n + unat d < 2 ^ 64" "unat e = unat n + unat d"
    "\<And>x. x - a < e \<Longrightarrow> m x = None"
  shows "set_range (a + n) d None (set_range a e v m) = set_range a n v m"
proof
  fix x
  have u: "unat (a + n) = unat a + unat n" using assms(1) by (intro unat_plus_nowrap) linarith
  have r: "x - a < n \<longleftrightarrow> unat a \<le> unat x \<and> unat x < unat a + unat n"
    "x - a < e \<longleftrightarrow> unat a \<le> unat x \<and> unat x < unat a + unat e"
    "x - (a + n) < d \<longleftrightarrow> unat (a + n) \<le> unat x \<and> unat x < unat (a + n) + unat d"
    using assms(1,2) u by (intro in_range; linarith)+
  have "unat a + unat n \<le> unat x \<Longrightarrow> unat x < unat a + unat n + unat d \<Longrightarrow> m x = None"
    using assms(2) assms(3) [of x] r(2) by simp
  then show "set_range (a + n) d None (set_range a e v m) x = set_range a n v m x"
    unfolding set_range_def r u using assms(2) by auto
qed

lemma set_range_join:
  assumes "unat a + unat n + unat d < 2 ^ 64"
  shows "set_range (a + n) d v (set_range a n v m) = set_range a (n + d) v m"
    and "set_range a n v (set_range (a + n) d v m) = set_range a (n + d) v m"
    and "x - a < n + d \<longleftrightarrow> x - a < n \<or> x - (a + n) < d"
proof -
  have u: "unat (a + n) = unat a + unat n" "unat (n + d) = unat n + unat d"
    using assms by (intro unat_plus_nowrap; linarith)+
  have r: "x - a < n \<longleftrightarrow> unat a \<le> unat x \<and> unat x < unat a + unat n"
    "x - a < n + d \<longleftrightarrow> unat a \<le> unat x \<and> unat x < unat a + unat (n + d)"
    "x - (a + n) < d \<longleftrightarrow> unat (a + n) \<le> unat x \<and> unat x < unat (a + n) + unat d" for x
    using assms u by (intro in_range; linarith)+
  show "x - a < n + d \<longleftrightarrow> x - a < n \<or> x - (a + n) < d" unfolding r u by auto
  show "set_range (a + n) d v (set_range a n v m) = set_range a (n + d) v m"
    and "set_range a n v (set_range (a + n) d v m) = set_range a (n + d) v m"
    unfolding set_range_def r u by (auto simp: fun_eq_iff)
qed

text \<open>The steps of \<open>gc_mmap\<close> for an unaligned first mapping at \<open>a\<close>, whose offset in
  its page is \<open>a AND M_PAGE_MASK\<close>.\<close>

lemma page_offset:
  assumes "4096 \<le> unat a" "unat a + 4096 < 2 ^ 64"
  defines "off \<equiv> a AND M_PAGE_MASK"
  shows "unat off < 4096" "unat (M_PAGE_SIZE - off) = 4096 - unat off"
    "(a + (M_PAGE_SIZE - off)) AND M_PAGE_MASK = 0" "(a - off) AND M_PAGE_MASK = 0"
    "unat (a - off) = unat a - unat off" "a - off \<noteq> 0" "a + (M_PAGE_SIZE - off) \<noteq> 0"
    "unat (a + (M_PAGE_SIZE - off)) = unat a + (4096 - unat off)"
proof -
  have o: "unat off = unat a mod 4096" by (simp add: off_def unat_page_mask)
  then show lt: "unat off < 4096" by simp
  have ps: "unat M_PAGE_SIZE = 4096" by (simp add: M_PAGE_SIZE_def)
  show d: "unat (M_PAGE_SIZE - off) = 4096 - unat off"
    using lt ps by (subst unat_minus_le) simp_all
  show up: "unat (a + (M_PAGE_SIZE - off)) = unat a + (4096 - unat off)"
    using assms(2) lt by (subst unat_plus_nowrap) (simp_all add: d)
  show down: "unat (a - off) = unat a - unat off"
    using assms(1) lt by (intro unat_minus_le) linarith
  have "4096 dvd unat a - unat off" unfolding o by (rule dvd_minus_mod)
  moreover have "unat a + (4096 - unat off) = (unat a - unat off) + 4096"
    using lt assms(1) by linarith
  ultimately have "4096 dvd unat a + (4096 - unat off)" by simp
  then show "(a + (M_PAGE_SIZE - off)) AND M_PAGE_MASK = 0"
    unfolding page_mask_zero up by (simp add: dvd_eq_mod_eq_0)
  show "(a - off) AND M_PAGE_MASK = 0"
    unfolding page_mask_zero down using \<open>4096 dvd unat a - unat off\<close> by (simp add: dvd_eq_mod_eq_0)
  show "a - off \<noteq> 0" using down assms(1) lt by auto
  show "a + (M_PAGE_SIZE - off) \<noteq> 0" using up assms(1) by auto
qed

lemma set_range_undo:
  "(\<And>x. x - a < n \<Longrightarrow> m x = None) \<Longrightarrow> set_range a n None (set_range a n v m) = m"
  by (auto simp: set_range_def fun_eq_iff)

lemma gc_mmap_big_pages:
  assumes ok: "mmap_ok os" and sz: "unat sz + 4096 \<le> 2 ^ 64"
  shows "new_pages sz flags m (gc_mmap_big os sz flags m)"
  using ok
proof (rule sys_mmap_fresh [of os 0 "sz + M_PAGE_SIZE - 1" flags m])
  assume "sys_mmap os 0 (sz + M_PAGE_SIZE - 1) flags m = (0, m)"
  then show ?thesis by (simp add: gc_mmap_big_def new_pages_def)
next
  let ?v = "Some (flags AND M_GC_MAP_FL_EXEC \<noteq> 0)" and ?T = "sz + M_PAGE_SIZE - 1"
  fix a
  assume a: "sys_mmap os 0 ?T flags m = (a, set_range a ?T ?v m)" "os m 0 ?T = a" "4096 \<le> unat a"
    "unat a + unat ?T + 4096 < 2 ^ 64" "\<And>x. x - a < ?T \<Longrightarrow> m x = None"
  have ps: "M_PAGE_SIZE - 1 = 4095" "unat (M_PAGE_SIZE - 1) = 4095" by (simp_all add: M_PAGE_SIZE_def)
  have T: "?T = sz + 4095" by (simp add: M_PAGE_SIZE_def)
  have uT: "unat ?T = unat sz + 4095"
    unfolding T using sz by (subst unat_plus_nowrap) simp_all
  have nz: "a \<noteq> 0" using a(3) by auto
  show ?thesis
  proof (cases "a AND M_PAGE_MASK = 0")
    case True
    have "set_range (a + sz) 4095 None (set_range a ?T ?v m) = set_range a sz ?v m"
      using a(4,5) uT by (intro set_range_trim_back) simp_all
    moreover have "\<forall>x. x - a < sz \<longrightarrow> m x = None"
      using a(5) set_range_join(3) [of a sz 4095] a(4) uT by (auto simp: T)
    ultimately show ?thesis using True nz a(1)
      by (simp add: gc_mmap_big_def new_pages_def sys_munmap_def ps)
  next
    case False
    let ?o = "a AND M_PAGE_MASK"
    let ?d = "M_PAGE_SIZE - ?o" and ?r = "?T - (M_PAGE_SIZE - ?o)"
    have big: "unat a + 4096 < 2 ^ 64" using a(4) by linarith
    note o = page_offset [OF a(3) big]
    have "unat ?o \<noteq> 0" using False by (simp add: unat_eq_0)
    then have d: "unat ?d = 4096 - unat ?o" "unat ?d \<le> 4095" using o(1,2) by simp_all
    have r: "unat ?r = unat sz + (4095 - unat ?d)"
      using d uT by (subst unat_minus_le) simp_all
    have tail: "unat (M_PAGE_SIZE - 1 - ?d) = 4095 - unat ?d"
      using d(2) ps(2) by (subst unat_minus_le) simp_all
    have 1: "set_range a ?d None (set_range a ?T ?v m) = set_range (a + ?d) ?r ?v m"
      using a(4,5) uT d r by (intro set_range_trim_front) simp_all
    have fr: "m x = None" if "x - (a + ?d) < ?r" for x
    proof -
      have "x - a < ?d + ?r" using that set_range_join(3) [of a ?d ?r x] a(4) uT d r by simp
      moreover have "?d + ?r = ?T" by (metis add.commute diff_add_cancel)
      ultimately show ?thesis using a(5) [of x] by (simp only:)
    qed
    have ud: "unat (a + ?d) = unat a + unat ?d" using o(2,8) by simp
    have 2: "set_range (a + ?d + sz) (M_PAGE_SIZE - 1 - ?d) None (set_range (a + ?d) ?r ?v m) =
        set_range (a + ?d) sz ?v m"
      using a(4) uT d r tail ud fr by (intro set_range_trim_back) simp_all
    have 3: "\<forall>x. x - (a + ?d) < sz \<longrightarrow> m x = None"
    proof (intro allI impI)
      fix x
      assume "x - (a + ?d) < sz"
      then have "x - (a + ?d) < ?r" using r by (simp add: word_less_nat_alt)
      then show "m x = None" by (rule fr)
    qed
    have "gc_mmap_big os sz flags m = (a + ?d, set_range (a + ?d) sz ?v m)"
      using False nz a(1) 1 2 by (simp add: gc_mmap_big_def Let_def sys_munmap_def add.assoc)
    then show ?thesis using 3 o(3,7) by (simp add: new_pages_def)
  qed
qed

lemma gc_mmap_hints:
  assumes ok: "mmap_ok os" and hint: "hint_exact os"
  shows "mapped_pages n flags m (gc_mmap os n flags m)"
  using ok
proof (rule sys_mmap_fresh [of os 0 "page_round n" flags m])
  assume "sys_mmap os 0 (page_round n) flags m = (0, m)"
  then show ?thesis by (simp add: gc_mmap_def mapped_pages_def new_pages_def MAP_FAILED_def)
next
  let ?v = "Some (flags AND M_GC_MAP_FL_EXEC \<noteq> 0)" and ?sz = "page_round n"
  fix a
  assume a: "sys_mmap os 0 ?sz flags m = (a, set_range a ?sz ?v m)" "os m 0 ?sz = a"
    "4096 \<le> unat a" "unat a + unat ?sz + 4096 < 2 ^ 64" "\<And>x. x - a < ?sz \<Longrightarrow> m x = None"
  let ?m1 = "set_range a ?sz ?v m" and ?o = "a AND M_PAGE_MASK"
  let ?d = "M_PAGE_SIZE - ?o"
  have big: "unat a + 4096 < 2 ^ 64" using a(4) by linarith
  then have nz: "a \<noteq> 0" "a \<noteq> MAP_FAILED" using a(3) not_map_failed by auto
  note o = page_offset [OF a(3) big]
  show ?thesis
  proof (cases "?o = 0")
    case True
    then show ?thesis using nz a by (simp add: gc_mmap_def mapped_pages_def new_pages_def)
  next
    case off: False
    then have o_pos: "unat ?o \<noteq> 0" by (simp add: unat_eq_0)
    have up: "unat (a + ?sz) = unat a + unat ?sz" using a(4) by (intro unat_plus_nowrap) linarith
    then have up_nz: "a + ?sz \<noteq> 0" using a(3) by auto
    consider "os ?m1 (a + ?sz) ?d = a + ?sz"
      | "os ?m1 (a + ?sz) ?d = MAP_FAILED" "os ?m1 (a - ?o) ?o = a - ?o"
      | "os ?m1 (a + ?sz) ?d = MAP_FAILED" "os ?m1 (a - ?o) ?o = MAP_FAILED"
      using hint up_nz o(6) unfolding hint_exact_def by blast
    then show ?thesis
    proof cases
      case 1
      have ne: "a + ?sz \<noteq> MAP_FAILED" using up a(4) by (intro not_map_failed) linarith
      have "set_range a ?d None (set_range (a + ?sz) ?d ?v ?m1) = set_range (a + ?d) ?sz ?v m"
        and "\<forall>x. x - (a + ?d) < ?sz \<longrightarrow> m x = None"
      proof -
        have fresh2: "\<And>x. x - (a + ?sz) < ?d \<Longrightarrow> ?m1 x = None"
          using mmap_result(3) [OF ok, of ?m1 "a + ?sz" ?d] 1 ne by metis
        have lt: "unat a + unat ?sz + unat ?d < 2 ^ 64" using a(4) o(1,2) by linarith
        have fr: "m x = None" if "x - a < ?sz + ?d" for x
          using that fresh2 [of x] a(5) [of x] set_range_join(3) [OF lt, of x]
          by (auto simp: set_range_def split: if_splits)
        have e: "unat (?sz + ?d) = unat ?d + unat ?sz"
          using lt by (subst unat_plus_nowrap) simp_all
        show "set_range a ?d None (set_range (a + ?sz) ?d ?v ?m1) = set_range (a + ?d) ?sz ?v m"
          unfolding set_range_join(1) [OF lt] using lt e fr by (intro set_range_trim_front) simp_all
        show "\<forall>x. x - (a + ?d) < ?sz \<longrightarrow> m x = None"
          using fr set_range_join(3) [of a ?d ?sz] lt by (auto simp: add.commute)
      qed
      then show ?thesis using 1 ne nz off a(1) o(3,7) up_nz
        by (simp add: gc_mmap_def mapped_pages_def new_pages_def Let_def sys_mmap_def sys_munmap_def)
    next
      case 2
      have ne: "a - ?o \<noteq> MAP_FAILED" using o(5) a(4) by (intro not_map_failed) linarith
      let ?b = "a - ?o"
      have b: "a = ?b + ?o" by simp
      have lt: "unat ?b + unat ?o + unat ?sz < 2 ^ 64" using a(3,4) o(1,5) by linarith
      have fresh2: "\<And>x. x - ?b < ?o \<Longrightarrow> ?m1 x = None"
        using mmap_result(3) [OF ok, of ?m1 ?b ?o] 2(2) ne by metis
      have fr: "m x = None" if "x - ?b < ?o + ?sz" for x
        using that fresh2 [of x] a(5) [of x] set_range_join(3) [OF lt, of x]
        by (auto simp: set_range_def split: if_splits)
      have e: "unat (?o + ?sz) = unat ?sz + unat ?o"
        using lt by (subst unat_plus_nowrap) simp_all
      have j: "set_range ?b ?o ?v ?m1 = set_range ?b (?o + ?sz) ?v m"
        using set_range_join(2) [OF lt, of ?v m] by simp
      have 3: "set_range (?b + ?sz) ?o None (set_range ?b ?o ?v ?m1) = set_range ?b ?sz ?v m"
        unfolding j using lt e fr by (intro set_range_trim_back) simp_all
      have "\<forall>x. x - ?b < ?sz \<longrightarrow> m x = None"
        using fr set_range_join(3) [of ?b ?sz ?o] lt by (auto simp: add.commute)
      then show ?thesis using 2 3 ne nz off a(1) o(4,6)
        by (simp add: gc_mmap_def mapped_pages_def new_pages_def Let_def sys_mmap_def sys_munmap_def
            add_diff_eq diff_add_eq)
    next
      case 3
      have "set_range a ?sz None ?m1 = m" using a(5) by (rule set_range_undo)
      then have "gc_mmap os n flags m = gc_mmap_big os ?sz flags m"
        using 3 nz off a(1) by (simp add: gc_mmap_def Let_def sys_mmap_def sys_munmap_def)
      then show ?thesis using gc_mmap_big_pages [OF ok page_round_bound, of n flags m]
        by (simp add: mapped_pages_def)
    qed
  qed
qed

text \<open>The call succeeds when the system has room for the mapping and for the larger one.\<close>

lemma sys_mmap_NULL: "mmap_ok os \<Longrightarrow> sys_mmap os hint sz flags m = (0, m') \<Longrightarrow> m' = m"
  using mmap_result(1) [of os m hint sz] by (auto simp: sys_mmap_def Let_def split: if_splits)

lemma gc_mmap_succeeds:
  assumes ok: "mmap_ok os" and a: "os m 0 (page_round n) \<noteq> MAP_FAILED"
    and big: "os m 0 (page_round n + M_PAGE_SIZE - 1) \<noteq> MAP_FAILED"
  shows "fst (gc_mmap os n flags m) \<noteq> 0"
proof -
  let ?sz = "page_round n"
  let ?a = "os m 0 ?sz" and ?b = "os m 0 (?sz + M_PAGE_SIZE - 1)"
  let ?o = "?a AND M_PAGE_MASK" and ?m1 = "set_range ?a ?sz (Some (flags AND M_GC_MAP_FL_EXEC \<noteq> 0)) m"
  note ra = mmap_result [OF ok a] and rb = mmap_result [OF ok big]
  have nz: "?a \<noteq> 0" "?b \<noteq> 0" using ra(1) rb(1) by auto
  have lt: "unat ?a + 4096 < 2 ^ 64" "unat ?b + 4096 < 2 ^ 64" using ra(2) rb(2) by linarith+
  note oa = page_offset [OF ra(1) lt(1)] and ob = page_offset [OF rb(1) lt(2)]
  have first: "sys_mmap os 0 ?sz flags m = (?a, ?m1)" using a by (simp add: sys_mmap_def Let_def)
  have undo: "sys_munmap ?a ?sz ?m1 = m"
    using ra(3) unfolding sys_munmap_def by (rule set_range_undo)
  have last: "fst (gc_mmap_big os ?sz flags m) \<noteq> 0"
    using nz(2) big ob(7) by (simp add: gc_mmap_big_def sys_mmap_def Let_def split: prod.splits)
  obtain r m2 where r: "sys_mmap os (?a + ?sz) (M_PAGE_SIZE - ?o) flags ?m1 = (r, m2)" by fastforce
  obtain r' m3 where r': "sys_mmap os (?a - ?o) ?o flags ?m1 = (r', m3)" by fastforce
  have "r = 0 \<Longrightarrow> m2 = ?m1" "r' = 0 \<Longrightarrow> m3 = ?m1"
    using sys_mmap_NULL [OF ok] r r' by blast+
  then show ?thesis
    using nz(1) a oa(6,7) undo last r' by (simp add: gc_mmap_def first r Let_def)
qed

subsection \<open>Concrete systems\<close>

text \<open>A system that places a mapping at \<open>f hint\<close> when the range is free, and fails
  otherwise.\<close>

definition choose_os :: "(addr \<Rightarrow> addr) \<Rightarrow> os" where
  "choose_os f m hint sz =
     (let a = f hint in
      if 4096 \<le> unat a \<and> unat a + unat sz + 4096 < 2 ^ 64 \<and> (\<forall>i < unat sz. m (a + of_nat i) = None)
      then a else MAP_FAILED)"

lemma choose_os_ok: "mmap_ok (choose_os f)"
  unfolding mmap_ok_def
proof (intro allI)
  fix m hint sz
  let ?a = "f hint"
  show "choose_os f m hint sz = MAP_FAILED \<or>
     4096 \<le> unat (choose_os f m hint sz) \<and> unat (choose_os f m hint sz) + unat sz + 4096 < 2 ^ 64 \<and>
     (\<forall>x. x - choose_os f m hint sz < sz \<longrightarrow> m x = None)"
  proof (cases "4096 \<le> unat ?a \<and> unat ?a + unat sz + 4096 < 2 ^ 64 \<and>
      (\<forall>i < unat sz. m (?a + of_nat i) = None)")
    case True
    have "m x = None" if "x - ?a < sz" for x
    proof -
      have "unat (x - ?a) < unat sz" using that by (simp add: word_less_nat_alt)
      then have "m (?a + of_nat (unat (x - ?a))) = None" using True by blast
      then show ?thesis by simp
    qed
    then show ?thesis using True by (simp add: choose_os_def Let_def)
  qed (auto simp: choose_os_def Let_def)
qed

end
