(* ===== verification/Log.thy ===== *)
theory Log
  imports Cmp
begin

text \<open>
  The log, \<open>src/m_log.c\<close> and \<open>include/m_log.h\<close>. The state holds the static variables
  of \<open>m_log.c\<close> and what has been written to the two files that the log can write to.
  \<open>log_ready\<close> says that the mutex is initialized and the file open; a message that is not
  filtered out faults otherwise. The environment variables, the result of \<open>fopen\<close>, the clock and
  the time zone (\<open>localtime\<close>) are parameters; the text that \<open>vfprintf\<close> makes of the
  format and its arguments is given. A call of \<open>m_log\<close> holds the mutex, so calls of several
  threads are a sequence of calls.
\<close>

subsection \<open>Levels\<close>

datatype M_LogLevel =
    M_LOG_LEVEL_ALL | M_LOG_LEVEL_DEBUG | M_LOG_LEVEL_INFO | M_LOG_LEVEL_WARNING
  | M_LOG_LEVEL_ERROR | M_LOG_LEVEL_FATAL | M_LOG_LEVEL_NONE

primrec level_value :: "M_LogLevel \<Rightarrow> nat" where
  "level_value M_LOG_LEVEL_ALL = 0"
| "level_value M_LOG_LEVEL_DEBUG = 1"
| "level_value M_LOG_LEVEL_INFO = 2"
| "level_value M_LOG_LEVEL_WARNING = 3"
| "level_value M_LOG_LEVEL_ERROR = 4"
| "level_value M_LOG_LEVEL_FATAL = 5"
| "level_value M_LOG_LEVEL_NONE = 6"

lemma level_value_inject [simp]: "level_value a = level_value b \<longleftrightarrow> a = b"
  by (cases a; cases b) simp_all

text \<open>Enumerators compare as their values.\<close>

instantiation M_LogLevel :: linorder
begin

definition less_eq_M_LogLevel :: "M_LogLevel \<Rightarrow> M_LogLevel \<Rightarrow> bool" where
  "less_eq_M_LogLevel a b \<longleftrightarrow> level_value a \<le> level_value b"

definition less_M_LogLevel :: "M_LogLevel \<Rightarrow> M_LogLevel \<Rightarrow> bool" where
  "less_M_LogLevel a b \<longleftrightarrow> level_value a < level_value b"

instance
  by intro_classes (auto simp: less_eq_M_LogLevel_def less_M_LogLevel_def simp flip: level_value_inject)

end

lemmas level_order = less_eq_M_LogLevel_def less_M_LogLevel_def

subsection \<open>Conversions of \<open>printf\<close>\<close>

definition digit :: "nat \<Rightarrow> char" where
  "digit d = char_of (48 + d)"

fun dec :: "nat \<Rightarrow> string" where
  "dec n = (if n < 10 then [digit n] else dec (n div 10) @ [digit (n mod 10)])"

declare dec.simps [simp del]

definition pad :: "nat \<Rightarrow> char \<Rightarrow> string \<Rightarrow> string" where
  "pad w c s = replicate (w - length s) c @ s"

text \<open>\<open>%<w>s\<close>, \<open>%<w>u\<close>, \<open>%<w>d\<close> and \<open>%0<w>d\<close>.\<close>

definition fmt_s :: "nat \<Rightarrow> string \<Rightarrow> string" where
  "fmt_s w s = pad w CHR '' '' s"

definition fmt_u :: "nat \<Rightarrow> nat \<Rightarrow> string" where
  "fmt_u w n = pad w CHR '' '' (dec n)"

definition fmt_d :: "nat \<Rightarrow> int \<Rightarrow> string" where
  "fmt_d w i = pad w CHR '' '' (if i < 0 then ''-'' @ dec (nat (- i)) else dec (nat i))"

definition fmt_0d :: "nat \<Rightarrow> int \<Rightarrow> string" where
  "fmt_0d w i = (if i < 0 then ''-'' @ pad (w - 1) CHR ''0'' (dec (nat (- i))) else pad w CHR ''0'' (dec (nat i)))"

subsection \<open>State and startup\<close>

abbreviation (input) M_LOG_FL_TAG :: u32 where "M_LOG_FL_TAG \<equiv> 1"
abbreviation (input) M_LOG_FL_FILE :: u32 where "M_LOG_FL_FILE \<equiv> 2"
abbreviation (input) M_LOG_FL_FUNC :: u32 where "M_LOG_FL_FUNC \<equiv> 4"
abbreviation (input) M_LOG_FL_LINE :: u32 where "M_LOG_FL_LINE \<equiv> 8"
abbreviation (input) M_LOG_FL_DATE :: u32 where "M_LOG_FL_DATE \<equiv> 16"
abbreviation (input) M_LOG_FL_TIME :: u32 where "M_LOG_FL_TIME \<equiv> 32"
abbreviation (input) M_LOG_FL_USEC :: u32 where "M_LOG_FL_USEC \<equiv> 64"
abbreviation (input) M_LOG_FL_LEVEL :: u32 where "M_LOG_FL_LEVEL \<equiv> 128"
abbreviation (input) M_LOG_FL_ALL :: u32 where "M_LOG_FL_ALL \<equiv> 0xffffffff"

datatype log_file = Stdout | LogFile

record log_state =
  log_ready :: bool
  log_fp :: "log_file option"
  log_level :: M_LogLevel
  log_flags :: u32
  log_out :: "log_file \<Rightarrow> string"

record log_env =
  getenv :: "string \<Rightarrow> string option"
  fopen_ab :: "string \<Rightarrow> bool"

text \<open>The static variables before \<open>m_log_startup\<close>.\<close>

definition log_static :: "(log_file \<Rightarrow> string) \<Rightarrow> log_state" where
  "log_static files = \<lparr>log_ready = False, log_fp = None, log_level = M_LOG_LEVEL_ALL, log_flags = 0, log_out = files\<rparr>"

definition bytes :: "string \<Rightarrow> u8 list" where
  "bytes s = map (\<lambda>c. of_nat (of_char c)) s"

definition LOG_LEVEL_CHECK :: "string \<Rightarrow> string \<Rightarrow> bool" where
  "LOG_LEVEL_CHECK val name \<longleftrightarrow> strcasecmp (bytes val) (bytes name) = 0"

definition parse_level :: "string \<Rightarrow> M_LogLevel" where
  "parse_level val =
     (if LOG_LEVEL_CHECK val ''ALL'' then M_LOG_LEVEL_ALL
      else if LOG_LEVEL_CHECK val ''DEBUG'' then M_LOG_LEVEL_DEBUG
      else if LOG_LEVEL_CHECK val ''INFO'' then M_LOG_LEVEL_INFO
      else if LOG_LEVEL_CHECK val ''WARNING'' then M_LOG_LEVEL_WARNING
      else if LOG_LEVEL_CHECK val ''ERROR'' then M_LOG_LEVEL_ERROR
      else if LOG_LEVEL_CHECK val ''FATAL'' then M_LOG_LEVEL_FATAL
      else if LOG_LEVEL_CHECK val ''NONE'' then M_LOG_LEVEL_NONE
      else M_LOG_LEVEL_ALL)"

definition LOG_FLAG_CHECK :: "string \<Rightarrow> u32 \<Rightarrow> char \<Rightarrow> u32 \<Rightarrow> u32" where
  "LOG_FLAG_CHECK val fl ch flags = (if ch \<in> set val then flags OR fl else flags)"

definition parse_pattern :: "string \<Rightarrow> u32" where
  "parse_pattern val =
     (let f = LOG_FLAG_CHECK val M_LOG_FL_TAG (CHR ''T'') 0;
          f = LOG_FLAG_CHECK val M_LOG_FL_LEVEL (CHR ''L'') f;
          f = LOG_FLAG_CHECK val M_LOG_FL_FILE (CHR ''F'') f;
          f = LOG_FLAG_CHECK val M_LOG_FL_FUNC (CHR ''f'') f;
          f = LOG_FLAG_CHECK val M_LOG_FL_LINE (CHR ''l'') f;
          f = LOG_FLAG_CHECK val M_LOG_FL_DATE (CHR ''d'') f;
          f = LOG_FLAG_CHECK val M_LOG_FL_TIME (CHR ''t'') f
      in LOG_FLAG_CHECK val M_LOG_FL_USEC (CHR ''u'') f)"

definition m_log_startup :: "log_env \<Rightarrow> log_state \<Rightarrow> log_state" where
  "m_log_startup e s =
     (let fp = (case getenv e ''M_LOG_FILE'' of
                  Some val \<Rightarrow> (if fopen_ab e val then Some LogFile else None)
                | None \<Rightarrow> None);
          fp = (if fp = None then Some Stdout else fp);
          level = (case getenv e ''M_LOG_LEVEL'' of Some val \<Rightarrow> parse_level val | None \<Rightarrow> M_LOG_LEVEL_NONE);
          flags = (case getenv e ''M_LOG_PATTERN'' of Some val \<Rightarrow> parse_pattern val | None \<Rightarrow> M_LOG_FL_ALL)
      in s\<lparr>log_ready := True, log_fp := fp, log_level := level, log_flags := flags\<rparr>)"

text \<open>\<open>fclose\<close> and the destruction of the mutex; \<open>log_fp\<close> keeps its value.\<close>

definition m_log_shutdown :: "log_state \<Rightarrow> log_state" where
  "m_log_shutdown s = s\<lparr>log_ready := False\<rparr>"

subsection \<open>\<open>m_log\<close>\<close>

record timespec =
  tv_sec :: int
  tv_nsec :: nat

record tm =
  tm_year :: int
  tm_mon :: int
  tm_mday :: int
  tm_hour :: int
  tm_min :: int
  tm_sec :: int

definition level_char :: "M_LogLevel \<Rightarrow> char" where
  "level_char level =
     (case level of
        M_LOG_LEVEL_DEBUG \<Rightarrow> CHR ''D''
      | M_LOG_LEVEL_WARNING \<Rightarrow> CHR ''W''
      | M_LOG_LEVEL_ERROR \<Rightarrow> CHR ''E''
      | M_LOG_LEVEL_FATAL \<Rightarrow> CHR ''F''
      | _ \<Rightarrow> CHR ''I'')"

text \<open>The text of date and time. The two \<open>long\<close> numbers are printed by conversions for
  \<open>int\<close> and \<open>unsigned int\<close>, which read 32 bits of them.\<close>

definition log_date_time :: "(int \<Rightarrow> tm) \<Rightarrow> u32 \<Rightarrow> timespec \<Rightarrow> string" where
  "log_date_time localtime flags ts =
     (let date = localtime (tv_sec ts) in
      (if flags AND M_LOG_FL_DATE \<noteq> 0
       then fmt_0d 4 (tm_year date + 1900) @ ''-'' @ fmt_0d 2 (tm_mon date + 1) @ ''-'' @ fmt_0d 2 (tm_mday date)
       else '''') @
      (if flags AND M_LOG_FL_TIME \<noteq> 0
       then (if flags AND M_LOG_FL_DATE \<noteq> 0 then '' '' else '''') @
         fmt_0d 2 (tm_hour date) @ '':'' @ fmt_0d 2 (tm_min date) @ '':'' @ fmt_0d 2 (tm_sec date)
       else '''') @
      (if flags AND M_LOG_FL_TIME \<noteq> 0
       then ''.'' @ fmt_0d 6 (signed_take_bit 31 (int (tv_nsec ts div 1000)))
       else (if flags AND M_LOG_FL_DATE \<noteq> 0 then '' '' else '''') @
         fmt_u 10 (nat (take_bit 32 (int (tv_nsec ts div 1000) + tv_sec ts * 1000000)))))"

text \<open>One part of the line: \<open>fst p\<close> is the variable \<open>sep\<close>, \<open>snd p\<close> what has been
  written.\<close>

definition log_part :: "bool \<Rightarrow> string \<Rightarrow> string \<Rightarrow> bool \<times> string \<Rightarrow> bool \<times> string" where
  "log_part enabled sep txt p =
     (if enabled then (True, snd p @ (if fst p then sep else '''') @ txt) else p)"

definition log_line ::
    "(int \<Rightarrow> tm) \<Rightarrow> u32 \<Rightarrow> timespec \<Rightarrow> M_LogLevel \<Rightarrow> string \<Rightarrow> string \<Rightarrow> string \<Rightarrow> int \<Rightarrow> string \<Rightarrow> string" where
  "log_line localtime flags ts level tag file func line msg =
     (let p = log_part (flags AND M_LOG_FL_LEVEL \<noteq> 0) '''' [level_char level] (False, '''');
          p = log_part (flags AND M_LOG_FL_TAG \<noteq> 0) ''/'' (fmt_s 8 tag) p;
          p = log_part (flags AND M_LOG_FL_FILE \<noteq> 0) '':'' ([CHR 0x22] @ fmt_s 15 file @ [CHR 0x22]) p;
          p = log_part (flags AND M_LOG_FL_FUNC \<noteq> 0) '' '' (''('' @ fmt_s 10 func @ '')'') p;
          p = log_part (flags AND M_LOG_FL_LINE \<noteq> 0) '' '' (fmt_d 5 line) p;
          p = log_part (flags AND (M_LOG_FL_DATE OR M_LOG_FL_TIME OR M_LOG_FL_USEC) \<noteq> 0) '' ''
                (log_date_time localtime flags ts) p
      in snd p @ (if fst p then '': '' else '''') @ msg @ [CHR 0x0A])"

definition m_log ::
    "(int \<Rightarrow> tm) \<Rightarrow> timespec \<Rightarrow> M_LogLevel \<Rightarrow> string \<Rightarrow> string \<Rightarrow> string \<Rightarrow> int \<Rightarrow> string \<Rightarrow> log_state \<Rightarrow> log_state option" where
  "m_log localtime ts level tag file func line msg s =
     (if level < log_level s then Some s
      else do {
        c_assert (log_ready s);
        fp \<leftarrow> log_fp s;
        Some (s\<lparr>log_out := (log_out s)
          (fp := log_out s fp @ log_line localtime (log_flags s) ts level tag file func line msg)\<rparr>) })"

text \<open>The macros of \<open>m_log.h\<close>.\<close>

definition M_DEBUG where "M_DEBUG localtime ts \<equiv> m_log localtime ts M_LOG_LEVEL_DEBUG"
definition M_INFO where "M_INFO localtime ts \<equiv> m_log localtime ts M_LOG_LEVEL_INFO"
definition M_WARNING where "M_WARNING localtime ts \<equiv> m_log localtime ts M_LOG_LEVEL_WARNING"
definition M_ERROR where "M_ERROR localtime ts \<equiv> m_log localtime ts M_LOG_LEVEL_ERROR"
definition M_FATAL where "M_FATAL localtime ts \<equiv> m_log localtime ts M_LOG_LEVEL_FATAL"

subsection \<open>What the environment asks for\<close>

text \<open>The meaning of the environment variables in their own terms: a level is given by its name in
  any mixture of cases, any other word means all messages and no word none; a line consists of the
  columns whose letters are in the pattern, whatever their order and however often.\<close>

definition levels :: "M_LogLevel list" where
  "levels = [M_LOG_LEVEL_ALL, M_LOG_LEVEL_DEBUG, M_LOG_LEVEL_INFO, M_LOG_LEVEL_WARNING,
     M_LOG_LEVEL_ERROR, M_LOG_LEVEL_FATAL, M_LOG_LEVEL_NONE]"

primrec level_name :: "M_LogLevel \<Rightarrow> string" where
  "level_name M_LOG_LEVEL_ALL = ''ALL''"
| "level_name M_LOG_LEVEL_DEBUG = ''DEBUG''"
| "level_name M_LOG_LEVEL_INFO = ''INFO''"
| "level_name M_LOG_LEVEL_WARNING = ''WARNING''"
| "level_name M_LOG_LEVEL_ERROR = ''ERROR''"
| "level_name M_LOG_LEVEL_FATAL = ''FATAL''"
| "level_name M_LOG_LEVEL_NONE = ''NONE''"

definition same_letters :: "string \<Rightarrow> string \<Rightarrow> bool" where
  "same_letters a b \<longleftrightarrow> map tolower (bytes a) = map tolower (bytes b)"

definition threshold :: "log_env \<Rightarrow> M_LogLevel" where
  "threshold e = (case getenv e ''M_LOG_LEVEL'' of
       None \<Rightarrow> M_LOG_LEVEL_NONE
     | Some v \<Rightarrow> (case List.find (\<lambda>l. same_letters v (level_name l)) levels of
         Some l \<Rightarrow> l | None \<Rightarrow> M_LOG_LEVEL_ALL))"

text \<open>The levels from the threshold on are written. A message shows the first letter of its
  level.\<close>

definition reaches :: "log_env \<Rightarrow> M_LogLevel \<Rightarrow> bool" where
  "reaches e l \<longleftrightarrow> l \<in> set (dropWhile (\<lambda>k. k \<noteq> threshold e) levels)"

definition level_letter :: "M_LogLevel \<Rightarrow> char" where
  "level_letter l = (if l = M_LOG_LEVEL_ALL \<or> l = M_LOG_LEVEL_NONE then CHR ''I'' else hd (level_name l))"

definition target :: "log_env \<Rightarrow> log_file" where
  "target e = (case getenv e ''M_LOG_FILE'' of None \<Rightarrow> Stdout | Some v \<Rightarrow> if fopen_ab e v then LogFile else Stdout)"

definition shows_col :: "log_env \<Rightarrow> char \<Rightarrow> bool" where
  "shows_col e c = (case getenv e ''M_LOG_PATTERN'' of None \<Rightarrow> True | Some v \<Rightarrow> c \<in> set v)"

definition date_text :: "tm \<Rightarrow> string" where
  "date_text d = fmt_0d 4 (tm_year d + 1900) @ ''-'' @ fmt_0d 2 (tm_mon d + 1) @ ''-'' @ fmt_0d 2 (tm_mday d)"

definition time_text :: "tm \<Rightarrow> timespec \<Rightarrow> string" where
  "time_text d ts = fmt_0d 2 (tm_hour d) @ '':'' @ fmt_0d 2 (tm_min d) @ '':'' @ fmt_0d 2 (tm_sec d) @ ''.'' @
     fmt_0d 6 (signed_take_bit 31 (int (tv_nsec ts div 1000)))"

text \<open>The microseconds since the epoch, modulo \<open>2 ^ 32\<close>.\<close>

definition counter_text :: "timespec \<Rightarrow> string" where
  "counter_text ts = fmt_u 10 (nat ((tv_sec ts * 1000000 + int (tv_nsec ts div 1000)) mod 2 ^ 32))"

definition stamp_text :: "(int \<Rightarrow> tm) \<Rightarrow> bool \<Rightarrow> bool \<Rightarrow> timespec \<Rightarrow> string" where
  "stamp_text localtime d t ts =
     (case (d, t) of
        (True, True) \<Rightarrow> date_text (localtime (tv_sec ts)) @ '' '' @ time_text (localtime (tv_sec ts)) ts
      | (False, True) \<Rightarrow> time_text (localtime (tv_sec ts)) ts
      | (True, False) \<Rightarrow> date_text (localtime (tv_sec ts)) @ '' '' @ counter_text ts
      | (False, False) \<Rightarrow> counter_text ts)"

record log_call =
  lc_time :: timespec
  lc_level :: M_LogLevel
  lc_tag :: string
  lc_file :: string
  lc_func :: string
  lc_line :: int
  lc_msg :: string

definition call_log :: "(int \<Rightarrow> tm) \<Rightarrow> log_call \<Rightarrow> log_state \<Rightarrow> log_state option" where
  "call_log localtime c = m_log localtime (lc_time c) (lc_level c) (lc_tag c) (lc_file c) (lc_func c) (lc_line c) (lc_msg c)"

text \<open>A column is the separator in front of it, its letters and its text.\<close>

definition columns :: "(char \<Rightarrow> bool) \<Rightarrow> (int \<Rightarrow> tm) \<Rightarrow> log_call \<Rightarrow> (string \<times> string \<times> string) list" where
  "columns sh localtime c =
     [('''', ''L'', [level_letter (lc_level c)]),
      (''/'', ''T'', fmt_s 8 (lc_tag c)),
      ('':'', ''F'', [CHR 0x22] @ fmt_s 15 (lc_file c) @ [CHR 0x22]),
      ('' '', ''f'', ''('' @ fmt_s 10 (lc_func c) @ '')''),
      ('' '', ''l'', fmt_d 5 (lc_line c)),
      ('' '', ''dtu'', stamp_text localtime (sh CHR ''d'') (sh CHR ''t'') (lc_time c))]"

definition chosen :: "(char \<Rightarrow> bool) \<Rightarrow> (int \<Rightarrow> tm) \<Rightarrow> log_call \<Rightarrow> (string \<times> string \<times> string) list" where
  "chosen sh localtime c = filter (\<lambda>(sep, letters, txt). list_ex sh letters) (columns sh localtime c)"

fun join_columns :: "(string \<times> string \<times> string) list \<Rightarrow> string" where
  "join_columns [] = ''''"
| "join_columns ((_, _, txt) # cs) = txt @ concat (map (\<lambda>(sep, _, txt). sep @ txt) cs) @ '': ''"

definition line_of :: "(char \<Rightarrow> bool) \<Rightarrow> (int \<Rightarrow> tm) \<Rightarrow> log_call \<Rightarrow> string" where
  "line_of sh localtime c = join_columns (chosen sh localtime c) @ lc_msg c @ [CHR 0x0A]"

subsection \<open>Levels of the environment\<close>

lemma LOG_LEVEL_CHECK_iff: "LOG_LEVEL_CHECK val name \<longleftrightarrow> same_letters val name"
  by (simp add: LOG_LEVEL_CHECK_def same_letters_def strcasecmp_def)

lemma parse_level_find:
  "parse_level v = (case List.find (\<lambda>l. same_letters v (level_name l)) levels of Some l \<Rightarrow> l | None \<Rightarrow> M_LOG_LEVEL_ALL)"
  by (simp add: parse_level_def LOG_LEVEL_CHECK_iff levels_def)

lemma reaches_iff: "reaches e l \<longleftrightarrow> threshold e \<le> l"
  unfolding reaches_def by (cases "threshold e"; cases l) (simp_all add: levels_def level_order)

lemma level_char_letter: "level_char l = level_letter l"
  by (cases l) (simp_all add: level_char_def level_letter_def)

subsection \<open>Flags\<close>

lemma LOG_FLAG_CHECK_OR: "LOG_FLAG_CHECK val fl ch f = f OR (if ch \<in> set val then fl else 0)"
  by (simp add: LOG_FLAG_CHECK_def)

lemma if_AND: "(if b then x else 0) AND y = (if b then x AND y else (0 :: u32))"
  by simp

lemma parse_pattern_flags:
  "parse_pattern v AND M_LOG_FL_TAG \<noteq> 0 \<longleftrightarrow> CHR ''T'' \<in> set v"
  "parse_pattern v AND M_LOG_FL_FILE \<noteq> 0 \<longleftrightarrow> CHR ''F'' \<in> set v"
  "parse_pattern v AND M_LOG_FL_FUNC \<noteq> 0 \<longleftrightarrow> CHR ''f'' \<in> set v"
  "parse_pattern v AND M_LOG_FL_LINE \<noteq> 0 \<longleftrightarrow> CHR ''l'' \<in> set v"
  "parse_pattern v AND M_LOG_FL_DATE \<noteq> 0 \<longleftrightarrow> CHR ''d'' \<in> set v"
  "parse_pattern v AND M_LOG_FL_TIME \<noteq> 0 \<longleftrightarrow> CHR ''t'' \<in> set v"
  "parse_pattern v AND M_LOG_FL_USEC \<noteq> 0 \<longleftrightarrow> CHR ''u'' \<in> set v"
  "parse_pattern v AND M_LOG_FL_LEVEL \<noteq> 0 \<longleftrightarrow> CHR ''L'' \<in> set v"
  unfolding parse_pattern_def Let_def LOG_FLAG_CHECK_OR bit.conj_disj_distrib2 if_AND
  by simp_all

lemma AND_OR_nonzero: "f AND (g OR h) \<noteq> 0 \<longleftrightarrow> f AND g \<noteq> 0 \<or> f AND h \<noteq> (0 :: u32)"
  by (simp add: bit.conj_disj_distrib or_eq_0_iff)

lemma startup_flags:
  "log_flags (m_log_startup e s) AND M_LOG_FL_TAG \<noteq> 0 \<longleftrightarrow> shows_col e CHR ''T''"
  "log_flags (m_log_startup e s) AND M_LOG_FL_FILE \<noteq> 0 \<longleftrightarrow> shows_col e CHR ''F''"
  "log_flags (m_log_startup e s) AND M_LOG_FL_FUNC \<noteq> 0 \<longleftrightarrow> shows_col e CHR ''f''"
  "log_flags (m_log_startup e s) AND M_LOG_FL_LINE \<noteq> 0 \<longleftrightarrow> shows_col e CHR ''l''"
  "log_flags (m_log_startup e s) AND M_LOG_FL_DATE \<noteq> 0 \<longleftrightarrow> shows_col e CHR ''d''"
  "log_flags (m_log_startup e s) AND M_LOG_FL_TIME \<noteq> 0 \<longleftrightarrow> shows_col e CHR ''t''"
  "log_flags (m_log_startup e s) AND M_LOG_FL_USEC \<noteq> 0 \<longleftrightarrow> shows_col e CHR ''u''"
  "log_flags (m_log_startup e s) AND M_LOG_FL_LEVEL \<noteq> 0 \<longleftrightarrow> shows_col e CHR ''L''"
  unfolding m_log_startup_def shows_col_def Let_def
  by (cases "getenv e ''M_LOG_PATTERN''"; simp add: parse_pattern_flags [simplified])+

subsection \<open>The lines\<close>

lemma date_time_stamp:
  assumes "flags AND M_LOG_FL_DATE \<noteq> 0 \<longleftrightarrow> d" "flags AND M_LOG_FL_TIME \<noteq> 0 \<longleftrightarrow> t"
  shows "log_date_time localtime flags ts = stamp_text localtime d t ts"
  using assms
  by (auto simp: log_date_time_def stamp_text_def Let_def date_text_def time_text_def counter_text_def
      take_bit_eq_mod add.commute split: prod.splits bool.splits)

lemma log_line_columns:
  assumes "flags AND M_LOG_FL_LEVEL \<noteq> 0 \<longleftrightarrow> sh CHR ''L''" "flags AND M_LOG_FL_TAG \<noteq> 0 \<longleftrightarrow> sh CHR ''T''"
    "flags AND M_LOG_FL_FILE \<noteq> 0 \<longleftrightarrow> sh CHR ''F''" "flags AND M_LOG_FL_FUNC \<noteq> 0 \<longleftrightarrow> sh CHR ''f''"
    "flags AND M_LOG_FL_LINE \<noteq> 0 \<longleftrightarrow> sh CHR ''l''" "flags AND M_LOG_FL_DATE \<noteq> 0 \<longleftrightarrow> sh CHR ''d''"
    "flags AND M_LOG_FL_TIME \<noteq> 0 \<longleftrightarrow> sh CHR ''t''" "flags AND M_LOG_FL_USEC \<noteq> 0 \<longleftrightarrow> sh CHR ''u''"
  shows "log_line localtime flags (lc_time c) (lc_level c) (lc_tag c) (lc_file c) (lc_func c) (lc_line c) (lc_msg c) =
    line_of sh localtime c"
proof -
  have dtu: "flags AND (M_LOG_FL_DATE OR M_LOG_FL_TIME OR M_LOG_FL_USEC) \<noteq> 0 \<longleftrightarrow>
      sh CHR ''d'' \<or> sh CHR ''t'' \<or> sh CHR ''u''"
    using assms(6-8) by (simp only: AND_OR_nonzero)
  define st where "st = stamp_text localtime (sh CHR ''d'') (sh CHR ''t'') (lc_time c)"
  define b where "b \<longleftrightarrow> sh CHR ''d'' \<or> sh CHR ''t'' \<or> sh CHR ''u''"
  have ch: "chosen sh localtime c =
      (if sh CHR ''L'' then [('''', ''L'', [level_letter (lc_level c)])] else []) @
      (if sh CHR ''T'' then [(''/'', ''T'', fmt_s 8 (lc_tag c))] else []) @
      (if sh CHR ''F'' then [('':'', ''F'', [CHR 0x22] @ fmt_s 15 (lc_file c) @ [CHR 0x22])] else []) @
      (if sh CHR ''f'' then [('' '', ''f'', ''('' @ fmt_s 10 (lc_func c) @ '')'')] else []) @
      (if sh CHR ''l'' then [('' '', ''l'', fmt_d 5 (lc_line c))] else []) @
      (if b then [('' '', ''dtu'', st)] else [])"
    by (simp add: chosen_def columns_def st_def b_def)
  show ?thesis
    unfolding log_line_def Let_def assms(1-5) dtu date_time_stamp [OF assms(6,7)] line_of_def ch
      st_def [symmetric] b_def [symmetric] level_char_letter
    by (simp add: log_part_def)
qed

lemma call_log_started:
  assumes "log_ready s" "log_fp s = Some (target e)" "log_level s = threshold e"
    "log_flags s = log_flags (m_log_startup e s0)"
  shows "call_log localtime c s = Some (if lc_level c < threshold e then s
     else s\<lparr>log_out := (log_out s)(target e := log_out s (target e) @ line_of (shows_col e) localtime c)\<rparr>)"
  using assms log_line_columns [of "log_flags s" "shows_col e" localtime c] startup_flags [of e s0]
  by (simp add: call_log_def m_log_def)

lemma startup_state:
  "log_ready (m_log_startup e s)" "log_fp (m_log_startup e s) = Some (target e)"
  "log_level (m_log_startup e s) = threshold e" "log_out (m_log_startup e s) = log_out s"
  by (auto simp: m_log_startup_def Let_def target_def threshold_def parse_level_find split: option.splits)

text \<open>A sequence of messages: each that reaches the threshold appends its line to the file that the
  environment selects, in order, and nothing else is written.\<close>

lemma log_run_lines:
  assumes "log_ready s" "log_fp s = Some (target e)" "log_level s = threshold e"
    "log_flags s = log_flags (m_log_startup e s0)"
  shows "fold_opt (call_log localtime) cs s = Some (s\<lparr>log_out := (log_out s)(target e := log_out s (target e) @
    concat (map (line_of (shows_col e) localtime) (filter (\<lambda>c. threshold e \<le> lc_level c) cs)))\<rparr>)"
  using assms
proof (induction cs arbitrary: s)
  case (Cons c cs)
  note run = call_log_started [OF Cons.prems, of localtime c]
  show ?case
  proof (cases "lc_level c < threshold e")
    case True
    then show ?thesis using run Cons.IH [OF Cons.prems] by (simp add: not_less [symmetric])
  next
    case False
    let ?s = "s\<lparr>log_out := (log_out s)(target e := log_out s (target e) @ line_of (shows_col e) localtime c)\<rparr>"
    have "fold_opt (call_log localtime) cs ?s = Some (?s\<lparr>log_out := (log_out ?s)(target e := log_out ?s (target e) @
        concat (map (line_of (shows_col e) localtime) (filter (\<lambda>c. threshold e \<le> lc_level c) cs)))\<rparr>)"
      by (rule Cons.IH) (simp_all add: Cons.prems)
    then show ?thesis using run False by (cases s) (auto simp: not_less fun_eq_iff)
  qed
qed simp

lemma log_startup_lines:
  "\<exists>s'. fold_opt (call_log localtime) cs (m_log_startup e s) = Some s' \<and>
    log_out s' = (log_out s)(target e := log_out s (target e) @
      concat (map (line_of (shows_col e) localtime) (filter (\<lambda>c. reaches e (lc_level c)) cs)))"
  unfolding reaches_iff using log_run_lines [OF startup_state(1-3) refl] by (simp add: startup_state(4))

text \<open>Without an environment, nothing that the macros log is written.\<close>

lemma log_silent:
  assumes "getenv e ''M_LOG_LEVEL'' = None" "\<forall>c \<in> set cs. lc_level c \<noteq> M_LOG_LEVEL_NONE"
  shows "\<exists>s'. fold_opt (call_log localtime) cs (m_log_startup e s) = Some s' \<and> log_out s' = log_out s"
proof -
  have "lc_level c < M_LOG_LEVEL_NONE" if "c \<in> set cs" for c
    using assms(2) that by (cases "lc_level c") (auto simp: level_order)
  then have "filter (\<lambda>c. reaches e (lc_level c)) cs = []"
    using assms(1) by (force simp: reaches_iff threshold_def filter_empty_conv)
  then show ?thesis using log_startup_lines [of localtime cs e s] by auto
qed

text \<open>Before startup and after shutdown a message that is not filtered out faults.\<close>

lemma log_static_faults: "call_log localtime c (log_static files) = None"
  by (cases "lc_level c") (simp_all add: call_log_def m_log_def log_static_def level_order)

lemma log_shutdown_faults:
  "call_log localtime c (m_log_shutdown s) = (if lc_level c < log_level s then Some (m_log_shutdown s) else None)"
  by (simp add: call_log_def m_log_def m_log_shutdown_def)

subsection \<open>Widths\<close>

lemma dec_length: "n < 10 ^ Suc k \<Longrightarrow> length (dec n) \<le> Suc k"
proof (induction k arbitrary: n)
  case 0
  then show ?case by (simp add: dec.simps)
next
  case (Suc k)
  show ?case
  proof (cases "n < 10")
    case False
    have "n div 10 < 10 ^ Suc k" using Suc.prems by (simp add: div_less_iff_less_mult mult.commute)
    from Suc.IH [OF this] show ?thesis using False by (subst dec.simps) simp
  qed (simp add: dec.simps)
qed

definition undec :: "string \<Rightarrow> nat" where
  "undec s = foldl (\<lambda>n c. 10 * n + (of_char c - 48)) 0 s"

lemma undec_snoc: "undec (s @ [c]) = 10 * undec s + (of_char c - 48)"
  by (simp add: undec_def)

lemma digit_value: "d < 10 \<Longrightarrow> of_char (digit d) = (48 + d :: nat)"
  by (simp add: digit_def of_char_of)

text \<open>The digits denote the number.\<close>

lemma undec_dec: "undec (dec n) = n"
proof (induction n rule: dec.induct)
  case (1 n)
  show ?case
  proof (cases "n < 10")
    case True
    then show ?thesis using undec_snoc [of "[]" "digit n"] by (subst dec.simps) (simp add: digit_value undec_def)
  next
    case False
    then have "undec (dec n) = 10 * (n div 10) + n mod 10"
      using 1 by (subst dec.simps) (simp add: undec_snoc digit_value)
    then show ?thesis by simp
  qed
qed

lemma pad_length: "length s \<le> w \<Longrightarrow> length (pad w c s) = w"
  by (simp add: pad_def)

lemma fmt_0d_length:
  assumes "0 \<le> i" "i < 10 ^ w" "0 < w"
  shows "length (fmt_0d w i) = w"
proof -
  obtain k where k: "w = Suc k" using assms(3) by (cases w) auto
  have "nat i < 10 ^ w" using assms by (simp add: nat_less_iff)
  then show ?thesis using assms dec_length [of "nat i" k] by (simp add: fmt_0d_def pad_length k)
qed

text \<open>The values for which no conversion exceeds its width.\<close>

definition tm_ok :: "tm \<Rightarrow> bool" where
  "tm_ok d \<longleftrightarrow> - 1900 \<le> tm_year d \<and> tm_year d \<le> 8099 \<and> 0 \<le> tm_mon d \<and> tm_mon d \<le> 11 \<and>
     1 \<le> tm_mday d \<and> tm_mday d \<le> 31 \<and> 0 \<le> tm_hour d \<and> tm_hour d \<le> 23 \<and> 0 \<le> tm_min d \<and> tm_min d \<le> 59 \<and>
     0 \<le> tm_sec d \<and> tm_sec d \<le> 60"

definition fits :: "(int \<Rightarrow> tm) \<Rightarrow> log_call \<Rightarrow> bool" where
  "fits localtime c \<longleftrightarrow> length (lc_tag c) \<le> 8 \<and> length (lc_file c) \<le> 15 \<and> length (lc_func c) \<le> 10 \<and>
     0 \<le> lc_line c \<and> lc_line c \<le> 99999 \<and> tv_nsec (lc_time c) < 1000000000 \<and> tm_ok (localtime (tv_sec (lc_time c)))"

lemma date_text_length: "tm_ok d \<Longrightarrow> length (date_text d) = 10"
  by (simp add: date_text_def tm_ok_def fmt_0d_length)

lemma time_text_length:
  assumes "tm_ok d" "tv_nsec ts < 1000000000"
  shows "length (time_text d ts) = 15"
proof -
  have us: "tv_nsec ts div 1000 < 1000000" using assms(2) by (simp add: div_less_iff_less_mult)
  then have "int (tv_nsec ts div 1000) < 1000000" by linarith
  then have "signed_take_bit 31 (int (tv_nsec ts div 1000)) = int (tv_nsec ts div 1000)"
    by (intro signed_take_bit_int_eq_self) auto
  then show ?thesis using assms us
    by (simp add: time_text_def tm_ok_def fmt_0d_length)
qed

lemma counter_text_length: "length (counter_text ts) = 10"
proof -
  let ?n = "nat ((tv_sec ts * 1000000 + int (tv_nsec ts div 1000)) mod 2 ^ 32)"
  have "?n < 10 ^ Suc 9" by (simp add: nat_less_iff)
  from dec_length [OF this] show ?thesis by (simp add: counter_text_def fmt_u_def pad_length)
qed

text \<open>The width of the columns, with the separators and the final colon.\<close>

definition prefix_width :: "(char \<Rightarrow> bool) \<Rightarrow> nat" where
  "prefix_width sh =
     (let stamp = (if sh CHR ''t'' then if sh CHR ''d'' then 26 else 15 else if sh CHR ''d'' then 21 else 10);
          ws = (if sh CHR ''L'' then [1] else []) @ (if sh CHR ''T'' then [8] else []) @
               (if sh CHR ''F'' then [17] else []) @ (if sh CHR ''f'' then [12] else []) @
               (if sh CHR ''l'' then [5] else []) @ (if list_ex sh ''dtu'' then [stamp] else [])
      in if ws = [] then 0 else sum_list ws + length ws + 1)"

lemma line_of_length:
  assumes "fits localtime c"
  shows "length (line_of sh localtime c) = prefix_width sh + length (lc_msg c) + 1"
proof -
  define st where "st = stamp_text localtime (sh CHR ''d'') (sh CHR ''t'') (lc_time c)"
  define b where "b \<longleftrightarrow> list_ex sh ''dtu''"
  define w where "w = (if sh CHR ''t'' then if sh CHR ''d'' then 26 else 15 else if sh CHR ''d'' then 21 else (10 :: nat))"
  have "tm_ok (localtime (tv_sec (lc_time c)))" "tv_nsec (lc_time c) < 1000000000" using assms by (simp_all add: fits_def)
  then have st: "length st = w"
    by (simp add: st_def w_def stamp_text_def date_text_length time_text_length counter_text_length split: bool.splits)
  have "nat (lc_line c) < 10 ^ Suc 4" using assms by (auto simp: fits_def nat_less_iff)
  from dec_length [OF this] have l: "length (fmt_d 5 (lc_line c)) = 5"
    using assms by (simp add: fmt_d_def pad_length fits_def)
  have f: "length (fmt_s 8 (lc_tag c)) = 8" "length (fmt_s 15 (lc_file c)) = 15" "length (fmt_s 10 (lc_func c)) = 10"
    using assms by (simp_all add: fits_def fmt_s_def pad_length)
  show ?thesis
    unfolding line_of_def chosen_def columns_def prefix_width_def Let_def st_def [symmetric] b_def [symmetric] w_def [symmetric]
    using st l f by (simp add: b_def [symmetric]) (simp add: b_def)
qed

subsection \<open>Names of levels and the microseconds\<close>

lemma level_names_differ: "same_letters (level_name a) (level_name b) \<longleftrightarrow> a = b"
  by (cases a; cases b) (simp_all add: same_letters_def bytes_def tolower_def)

text \<open>A level is recognised by its name, in any mixture of cases; any other word means \<open>ALL\<close>.\<close>

lemma parse_level_name:
  assumes "same_letters v (level_name l)"
  shows "parse_level v = l"
proof -
  have "same_letters v (level_name k) \<longleftrightarrow> k = l" for k
    using assms level_names_differ [of k l] by (auto simp: same_letters_def)
  from this [of M_LOG_LEVEL_ALL] this [of M_LOG_LEVEL_DEBUG] this [of M_LOG_LEVEL_INFO] this [of M_LOG_LEVEL_WARNING]
    this [of M_LOG_LEVEL_ERROR] this [of M_LOG_LEVEL_FATAL] this [of M_LOG_LEVEL_NONE]
  show ?thesis by (cases l) (simp_all add: parse_level_def LOG_LEVEL_CHECK_iff)
qed

lemma parse_level_other:
  assumes "\<And>l. \<not> same_letters v (level_name l)"
  shows "parse_level v = M_LOG_LEVEL_ALL"
  using assms [of M_LOG_LEVEL_DEBUG] assms [of M_LOG_LEVEL_INFO] assms [of M_LOG_LEVEL_WARNING]
    assms [of M_LOG_LEVEL_ERROR] assms [of M_LOG_LEVEL_FATAL] assms [of M_LOG_LEVEL_NONE]
  by (simp add: parse_level_def LOG_LEVEL_CHECK_iff)

text \<open>The letter \<open>u\<close> makes no difference beside \<open>d\<close> or \<open>t\<close>.\<close>

lemma line_of_usec:
  assumes "sh CHR ''d'' \<or> sh CHR ''t''"
  shows "line_of (sh(CHR ''u'' := b)) localtime c = line_of sh localtime c"
  using assms by (auto simp: line_of_def chosen_def columns_def)

lemma log_line_pattern:
  "log_line localtime (parse_pattern v) (lc_time c) (lc_level c) (lc_tag c) (lc_file c) (lc_func c) (lc_line c) (lc_msg c) =
    line_of (\<lambda>ch. ch \<in> set v) localtime c"
  by (rule log_line_columns) (rule parse_pattern_flags)+

lemma log_usec_ignored:
  fixes c :: log_call
  assumes "CHR ''d'' \<in> set v \<or> CHR ''t'' \<in> set v"
  shows "log_line localtime (parse_pattern (v @ ''u'')) (lc_time c) (lc_level c) (lc_tag c) (lc_file c) (lc_func c) (lc_line c) (lc_msg c) =
    log_line localtime (parse_pattern v) (lc_time c) (lc_level c) (lc_tag c) (lc_file c) (lc_func c) (lc_line c) (lc_msg c)"
proof -
  have "(\<lambda>ch. ch \<in> set (v @ ''u'')) = (\<lambda>ch. ch \<in> set v)(CHR ''u'' := True)" by (auto simp: fun_eq_iff)
  then show ?thesis unfolding log_line_pattern using line_of_usec [of "\<lambda>ch. ch \<in> set v", OF assms] by simp
qed

text \<open>The date alone is followed by the counter of microseconds.\<close>

lemma log_date_counter:
  assumes "CHR ''d'' \<in> set v" "CHR ''t'' \<notin> set v"
  shows "log_date_time localtime (parse_pattern v) ts = date_text (localtime (tv_sec ts)) @ '' '' @ counter_text ts"
  using date_time_stamp [OF parse_pattern_flags(5,6)] assms by (simp add: stamp_text_def)

lemma line_of_message:
  assumes "fits localtime c"
  shows "drop (prefix_width sh) (line_of sh localtime c) = lc_msg c @ [CHR 0x0A]"
proof -
  have "length (join_columns (chosen sh localtime c)) = prefix_width sh"
    using line_of_length [OF assms, of sh] by (simp add: line_of_def)
  then show ?thesis by (simp add: line_of_def)
qed

lemma prefix_width_le: "prefix_width sh \<le> 76"
  by (simp add: prefix_width_def Let_def)

end
