(* ===== verification/Runtime.thy ===== *)
theory Runtime
  imports GC_Root GC_Buf GC_Map Log
begin

text \<open>
  The properties of the memory services under the collector (buffers, page mapping and the root
  table) and of the log, each with a witness at a concrete state.
\<close>

subsection \<open>Buffers\<close>

text \<open>An allocator with room for four blocks, which moves a block when it grows.\<close>

definition demo_allocator :: allocator where
  "demo_allocator =
     (let pick = (\<lambda>m. case filter (\<lambda>a. blocks m a = None) [16, 32, 48, 64] of [] \<Rightarrow> 0 | a # _ \<Rightarrow> a) in
      \<lparr>malloc_at = (\<lambda>m sz. pick m), realloc_at = (\<lambda>m p sz. pick m)\<rparr>)"

lemma demo_allocator_ok: "allocator_ok demo_allocator"
  by (auto simp: allocator_ok_def demo_allocator_def Let_def split: list.splits dest!: Cons_eq_filterD)

definition demo_mem :: cmem where
  "demo_mem = \<lparr>blocks = [16 \<mapsto> [Some 1, Some 2]]\<rparr>"

lemma demo_block: "block_of demo_mem 16 16"
  by (simp add: block_of_def demo_mem_def)

text \<open>C19: \<open>m_gc_realloc_buf\<close> on a live block gives a block of at least the new size that
  starts with the old contents, releases the old block when it moves, and keeps every other block;
  when the allocator fails it returns NULL and the old block is still there. The sizes must not
  wrap around when they are aligned.\<close>

theorem gc_realloc_correct:
  assumes "allocator_ok A" "block_of m p old" "blocks m p = Some c" "old \<noteq> 0" "new \<noteq> 0"
    "unat new + 7 < 2 ^ 64" "8 * length c \<le> (unat old + 7) div 8 * 8"
  shows "\<exists>q m'. m_gc_realloc_buf A p old new flags m = Some (q, m') \<and>
    (if q = 0 then m' = m
     else block_of m' q new \<and> (\<exists>c'. blocks m' q = Some c' \<and> take (length c) c' = c) \<and>
       (q \<noteq> p \<longrightarrow> blocks m q = None \<and> blocks m' p = None) \<and>
       (\<forall>a. a \<noteq> p \<and> a \<noteq> q \<longrightarrow> blocks m' a = blocks m a))"
  by (rule realloc_buf_block [OF assms])

theorem gc_realloc_correct_witness:
  "\<exists>q m'. m_gc_realloc_buf demo_allocator 16 16 40 3 demo_mem = Some (q, m') \<and>
    (if q = 0 then m' = demo_mem
     else block_of m' q 40 \<and> (\<exists>c'. blocks m' q = Some c' \<and> take (length [Some (1 :: u64), Some 2]) c' = [Some 1, Some 2]) \<and>
       (q \<noteq> 16 \<longrightarrow> blocks demo_mem q = None \<and> blocks m' 16 = None) \<and>
       (\<forall>a. a \<noteq> 16 \<and> a \<noteq> q \<longrightarrow> blocks m' a = blocks demo_mem a))"
  by (rule gc_realloc_correct [OF demo_allocator_ok demo_block]) (simp_all add: demo_mem_def)

text \<open>C20: Resizing a block to 0 bytes releases it and returns NULL, except when its old size is a
  multiple of \<open>2 ^ 32\<close>: the size parameter of \<open>m_gc_free_buf\<close> is 32 bits wide, reads
  0, and the block is not released.\<close>

theorem gc_realloc_to_zero:
  assumes "block_of m p old" "old \<noteq> 0"
  shows "m_gc_realloc_buf A p old 0 flags m = Some (0,
    if unat old mod 2 ^ 32 = 0 then m else m\<lparr>blocks := (blocks m)(p := None)\<rparr>)"
  by (rule realloc_buf_zero [OF assms])

theorem gc_realloc_to_zero_witness:
  "m_gc_realloc_buf demo_allocator 16 16 0 3 demo_mem = Some (0,
    if unat (16 :: u64) mod 2 ^ 32 = 0 then demo_mem
    else demo_mem\<lparr>blocks := (blocks demo_mem)(16 := None)\<rparr>)"
  by (rule gc_realloc_to_zero [OF demo_block]) simp

subsection \<open>Page mapping\<close>

text \<open>C21: \<open>gc_mmap\<close> returns NULL and leaves the address space as it was, or returns a page
  aligned address and has mapped exactly the rounded size there, where nothing was mapped before,
  with the requested permission; nothing else stays mapped of what it tried. This holds when the
  system maps at page aligned addresses only, or honours address hints; and it returns NULL only
  when the system fails.\<close>

theorem gc_mmap_correct:
  assumes "mmap_ok os" "page_aligned os \<or> hint_exact os"
  shows "mapped_pages n flags m (gc_mmap os n flags m) \<and>
    (os m 0 (page_round n) \<noteq> MAP_FAILED \<and> os m 0 (page_round n + M_PAGE_SIZE - 1) \<noteq> MAP_FAILED \<longrightarrow>
      fst (gc_mmap os n flags m) \<noteq> 0)"
  using assms gc_mmap_page_aligned gc_mmap_hints gc_mmap_succeeds by blast

text \<open>A system that maps at 4104, in the middle of a page, and at the hint when there is one.\<close>

lemma demo_os_hint: "hint_exact (choose_os (\<lambda>h. if h = 0 then 4104 else h))"
  by (simp add: hint_exact_def choose_os_def)

theorem gc_mmap_correct_witness:
  "mapped_pages 100 0 Map.empty (gc_mmap (choose_os (\<lambda>h. if h = 0 then 4104 else h)) 100 0 Map.empty) \<and>
    fst (gc_mmap (choose_os (\<lambda>h. if h = 0 then 4104 else h)) 100 0 Map.empty) \<noteq> 0"
proof -
  have "page_round 100 = 4096" by (simp add: page_round_def M_PAGE_MASK_def M_PAGE_SIZE_def)
  then have "choose_os (\<lambda>h. if h = 0 then 4104 else h) Map.empty 0 (page_round 100) \<noteq> MAP_FAILED"
    "choose_os (\<lambda>h. if h = 0 then 4104 else h) Map.empty 0 (page_round 100 + M_PAGE_SIZE - 1) \<noteq> MAP_FAILED"
    by (simp_all add: choose_os_def MAP_FAILED_def M_PAGE_SIZE_def)
  then show ?thesis
    using gc_mmap_correct [OF choose_os_ok disjI2 [OF demo_os_hint], of 100 0 Map.empty] by blast
qed

text \<open>Without that assumption it does not hold. \<open>gc_mmap\<close> asks for the missing part of a
  page next to its first mapping and takes any success for a mapping at that address. On a system
  that treats the address as a hint only, as \<open>mmap\<close> is documented, it can return a pool
  whose last bytes are not mapped.\<close>

theorem gc_mmap_ignored_hint:
  "\<exists>os x. mmap_ok os \<and> fst (gc_mmap os 4096 0 Map.empty) \<noteq> 0 \<and>
    x - fst (gc_mmap os 4096 0 Map.empty) < page_round 4096 \<and>
    snd (gc_mmap os 4096 0 Map.empty) x = None"
proof -
  let ?os = "choose_os (\<lambda>h. if h = 0 then 4104 else 65536)"
  have r: "page_round 4096 = 4096" by (simp add: page_round_def M_PAGE_MASK_def M_PAGE_SIZE_def)
  have first: "?os Map.empty 0 4096 = 4104" by (simp add: choose_os_def)
  have off: "(4104 :: addr) AND M_PAGE_MASK = 8" by (simp add: M_PAGE_MASK_def M_PAGE_SIZE_def)
  let ?m1 = "set_range 4104 4096 (Some False) Map.empty"
  have "?m1 (65536 + of_nat i) = None" if "i < 4088" for i
  proof -
    have "unat (of_nat i :: addr) = i" using that by (simp add: unat_of_nat take_bit_eq_mod)
    then have "unat (65536 + of_nat i - 4104 :: addr) = 61432 + i"
      using that by (simp add: unat_plus_if' add_diff_eq [symmetric])
    then show ?thesis by (simp add: set_range_def word_less_nat_alt)
  qed
  then have second: "?os ?m1 8200 4088 = 65536" by (simp add: choose_os_def)
  have run: "gc_mmap ?os 4096 0 Map.empty =
      (8192, sys_munmap 4104 4088 (set_range 65536 4088 (Some False) ?m1))"
    using first second unfolding gc_mmap_def r
    by (simp add: Let_def sys_mmap_def MAP_FAILED_def off M_PAGE_SIZE_def)
  have "mmap_ok ?os" by (rule choose_os_ok)
  moreover have "(12287 :: addr) - 8192 < 4096" by simp
  moreover have "sys_munmap 4104 4088 (set_range 65536 4088 (Some False) ?m1) 12287 = None"
    by (simp add: sys_munmap_def set_range_def)
  ultimately show ?thesis
    by (intro exI [of _ ?os] exI [of _ 12287]) (simp add: run r)
qed

subsection \<open>Roots\<close>

definition demo_env :: root_env where
  "demo_env = \<lparr>new_entry = (\<lambda>_. 128), buffer_fits = (\<lambda>_. True)\<rparr>"

text \<open>The table with one entry at 64, for the pointer 4096.\<close>

definition demo_roots :: gc_roots where
  "demo_roots = \<lparr>root_hash = \<lparr>lists = Some [0, 64, 0, 0, 0, 0, 0, 0, 0], h_size = 1, nlist = 9\<rparr>,
     root_links = [64 \<mapsto> \<lparr>s_next = 0\<rparr>], root_nodes = [64 \<mapsto> \<lparr>rn_ptr = 4096, rn_ref = 1\<rparr>]\<rparr>"

lemma demo_root_rep: "root_rep demo_env demo_roots {64}"
proof -
  have "hash_rep (filed demo_env (\<lambda>_. 4096)) (root_hash demo_roots, root_links demo_roots)
      [[], [64], [], [], [], [], [], [], []]"
    by (auto simp: hash_rep_def demo_roots_def buffer_def node_index_def m_ptr_hash_kv_func_def
        nth_Cons' unat_mod split: if_splits)
  then have "hash_nodes (filed demo_env (\<lambda>_. 4096)) (root_hash demo_roots, root_links demo_roots) {64}"
    by (auto simp: hash_nodes_def intro!: exI)
  then show ?thesis unfolding root_rep_def by (auto simp: demo_roots_def)
qed

text \<open>C23: Registering a root. \<open>m_gc_add_root\<close> with memory available adds one entry that
  holds the pointer with reference count 1, keeps every other entry, and keeps the hash table well
  formed, growing it when needed.\<close>

theorem add_root_correct:
  assumes "root_rep env s N" "ptr \<noteq> 0" "ptr \<notin> N" "new_entry env s = rn" "rn \<noteq> 0" "rn \<notin> N"
    "\<And>z. buffer_fits env z" "h_size (root_hash s) \<noteq> - 1"
  shows "\<exists>s'. m_gc_add_root env ptr s = Some s' \<and> root_rep env s' (insert rn N) \<and>
    root_nodes s' = (root_nodes s)(rn \<mapsto> \<lparr>rn_ptr = ptr, rn_ref = 1\<rparr>)"
  by (rule add_root_new_entry [OF assms])

theorem add_root_correct_witness:
  "\<exists>s'. m_gc_add_root demo_env 8192 demo_roots = Some s' \<and> root_rep demo_env s' (insert 128 {64}) \<and>
    root_nodes s' = (root_nodes demo_roots)(128 \<mapsto> \<lparr>rn_ptr = 8192, rn_ref = 1\<rparr>)"
  by (rule add_root_correct [OF demo_root_rep]) (simp_all add: demo_env_def demo_roots_def)

text \<open>C24: Unregistering does not work. The key function of the table returns the address of the
  entry instead of the pointer in it, so \<open>m_gc_remove_root\<close> leaves the table as it is for
  every pointer that is not itself the address of an entry, in particular for every registered
  object: its entry stays with its count.\<close>

theorem remove_root_ineffective:
  assumes "root_rep env s N" "a \<in> N" "root_nodes s a = Some \<lparr>rn_ptr = ptr, rn_ref = n\<rparr>"
    "ptr \<noteq> 0" "ptr \<notin> N"
  shows "m_gc_remove_root env ptr s = Some s \<and>
    m_hash_lookup (gc_root_hash_ops env) ptr (root_hash s, root_links s) = Some 0"
  using remove_root_missing [OF assms(1,4,5)] root_lookup_missing(1) [OF assms(1,5)]
  by (simp add: m_hash_lookup_def)

theorem remove_root_ineffective_witness:
  "m_gc_remove_root demo_env 4096 demo_roots = Some demo_roots \<and>
    m_hash_lookup (gc_root_hash_ops demo_env) 4096 (root_hash demo_roots, root_links demo_roots) = Some 0"
  by (rule remove_root_ineffective [OF demo_root_rep, of 64 4096 1]) (simp_all add: demo_roots_def)

text \<open>\<open>gc_root_hash_shutdown\<close> releases every entry once and no other memory, also
  when entries are filed under a key that is not their own.\<close>

theorem root_shutdown_correct:
  assumes "root_rep env s N"
  shows "\<exists>s'. gc_root_hash_shutdown env s = Some s' \<and>
    (\<forall>a. root_links s' a = (if a \<in> N then None else root_links s a)) \<and>
    (\<forall>a \<in> N. root_nodes s' a = None)"
  by (rule root_shutdown_rep [OF assms])

theorem root_shutdown_correct_witness:
  "\<exists>s'. gc_root_hash_shutdown demo_env demo_roots = Some s' \<and>
    (\<forall>a. root_links s' a = (if a \<in> {64} then None else root_links demo_roots a)) \<and>
    (\<forall>a \<in> {64}. root_nodes s' a = None)"
  by (rule root_shutdown_correct [OF demo_root_rep])

subsection \<open>The log\<close>

text \<open>C18: After \<open>m_log_startup\<close> a sequence of messages of any threads writes exactly the
  lines of those whose level is not below the one that \<open>M_LOG_LEVEL\<close> names in any mixture of
  cases (all when it is no name of a level, none when it is not set), in order, behind what the file
  selected by \<open>M_LOG_FILE\<close> held before, and nothing elsewhere. A line has the columns whose
  letters are in \<open>M_LOG_PATTERN\<close>, each but the first behind its separator. Nothing faults.\<close>

theorem log_correct:
  "\<exists>s'. fold_opt (call_log localtime) cs (m_log_startup e (log_static files)) = Some s' \<and>
    log_out s' = files(target e := files (target e) @
      concat (map (line_of (shows_col e) localtime) (filter (\<lambda>c. reaches e (lc_level c)) cs)))"
  using log_startup_lines [of localtime cs e "log_static files"] by (simp add: log_static_def)

definition demo_log_env :: log_env where
  "demo_log_env = \<lparr>getenv = [''M_LOG_LEVEL'' \<mapsto> ''Info'', ''M_LOG_PATTERN'' \<mapsto> ''tTL''], fopen_ab = (\<lambda>_. True)\<rparr>"

definition demo_localtime :: "int \<Rightarrow> tm" where
  "demo_localtime t = \<lparr>tm_year = 116, tm_mon = 4, tm_mday = 1, tm_hour = 9, tm_min = 5, tm_sec = t mod 60\<rparr>"

definition demo_call :: "M_LogLevel \<Rightarrow> log_call" where
  "demo_call level = \<lparr>lc_time = \<lparr>tv_sec = 7, tv_nsec = 42000\<rparr>, lc_level = level, lc_tag = ''ming'', lc_file = ''m_gc.c'',
     lc_func = ''run'', lc_line = 12, lc_msg = ''low''\<rparr>"

theorem log_correct_witness:
  "\<exists>s'. fold_opt (call_log demo_localtime) [demo_call M_LOG_LEVEL_DEBUG, demo_call M_LOG_LEVEL_WARNING]
      (m_log_startup demo_log_env (log_static (\<lambda>_. ''''))) = Some s' \<and>
    log_out s' Stdout = ''W/    ming 09:05:07.000042: low'' @ [CHR 0x0A] \<and> log_out s' LogFile = ''''"
proof -
  have "target demo_log_env = Stdout" by (simp add: target_def demo_log_env_def)
  moreover have "\<not> reaches demo_log_env M_LOG_LEVEL_DEBUG" "reaches demo_log_env M_LOG_LEVEL_WARNING" by code_simp+
  moreover have "line_of (shows_col demo_log_env) demo_localtime (demo_call M_LOG_LEVEL_WARNING) =
      ''W/    ming 09:05:07.000042: low'' @ [CHR 0x0A]"
    by (simp add: line_of_def chosen_def columns_def shows_col_def demo_log_env_def demo_call_def demo_localtime_def
        level_letter_def stamp_text_def time_text_def fmt_s_def fmt_0d_def pad_def dec.simps digit_def) code_simp
  ultimately show ?thesis
    using log_correct [of demo_localtime "[demo_call M_LOG_LEVEL_DEBUG, demo_call M_LOG_LEVEL_WARNING]" demo_log_env "\<lambda>_. ''''"]
    by (auto simp: demo_call_def)
qed

text \<open>C27: The messages are aligned. As long as every value fits the width of its conversion, the
  message starts at a column that only the pattern determines, at most the 77th; the width of the
  counter of microseconds never depends on the time.\<close>

theorem log_aligned:
  assumes "fits localtime c"
  shows "drop (prefix_width (\<lambda>ch. ch \<in> set v))
      (log_line localtime (parse_pattern v) (lc_time c) (lc_level c) (lc_tag c) (lc_file c) (lc_func c) (lc_line c) (lc_msg c)) =
      lc_msg c @ [CHR 0x0A] \<and>
    prefix_width (\<lambda>ch. ch \<in> set v) \<le> 76 \<and> length (counter_text ts) = 10"
  unfolding log_line_pattern using line_of_message [OF assms] prefix_width_le counter_text_length by blast

theorem log_aligned_witness:
  "drop 57 (log_line demo_localtime (parse_pattern ''TFdtL'') \<lparr>tv_sec = 7, tv_nsec = 42000\<rparr> M_LOG_LEVEL_ERROR
    ''ming'' ''m_gc.c'' ''run'' 12 ''low'') = ''low'' @ [CHR 0x0A]"
proof -
  have "fits demo_localtime (demo_call M_LOG_LEVEL_ERROR)"
    by (simp add: fits_def tm_ok_def demo_call_def demo_localtime_def)
  from log_aligned [OF this, of "''TFdtL''"] show ?thesis by (simp add: demo_call_def prefix_width_def)
qed

end
