(* ===== verification/GC_Types.thy ===== *)
theory GC_Types
  imports GC_Map SList
begin

text \<open>
  The data of the object manager \<open>src/m_gc_obj.c\<close>: object types and their descriptions
  (\<open>src/m_gc_funcs.c\<close>, from which \<open>build/gen_gc_descrs.sh\<close> makes the table), the mark
  bitmap of a pool with two bits for each cell, and the layout of a pool computed at startup.
  Sizes are those of an LP64 system.
\<close>

subsection \<open>Object types\<close>

datatype M_GCObjType =
  M_GC_BUF | M_GC_OBJ_PTR | M_GC_OBJ_DOUBLE | M_GC_OBJ_STRING | M_GC_OBJ_OBJECT
  | M_GC_OBJ_CLOSURE | M_GC_OBJ_ARRAY | M_GC_OBJ_FRAME | M_GC_OBJ_COUNT

definition obj_types :: "M_GCObjType list" where
  "obj_types = [M_GC_OBJ_PTR, M_GC_OBJ_DOUBLE, M_GC_OBJ_STRING, M_GC_OBJ_OBJECT,
     M_GC_OBJ_CLOSURE, M_GC_OBJ_ARRAY, M_GC_OBJ_FRAME]"

abbreviation (input) M_GC_OBJ_FL_PTR :: u32 where "M_GC_OBJ_FL_PTR \<equiv> 1"

record M_GCObjDescr =
  d_flags :: u32
  d_size :: u32

text \<open>The sizes: pointer, double, \<open>M_String\<close> (length and characters), \<open>M_Object\<close> (hash
  table, prototype, values, two 16 bit numbers), \<open>M_Closure\<close>, \<open>M_Array\<close> (a structure
  without members, whose size is 0) and \<open>M_Frame\<close>.\<close>

fun gc_obj_descrs :: "M_GCObjType \<Rightarrow> M_GCObjDescr option" where
  "gc_obj_descrs M_GC_OBJ_PTR = Some \<lparr>d_flags = M_GC_OBJ_FL_PTR, d_size = 8\<rparr>"
| "gc_obj_descrs M_GC_OBJ_DOUBLE = Some \<lparr>d_flags = 0, d_size = 8\<rparr>"
| "gc_obj_descrs M_GC_OBJ_STRING = Some \<lparr>d_flags = M_GC_OBJ_FL_PTR, d_size = 16\<rparr>"
| "gc_obj_descrs M_GC_OBJ_OBJECT = Some \<lparr>d_flags = M_GC_OBJ_FL_PTR, d_size = 40\<rparr>"
| "gc_obj_descrs M_GC_OBJ_CLOSURE = Some \<lparr>d_flags = M_GC_OBJ_FL_PTR, d_size = 24\<rparr>"
| "gc_obj_descrs M_GC_OBJ_ARRAY = Some \<lparr>d_flags = M_GC_OBJ_FL_PTR, d_size = 0\<rparr>"
| "gc_obj_descrs M_GC_OBJ_FRAME = Some \<lparr>d_flags = M_GC_OBJ_FL_PTR, d_size = 24\<rparr>"
| "gc_obj_descrs _ = None"

text \<open>\<open>gc_obj_get_descr\<close> fails its assertion outside the range of the table.\<close>

definition gc_obj_get_descr :: "M_GCObjType \<Rightarrow> M_GCObjDescr option" where
  "gc_obj_get_descr type = do {
     c_assert (type \<noteq> M_GC_BUF \<and> type \<noteq> M_GC_OBJ_COUNT);
     gc_obj_descrs type }"

lemma get_descr_types: "t \<in> set obj_types \<Longrightarrow> \<exists>d. gc_obj_get_descr t = Some d \<and> gc_obj_descrs t = Some d"
  by (auto simp: obj_types_def gc_obj_get_descr_def)

lemma in_obj_types: "t \<in> set obj_types \<longleftrightarrow> t \<noteq> M_GC_BUF \<and> t \<noteq> M_GC_OBJ_COUNT"
  by (cases t) (auto simp: obj_types_def)

subsection \<open>Marks and the bitmap of a pool\<close>

abbreviation (input) GC_MARK_UNUSED :: u32 where "GC_MARK_UNUSED \<equiv> 0"
abbreviation (input) GC_MARK_WHITE :: u32 where "GC_MARK_WHITE \<equiv> 1"
abbreviation (input) GC_MARK_GRAY :: u32 where "GC_MARK_GRAY \<equiv> 2"
abbreviation (input) GC_MARK_BLACK :: u32 where "GC_MARK_BLACK \<equiv> 3"

text \<open>The index is an \<open>int\<close> that is not negative; it is kept as a 32 bit word. An access
  outside of the bitmap has no result.\<close>

definition gc_obj_set_bitmap :: "u32 list \<Rightarrow> u32 \<Rightarrow> u32 \<Rightarrow> u32 list option" where
  "gc_obj_set_bitmap bmp i flags =
     (let n = unat (drop_bit 4 i); b = unat (push_bit 1 (i AND 0xF)); mask = push_bit b (3 :: u32) in
      if n < length bmp then
        let w = bmp ! n AND NOT mask in Some (bmp[n := w OR push_bit b flags])
      else None)"

definition gc_obj_get_bitmap :: "u32 list \<Rightarrow> u32 \<Rightarrow> u32 option" where
  "gc_obj_get_bitmap bmp i =
     (let n = unat (drop_bit 4 i); b = unat (push_bit 1 (i AND 0xF)) in
      if n < length bmp then Some (drop_bit b (bmp ! n) AND 3) else None)"

text \<open>The mark of cell number \<open>i\<close>, and its two bits in one word.\<close>

definition word_mark :: "u32 \<Rightarrow> nat \<Rightarrow> u32" where
  "word_mark w j = drop_bit (2 * j) w AND 3"

definition word_set :: "u32 \<Rightarrow> nat \<Rightarrow> u32 \<Rightarrow> u32" where
  "word_set w j m = (w AND NOT (push_bit (2 * j) 3)) OR push_bit (2 * j) m"

definition mark :: "u32 list \<Rightarrow> nat \<Rightarrow> u32" where
  "mark bmp i = word_mark (bmp ! (i div 16)) (i mod 16)"

definition set_mark :: "u32 list \<Rightarrow> nat \<Rightarrow> u32 \<Rightarrow> u32 list" where
  "set_mark bmp i m = bmp[i div 16 := word_set (bmp ! (i div 16)) (i mod 16) m]"

lemma word_3_bit: "bit (3 :: u32) n \<longleftrightarrow> n < 2"
proof -
  have eq: "(3 :: u32) = mask 2" by (simp add: mask_eq_exp_minus_1)
  show ?thesis unfolding eq bit_mask_iff by auto
qed

lemma mark_small_bits:
  assumes "(m :: u32) < 4" "bit m n"
  shows "n < 2"
proof -
  have "unat m = take_bit 2 (unat m)" using assms(1) by (simp add: take_bit_eq_mod word_less_nat_alt)
  then have "m = take_bit 2 m" by (metis unsigned_take_bit_eq unsigned_word_eqI)
  with assms(2) show "n < 2" by (metis bit_take_bit_iff)
qed

lemma bit_word_mark: "bit (word_mark w j) n \<longleftrightarrow> n < 2 \<and> bit w (2 * j + n)"
  using word_3_bit [of n] by (auto simp: word_mark_def bit_and_iff bit_drop_bit_eq)

lemma bit_word_set:
  assumes "m < 4" "j < 16"
  shows "bit (word_set w j m) k \<longleftrightarrow>
    (if 2 * j \<le> k \<and> k < 2 * j + 2 then bit m (k - 2 * j) else bit w k)"
proof -
  have 3: "bit (push_bit (2 * j) (3 :: u32)) k \<longleftrightarrow> 2 * j \<le> k \<and> k < 2 * j + 2"
    using assms(2) word_3_bit [of "k - 2 * j"] by (auto simp: bit_push_bit_iff)
  have m: "bit (push_bit (2 * j) m) k \<longleftrightarrow> 2 * j \<le> k \<and> k < 2 * j + 2 \<and> bit m (k - 2 * j)"
    using assms(2) mark_small_bits [OF assms(1), of "k - 2 * j"] by (auto simp: bit_push_bit_iff)
  show ?thesis
    using bit_imp_le_length [of w k]
    unfolding word_set_def bit_or_iff bit_and_iff bit_not_iff 3 m by auto
qed

lemma word_mark_set:
  assumes "m < 4" "i < 16" "j < 16"
  shows "word_mark (word_set w j m) i = (if i = j then m else word_mark w i)"
proof (rule bit_word_eqI)
  fix n
  have "bit m n \<Longrightarrow> n < 2" by (rule mark_small_bits [OF assms(1)])
  then show "bit (word_mark (word_set w j m) i) n \<longleftrightarrow> bit (if i = j then m else word_mark w i) n"
    unfolding bit_word_mark bit_word_set [OF assms(1,3)] by (auto simp: bit_word_mark)
qed

lemma set_mark_length [simp]: "length (set_mark bmp i m) = length bmp"
  by (simp add: set_mark_def)

lemma mark_set_mark:
  assumes "m < 4" "i < 16 * length bmp"
  shows "mark (set_mark bmp i m) j = (if j = i then m else mark bmp j)"
proof (cases "j div 16 = i div 16")
  case True
  then have "j = i \<longleftrightarrow> j mod 16 = i mod 16" by (metis div_mult_mod_eq)
  moreover have "i div 16 < length bmp" using assms(2) by (simp add: less_mult_imp_div_less mult.commute)
  ultimately show ?thesis
    using word_mark_set [OF assms(1), of "j mod 16" "i mod 16"] True
    by (simp add: mark_def set_mark_def)
next
  case False
  then show ?thesis by (auto simp: mark_def set_mark_def)
qed

text \<open>The functions of the code at an index below the number of cells.\<close>

lemma index_parts:
  assumes "i < 2 ^ 31"
  shows "unat (drop_bit 4 (of_nat i :: u32)) = i div 16"
    "unat (push_bit 1 (of_nat i AND 0xF :: u32)) = 2 * (i mod 16)"
proof -
  have u: "unat (of_nat i :: u32) = i" using assms by (simp add: unat_of_nat take_bit_eq_mod)
  show "unat (drop_bit 4 (of_nat i :: u32)) = i div 16"
    unfolding unsigned_drop_bit_eq u using assms by (simp add: take_bit_eq_mod drop_bit_eq_div)
  have f: "(0xF :: u32) = mask 4" by (simp add: mask_eq_exp_minus_1)
  have "unat (of_nat i AND 0xF :: u32) = i mod 16"
    unfolding f take_bit_eq_mask [symmetric] unsigned_take_bit_eq u by (simp add: take_bit_eq_mod)
  then show "unat (push_bit 1 (of_nat i AND 0xF :: u32)) = 2 * (i mod 16)"
    unfolding unsigned_push_bit_eq by (simp add: push_bit_eq_mult take_bit_eq_mod)
qed

lemma get_bitmap_mark:
  assumes "i < 16 * length bmp" "i < 2 ^ 31"
  shows "gc_obj_get_bitmap bmp (of_nat i) = Some (mark bmp i)"
proof -
  have "i div 16 < length bmp" using assms(1) by (simp add: less_mult_imp_div_less mult.commute)
  then show ?thesis
    unfolding gc_obj_get_bitmap_def Let_def index_parts [OF assms(2)]
    by (simp add: mark_def word_mark_def)
qed

lemma set_bitmap_mark:
  assumes "i < 16 * length bmp" "i < 2 ^ 31"
  shows "gc_obj_set_bitmap bmp (of_nat i) m = Some (set_mark bmp i m)"
proof -
  have "i div 16 < length bmp" using assms(1) by (simp add: less_mult_imp_div_less mult.commute)
  then show ?thesis
    unfolding gc_obj_set_bitmap_def Let_def index_parts [OF assms(2)]
    by (simp add: set_mark_def word_set_def)
qed

subsection \<open>The layout of a pool\<close>

text \<open>A pool of \<open>gc_cell_pool_size\<close> bytes holds \<open>M_GCCellPool\<close>, the bitmap and the
  cells. The loop of \<open>gc_obj_startup\<close> lowers the number of cells until all fits.\<close>

record M_GCPoolStub =
  cell_num :: u64
  bitmap_size :: u64

definition sizeof_cell_pool :: u64 where "sizeof_cell_pool = 40"

partial_function (option) fit_cells :: "u64 \<Rightarrow> u64 \<Rightarrow> u64 \<Rightarrow> M_GCPoolStub option" where
  "fit_cells dsize sz num =
     (let bs = M_ALIGN_UP (num * 2) 64 div 8 in
      if num * dsize + bs \<le> sz then Some \<lparr>cell_num = num, bitmap_size = bs\<rparr>
      else fit_cells dsize sz (num - 1))"

definition pool_layout :: "u64 \<Rightarrow> M_GCObjDescr \<Rightarrow> M_GCPoolStub option" where
  "pool_layout pool_size descr =
     (let sz = pool_size - sizeof_cell_pool;
          num = (sz * 8) div ucast (d_size descr * 8 + 2) in
      fit_cells (ucast (d_size descr)) sz num)"

text \<open>The bitmap of \<open>n\<close> cells in bytes, in whole 64 bit words.\<close>

definition bitmap_bytes :: "nat \<Rightarrow> nat" where
  "bitmap_bytes n = (2 * n + 63) div 64 * 8"

lemma bitmap_bytes_props: "8 dvd bitmap_bytes n" "2 * n \<le> 8 * bitmap_bytes n"
  "m \<le> n \<Longrightarrow> bitmap_bytes m \<le> bitmap_bytes n"
  unfolding bitmap_bytes_def by (simp, linarith, simp add: div_le_mono)

lemma unat_bitmap_bytes:
  assumes "unat num \<le> 2 ^ 32"
  shows "unat (M_ALIGN_UP (num * 2) 64 div 8) = bitmap_bytes (unat num)"
proof -
  have u: "unat (num * 2) = 2 * unat num" using assms by (simp add: unat_word_ariths)
  then have "unat (M_ALIGN_UP (num * 2) (2 ^ 6)) = (unat (num * 2) + 2 ^ 6 - 1) div 2 ^ 6 * 2 ^ 6"
    using assms by (intro M_ALIGN_UP_unat) simp_all
  also have "\<dots> = (2 * unat num + 63) div 64 * 64" by (simp add: u add.commute)
  finally have "unat (M_ALIGN_UP (num * 2) 64) = (2 * unat num + 63) div 64 * 64" by simp
  then show ?thesis by (simp add: unat_div bitmap_bytes_def)
qed

text \<open>The loop finds the largest number of cells, up to the one it starts with, for which cells
  and bitmap fit.\<close>

lemma fit_cells_largest:
  assumes "unat num \<le> 2 ^ 32" "unat dsize < 2 ^ 16"
  shows "\<exists>n \<le> unat num. fit_cells dsize sz num =
      Some \<lparr>cell_num = of_nat n, bitmap_size = of_nat (bitmap_bytes n)\<rparr> \<and>
    n * unat dsize + bitmap_bytes n \<le> unat sz \<and>
    (\<forall>k. n < k \<and> k \<le> unat num \<longrightarrow> unat sz < k * unat dsize + bitmap_bytes k)"
  using assms
proof (induction "unat num" arbitrary: num)
  case 0
  then have "num = 0" by (simp add: unat_eq_0)
  then show ?case
    by (intro exI [of _ 0]) (subst fit_cells.simps, auto simp: M_ALIGN_UP_def bitmap_bytes_def)
next
  case (Suc m)
  let ?b = "M_ALIGN_UP (num * 2) 64 div 8"
  have b: "unat ?b = bitmap_bytes (unat num)" by (rule unat_bitmap_bytes [OF Suc.prems(1)])
  have bb: "bitmap_bytes (unat num) \<le> 2 ^ 33"
    using Suc.prems(1) bitmap_bytes_props(3) [of "unat num" "2 ^ 32"] by (simp add: bitmap_bytes_def)
  have le: "unat num * unat dsize \<le> 2 ^ 32 * 2 ^ 16"
    using Suc.prems by (intro mult_le_mono) simp_all
  have m: "unat (num * dsize) = unat num * unat dsize"
    using le by (simp add: unat_word_ariths)
  have sum: "unat (num * dsize + ?b) = unat num * unat dsize + bitmap_bytes (unat num)"
    using le bb by (subst unat_plus_nowrap) (simp_all add: m b)
  show ?case
  proof (cases "num * dsize + ?b \<le> sz")
    case True
    then have "unat num * unat dsize + bitmap_bytes (unat num) \<le> unat sz"
      by (simp only: word_le_nat_alt sum)
    moreover have "of_nat (bitmap_bytes (unat num)) = ?b" unfolding b [symmetric] by simp
    ultimately show ?thesis using True
      by (intro exI [of _ "unat num"]) (subst fit_cells.simps, simp)
  next
    case False
    then have nofit: "unat sz < unat num * unat dsize + bitmap_bytes (unat num)"
      by (simp only: word_le_nat_alt sum not_le)
    have nz: "num \<noteq> 0" using Suc.hyps(2) by auto
    have um: "unat (num - 1) = m" using Suc.hyps(2) nz by (simp add: unat_minus_one)
    obtain n where n: "n \<le> m" "fit_cells dsize sz (num - 1) =
        Some \<lparr>cell_num = of_nat n, bitmap_size = of_nat (bitmap_bytes n)\<rparr>"
      "n * unat dsize + bitmap_bytes n \<le> unat sz"
      "\<forall>k. n < k \<and> k \<le> m \<longrightarrow> unat sz < k * unat dsize + bitmap_bytes k"
      using Suc.hyps(1) [of "num - 1"] um Suc.prems Suc.hyps(2) by auto
    have "unat sz < k * unat dsize + bitmap_bytes k" if "n < k" "k \<le> unat num" for k
      using that n(4) nofit Suc.hyps(2) by (cases "k = unat num") auto
    with n False Suc.hyps(2) show ?thesis
      by (intro exI [of _ n]) (subst fit_cells.simps, simp)
  qed
qed

text \<open>The layout of a pool: the loop starts at a number of cells that is large enough.\<close>

lemma pool_layout_fits:
  assumes d: "0 < unat (d_size d)" "unat (d_size d) < 2 ^ 16" and ps: "40 \<le> unat ps" "unat ps \<le> 2 ^ 30"
  shows "\<exists>n. pool_layout ps d = Some \<lparr>cell_num = of_nat n, bitmap_size = of_nat (bitmap_bytes n)\<rparr> \<and>
    40 + bitmap_bytes n + n * unat (d_size d) \<le> unat ps \<and>
    (\<forall>k > n. unat ps < 40 + bitmap_bytes k + k * unat (d_size d))"
proof -
  let ?d = "unat (d_size d)" and ?sz = "ps - sizeof_cell_pool"
  let ?num = "(?sz * 8) div ucast (d_size d * 8 + 2)"
  have sz: "unat ?sz = unat ps - 40" using ps(1) by (simp add: sizeof_cell_pool_def unat_sub word_le_nat_alt)
  have s8: "unat (?sz * 8) = 8 * (unat ps - 40)" using ps(2) unfolding unat_word_ariths(2) sz by simp
  have d8: "unat (d_size d * 8 + 2) = 8 * ?d + 2" using d(2) by (simp add: unat_word_ariths)
  have ud: "unat (ucast (d_size d) :: u64) = ?d" "unat (ucast (d_size d * 8 + 2) :: u64) = 8 * ?d + 2"
    using d(2) d8 by (simp_all add: unsigned_ucast_eq take_bit_eq_mod)
  have num: "unat ?num = 8 * (unat ps - 40) div (8 * ?d + 2)" unfolding unat_div s8 ud ..
  have "8 * (unat ps - 40) div (8 * ?d + 2) \<le> 8 * (unat ps - 40) div 10" using d(1) by (intro div_le_mono2) simp_all
  then have small: "unat ?num \<le> 2 ^ 32" unfolding num using ps(2) by simp
  from fit_cells_largest [of ?num "ucast (d_size d)" ?sz] obtain n where n: "n \<le> unat ?num"
    "fit_cells (ucast (d_size d)) ?sz ?num = Some \<lparr>cell_num = of_nat n, bitmap_size = of_nat (bitmap_bytes n)\<rparr>"
    "n * ?d + bitmap_bytes n \<le> unat ?sz"
    "\<forall>k. n < k \<and> k \<le> unat ?num \<longrightarrow> unat ?sz < k * ?d + bitmap_bytes k"
    using small d(2) ud by auto
  have "unat ps < 40 + bitmap_bytes k + k * ?d" if k: "n < k" for k
  proof (cases "k \<le> unat ?num")
    case True
    then show ?thesis using n(4) k sz ps(1) by auto
  next
    case False
    then have "8 * (unat ps - 40) < k * (8 * ?d + 2)"
      unfolding num by (simp add: not_le div_less_iff_less_mult)
    also have "\<dots> = 8 * (k * ?d) + 2 * k" by (simp add: algebra_simps)
    also have "\<dots> \<le> 8 * (k * ?d) + 8 * bitmap_bytes k" using bitmap_bytes_props(2) [of k] by simp
    finally show ?thesis using ps(1) by simp
  qed
  moreover have "40 + bitmap_bytes n + n * ?d \<le> unat ps" using n(3) sz ps(1) by simp
  ultimately show ?thesis using n(2) by (intro exI [of _ n]) (simp add: pool_layout_def Let_def)
qed

end
