(* ===== verification/SList_Family.thy ===== *)
theory SList_Family
  imports SList
begin

text \<open>
  A family of singly linked lists in one heap: \<open>L\<close> gives the contents of each list by the
  address of its head, no node is in two lists, and no head is a node. The object manager keeps its
  pools and its free cells in such a family.
\<close>

definition elsewhere :: "(addr \<rightharpoonup> addr list) \<Rightarrow> addr \<Rightarrow> bool" where
  "elsewhere L x \<longleftrightarrow> x \<notin> dom L \<and> (\<forall>a xs. L a = Some xs \<longrightarrow> x \<notin> set xs)"

definition family :: "sheap \<Rightarrow> (addr \<rightharpoonup> addr list) \<Rightarrow> bool" where
  "family h L \<longleftrightarrow>
     (\<forall>a xs. L a = Some xs \<longrightarrow> slist h a xs \<and> set xs \<inter> dom L = {}) \<and>
     (\<forall>a xs b ys. L a = Some xs \<longrightarrow> L b = Some ys \<longrightarrow> a \<noteq> b \<longrightarrow> set xs \<inter> set ys = {})"

lemma family_slist: "family h L \<Longrightarrow> L a = Some xs \<Longrightarrow> slist h a xs"
  by (simp add: family_def)

lemma family_heads: "family h L \<Longrightarrow> L a = Some xs \<Longrightarrow> set xs \<inter> dom L = {}"
  by (simp add: family_def)

lemma family_disjoint: "family h L \<Longrightarrow> L a = Some xs \<Longrightarrow> L b = Some ys \<Longrightarrow> a \<noteq> b \<Longrightarrow> set xs \<inter> set ys = {}"
  by (auto simp: family_def)

lemma sseg_cong: "sseg h b ys \<Longrightarrow> (\<And>c. c \<in> set ys \<Longrightarrow> h' c = h c) \<Longrightarrow> sseg h' b ys"
  by (induction ys arbitrary: b) auto

lemma slist_cong:
  assumes "slist h a xs" "\<And>b. b \<in> insert a (set xs) \<Longrightarrow> h' b = h b"
  shows "slist h' a xs"
  using assms sseg_cong [of h _ xs h'] by (auto simp: slist_def)

text \<open>Changing one list of a family: the heap changes at addresses of that list only.\<close>

lemma family_change:
  assumes fam: "family h L" and new: "slist h' a ys"
    and frame: "\<And>b zs c. L b = Some zs \<Longrightarrow> b \<noteq> a \<Longrightarrow> c \<in> insert b (set zs) \<Longrightarrow> h' c = h c"
    and nodes: "set ys \<inter> dom L = {}" "\<And>b zs. L b = Some zs \<Longrightarrow> b \<noteq> a \<Longrightarrow> set ys \<inter> set zs = {} \<and> a \<notin> set zs"
  shows "family h' (L(a \<mapsto> ys))"
  unfolding family_def
proof (intro conjI allI impI)
  fix b zs
  assume b: "(L(a \<mapsto> ys)) b = Some zs"
  show "slist h' b zs"
    using b new slist_cong [OF family_slist [OF fam], of b zs h'] frame [of b zs]
    by (cases "b = a") auto
  show "set zs \<inter> dom (L(a \<mapsto> ys)) = {}"
  proof (cases "b = a")
    case True
    then show ?thesis using b nodes(1) new by (auto simp: slist_def)
  next
    case False
    then show ?thesis using b family_heads [OF fam, of b zs] nodes(2) [of b zs] by auto
  qed
next
  fix b zs c us
  assume "(L(a \<mapsto> ys)) b = Some zs" "(L(a \<mapsto> ys)) c = Some us" "b \<noteq> c"
  then show "set zs \<inter> set us = {}"
    using family_disjoint [OF fam, of b zs c us] nodes(2) [of b zs] nodes(2) [of c us]
    by (cases "b = a"; cases "c = a") auto
qed

lemma family_push:
  assumes fam: "family h L" and a: "L a = Some xs"
    and x: "x \<noteq> 0" "h x = Some n" "elsewhere L x"
  shows "\<exists>h'. m_slist_push a x h = Some h' \<and> family h' (L(a \<mapsto> x # xs)) \<and> dom h' = dom h \<and>
    (\<forall>b. b \<noteq> a \<and> b \<noteq> x \<longrightarrow> h' b = h b)"
proof -
  have nin: "x \<notin> set (a # xs)" using a x(3) by (auto simp: elsewhere_def)
  obtain h' where h': "m_slist_push a x h = Some h'" "slist h' a (x # xs)" "dom h' = dom h"
    "\<forall>b. b \<noteq> a \<and> b \<noteq> x \<longrightarrow> h' b = h b"
    using slist_push [OF family_slist [OF fam a] x(2,1) nin] by blast
  have "family h' (L(a \<mapsto> x # xs))"
  proof (rule family_change [OF fam h'(2)])
    fix b zs c
    assume b: "L b = Some zs" "b \<noteq> a" "c \<in> insert b (set zs)"
    then have "c \<noteq> a" using a family_heads [OF fam b(1)] by auto
    moreover have "c \<noteq> x" using b x(3) by (auto simp: elsewhere_def)
    ultimately show "h' c = h c" using h'(4) by simp
  next
    show "set (x # xs) \<inter> dom L = {}"
      using family_heads [OF fam a] x(3) by (auto simp: elsewhere_def)
    show "set (x # xs) \<inter> set zs = {} \<and> a \<notin> set zs" if "L b = Some zs" "b \<noteq> a" for b zs
      using that family_disjoint [OF fam a that(1)] family_heads [OF fam that(1)] x(3) a
      by (auto simp: elsewhere_def)
  qed
  with h' show ?thesis by blast
qed

lemma family_pop:
  assumes fam: "family h L" and a: "L a = Some (x # xs)"
  shows "\<exists>h'. m_slist_pop a h = Some (x, h') \<and> family h' (L(a \<mapsto> xs)) \<and> dom h' = dom h \<and>
    (\<forall>b. b \<noteq> a \<longrightarrow> h' b = h b)"
proof -
  obtain h' where h': "m_slist_pop a h = Some (x, h')" "slist h' a xs" "dom h' = dom h"
    "\<forall>b. b \<noteq> a \<longrightarrow> h' b = h b"
    using slist_pop_Cons [OF family_slist [OF fam a]] by blast
  have "family h' (L(a \<mapsto> xs))"
  proof (rule family_change [OF fam h'(2)])
    fix b zs c
    assume b: "L b = Some zs" "b \<noteq> a" "c \<in> insert b (set zs)"
    then have "c \<noteq> a" using a family_heads [OF fam b(1)] by auto
    then show "h' c = h c" using h'(4) by simp
  next
    show "set xs \<inter> dom L = {}" using family_heads [OF fam a] by auto
    show "set xs \<inter> set zs = {} \<and> a \<notin> set zs" if "L b = Some zs" "b \<noteq> a" for b zs
      using that family_disjoint [OF fam a that(1)] family_heads [OF fam that(1)] a by auto
  qed
  with h' show ?thesis by blast
qed

lemma family_init:
  assumes fam: "family h L" and a: "a \<noteq> 0" "h a = Some n" "\<And>b zs. L b = Some zs \<Longrightarrow> a \<notin> set zs"
  shows "\<exists>h'. m_slist_init a h = Some h' \<and> family h' (L(a \<mapsto> [])) \<and> dom h' = dom h \<and>
    (\<forall>b. b \<noteq> a \<longrightarrow> h' b = h b)"
proof -
  let ?h = "h(a \<mapsto> \<lparr>s_next = 0\<rparr>)"
  have run: "m_slist_init a h = Some ?h" using a(1,2) by (simp add: m_slist_init_def access)
  have "family ?h (L(a \<mapsto> []))"
  proof (rule family_change [OF fam])
    show "slist ?h a []" using a(1) by (simp add: slist_def)
  qed (use a(3) in auto)
  with run a(2) show ?thesis by auto
qed

lemma family_is_empty: "family h L \<Longrightarrow> L a = Some xs \<Longrightarrow> m_slist_empty a h = Some (xs = [])"
  by (rule slist_is_empty [OF family_slist])

text \<open>Adding a list, dropping lists, and writing elsewhere.\<close>

lemma family_frame:
  assumes "family h L" "\<And>a xs c. L a = Some xs \<Longrightarrow> c \<in> insert a (set xs) \<Longrightarrow> h' c = h c"
  shows "family h' L"
  using assms slist_cong [OF family_slist [OF assms(1)]] unfolding family_def by metis

lemma family_drop: "family h L \<Longrightarrow> family h (L(a := None))"
  by (auto simp: family_def split: if_splits)

lemma family_add:
  assumes fam: "family h L" and a: "elsewhere L a" "slist h a ys"
    and ys: "\<And>y. y \<in> set ys \<Longrightarrow> elsewhere L y"
  shows "family h (L(a \<mapsto> ys))"
proof (rule family_change [OF fam a(2)])
  show "set ys \<inter> dom L = {}" using ys by (auto simp: elsewhere_def)
  show "set ys \<inter> set zs = {} \<and> a \<notin> set zs" if "L b = Some zs" "b \<noteq> a" for b zs
    using that ys a(1) by (auto simp: elsewhere_def)
qed simp

end
