(* ===== verification/GC_Pool.thy ===== *)
theory GC_Pool
  imports GC_Types SList_Family
begin

text \<open>
  The state of the object manager \<open>src/m_gc_obj.c\<close> and its cell pools. A pool starts with
  \<open>M_GCCellPool\<close>, whose list node is at offset 0 and whose list of free cells at offset 8,
  then the bitmap, then the cells. The memory that is used as list nodes (pools, heads, free cells)
  is \<open>gc_cells\<close>; the other members of a pool are in \<open>gc_pools\<close>. The stubs are an array
  of 32 byte structures at \<open>gc_stub_base\<close>, chosen by the linker; the heads of the usable and
  the full pools are its first two members. Mapping a pool makes its memory zeroed list nodes,
  unmapping it removes them.
\<close>

subsection \<open>State\<close>

record M_GCCellPool =
  p_type :: M_GCObjType
  p_begin :: addr
  bitmap :: "u32 list"

datatype GCStatus =
  GC_STATUS_IDLE | GC_STATUS_MARK_ROOT | GC_STATUS_MARK_OBJ | GC_STATUS_SWEEP | GC_STATUS_COMPACT

record GC =
  gc_vm :: vmem
  gc_cells :: sheap
  gc_pools :: "addr \<rightharpoonup> M_GCCellPool"
  gc_stub_base :: addr
  gc_obj_stubs :: "M_GCObjType \<Rightarrow> M_GCPoolStub"
  gc_cell_pool_size :: u64
  gc_cell_pool_mask :: u64
  gc_begin_size :: u64
  gc_gray_stack :: "addr list"
  gc_gray_limit :: u64
  gc_status :: GCStatus
  gc_need_scan_gray :: bool
  gc_allocated_size :: u64
  gc_last_allocated_size :: u64

fun type_index :: "M_GCObjType \<Rightarrow> u64" where
  "type_index M_GC_OBJ_PTR = 0"
| "type_index M_GC_OBJ_DOUBLE = 1"
| "type_index M_GC_OBJ_STRING = 2"
| "type_index M_GC_OBJ_OBJECT = 3"
| "type_index M_GC_OBJ_CLOSURE = 4"
| "type_index M_GC_OBJ_ARRAY = 5"
| "type_index M_GC_OBJ_FRAME = 6"
| "type_index _ = 7"

definition usable_pools :: "GC \<Rightarrow> M_GCObjType \<Rightarrow> addr" where
  "usable_pools g t = gc_stub_base g + 32 * type_index t"

definition full_pools :: "GC \<Rightarrow> M_GCObjType \<Rightarrow> addr" where
  "full_pools g t = gc_stub_base g + 32 * type_index t + 8"

definition free_cells :: "addr \<Rightarrow> addr" where
  "free_cells pool = pool + 8"

subsection \<open>Pools and cells\<close>

definition gc_obj_get_pool :: "GC \<Rightarrow> addr \<Rightarrow> addr" where
  "gc_obj_get_pool g ptr = ptr AND gc_cell_pool_mask g"

definition gc_obj_get_id :: "M_GCObjDescr \<Rightarrow> M_GCCellPool \<Rightarrow> addr \<Rightarrow> u32 option" where
  "gc_obj_get_id descr pool ptr =
     (let diff = ptr - p_begin pool in
      if d_size descr = 0 then None else Some (ucast (diff div ucast (d_size descr))))"

text \<open>The loop that links the cells: \<open>pnode\<close> is the node whose \<open>next\<close> is written.\<close>

fun link_cells :: "u64 \<Rightarrow> nat \<Rightarrow> addr \<Rightarrow> addr \<Rightarrow> sheap \<Rightarrow> sheap option" where
  "link_cells dsize 0 pnode ptr h = wr h pnode (s_next_update (\<lambda>_. 0))"
| "link_cells dsize (Suc num) pnode ptr h = do {
     h1 \<leftarrow> wr h pnode (s_next_update (\<lambda>_. ptr));
     link_cells dsize num ptr (ptr + dsize) h1 }"

definition zeroed_cells :: "addr \<Rightarrow> u64 \<Rightarrow> sheap \<Rightarrow> sheap" where
  "zeroed_cells pool n h = (\<lambda>x. if x - pool < n then Some \<lparr>s_next = 0\<rparr> else h x)"

definition drop_cells :: "addr \<Rightarrow> u64 \<Rightarrow> sheap \<Rightarrow> sheap" where
  "drop_cells pool n h = (\<lambda>x. if x - pool < n then None else h x)"

definition gc_alloc_pool :: "os \<Rightarrow> M_GCObjType \<Rightarrow> M_GCObjDescr \<Rightarrow> GC \<Rightarrow> (addr \<times> GC) option" where
  "gc_alloc_pool os type descr g =
     (let (pool, vm) = gc_mmap os (gc_cell_pool_size g) 0 (gc_vm g); g0 = g\<lparr>gc_vm := vm\<rparr> in
      if pool = 0 then Some (0, g0)
      else let stub = gc_obj_stubs g type;
          begin = pool + sizeof_cell_pool + bitmap_size stub;
          P = \<lparr>p_type = type, p_begin = begin, bitmap = replicate (unat (bitmap_size stub) div 4) 0\<rparr>;
          h0 = zeroed_cells pool (gc_cell_pool_size g) (gc_cells g) in do {
        h1 \<leftarrow> link_cells (ucast (d_size descr)) (unat (cell_num stub)) (free_cells pool) begin h0;
        h2 \<leftarrow> m_slist_push (usable_pools g type) pool h1;
        Some (pool, g0\<lparr>gc_cells := h2, gc_pools := (gc_pools g)(pool \<mapsto> P)\<rparr>) })"

definition gc_free_pool :: "addr \<Rightarrow> GC \<Rightarrow> GC" where
  "gc_free_pool pool g = g\<lparr>gc_vm := gc_munmap pool (gc_cell_pool_size g) (gc_vm g),
     gc_cells := drop_cells pool (gc_cell_pool_size g) (gc_cells g),
     gc_pools := (gc_pools g)(pool := None)\<rparr>"

subsection \<open>The geometry of a pool\<close>

text \<open>Layouts that the startup computes for pools of one page.\<close>

definition layout_ok :: "M_GCPoolStub \<Rightarrow> M_GCObjDescr \<Rightarrow> bool" where
  "layout_ok st d \<longleftrightarrow> 8 \<le> unat (d_size d) \<and> 0 < unat (cell_num st) \<and>
     40 + unat (bitmap_size st) + unat (cell_num st) * unat (d_size d) \<le> 4096 \<and>
     unat (cell_num st) \<le> 4 * unat (bitmap_size st) \<and> unat (bitmap_size st) mod 8 = 0"

definition cell_at :: "M_GCPoolStub \<Rightarrow> M_GCObjDescr \<Rightarrow> addr \<Rightarrow> nat \<Rightarrow> addr" where
  "cell_at st d p i = p + sizeof_cell_pool + bitmap_size st + of_nat i * ucast (d_size d)"

definition page_start :: "addr \<Rightarrow> bool" where
  "page_start p \<longleftrightarrow> p \<noteq> 0 \<and> unat p mod 4096 = 0"

definition page_of :: "addr \<Rightarrow> addr" where
  "page_of x = x AND NOT (4096 - 1)"

lemma page_start_bound: "page_start p \<Longrightarrow> unat p + 4096 \<le> 2 ^ 64"
proof -
  assume "page_start p"
  then obtain k where k: "unat p = 4096 * k" by (auto simp: page_start_def mod_eq_0_iff_dvd elim!: dvdE)
  then have "4096 * k < 2 ^ 64" using unsigned_less [of p, where ?'a = nat] by simp
  then show ?thesis using k by simp
qed

lemma page_offset_unat: "page_start p \<Longrightarrow> n < 4096 \<Longrightarrow> unat (p + of_nat n) = unat p + n"
  using page_start_bound [of p] by (subst unat_plus_nowrap) (simp_all add: unat_of_nat take_bit_eq_mod)

lemma in_page: "page_start p \<Longrightarrow> x - p < 4096 \<longleftrightarrow> unat p \<le> unat x \<and> unat x < unat p + 4096"
  using in_range [of p 4096 x] page_start_bound [of p] by simp

lemma unat_page_of: "unat (page_of x) = unat x div 4096 * 4096"
  using M_ALIGN_DOWN_unat [of x 12] by (simp add: page_of_def M_ALIGN_DOWN_def)

lemma page_of_eq: "page_start p \<Longrightarrow> page_of x = p \<longleftrightarrow> x - p < 4096"
proof -
  assume p: "page_start p"
  then obtain k where k: "unat p = 4096 * k" by (auto simp: page_start_def mod_eq_0_iff_dvd elim!: dvdE)
  have "page_of x = p \<longleftrightarrow> unat x div 4096 = k"
    unfolding word_unat_eq_iff unat_page_of k by auto
  also have "\<dots> \<longleftrightarrow> 4096 * k \<le> unat x \<and> unat x < 4096 * k + 4096" by (auto; linarith)
  finally show ?thesis using in_page [OF p, of x] k by simp
qed

lemma page_of_start [simp]: "page_start p \<Longrightarrow> page_of p = p"
  by (simp add: page_of_eq)

lemma cell_offset:
  assumes "layout_ok st d" "page_start p" "i < unat (cell_num st)"
  shows "cell_at st d p i = p + of_nat (40 + unat (bitmap_size st) + i * unat (d_size d))"
    "40 + unat (bitmap_size st) + i * unat (d_size d) + 8 \<le> 4096"
    "unat (cell_at st d p i) = unat p + 40 + unat (bitmap_size st) + i * unat (d_size d)"
proof -
  have "of_nat (unat (d_size d)) = (ucast (d_size d) :: u64)" by simp
  then show eq: "cell_at st d p i = p + of_nat (40 + unat (bitmap_size st) + i * unat (d_size d))"
    by (simp add: cell_at_def sizeof_cell_pool_def)
  have "(i + 1) * unat (d_size d) \<le> unat (cell_num st) * unat (d_size d)"
    using assms(3) by (intro mult_le_mono1) simp
  then show le: "40 + unat (bitmap_size st) + i * unat (d_size d) + 8 \<le> 4096"
    using assms(1) by (simp add: layout_ok_def)
  show "unat (cell_at st d p i) = unat p + 40 + unat (bitmap_size st) + i * unat (d_size d)"
    unfolding eq using le by (subst page_offset_unat [OF assms(2)]) simp_all
qed

lemma cell_page:
  assumes "layout_ok st d" "page_start p" "i < unat (cell_num st)"
  shows "page_of (cell_at st d p i) = p" "cell_at st d p i - p < 4096" "cell_at st d p i \<noteq> 0"
    "cell_at st d p i \<noteq> p" "cell_at st d p i \<noteq> free_cells p"
proof -
  note c = cell_offset [OF assms]
  show in_p: "cell_at st d p i - p < 4096"
    unfolding in_page [OF assms(2)] c(3) using c(2) by simp
  then show "page_of (cell_at st d p i) = p" by (simp add: page_of_eq [OF assms(2)])
  show "cell_at st d p i \<noteq> 0" "cell_at st d p i \<noteq> p" using c(3) by auto
  have "unat (free_cells p) = unat p + 8"
    using page_offset_unat [OF assms(2), of 8] by (simp add: free_cells_def)
  then show "cell_at st d p i \<noteq> free_cells p" using c(3) by auto
qed

lemma cell_inj:
  assumes "layout_ok st d" "page_start p" "i < unat (cell_num st)" "j < unat (cell_num st)"
    "cell_at st d p i = cell_at st d p j"
  shows "i = j"
proof -
  have "unat p + 40 + unat (bitmap_size st) + i * unat (d_size d) =
      unat p + 40 + unat (bitmap_size st) + j * unat (d_size d)"
    using cell_offset(3) [OF assms(1-3)] cell_offset(3) [OF assms(1,2,4)] assms(5) by metis
  then show "i = j" using assms(1) by (simp add: layout_ok_def)
qed

lemma cell_id:
  assumes "layout_ok st d" "page_start p" "i < unat (cell_num st)"
    "p_begin P = p + sizeof_cell_pool + bitmap_size st"
  shows "gc_obj_get_id d P (cell_at st d p i) = Some (of_nat i)" "i < 2 ^ 31"
proof -
  have nz: "unat (d_size d) \<noteq> 0" using assms(1) by (simp add: layout_ok_def)
  then have nz': "d_size d \<noteq> 0" by auto
  have small: "i * unat (d_size d) < 4096" using cell_offset(2) [OF assms(1-3)] by simp
  have "i * 1 \<le> i * unat (d_size d)" using nz by (intro mult_le_mono2) simp
  with small have "i < 4096" by linarith
  then show i: "i < 2 ^ 31" by simp
  let ?ds = "ucast (d_size d) :: u64"
  have ui: "unat (of_nat i :: u64) = i" using i by (simp add: unat_of_nat take_bit_eq_mod)
  have ud: "unat ?ds = unat (d_size d)"
    using unsigned_less [of "d_size d", where ?'a = nat]
    by (simp add: unsigned_ucast_eq take_bit_eq_mod)
  have "unat (of_nat i * ?ds) = i * unat (d_size d)"
    using small by (simp add: unat_word_ariths ui ud)
  then have "unat ((of_nat i * ?ds) div ?ds) = i" using nz by (simp add: unat_div ud)
  then have "(of_nat i * ?ds) div ?ds = of_nat i" using ui by (simp add: word_unat_eq_iff)
  moreover have "cell_at st d p i - p_begin P = of_nat i * ?ds" by (simp add: cell_at_def assms(4))
  moreover have "ucast (of_nat i :: u64) = (of_nat i :: u32)"
    using i by (simp add: word_unat_eq_iff unsigned_ucast_eq unat_of_nat take_bit_eq_mod)
  ultimately show "gc_obj_get_id d P (cell_at st d p i) = Some (of_nat i)"
    using nz' by (simp add: gc_obj_get_id_def)
qed

subsection \<open>Linking the free cells\<close>

fun cell_list :: "u64 \<Rightarrow> nat \<Rightarrow> addr \<Rightarrow> addr list" where
  "cell_list dsize 0 ptr = []"
| "cell_list dsize (Suc n) ptr = ptr # cell_list dsize n (ptr + dsize)"

lemma cell_list_map: "cell_list ds n ptr = map (\<lambda>i. ptr + of_nat i * ds) [0..<n]"
proof (induction n arbitrary: ptr)
  case (Suc n)
  have "[0..<Suc n] = 0 # map Suc [0..<n]" by (simp add: upt_conv_Cons map_Suc_upt)
  then show ?case using Suc by (simp add: algebra_simps)
qed simp

lemma link_cells_sseg:
  assumes "pn \<noteq> 0" "h pn = Some v" "pn \<notin> set (cell_list ds n ptr)" "distinct (cell_list ds n ptr)"
    "\<forall>c \<in> set (cell_list ds n ptr). c \<noteq> 0 \<and> h c \<noteq> None"
  shows "\<exists>h' a. link_cells ds n pn ptr h = Some h' \<and> h' pn = Some \<lparr>s_next = a\<rparr> \<and>
    sseg h' a (cell_list ds n ptr) \<and> dom h' = dom h \<and>
    (\<forall>b. b \<noteq> pn \<and> b \<notin> set (cell_list ds n ptr) \<longrightarrow> h' b = h b)"
  using assms
proof (induction ds n pn ptr h arbitrary: v rule: link_cells.induct)
  case (1 ds pn ptr h)
  then show ?case by (auto simp: access)
next
  case (2 ds n pn ptr h)
  let ?h1 = "h(pn \<mapsto> \<lparr>s_next = ptr\<rparr>)"
  have w: "wr h pn (s_next_update (\<lambda>_. ptr)) = Some ?h1" using "2.prems" by (simp add: access)
  obtain u where u: "?h1 ptr = Some u" "ptr \<noteq> 0" "pn \<noteq> ptr" using "2.prems" by auto
  have "ptr \<notin> set (cell_list ds n (ptr + ds))" "distinct (cell_list ds n (ptr + ds))"
    "\<forall>c \<in> set (cell_list ds n (ptr + ds)). c \<noteq> 0 \<and> ?h1 c \<noteq> None"
    using "2.prems" by auto
  from "2.IH" [OF w u(2,1) this] obtain h' a where h':
    "link_cells ds n ptr (ptr + ds) ?h1 = Some h'" "h' ptr = Some \<lparr>s_next = a\<rparr>"
    "sseg h' a (cell_list ds n (ptr + ds))" "dom h' = dom ?h1"
    "\<forall>b. b \<noteq> ptr \<and> b \<notin> set (cell_list ds n (ptr + ds)) \<longrightarrow> h' b = ?h1 b" by blast
  have "h' pn = ?h1 pn" using h'(5) u(3) "2.prems"(3) by simp
  moreover have "dom ?h1 = dom h" using "2.prems"(2) by auto
  ultimately show ?case using w h' u by (intro exI [of _ h'] exI [of _ ptr]) auto
qed

subsection \<open>The invariant of the object manager\<close>

text \<open>\<open>L\<close> gives the contents of all lists. Arrays have cells of size 0, see
  \<open>layout_ok\<close>; there are no pools of arrays in a well formed state.\<close>

definition real_types :: "M_GCObjType set" where
  "real_types = set obj_types - {M_GC_OBJ_ARRAY}"

definition descr_of :: "M_GCObjType \<Rightarrow> M_GCObjDescr" where
  "descr_of t = the (gc_obj_descrs t)"

definition obj_cell :: "GC \<Rightarrow> M_GCObjType \<Rightarrow> addr \<Rightarrow> nat \<Rightarrow> addr" where
  "obj_cell g t p i = cell_at (gc_obj_stubs g t) (descr_of t) p i"

definition cells_of :: "GC \<Rightarrow> M_GCObjType \<Rightarrow> nat" where
  "cells_of g t = unat (cell_num (gc_obj_stubs g t))"

definition stub_heads :: "GC \<Rightarrow> addr set" where
  "stub_heads g = usable_pools g ` set obj_types \<union> full_pools g ` set obj_types"

definition config_ok :: "GC \<Rightarrow> bool" where
  "config_ok g \<longleftrightarrow> gc_cell_pool_size g = 4096 \<and> gc_cell_pool_mask g = NOT (4096 - 1) \<and>
     unat (gc_stub_base g) + 256 < 2 ^ 64 \<and> 0 < unat (gc_stub_base g) \<and>
     (\<forall>t \<in> real_types. layout_ok (gc_obj_stubs g t) (descr_of t))"

definition pool_ok :: "GC \<Rightarrow> (addr \<rightharpoonup> addr list) \<Rightarrow> addr \<Rightarrow> M_GCCellPool \<Rightarrow> bool" where
  "pool_ok g L p P \<longleftrightarrow> p_type P \<in> real_types \<and> page_start p \<and>
     p_begin P = p + sizeof_cell_pool + bitmap_size (gc_obj_stubs g (p_type P)) \<and>
     4 * length (bitmap P) = unat (bitmap_size (gc_obj_stubs g (p_type P))) \<and>
     (\<forall>i. cells_of g (p_type P) \<le> i \<longrightarrow> i < 16 * length (bitmap P) \<longrightarrow> mark (bitmap P) i = 0) \<and>
     (\<forall>i. i < cells_of g (p_type P) \<longrightarrow> mark (bitmap P) i \<noteq> GC_MARK_GRAY) \<and>
     (\<exists>fs. L (free_cells p) = Some fs \<and>
       set fs = obj_cell g (p_type P) p ` {i. i < cells_of g (p_type P) \<and> mark (bitmap P) i = GC_MARK_UNUSED})"

definition memory_ok :: "GC \<Rightarrow> bool" where
  "memory_ok g \<longleftrightarrow>
     (\<forall>x. gc_cells g x \<noteq> None \<longrightarrow> gc_vm g x \<noteq> None) \<and>
     (\<forall>p x. p \<in> dom (gc_pools g) \<longrightarrow> x - p < 4096 \<longrightarrow> gc_cells g x \<noteq> None) \<and>
     (\<forall>a \<in> stub_heads g. gc_cells g a \<noteq> None \<and> (\<forall>p \<in> dom (gc_pools g). \<not> a - p < 4096))"

definition pools_of :: "GC \<Rightarrow> M_GCObjType \<Rightarrow> addr set" where
  "pools_of g t = {p. \<exists>P. gc_pools g p = Some P \<and> p_type P = t}"

text \<open>\<open>D\<close> are the pools that an operation is working on: they may be in a list, in none
  or in the wrong one.\<close>

definition lists_ok :: "addr set \<Rightarrow> GC \<Rightarrow> (addr \<rightharpoonup> addr list) \<Rightarrow> bool" where
  "lists_ok D g L \<longleftrightarrow> family (gc_cells g) L \<and>
     dom L = stub_heads g \<union> free_cells ` dom (gc_pools g) \<and>
     (\<forall>t \<in> set obj_types. \<exists>us fs. L (usable_pools g t) = Some us \<and> L (full_pools g t) = Some fs \<and>
        set us \<union> set fs \<subseteq> pools_of g t \<and> pools_of g t - D \<subseteq> set us \<union> set fs \<and>
        (\<forall>p \<in> set us - D. L (free_cells p) \<noteq> Some []) \<and>
        (\<forall>p \<in> set fs - D. L (free_cells p) = Some []))"

definition gc_inv :: "addr set \<Rightarrow> GC \<Rightarrow> (addr \<rightharpoonup> addr list) \<Rightarrow> bool" where
  "gc_inv D g L \<longleftrightarrow> config_ok g \<and> memory_ok g \<and> lists_ok D g L \<and>
     (\<forall>p P. gc_pools g p = Some P \<longrightarrow> pool_ok g L p P)"

abbreviation gc_ok :: "GC \<Rightarrow> (addr \<rightharpoonup> addr list) \<Rightarrow> bool" where
  "gc_ok \<equiv> gc_inv {}"

text \<open>The objects of a state: the cells whose mark is not \<open>GC_MARK_UNUSED\<close>, by pool and
  index.\<close>

definition obj_mark :: "GC \<Rightarrow> addr \<Rightarrow> nat \<Rightarrow> u32" where
  "obj_mark g p i = (case gc_pools g p of None \<Rightarrow> 0
     | Some P \<Rightarrow> if i < cells_of g (p_type P) then mark (bitmap P) i else 0)"

definition gc_objs :: "GC \<Rightarrow> u32 \<Rightarrow> addr set" where
  "gc_objs g m = {obj_cell g (p_type P) p i | p P i. gc_pools g p = Some P \<and>
     i < cells_of g (p_type P) \<and> mark (bitmap P) i = m}"

text \<open>The layout does not depend on the parts of the state that change at run time.\<close>

lemma usable_pools_static [simp]:
  "usable_pools (gc_vm_update f0 g) t = usable_pools g t"
  "usable_pools (gc_cells_update f1 g) t = usable_pools g t"
  "usable_pools (gc_pools_update f2 g) t = usable_pools g t"
  "usable_pools (gc_begin_size_update f3 g) t = usable_pools g t"
  "usable_pools (gc_gray_stack_update f4 g) t = usable_pools g t"
  "usable_pools (gc_gray_limit_update f5 g) t = usable_pools g t"
  "usable_pools (gc_status_update f6 g) t = usable_pools g t"
  "usable_pools (gc_need_scan_gray_update f7 g) t = usable_pools g t"
  "usable_pools (gc_allocated_size_update f8 g) t = usable_pools g t"
  "usable_pools (gc_last_allocated_size_update f9 g) t = usable_pools g t"
  by (simp_all add: usable_pools_def)

lemma full_pools_static [simp]:
  "full_pools (gc_vm_update f0 g) t = full_pools g t"
  "full_pools (gc_cells_update f1 g) t = full_pools g t"
  "full_pools (gc_pools_update f2 g) t = full_pools g t"
  "full_pools (gc_begin_size_update f3 g) t = full_pools g t"
  "full_pools (gc_gray_stack_update f4 g) t = full_pools g t"
  "full_pools (gc_gray_limit_update f5 g) t = full_pools g t"
  "full_pools (gc_status_update f6 g) t = full_pools g t"
  "full_pools (gc_need_scan_gray_update f7 g) t = full_pools g t"
  "full_pools (gc_allocated_size_update f8 g) t = full_pools g t"
  "full_pools (gc_last_allocated_size_update f9 g) t = full_pools g t"
  by (simp_all add: full_pools_def)

lemma stub_heads_static [simp]:
  "stub_heads (gc_vm_update f0 g) = stub_heads g"
  "stub_heads (gc_cells_update f1 g) = stub_heads g"
  "stub_heads (gc_pools_update f2 g) = stub_heads g"
  "stub_heads (gc_begin_size_update f3 g) = stub_heads g"
  "stub_heads (gc_gray_stack_update f4 g) = stub_heads g"
  "stub_heads (gc_gray_limit_update f5 g) = stub_heads g"
  "stub_heads (gc_status_update f6 g) = stub_heads g"
  "stub_heads (gc_need_scan_gray_update f7 g) = stub_heads g"
  "stub_heads (gc_allocated_size_update f8 g) = stub_heads g"
  "stub_heads (gc_last_allocated_size_update f9 g) = stub_heads g"
  by (simp_all add: stub_heads_def usable_pools_static full_pools_static)

lemma cells_of_static [simp]:
  "cells_of (gc_vm_update f0 g) t = cells_of g t"
  "cells_of (gc_cells_update f1 g) t = cells_of g t"
  "cells_of (gc_pools_update f2 g) t = cells_of g t"
  "cells_of (gc_begin_size_update f3 g) t = cells_of g t"
  "cells_of (gc_gray_stack_update f4 g) t = cells_of g t"
  "cells_of (gc_gray_limit_update f5 g) t = cells_of g t"
  "cells_of (gc_status_update f6 g) t = cells_of g t"
  "cells_of (gc_need_scan_gray_update f7 g) t = cells_of g t"
  "cells_of (gc_allocated_size_update f8 g) t = cells_of g t"
  "cells_of (gc_last_allocated_size_update f9 g) t = cells_of g t"
  by (simp_all add: cells_of_def)

lemma obj_cell_static [simp]:
  "obj_cell (gc_vm_update f0 g) t p i = obj_cell g t p i"
  "obj_cell (gc_cells_update f1 g) t p i = obj_cell g t p i"
  "obj_cell (gc_pools_update f2 g) t p i = obj_cell g t p i"
  "obj_cell (gc_begin_size_update f3 g) t p i = obj_cell g t p i"
  "obj_cell (gc_gray_stack_update f4 g) t p i = obj_cell g t p i"
  "obj_cell (gc_gray_limit_update f5 g) t p i = obj_cell g t p i"
  "obj_cell (gc_status_update f6 g) t p i = obj_cell g t p i"
  "obj_cell (gc_need_scan_gray_update f7 g) t p i = obj_cell g t p i"
  "obj_cell (gc_allocated_size_update f8 g) t p i = obj_cell g t p i"
  "obj_cell (gc_last_allocated_size_update f9 g) t p i = obj_cell g t p i"
  by (simp_all add: obj_cell_def)

lemma config_ok_static [simp]:
  "config_ok (gc_vm_update f0 g) = config_ok g"
  "config_ok (gc_cells_update f1 g) = config_ok g"
  "config_ok (gc_pools_update f2 g) = config_ok g"
  "config_ok (gc_begin_size_update f3 g) = config_ok g"
  "config_ok (gc_gray_stack_update f4 g) = config_ok g"
  "config_ok (gc_gray_limit_update f5 g) = config_ok g"
  "config_ok (gc_status_update f6 g) = config_ok g"
  "config_ok (gc_need_scan_gray_update f7 g) = config_ok g"
  "config_ok (gc_allocated_size_update f8 g) = config_ok g"
  "config_ok (gc_last_allocated_size_update f9 g) = config_ok g"
  by (simp_all add: config_ok_def)

lemma gc_obj_get_pool_static [simp]:
  "gc_obj_get_pool (gc_vm_update f0 g) a = gc_obj_get_pool g a"
  "gc_obj_get_pool (gc_cells_update f1 g) a = gc_obj_get_pool g a"
  "gc_obj_get_pool (gc_pools_update f2 g) a = gc_obj_get_pool g a"
  "gc_obj_get_pool (gc_begin_size_update f3 g) a = gc_obj_get_pool g a"
  "gc_obj_get_pool (gc_gray_stack_update f4 g) a = gc_obj_get_pool g a"
  "gc_obj_get_pool (gc_gray_limit_update f5 g) a = gc_obj_get_pool g a"
  "gc_obj_get_pool (gc_status_update f6 g) a = gc_obj_get_pool g a"
  "gc_obj_get_pool (gc_need_scan_gray_update f7 g) a = gc_obj_get_pool g a"
  "gc_obj_get_pool (gc_allocated_size_update f8 g) a = gc_obj_get_pool g a"
  "gc_obj_get_pool (gc_last_allocated_size_update f9 g) a = gc_obj_get_pool g a"
  by (simp_all add: gc_obj_get_pool_def)

subsection \<open>Consequences of the invariant\<close>

lemma type_index_bound: "unat (type_index t) \<le> 7"
  by (cases t) simp_all

lemma type_index_inj:
  "t \<in> set obj_types \<Longrightarrow> t' \<in> set obj_types \<Longrightarrow> type_index t = type_index t' \<Longrightarrow> t = t'"
  by (auto simp: obj_types_def)

lemma head_unat:
  assumes "config_ok g"
  shows "unat (usable_pools g t) = unat (gc_stub_base g) + 32 * unat (type_index t)"
    "unat (full_pools g t) = unat (gc_stub_base g) + 32 * unat (type_index t) + 8"
proof -
  have m: "unat (32 * type_index t) = 32 * unat (type_index t)"
    using type_index_bound [of t] by (simp add: unat_word_ariths)
  then show u: "unat (usable_pools g t) = unat (gc_stub_base g) + 32 * unat (type_index t)"
    unfolding usable_pools_def using assms type_index_bound [of t]
    by (subst unat_plus_nowrap) (auto simp: config_ok_def)
  have "full_pools g t = usable_pools g t + 8" by (simp add: full_pools_def usable_pools_def)
  then show "unat (full_pools g t) = unat (gc_stub_base g) + 32 * unat (type_index t) + 8"
    using assms type_index_bound [of t] u by (simp add: config_ok_def unat_plus_nowrap)
qed

lemma heads_distinct:
  assumes "config_ok g" "t \<in> set obj_types" "t' \<in> set obj_types"
  shows "usable_pools g t = usable_pools g t' \<longleftrightarrow> t = t'" "full_pools g t = full_pools g t' \<longleftrightarrow> t = t'"
    "usable_pools g t \<noteq> full_pools g t'" "full_pools g t \<noteq> usable_pools g t'"
    "usable_pools g t \<noteq> 0" "full_pools g t \<noteq> 0"
proof -
  note u = head_unat [OF assms(1)]
  have eq: "unat (type_index t) = unat (type_index t') \<longleftrightarrow> t = t'"
    using type_index_inj [OF assms(2,3)] by (auto simp: word_unat_eq_iff)
  show "usable_pools g t = usable_pools g t' \<longleftrightarrow> t = t'" "full_pools g t = full_pools g t' \<longleftrightarrow> t = t'"
    unfolding word_unat_eq_iff u using eq by auto
  have "32 * unat (type_index t) \<noteq> 32 * unat (type_index t') + 8"
    "32 * unat (type_index t) + 8 \<noteq> 32 * unat (type_index t')" by presburger+
  then show "usable_pools g t \<noteq> full_pools g t'" "full_pools g t \<noteq> usable_pools g t'"
    unfolding word_unat_eq_iff u by auto
  show "usable_pools g t \<noteq> 0" "full_pools g t \<noteq> 0"
    using u [of t] assms(1) by (auto simp: config_ok_def)
qed

lemma gc_ok_parts:
  assumes "gc_inv D g L"
  shows "config_ok g" "memory_ok g" "lists_ok D g L" "gc_pools g p = Some P \<Longrightarrow> pool_ok g L p P"
  using assms by (auto simp: gc_inv_def)

lemma gc_ok_page: "gc_inv D g L \<Longrightarrow> p \<in> dom (gc_pools g) \<Longrightarrow> page_start p"
  by (auto simp: gc_inv_def pool_ok_def)

lemma free_cells_page: "page_start p \<Longrightarrow> free_cells p - p < 4096" "page_start p \<Longrightarrow> free_cells p \<noteq> 0"
proof -
  show "free_cells p - p < 4096" by (simp add: free_cells_def)
  assume "page_start p"
  then have "unat (free_cells p) = unat p + 8"
    using page_offset_unat [of p 8] by (simp add: free_cells_def)
  then show "free_cells p \<noteq> 0" by auto
qed

lemma free_cells_inj [simp]: "free_cells p = free_cells q \<longleftrightarrow> p = q"
  by (simp add: free_cells_def)

lemma lists_ok_type:
  assumes "lists_ok D g L" "t \<in> set obj_types"
  obtains us fs where "L (usable_pools g t) = Some us" "L (full_pools g t) = Some fs"
    "set us \<union> set fs \<subseteq> pools_of g t" "pools_of g t - D \<subseteq> set us \<union> set fs"
    "\<forall>p \<in> set us - D. L (free_cells p) \<noteq> Some []" "\<forall>p \<in> set fs - D. L (free_cells p) = Some []"
proof -
  have "\<exists>us fs. L (usable_pools g t) = Some us \<and> L (full_pools g t) = Some fs \<and>
      set us \<union> set fs \<subseteq> pools_of g t \<and> pools_of g t - D \<subseteq> set us \<union> set fs \<and>
      (\<forall>p \<in> set us - D. L (free_cells p) \<noteq> Some []) \<and> (\<forall>p \<in> set fs - D. L (free_cells p) = Some [])"
    using assms by (simp only: lists_ok_def)
  then show ?thesis by (elim exE conjE) (rule that)
qed

text \<open>Every head and every member of a list is mapped.\<close>

lemma listed_mapped:
  assumes "lists_ok D g L" "L a = Some xs" "c \<in> insert a (set xs)"
  shows "gc_cells g c \<noteq> None"
proof -
  have "slist (gc_cells g) a xs" using assms(1,2) by (auto simp: lists_ok_def family_def)
  with assms(3) show ?thesis by (auto simp: slist_def dest: sseg_mapped)
qed

lemma unmapped_elsewhere: "lists_ok D g L \<Longrightarrow> gc_cells g c = None \<Longrightarrow> elsewhere L c"
  using listed_mapped [of D g L c _ c] listed_mapped [of D g L _ _ c]
  by (fastforce simp: elsewhere_def)

lemma head_not_in_pool:
  assumes "gc_inv D g L" "a \<in> stub_heads g" "p \<in> dom (gc_pools g)"
  shows "a \<noteq> free_cells p" "a \<noteq> p" "\<not> a - p < 4096"
proof -
  show n: "\<not> a - p < 4096" using assms by (auto simp: gc_inv_def memory_ok_def)
  then show "a \<noteq> p" by auto
  from n show "a \<noteq> free_cells p" by (auto simp: free_cells_def)
qed

lemma stub_heads_iff: "t \<in> set obj_types \<Longrightarrow> usable_pools g t \<in> stub_heads g \<and> full_pools g t \<in> stub_heads g"
  by (simp add: stub_heads_def)

lemma mark_zeros: "mark (replicate n 0) i = 0" if "i < 16 * n"
  using that by (simp add: mark_def word_mark_def less_mult_imp_div_less mult.commute)

lemma real_type: "t \<in> real_types \<Longrightarrow> t \<in> set obj_types"
  "t \<in> real_types \<Longrightarrow> gc_obj_get_descr t = Some (descr_of t)"
  "t \<in> real_types \<Longrightarrow> gc_obj_descrs t = Some (descr_of t)"
  by (auto simp: real_types_def descr_of_def gc_obj_get_descr_def obj_types_def)

lemma cells_fit:
  assumes "config_ok g" "t \<in> real_types"
  shows "cells_of g t \<le> 4 * unat (bitmap_size (gc_obj_stubs g t))" "0 < cells_of g t"
    "unat (bitmap_size (gc_obj_stubs g t)) mod 8 = 0" "unat (bitmap_size (gc_obj_stubs g t)) < 4096"
  using assms by (auto simp: config_ok_def layout_ok_def cells_of_def)

end
