(* ===== verification/GC_Alloc.thy ===== *)
theory GC_Alloc
  imports GC_Pool
begin

text \<open>
  Taking and returning pools and cells: \<open>gc_alloc_pool\<close>, the cell part of
  \<open>gc_alloc_obj\<close> and \<open>gc_free_pool\<close> keep the invariant of the object manager.
\<close>

subsection \<open>A new pool\<close>

lemma cell_list_new:
  assumes "layout_ok st d" "page_start p"
  defines "cs \<equiv> cell_list (ucast (d_size d)) (unat (cell_num st)) (p + sizeof_cell_pool + bitmap_size st)"
  shows "cs = map (cell_at st d p) [0..<unat (cell_num st)]" "distinct cs"
    "c \<in> set cs \<Longrightarrow> c - p < 4096 \<and> c \<noteq> 0 \<and> c \<noteq> free_cells p \<and> c \<noteq> p" "cs \<noteq> []"
proof -
  show eq: "cs = map (cell_at st d p) [0..<unat (cell_num st)]"
    by (simp add: cs_def cell_list_map cell_at_def)
  show "distinct cs"
    unfolding eq distinct_map using cell_inj [OF assms(1,2)] by (auto simp: inj_on_def)
  show "c \<in> set cs \<Longrightarrow> c - p < 4096 \<and> c \<noteq> 0 \<and> c \<noteq> free_cells p \<and> c \<noteq> p"
    using cell_page [OF assms(1,2)] by (auto simp: eq)
  show "cs \<noteq> []" using assms(1) by (simp add: eq layout_ok_def)
qed

lemma pool_ok_cong:
  assumes "pool_ok g L p P" "gc_obj_stubs g' = gc_obj_stubs g" "L' (free_cells p) = L (free_cells p)"
  shows "pool_ok g' L' p P"
  using assms by (simp add: pool_ok_def cells_of_def obj_cell_def)

lemma alloc_pool_ok:
  assumes ok: "gc_ok g L" and t: "t \<in> real_types"
    and map: "mapped_pages 4096 0 (gc_vm g) (gc_mmap os 4096 0 (gc_vm g))"
  shows "gc_alloc_pool os t (descr_of t) g = Some (0, g) \<and> fst (gc_mmap os 4096 0 (gc_vm g)) = 0 \<or>
    (\<exists>p g' us cs. gc_alloc_pool os t (descr_of t) g = Some (p, g') \<and> p \<noteq> 0 \<and> gc_pools g p = None \<and>
      L (usable_pools g t) = Some us \<and>
      gc_ok g' (L(free_cells p \<mapsto> cs, usable_pools g t \<mapsto> p # us)) \<and> cs \<noteq> [] \<and>
      (\<exists>P. gc_pools g' = (gc_pools g)(p \<mapsto> P) \<and> p_type P = t \<and> bitmap P = replicate (length (bitmap P)) 0) \<and>
      (\<exists>vm h. g' = g\<lparr>gc_vm := vm, gc_cells := h, gc_pools := gc_pools g'\<rparr>))"
proof -
  obtain p vm where m: "gc_mmap os 4096 0 (gc_vm g) = (p, vm)" by fastforce
  note parts = gc_ok_parts [OF ok]
  have cfg: "gc_cell_pool_size g = 4096" "layout_ok (gc_obj_stubs g t) (descr_of t)"
    using parts(1) t by (auto simp: config_ok_def)
  have round: "page_round 4096 = 4096"
    by (simp add: page_round_def M_PAGE_MASK_def M_PAGE_SIZE_def)
  show ?thesis
  proof (cases "p = 0")
    case True
    then have "vm = gc_vm g" using map m by (simp add: mapped_pages_def new_pages_def)
    then show ?thesis using True m cfg by (simp add: gc_alloc_pool_def)
  next
    case False
    let ?st = "gc_obj_stubs g t" and ?d = "descr_of t"
    let ?start = "p + sizeof_cell_pool + bitmap_size ?st"
    let ?cs = "cell_list (ucast (d_size ?d)) (unat (cell_num ?st)) ?start"
    let ?h0 = "zeroed_cells p 4096 (gc_cells g)"
    let ?P = "\<lparr>p_type = t, p_begin = ?start, bitmap = replicate (unat (bitmap_size ?st) div 4) 0\<rparr>"
    have vm: "p AND M_PAGE_MASK = 0" "\<forall>x. x - p < 4096 \<longrightarrow> gc_vm g x = None"
      "vm = set_range p 4096 (Some False) (gc_vm g)"
      using map m False by (auto simp: mapped_pages_def new_pages_def round)
    have page: "page_start p" using vm(1) False by (simp add: page_start_def page_mask_zero)
    note cs = cell_list_new [OF cfg(2) page]
    have fresh: "gc_cells g x = None" if "x - p < 4096" for x
      using that vm(2) parts(2) unfolding memory_ok_def by metis
    have outside: "\<not> q - p < 4096" if "gc_cells g q \<noteq> None" for q using that fresh [of q] by auto
    have pool_new: "gc_pools g p = None"
    proof (rule ccontr)
      assume "gc_pools g p \<noteq> None"
      then have "gc_cells g p \<noteq> None" using parts(2) by (auto simp: memory_ok_def)
      then show False using outside [of p] by simp
    qed
    have fp: "free_cells p - p < 4096" "free_cells p \<noteq> 0" using free_cells_page [OF page] by simp_all
    have all: "\<forall>c \<in> set ?cs. c \<noteq> 0 \<and> ?h0 c \<noteq> None" using cs(3) by (simp add: zeroed_cells_def)
    have fp_map: "?h0 (free_cells p) = Some \<lparr>s_next = 0\<rparr>" using fp(1) by (simp add: zeroed_cells_def)
    have fp_notin: "free_cells p \<notin> set ?cs" using cs(3) by blast
    obtain h1 a where h1: "link_cells (ucast (d_size ?d)) (unat (cell_num ?st)) (free_cells p) ?start ?h0 = Some h1"
      "h1 (free_cells p) = Some \<lparr>s_next = a\<rparr>" "sseg h1 a ?cs" "dom h1 = dom ?h0"
      "\<forall>b. b \<noteq> free_cells p \<and> b \<notin> set ?cs \<longrightarrow> h1 b = ?h0 b"
      using link_cells_sseg [OF fp(2) fp_map fp_notin cs(2) all] by (elim exE conjE)
    have free: "slist h1 (free_cells p) ?cs"
      using h1(2,3) fp(2) cs(3) by (auto simp: slist_def)
    have "family h1 L"
    proof (rule family_frame)
      show "family (gc_cells g) L" using parts(3) by (simp add: lists_ok_def)
      fix b xs c
      assume "L b = Some xs" "c \<in> insert b (set xs)"
      then have "gc_cells g c \<noteq> None" by (rule listed_mapped [OF parts(3)])
      then have "\<not> c - p < 4096" by (rule outside)
      moreover from this have "c \<noteq> free_cells p" "c \<notin> set ?cs" using fp(1) cs(3) [of c] by auto
      ultimately show "h1 c = gc_cells g c" using h1(5) by (simp add: zeroed_cells_def)
    qed
    have else: "elsewhere L x" if "x - p < 4096" for x
      using unmapped_elsewhere [OF parts(3) fresh [OF that]] .
    have fam1: "family h1 (L(free_cells p \<mapsto> ?cs))"
      using \<open>family h1 L\<close> free fp(1) cs(3) else by (intro family_add) auto
    have "usable_pools g t \<in> dom L" "usable_pools g t \<in> stub_heads g"
      using parts(3) stub_heads_iff [OF real_type(1) [OF t], of g] by (auto simp: lists_ok_def)
    then obtain us where us: "L (usable_pools g t) = Some us" by blast
    have hm: "gc_cells g b \<noteq> None" if "b \<in> stub_heads g" for b
      using that parts(2) by (simp add: memory_ok_def)
    have ne: "b \<noteq> free_cells p" if "b \<in> stub_heads g" for b
      using outside [OF hm [OF that]] fp(1) by auto
    have u_ne: "usable_pools g t \<noteq> free_cells p" by (rule ne) fact
    have p_map: "h1 p \<noteq> None" using h1(4) by (auto simp: zeroed_cells_def)
    then obtain v where v: "h1 p = Some v" by blast
    have p_else: "elsewhere (L(free_cells p \<mapsto> ?cs)) p"
      using else [of p] cs(3) by (auto simp: elsewhere_def free_cells_def)
    obtain h2 where h2: "m_slist_push (usable_pools g t) p h1 = Some h2"
      "family h2 (L(free_cells p \<mapsto> ?cs, usable_pools g t \<mapsto> p # us))" "dom h2 = dom h1"
      using family_push [OF fam1, of "usable_pools g t" us p v] us u_ne False v p_else by auto
    let ?g = "g\<lparr>gc_vm := vm, gc_cells := h2, gc_pools := (gc_pools g)(p \<mapsto> ?P)\<rparr>"
    let ?L = "L(free_cells p \<mapsto> ?cs, usable_pools g t \<mapsto> p # us)"
    have run: "gc_alloc_pool os t ?d g = Some (p, ?g)"
      using False m h1(1) h2(1) by (simp add: gc_alloc_pool_def cfg Let_def)
    have dom2: "gc_cells ?g x \<noteq> None \<longleftrightarrow> x - p < 4096 \<or> gc_cells g x \<noteq> None" for x
    proof -
      have "h2 x \<noteq> None \<longleftrightarrow> ?h0 x \<noteq> None" using h2(3) h1(4) by (metis domIff)
      then show ?thesis by (simp add: zeroed_cells_def)
    qed
    have mem: "memory_ok ?g"
      unfolding memory_ok_def dom2
    proof (intro conjI allI ballI impI)
      show "gc_vm ?g x \<noteq> None" if "x - p < 4096 \<or> gc_cells g x \<noteq> None" for x
        using that vm(3) parts(2) by (auto simp: memory_ok_def set_range_def)
      show "x - p < 4096 \<or> gc_cells g x \<noteq> None" if "q \<in> dom (gc_pools ?g)" "x - q < 4096" for q x
        using that parts(2) by (auto simp: memory_ok_def split: if_splits)
      show "b - p < 4096 \<or> gc_cells g b \<noteq> None" if "b \<in> stub_heads ?g" for b
        using that hm by simp
      show "\<not> b - q < 4096" if "b \<in> stub_heads ?g" "q \<in> dom (gc_pools ?g)" for b q
        using that outside [OF hm [of b]] head_not_in_pool(3) [OF ok, of b q] by (cases "q = p") auto
    qed
    have Lq: "?L (free_cells q) = L (free_cells q)" if "q \<in> dom (gc_pools g)" for q
      using that pool_new head_not_in_pool(1) [OF ok \<open>usable_pools g t \<in> stub_heads g\<close> that] by auto
    have Lb: "?L b = L b" if "b \<in> stub_heads g" "b \<noteq> usable_pools g t" for b
      using that ne by simp
    have lists: "lists_ok {} ?g ?L"
      unfolding lists_ok_def
    proof (intro conjI ballI)
      show "family (gc_cells ?g) ?L" using h2(2) by simp
      show "dom ?L = stub_heads ?g \<union> free_cells ` dom (gc_pools ?g)"
        using parts(3) \<open>usable_pools g t \<in> stub_heads g\<close> by (auto simp: lists_ok_def)
      fix u
      assume u: "u \<in> set obj_types"
      from parts(3) this obtain vs fs where v: "L (usable_pools g u) = Some vs" "L (full_pools g u) = Some fs"
        "set vs \<union> set fs \<subseteq> pools_of g u" "pools_of g u - {} \<subseteq> set vs \<union> set fs"
        "\<forall>q \<in> set vs - {}. L (free_cells q) \<noteq> Some []" "\<forall>q \<in> set fs - {}. L (free_cells q) = Some []"
        by (rule lists_ok_type)
      have dom_q: "q \<in> dom (gc_pools g)" if "q \<in> set vs \<union> set fs" for q
        using that v(3) by (auto simp: pools_of_def)
      note hd = heads_distinct [OF parts(1) real_type(1) [OF t] u] heads_distinct [OF parts(1) u real_type(1) [OF t]]
      have full: "?L (full_pools g u) = Some fs" using Lb stub_heads_iff [OF u, of g] hd v(2) by simp
      have Lfs: "\<forall>q \<in> set fs. ?L (free_cells q) = Some []" "\<forall>q \<in> set vs. ?L (free_cells q) \<noteq> Some []"
        using v(5,6) Lq dom_q by (metis UnCI Diff_empty)+
      have Lp: "?L (free_cells p) = Some ?cs" using u_ne by simp
      show "\<exists>us fs. ?L (usable_pools ?g u) = Some us \<and> ?L (full_pools ?g u) = Some fs \<and>
          set us \<union> set fs \<subseteq> pools_of ?g u \<and> pools_of ?g u - {} \<subseteq> set us \<union> set fs \<and>
          (\<forall>q \<in> set us - {}. ?L (free_cells q) \<noteq> Some []) \<and> (\<forall>q \<in> set fs - {}. ?L (free_cells q) = Some [])"
      proof (cases "u = t")
        case True
        have "pools_of ?g u = insert p (pools_of g u)" using pool_new True by (auto simp: pools_of_def)
        then show ?thesis using True full Lfs v(1,3,4) us Lp cs(4)
          by (intro exI [of _ "p # us"] exI [of _ fs]) auto
      next
        case False
        have "pools_of ?g u = pools_of g u" using pool_new False by (auto simp: pools_of_def)
        moreover have "?L (usable_pools g u) = Some vs"
          using Lb [of "usable_pools g u"] stub_heads_iff [OF u, of g] hd v(1) False by simp
        ultimately show ?thesis using full Lfs v(3,4) by (intro exI [of _ vs] exI [of _ fs]) simp
      qed
    qed
    have pools: "pool_ok ?g ?L q Q" if Q: "gc_pools ?g q = Some Q" for q Q
    proof (cases "q = p")
      case True
      have Q': "Q = ?P" using Q True by simp
      note fit = cells_fit [OF parts(1) t]
      have len: "4 * length (bitmap ?P) = unat (bitmap_size ?st)" using fit(3) by simp presburger
      have marks: "mark (bitmap ?P) i = 0" if "i < 16 * length (bitmap ?P)" for i
        using that by (simp add: mark_zeros)
      have lt: "i < cells_of g t \<Longrightarrow> i < 16 * length (bitmap ?P)" for i using fit(1) len by simp
      have "set ?cs = obj_cell ?g t p ` {i. i < cells_of g t \<and> mark (bitmap ?P) i = 0}"
        using marks lt by (auto simp: cs(1) obj_cell_def cells_of_def)
      moreover have "?L (free_cells p) = Some ?cs" using u_ne by simp
      ultimately show ?thesis using t page len marks lt
        unfolding pool_ok_def Q' True by (auto simp del: length_replicate)
    next
      case False
      then have q: "gc_pools g q = Some Q" using Q by simp
      then have "?L (free_cells q) = L (free_cells q)" by (intro Lq) (rule domI)
      then show ?thesis by (intro pool_ok_cong [OF parts(4) [OF q]]) simp_all
    qed
    have "gc_ok ?g ?L"
      using parts(1) mem lists pools unfolding gc_inv_def by simp
    then show ?thesis using run False pool_new us cs(4)
      by (intro disjI2 exI [of _ p] exI [of _ ?g] exI [of _ us] exI [of _ ?cs] conjI exI [of _ ?P]
          exI [of _ vm] exI [of _ h2]) simp_all
  qed
qed

subsection \<open>Steps on a pool that is being worked on\<close>

lemma inv_suspend: "gc_inv D g L \<Longrightarrow> D \<subseteq> D' \<Longrightarrow> gc_inv D' g L"
  unfolding gc_inv_def lists_ok_def by (clarsimp, drule (1) bspec, blast)

lemma inv_dom:
  assumes "gc_inv D g L"
  shows "dom L = stub_heads g \<union> free_cells ` dom (gc_pools g)" "family (gc_cells g) L"
  using gc_ok_parts(3) [OF assms] by (auto simp: lists_ok_def)

lemma memory_ok_dom:
  assumes "memory_ok g" "dom h = dom (gc_cells g)" "dom ps = dom (gc_pools g)"
  shows "memory_ok (g\<lparr>gc_cells := h, gc_pools := ps\<rparr>)"
proof -
  have "h x \<noteq> None \<longleftrightarrow> gc_cells g x \<noteq> None" for x using assms(2) by (metis domIff)
  with assms(1,3) show ?thesis unfolding memory_ok_def by simp
qed

lemma pool_mapped: "memory_ok g \<Longrightarrow> p \<in> dom (gc_pools g) \<Longrightarrow> x - p < 4096 \<Longrightarrow> x \<in> dom (gc_cells g)"
  "memory_ok g \<Longrightarrow> p \<in> dom (gc_pools g) \<Longrightarrow> p \<in> dom (gc_cells g)"
  by (auto simp: memory_ok_def)

text \<open>Changing the free cells and the bitmap.\<close>

lemma inv_cells:
  assumes inv: "gc_inv D g L" and P: "gc_pools g p = Some P" and D: "p \<in> D"
    and h: "family h (L(free_cells p \<mapsto> fs))" "dom h = dom (gc_cells g)"
    and bm: "length bm = length (bitmap P)"
      "\<And>i. cells_of g (p_type P) \<le> i \<Longrightarrow> i < 16 * length bm \<Longrightarrow> mark bm i = 0"
      "\<And>i. i < cells_of g (p_type P) \<Longrightarrow> mark bm i \<noteq> GC_MARK_GRAY"
      "set fs = obj_cell g (p_type P) p ` {i. i < cells_of g (p_type P) \<and> mark bm i = GC_MARK_UNUSED}"
  shows "gc_inv D (g\<lparr>gc_cells := h, gc_pools := (gc_pools g)(p \<mapsto> P\<lparr>bitmap := bm\<rparr>)\<rparr>) (L(free_cells p \<mapsto> fs))"
    (is "gc_inv D ?g ?L")
proof -
  note parts = gc_ok_parts [OF inv]
  have dp: "dom (gc_pools ?g) = dom (gc_pools g)" using P by auto
  have po: "pools_of ?g t = pools_of g t" for t using P by (auto simp: pools_of_def)
  have head: "?L a = L a" if "a \<in> stub_heads g" for a
    using head_not_in_pool(1) [OF inv that, of p] P by auto
  have "memory_ok ?g" using P by (intro memory_ok_dom parts(2) h(2)) auto
  moreover have "lists_ok D ?g ?L"
    unfolding lists_ok_def
  proof (intro conjI ballI)
    show "family (gc_cells ?g) ?L" using h(1) by simp
    show "dom ?L = stub_heads ?g \<union> free_cells ` dom (gc_pools ?g)"
      using inv_dom(1) [OF inv] P unfolding dp by (auto simp: image_iff)
    fix t assume t: "t \<in> set obj_types"
    from parts(3) this obtain us fs' where v: "L (usable_pools g t) = Some us" "L (full_pools g t) = Some fs'"
      "set us \<union> set fs' \<subseteq> pools_of g t" "pools_of g t - D \<subseteq> set us \<union> set fs'"
      "\<forall>p \<in> set us - D. L (free_cells p) \<noteq> Some []" "\<forall>p \<in> set fs' - D. L (free_cells p) = Some []"
      by (rule lists_ok_type)
    have same: "?L (free_cells q) = L (free_cells q)" if "q \<notin> D" for q using that D by auto
    show "\<exists>us fs. ?L (usable_pools ?g t) = Some us \<and> ?L (full_pools ?g t) = Some fs \<and>
        set us \<union> set fs \<subseteq> pools_of ?g t \<and> pools_of ?g t - D \<subseteq> set us \<union> set fs \<and>
        (\<forall>p \<in> set us - D. ?L (free_cells p) \<noteq> Some []) \<and> (\<forall>p \<in> set fs - D. ?L (free_cells p) = Some [])"
    proof (intro exI conjI ballI)
      show "?L (usable_pools ?g t) = Some us" "?L (full_pools ?g t) = Some fs'"
        using head stub_heads_iff [OF t, of g] v(1,2) by simp_all
    qed (use v(3-6) same po in auto)
  qed
  moreover have "pool_ok ?g ?L q Q" if Q: "gc_pools ?g q = Some Q" for q Q
  proof (cases "q = p")
    case True
    then show ?thesis using Q parts(4) [OF P] bm by (auto simp: pool_ok_def)
  next
    case False
    then have q: "gc_pools g q = Some Q" using Q by simp
    then show ?thesis using False by (intro pool_ok_cong [OF parts(4) [OF q]]) simp_all
  qed
  ultimately show ?thesis using parts(1) unfolding gc_inv_def by simp
qed

text \<open>Changing the list of the usable or of the full pools of a type.\<close>

lemma inv_head:
  assumes inv: "gc_inv D g L" and t: "t \<in> set obj_types" and a: "a = usable_pools g t \<or> a = full_pools g t"
    and L: "L a = Some xs" and h: "family h (L(a \<mapsto> ys))" "dom h = dom (gc_cells g)"
    and ys: "set ys - D = set xs - D" "set ys \<subseteq> pools_of g t"
  shows "gc_inv D (g\<lparr>gc_cells := h\<rparr>) (L(a \<mapsto> ys))" (is "gc_inv D ?g ?L")
proof -
  note parts = gc_ok_parts [OF inv]
  have a': "a \<in> stub_heads g" using a t stub_heads_iff [OF t, of g] by auto
  have fc: "?L (free_cells q) = L (free_cells q)" if "q \<in> dom (gc_pools g)" for q
    using head_not_in_pool(1) [OF inv a' that] by auto
  have "memory_ok ?g" using memory_ok_dom [OF parts(2) h(2), of "gc_pools g"] by simp
  moreover have "lists_ok D ?g ?L"
    unfolding lists_ok_def
  proof (intro conjI ballI)
    show "family (gc_cells ?g) ?L" using h(1) by simp
    show "dom ?L = stub_heads ?g \<union> free_cells ` dom (gc_pools ?g)"
      using inv_dom(1) [OF inv] a' by auto
    fix u assume u: "u \<in> set obj_types"
    from parts(3) this obtain us fs where v: "L (usable_pools g u) = Some us" "L (full_pools g u) = Some fs"
      "set us \<union> set fs \<subseteq> pools_of g u" "pools_of g u - D \<subseteq> set us \<union> set fs"
      "\<forall>p \<in> set us - D. L (free_cells p) \<noteq> Some []" "\<forall>p \<in> set fs - D. L (free_cells p) = Some []"
      by (rule lists_ok_type)
    let ?us = "if usable_pools g u = a then ys else us" and ?fs = "if full_pools g u = a then ys else fs"
    note hd = heads_distinct [OF parts(1) t u] heads_distinct [OF parts(1) u t]
    have us: "set ?us - D = set us - D" "set ?us \<subseteq> pools_of g u"
      using a hd L v(1,3) ys by (auto split: if_splits)
    have fs: "set ?fs - D = set fs - D" "set ?fs \<subseteq> pools_of g u"
      using a hd L v(2,3) ys by (auto split: if_splits)
    have in_dom: "q \<in> dom (gc_pools g)" if "q \<in> pools_of g u" for q using that by (auto simp: pools_of_def)
    have 5: "?L (free_cells q) \<noteq> Some []" if "q \<in> set ?us - D" for q
    proof -
      have "q \<in> set us - D" "q \<in> pools_of g u" using that us by blast+
      then show ?thesis using v(5) fc [OF in_dom, of q] by simp
    qed
    have 6: "?L (free_cells q) = Some []" if "q \<in> set ?fs - D" for q
    proof -
      have "q \<in> set fs - D" "q \<in> pools_of g u" using that fs by blast+
      then show ?thesis using v(6) fc [OF in_dom, of q] by simp
    qed
    show "\<exists>us fs. ?L (usable_pools ?g u) = Some us \<and> ?L (full_pools ?g u) = Some fs \<and>
        set us \<union> set fs \<subseteq> pools_of ?g u \<and> pools_of ?g u - D \<subseteq> set us \<union> set fs \<and>
        (\<forall>p \<in> set us - D. ?L (free_cells p) \<noteq> Some []) \<and> (\<forall>p \<in> set fs - D. ?L (free_cells p) = Some [])"
    proof (intro exI conjI ballI)
      show "?L (usable_pools ?g u) = Some ?us" "?L (full_pools ?g u) = Some ?fs" using v(1,2) by auto
      show "set ?us \<union> set ?fs \<subseteq> pools_of ?g u" using us fs by (simp add: pools_of_def)
      show "pools_of ?g u - D \<subseteq> set ?us \<union> set ?fs"
      proof -
        have "pools_of ?g u - D \<subseteq> (set us - D) \<union> (set fs - D)" using v(4) by (auto simp: pools_of_def)
        then show ?thesis using us(1) fs(1) by blast
      qed
    qed (use 5 6 in auto)
  qed
  moreover have "pool_ok ?g ?L q Q" if Q: "gc_pools ?g q = Some Q" for q Q
  proof -
    have q: "gc_pools g q = Some Q" using Q by simp
    show ?thesis
      by (rule pool_ok_cong [OF parts(4) [OF q]]) (simp, rule fc [OF domI], rule q)
  qed
  ultimately show ?thesis using parts(1) unfolding gc_inv_def by simp
qed

text \<open>A pool that is back in the right list.\<close>

lemma inv_resume:
  assumes inv: "gc_inv D g L" and P: "gc_pools g p = Some P"
    and at: "\<exists>xs. L (if L (free_cells p) = Some [] then full_pools g (p_type P) else usable_pools g (p_type P)) =
      Some xs \<and> p \<in> set xs"
  shows "gc_inv (D - {p}) g L"
proof -
  note parts = gc_ok_parts [OF inv]
  have fam: "family (gc_cells g) L" by (rule inv_dom(2) [OF inv])
  have tp: "p_type P \<in> set obj_types" using parts(4) [OF P] real_type(1) by (auto simp: pool_ok_def)
  have "lists_ok (D - {p}) g L"
    unfolding lists_ok_def
  proof (intro conjI ballI)
    show "family (gc_cells g) L" by (rule fam)
    show "dom L = stub_heads g \<union> free_cells ` dom (gc_pools g)" by (rule inv_dom(1) [OF inv])
    fix u assume u: "u \<in> set obj_types"
    from parts(3) this obtain us fs where v: "L (usable_pools g u) = Some us" "L (full_pools g u) = Some fs"
      "set us \<union> set fs \<subseteq> pools_of g u" "pools_of g u - D \<subseteq> set us \<union> set fs"
      "\<forall>p \<in> set us - D. L (free_cells p) \<noteq> Some []" "\<forall>p \<in> set fs - D. L (free_cells p) = Some []"
      by (rule lists_ok_type)
    have ty: "p \<in> set us \<union> set fs \<Longrightarrow> u = p_type P" using v(3) P by (auto simp: pools_of_def)
    have dis: "set us \<inter> set fs = {}"
      using family_disjoint [OF fam v(1,2)] heads_distinct(3) [OF parts(1) u u] by simp
    have "p \<in> set us \<Longrightarrow> L (free_cells p) \<noteq> Some []" "p \<in> set fs \<Longrightarrow> L (free_cells p) = Some []"
      using ty at v(1,2) dis by (auto split: if_splits)
    moreover have "u = p_type P \<Longrightarrow> p \<in> set us \<union> set fs" using at v(1,2) by (auto split: if_splits)
    moreover have "p \<in> pools_of g u \<Longrightarrow> u = p_type P" using P by (auto simp: pools_of_def)
    ultimately show "\<exists>us fs. L (usable_pools g u) = Some us \<and> L (full_pools g u) = Some fs \<and>
        set us \<union> set fs \<subseteq> pools_of g u \<and> pools_of g u - (D - {p}) \<subseteq> set us \<union> set fs \<and>
        (\<forall>q \<in> set us - (D - {p}). L (free_cells q) \<noteq> Some []) \<and>
        (\<forall>q \<in> set fs - (D - {p}). L (free_cells q) = Some [])"
      using v by (intro exI [of _ us] exI [of _ fs]) auto
  qed
  with inv show ?thesis unfolding gc_inv_def by simp
qed

subsection \<open>Taking a cell\<close>

text \<open>The parts of \<open>gc_alloc_obj\<close> that take a free cell, moving its pool to the full pools
  when it was the last one, and that mark it white.\<close>

definition gc_get_cell :: "M_GCObjType \<Rightarrow> addr \<Rightarrow> GC \<Rightarrow> (addr \<times> addr \<times> GC) option" where
  "gc_get_cell type pool g = do {
     c \<leftarrow> m_slist_pop (free_cells pool) (gc_cells g);
     e \<leftarrow> m_slist_empty (free_cells pool) (snd c);
     (if e then do {
        q \<leftarrow> m_slist_pop (usable_pools g type) (snd c);
        h \<leftarrow> m_slist_push (full_pools g type) (m_node_value (fst q) 0) (snd q);
        Some (m_node_value (fst c) 0, m_node_value (fst q) 0, g\<lparr>gc_cells := h\<rparr>) }
      else Some (m_node_value (fst c) 0, pool, g\<lparr>gc_cells := snd c\<rparr>)) }"

definition gc_set_white :: "M_GCObjDescr \<Rightarrow> addr \<Rightarrow> addr \<Rightarrow> GC \<Rightarrow> GC option" where
  "gc_set_white od cell pool g = do {
     P \<leftarrow> gc_pools g pool;
     i \<leftarrow> gc_obj_get_id od P cell;
     bmp \<leftarrow> gc_obj_set_bitmap (bitmap P) i GC_MARK_WHITE;
     Some (g\<lparr>gc_pools := (gc_pools g)(pool \<mapsto> P\<lparr>bitmap := bmp\<rparr>),
              gc_allocated_size := gc_allocated_size g + ucast (d_size od)\<rparr>) }"

lemma node_val_0 [simp]: "m_node_value a 0 = a"
  by (simp add: m_node_value_def M_CONTAINER_OF_def)

lemma pool_ok_static [simp]:
  "pool_ok (gc_vm_update f0 g) L p P = pool_ok g L p P"
  "pool_ok (gc_cells_update f1 g) L p P = pool_ok g L p P"
  "pool_ok (gc_pools_update f2 g) L p P = pool_ok g L p P"
  "pool_ok (gc_begin_size_update f3 g) L p P = pool_ok g L p P"
  "pool_ok (gc_gray_stack_update f4 g) L p P = pool_ok g L p P"
  "pool_ok (gc_gray_limit_update f5 g) L p P = pool_ok g L p P"
  "pool_ok (gc_status_update f6 g) L p P = pool_ok g L p P"
  "pool_ok (gc_need_scan_gray_update f7 g) L p P = pool_ok g L p P"
  "pool_ok (gc_allocated_size_update f8 g) L p P = pool_ok g L p P"
  "pool_ok (gc_last_allocated_size_update f9 g) L p P = pool_ok g L p P"
  by (simp_all add: pool_ok_def)

lemma gc_inv_static [simp]:
  "gc_inv D (gc_begin_size_update f3 g) L = gc_inv D g L"
  "gc_inv D (gc_gray_stack_update f4 g) L = gc_inv D g L"
  "gc_inv D (gc_gray_limit_update f5 g) L = gc_inv D g L"
  "gc_inv D (gc_status_update f6 g) L = gc_inv D g L"
  "gc_inv D (gc_need_scan_gray_update f7 g) L = gc_inv D g L"
  "gc_inv D (gc_allocated_size_update f8 g) L = gc_inv D g L"
  "gc_inv D (gc_last_allocated_size_update f9 g) L = gc_inv D g L"
  by (simp_all add: gc_inv_def memory_ok_def lists_ok_def pools_of_def)

lemma pool_bits:
  assumes "config_ok g" "pool_ok g L p P"
  shows "cells_of g (p_type P) \<le> 16 * length (bitmap P)" "cells_of g (p_type P) < 4096"
proof -
  have t: "p_type P \<in> real_types" and len: "4 * length (bitmap P) = unat (bitmap_size (gc_obj_stubs g (p_type P)))"
    using assms(2) by (auto simp: pool_ok_def)
  show "cells_of g (p_type P) \<le> 16 * length (bitmap P)" using cells_fit(1) [OF assms(1) t] len by simp
  have lay: "layout_ok (gc_obj_stubs g (p_type P)) (descr_of (p_type P))"
    using assms(1) t by (simp add: config_ok_def)
  then have "cells_of g (p_type P) * 8 \<le> cells_of g (p_type P) * unat (d_size (descr_of (p_type P)))"
    by (intro mult_le_mono2) (simp add: layout_ok_def)
  moreover have "40 + cells_of g (p_type P) * unat (d_size (descr_of (p_type P))) \<le> 4096"
    using lay unfolding layout_ok_def cells_of_def by linarith
  ultimately show "cells_of g (p_type P) < 4096" by linarith
qed

lemma obj_cell_inj:
  assumes "config_ok g" "pool_ok g L p P" "i < cells_of g (p_type P)" "j < cells_of g (p_type P)"
    "obj_cell g (p_type P) p i = obj_cell g (p_type P) p j"
  shows "i = j"
proof -
  have "layout_ok (gc_obj_stubs g (p_type P)) (descr_of (p_type P))" "page_start p"
    using assms(1,2) by (auto simp: pool_ok_def config_ok_def)
  then show ?thesis
    using cell_inj [of _ _ p i j] assms(3-5) unfolding obj_cell_def cells_of_def by metis
qed

lemma obj_cell_facts:
  assumes "gc_inv D g L" "gc_pools g p = Some P" "i < cells_of g (p_type P)"
  shows "page_of (obj_cell g (p_type P) p i) = p" "obj_cell g (p_type P) p i \<noteq> 0"
    "obj_cell g (p_type P) p i - p < 4096" "obj_cell g (p_type P) p i \<noteq> free_cells p"
    "obj_cell g (p_type P) p i \<noteq> p"
    "gc_obj_get_id (descr_of (p_type P)) P (obj_cell g (p_type P) p i) = Some (of_nat i)"
    "gc_obj_get_pool g (obj_cell g (p_type P) p i) = p"
    "i < 16 * length (bitmap P)" "i < 2 ^ 31"
proof -
  note parts = gc_ok_parts [OF assms(1)]
  have ok: "pool_ok g L p P" by (rule parts(4) [OF assms(2)])
  then have lay: "layout_ok (gc_obj_stubs g (p_type P)) (descr_of (p_type P))" and page: "page_start p"
    and b: "p_begin P = p + sizeof_cell_pool + bitmap_size (gc_obj_stubs g (p_type P))"
    using parts(1) by (auto simp: pool_ok_def config_ok_def)
  have i: "i < unat (cell_num (gc_obj_stubs g (p_type P)))" using assms(3) by (simp add: cells_of_def)
  show pg: "page_of (obj_cell g (p_type P) p i) = p" and "obj_cell g (p_type P) p i \<noteq> 0"
    "obj_cell g (p_type P) p i - p < 4096" "obj_cell g (p_type P) p i \<noteq> free_cells p"
    "obj_cell g (p_type P) p i \<noteq> p"
    using cell_page [OF lay page i] by (simp_all add: obj_cell_def)
  show "gc_obj_get_id (descr_of (p_type P)) P (obj_cell g (p_type P) p i) = Some (of_nat i)"
    using cell_id(1) [OF lay page i b] by (simp add: obj_cell_def)
  show "gc_obj_get_pool g (obj_cell g (p_type P) p i) = p"
    using pg parts(1) by (simp add: gc_obj_get_pool_def page_of_def config_ok_def)
  show "i < 16 * length (bitmap P)" "i < 2 ^ 31"
    using pool_bits [OF parts(1) ok] assms(3) by simp_all
qed

lemma take_cell_ok:
  assumes ok: "gc_ok g L" and t: "t \<in> real_types" and us: "L (usable_pools g t) = Some (p # us)"
  shows "\<exists>c g1 h P i L'. gc_get_cell t p g = Some (c, p, g1) \<and>
    gc_set_white (descr_of t) c p g1 = Some (g\<lparr>gc_cells := h,
      gc_pools := (gc_pools g)(p \<mapsto> P\<lparr>bitmap := set_mark (bitmap P) i GC_MARK_WHITE\<rparr>),
      gc_allocated_size := gc_allocated_size g + ucast (d_size (descr_of t))\<rparr>) \<and>
    g1 = g\<lparr>gc_cells := h\<rparr> \<and>
    gc_pools g p = Some P \<and> p_type P = t \<and> i < cells_of g t \<and> mark (bitmap P) i = GC_MARK_UNUSED \<and>
    c = obj_cell g t p i \<and>
    gc_ok (g\<lparr>gc_cells := h, gc_pools := (gc_pools g)(p \<mapsto> P\<lparr>bitmap := set_mark (bitmap P) i GC_MARK_WHITE\<rparr>)\<rparr>) L'"
proof -
  note parts = gc_ok_parts [OF ok]
  have t': "t \<in> set obj_types" using t by (rule real_type(1))
  from parts(3) t' obtain vs fs where v: "L (usable_pools g t) = Some vs" "L (full_pools g t) = Some fs"
    "set vs \<union> set fs \<subseteq> pools_of g t" "pools_of g t - {} \<subseteq> set vs \<union> set fs"
    "\<forall>p \<in> set vs - {}. L (free_cells p) \<noteq> Some []" "\<forall>p \<in> set fs - {}. L (free_cells p) = Some []"
    by (rule lists_ok_type)
  have vs: "vs = p # us" using us v(1) by simp
  then obtain P where P: "gc_pools g p = Some P" "p_type P = t" using v(3) by (auto simp: pools_of_def)
  note pok = parts(4) [OF P(1)]
  let ?n = "cells_of g t"
  obtain ff where ff: "L (free_cells p) = Some ff"
    "set ff = obj_cell g t p ` {i. i < ?n \<and> mark (bitmap P) i = GC_MARK_UNUSED}"
    using pok P(2) by (auto simp: pool_ok_def)
  have "ff \<noteq> []" using v(5) ff(1) vs by auto
  then obtain c cs where c: "ff = c # cs" by (cases ff) auto
  then obtain i where i: "i < ?n" "mark (bitmap P) i = GC_MARK_UNUSED" "c = obj_cell g t p i"
    using ff(2) by auto
  have fam: "family (gc_cells g) L" by (rule inv_dom(2) [OF ok])
  have dist: "distinct (c # cs)"
    using slist_distinct [OF family_slist [OF fam ff(1)]] c by simp
  obtain h1 where h1: "m_slist_pop (free_cells p) (gc_cells g) = Some (c, h1)"
    "family h1 (L(free_cells p \<mapsto> cs))" "dom h1 = dom (gc_cells g)"
    using family_pop [OF fam] ff(1) c by blast
  let ?bm = "set_mark (bitmap P) i GC_MARK_WHITE" and ?L1 = "L(free_cells p \<mapsto> cs)"
  let ?ps = "(gc_pools g)(p \<mapsto> P\<lparr>bitmap := ?bm\<rparr>)"
  have len: "i < 16 * length (bitmap P)" and i31: "i < 2 ^ 31"
    using obj_cell_facts(8,9) [OF ok P(1)] i(1) P(2) by simp_all
  have mk: "mark ?bm j = (if j = i then GC_MARK_WHITE else mark (bitmap P) j)" for j
    using len by (simp add: mark_set_mark)
  have inv1: "gc_inv {p} (g\<lparr>gc_cells := h1, gc_pools := ?ps\<rparr>) ?L1"
  proof (rule inv_cells [OF inv_suspend [OF ok] P(1) _ h1(2,3)])
    show "mark ?bm j = 0" if "cells_of g (p_type P) \<le> j" "j < 16 * length ?bm" for j
      using that pok i(1) P(2) by (auto simp: mk pool_ok_def)
    show "mark ?bm j \<noteq> GC_MARK_GRAY" if "j < cells_of g (p_type P)" for j
      using that pok by (auto simp: mk pool_ok_def)
    have "{j. j < ?n \<and> mark ?bm j = GC_MARK_UNUSED} = {j. j < ?n \<and> mark (bitmap P) j = GC_MARK_UNUSED} - {i}"
      by (auto simp: mk)
    moreover have "inj_on (obj_cell g t p) {j. j < ?n}"
      using obj_cell_inj [OF parts(1) pok] P(2) by (auto simp: inj_on_def)
    ultimately have "obj_cell g t p ` {j. j < ?n \<and> mark ?bm j = GC_MARK_UNUSED} = set ff - {c}"
      using i ff(2) by (auto simp: inj_on_def)
    then show "set cs = obj_cell g (p_type P) p ` {j. j < cells_of g (p_type P) \<and> mark ?bm j = GC_MARK_UNUSED}"
      using c dist P(2) by simp
  qed simp_all
  have white: "gc_set_white (descr_of t) c p (g\<lparr>gc_cells := h\<rparr>) = Some (g\<lparr>gc_cells := h,
      gc_pools := ?ps, gc_allocated_size := gc_allocated_size g + ucast (d_size (descr_of t))\<rparr>)" for h
    using obj_cell_facts(6) [OF ok P(1)] i(1,3) P set_bitmap_mark [OF len i31]
    by (simp add: gc_set_white_def)
  have ps: "?ps p = Some (P\<lparr>bitmap := ?bm\<rparr>)" by simp
  have ne: "usable_pools g t \<noteq> free_cells p" "full_pools g t \<noteq> free_cells p"
    using head_not_in_pool(1) [OF ok, of _ p] stub_heads_iff [OF t', of g] P(1) by auto
  have empty: "m_slist_empty (free_cells p) h1 = Some (cs = [])"
    by (rule family_is_empty [OF h1(2)]) simp
  show ?thesis
  proof (cases "cs = []")
    case False
    have run: "gc_get_cell t p g = Some (c, p, g\<lparr>gc_cells := h1\<rparr>)"
      using h1(1) empty False by (simp add: gc_get_cell_def)
    have "gc_inv ({p} - {p}) (g\<lparr>gc_cells := h1, gc_pools := ?ps\<rparr>) ?L1"
      by (rule inv_resume [OF inv1]) (use False us P(2) ne in auto)
    then show ?thesis using run white P i by (intro exI conjI) (assumption | simp)+
  next
    case True
    have u1: "?L1 (usable_pools g t) = Some (p # us)" using us ne by simp
    obtain h2 where h2: "m_slist_pop (usable_pools g t) h1 = Some (p, h2)"
      "family h2 (?L1(usable_pools g t \<mapsto> us))" "dom h2 = dom h1"
      using family_pop [OF h1(2) u1] by blast
    let ?L2 = "?L1(usable_pools g t \<mapsto> us)"
    let ?g1 = "g\<lparr>gc_cells := h1, gc_pools := ?ps\<rparr>"
    have po: "pools_of ?g1 t = pools_of g t" using P by (auto simp: pools_of_def)
    have inv2: "gc_inv {p} (?g1\<lparr>gc_cells := h2\<rparr>) ?L2"
      by (rule inv_head [OF inv1 t' _ u1 h2(2)]) (use h2(3) v(3) vs po in \<open>auto simp del: fun_upd_apply\<close>)
    have hd: "full_pools g t \<noteq> usable_pools g t" using heads_distinct(4) [OF parts(1) t' t'] by simp
    have f2: "?L2 (full_pools g t) = Some fs" using v(2) ne hd by simp
    have "p \<in> dom (gc_pools g)" using P(1) by blast
    then have "p \<in> dom (gc_cells g)" using pool_mapped [OF parts(2)] by simp
    then have p_map: "h2 p \<noteq> None" using h1(3) h2(3) by auto
    then obtain n where n: "h2 p = Some n" by blast
    have p0: "p \<noteq> 0" using pok by (simp add: pool_ok_def page_start_def)
    have up: "p \<in> set (p # us)" "distinct (p # us)" "set (p # us) \<inter> dom L = {}"
      using slist_distinct [OF family_slist [OF fam us]] family_heads [OF fam us] by simp_all
    have oth: "p \<notin> set zs" if "L b = Some zs" "b \<noteq> usable_pools g t" for b zs
      using family_disjoint [OF fam us that(1)] that(2) by auto
    have sub: "p \<notin> set cs" using oth [OF ff(1)] ne(1) c by auto
    have else: "elsewhere ?L2 p"
      unfolding elsewhere_def
    proof (intro conjI allI impI)
      show "p \<notin> dom ?L2" using up(3) us ff(1) by auto
      fix b zs assume "?L2 b = Some zs"
      then show "p \<notin> set zs" using oth [of b zs] up(2) sub by (auto split: if_splits)
    qed
    obtain h3 where h3: "m_slist_push (full_pools g t) p h2 = Some h3"
      "family h3 (?L2(full_pools g t \<mapsto> p # fs))" "dom h3 = dom h2"
      using family_push [OF h2(2) f2 p0 n else] by blast
    let ?L3 = "?L2(full_pools g t \<mapsto> p # fs)"
    have inv3: "gc_inv {p} (?g1\<lparr>gc_cells := h2\<rparr>\<lparr>gc_cells := h3\<rparr>) ?L3"
      by (rule inv_head [OF inv2 t' _ f2 h3(2)])
        (use h3(3) v(3) vs po in \<open>auto simp del: fun_upd_apply simp: pools_of_def\<close>)
    have "gc_inv ({p} - {p}) (?g1\<lparr>gc_cells := h2\<rparr>\<lparr>gc_cells := h3\<rparr>) ?L3"
      by (rule inv_resume [OF inv3]) (use True P(2) ne hd in auto)
    moreover have eq: "?g1\<lparr>gc_cells := h2\<rparr>\<lparr>gc_cells := h3\<rparr> = g\<lparr>gc_cells := h3, gc_pools := ?ps\<rparr>"
      by (cases g) simp
    ultimately have "gc_ok (g\<lparr>gc_cells := h3, gc_pools := ?ps\<rparr>) ?L3" by (simp only: Diff_cancel)
    moreover have "gc_get_cell t p g = Some (c, p, g\<lparr>gc_cells := h3\<rparr>)"
      using h1(1) empty True h2(1) h3(1) by (simp add: gc_get_cell_def)
    ultimately show ?thesis using white P i by (intro exI conjI) (assumption | simp)+
  qed
qed

end
