(* ===== verification/GC_Sweep.thy ===== *)
theory GC_Sweep
  imports GC_Alloc
begin

text \<open>
  Sweeping: \<open>gc_sweep_pool\<close> and \<open>gc_sweep\<close> of \<open>src/m_gc_obj.c\<close>. White cells
  go back to the free cells of their pool, black cells become white, pools without a black cell are
  unmapped. The final functions of all types have empty bodies.
\<close>

subsection \<open>The loops\<close>

text \<open>The state of the loop over the bitmap of a pool: \<open>have_black\<close>, the bitmap, the list
  nodes and \<open>gc_allocated_size\<close>.\<close>

type_synonym sweep = "bool \<times> u32 list \<times> sheap \<times> u64"

definition sweep_cell :: "M_GCObjDescr \<Rightarrow> addr \<Rightarrow> nat \<Rightarrow> u32 \<Rightarrow> addr \<Rightarrow> nat \<Rightarrow> sweep \<Rightarrow> sweep option" where
  "sweep_cell descr pool n m ptr shift s =
     (case s of (have_black, bmp, h, allocated) \<Rightarrow>
      let clear = bmp[n := bmp ! n AND NOT (push_bit shift 3)] in
      if m = GC_MARK_WHITE then do {
        h' \<leftarrow> m_slist_push (free_cells pool) ptr h;
        Some (have_black, clear, h', allocated - ucast (d_size descr)) }
      else if m = GC_MARK_BLACK then
        Some (True, clear[n := clear ! n OR push_bit shift GC_MARK_WHITE], h, allocated)
      else if m = GC_MARK_GRAY then None
      else Some s)"

function sweep_word :: "M_GCObjDescr \<Rightarrow> addr \<Rightarrow> nat \<Rightarrow> u32 \<Rightarrow> addr \<Rightarrow> nat \<Rightarrow> sweep \<Rightarrow> sweep option" where
  "sweep_word descr pool n flags ptr shift s = do {
     s' \<leftarrow> sweep_cell descr pool n (flags AND 3) ptr shift s;
     (let flags' = drop_bit 2 flags in
      if flags' = 0 then Some s'
      else sweep_word descr pool n flags' (ptr + ucast (d_size descr)) (shift + 2) s') }"
  by pat_completeness auto

lemma flags_decrease: "drop_bit 2 flags \<noteq> 0 \<Longrightarrow> unat (drop_bit 2 flags) < unat flags" for flags :: u32
proof -
  have u: "unat (drop_bit 2 flags) = unat flags div 4"
    unfolding unsigned_drop_bit_eq using unsigned_less [of flags, where ?'a = nat]
    by (simp add: take_bit_eq_mod drop_bit_eq_div)
  assume "drop_bit 2 flags \<noteq> 0"
  then have "unat (drop_bit 2 flags) \<noteq> 0" using unat_eq_0 by blast
  then show ?thesis unfolding u by simp
qed

termination sweep_word
  by (relation "measure (\<lambda>(_, _, _, flags, _). unat flags)") (simp_all add: flags_decrease)

declare sweep_word.simps [simp del]

fun sweep_words :: "M_GCObjDescr \<Rightarrow> addr \<Rightarrow> addr \<Rightarrow> nat \<Rightarrow> nat \<Rightarrow> sweep \<Rightarrow> sweep option" where
  "sweep_words descr pool begin 0 n s = Some s"
| "sweep_words descr pool begin (Suc k) n s = do {
     c_assert (n < length (fst (snd s)));
     s' \<leftarrow> (let flags = fst (snd s) ! n in
       if flags \<noteq> 0 then sweep_word descr pool n flags (begin + ucast (of_nat (16 * n) * d_size descr)) 0 s
       else Some s);
     sweep_words descr pool begin k (Suc n) s' }"

definition gc_sweep_pool :: "M_GCObjDescr \<Rightarrow> M_GCObjType \<Rightarrow> addr \<Rightarrow> GC \<Rightarrow> GC option" where
  "gc_sweep_pool descr type pool g = do {
     P \<leftarrow> gc_pools g pool;
     s \<leftarrow> sweep_words descr pool (p_begin P) (unat (bitmap_size (gc_obj_stubs g type)) div 4) 0
       (False, bitmap P, gc_cells g, gc_allocated_size g);
     (case s of (have_black, bmp, h, allocated) \<Rightarrow>
      let g1 = g\<lparr>gc_cells := h, gc_pools := (gc_pools g)(pool \<mapsto> P\<lparr>bitmap := bmp\<rparr>),
                 gc_allocated_size := allocated\<rparr> in
      if have_black then do {
        e \<leftarrow> m_slist_empty (free_cells pool) h;
        h' \<leftarrow> m_slist_push (if e then full_pools g type else usable_pools g type) pool h;
        Some (g1\<lparr>gc_cells := h'\<rparr>) }
      else Some (gc_free_pool pool g1)) }"

definition sweep_body :: "M_GCObjDescr \<Rightarrow> M_GCObjType \<Rightarrow> addr \<Rightarrow> sheap \<times> GC \<Rightarrow> (sheap \<times> GC) option" where
  "sweep_body descr type pool s = do {
     g \<leftarrow> gc_sweep_pool descr type pool (snd s);
     Some (gc_cells g, g) }"

text \<open>One round of the loop of \<open>gc_sweep\<close>: the heads are copied to local variables and
  initialized, then the pools of the copies are swept.\<close>

definition gc_sweep_type :: "M_GCObjType \<Rightarrow> GC \<Rightarrow> GC option" where
  "gc_sweep_type type g = do {
     descr \<leftarrow> gc_obj_get_descr type;
     full \<leftarrow> rd (gc_cells g) (full_pools g type);
     usable \<leftarrow> rd (gc_cells g) (usable_pools g type);
     h1 \<leftarrow> m_slist_init (full_pools g type) (gc_cells g);
     h2 \<leftarrow> m_slist_init (usable_pools g type) h1;
     s1 \<leftarrow> m_slist_foreach_value_safe_loop 0 (sweep_body descr type) (m_node_value (s_next full) 0)
       (h2, g\<lparr>gc_cells := h2\<rparr>);
     s2 \<leftarrow> m_slist_foreach_value_safe_loop 0 (sweep_body descr type) (m_node_value (s_next usable) 0) s1;
     Some (snd s2) }"

fun gc_sweep_types :: "M_GCObjType list \<Rightarrow> GC \<Rightarrow> GC option" where
  "gc_sweep_types [] g = Some g"
| "gc_sweep_types (t # ts) g = do { g' \<leftarrow> gc_sweep_type t g; gc_sweep_types ts g' }"

definition gc_sweep :: "GC \<Rightarrow> GC option" where
  "gc_sweep g = do {
     g' \<leftarrow> gc_sweep_types obj_types g;
     Some (g'\<lparr>gc_last_allocated_size := gc_allocated_size g'\<rparr>) }"

subsection \<open>Addresses of other pools\<close>

lemma and_3_less: "w AND 3 < (4 :: u32)"
proof -
  have "(3 :: u32) = mask 2" by (simp add: mask_eq_exp_minus_1)
  then have "w AND 3 = take_bit 2 w" by (simp add: take_bit_eq_mask)
  then have "unat (w AND 3) = take_bit 2 (unat w)" by (simp only: unsigned_take_bit_eq)
  then have "unat (w AND 3) = unat w mod 4" by (simp only: take_bit_eq_mod) simp
  then show ?thesis by (simp add: word_less_nat_alt)
qed

lemma word_less_4: "m < 4 \<Longrightarrow> m = 0 \<or> m = 1 \<or> m = 2 \<or> m = 3" for m :: u32
proof -
  assume "m < 4"
  then have "unat m < 4" by (simp add: word_less_nat_alt)
  then have "unat m = unat (0 :: u32) \<or> unat m = unat (1 :: u32) \<or> unat m = unat (2 :: u32) \<or> unat m = unat (3 :: u32)"
    by auto
  then show ?thesis by (simp only: word_unat_eq_iff)
qed

lemma pages_apart:
  assumes "page_start p" "page_start q" "p \<noteq> q" "x - q < 4096"
  shows "\<not> x - p < 4096"
  using assms page_of_eq [of p x] page_of_eq [of q x] by auto

text \<open>The nodes and heads of the lists, the free cells of \<open>p\<close> apart, are outside of \<open>p\<close>
  unless \<open>p\<close> itself is a node.\<close>

lemma list_pages:
  assumes inv: "gc_inv D g L" and p: "p \<in> dom (gc_pools g)"
    and b: "L b = Some xs" "b \<noteq> free_cells p" and c: "c \<in> insert b (set xs)" "c \<noteq> p"
  shows "\<not> c - p < 4096"
proof -
  note parts = gc_ok_parts [OF inv]
  have pg: "page_start q" if "q \<in> dom (gc_pools g)" for q using gc_ok_page [OF inv that] .
  have other: "\<not> x - p < 4096" if "q \<in> dom (gc_pools g)" "q \<noteq> p" "x - q < 4096" for q x
    using pages_apart [OF pg [OF p] pg [OF that(1)]] that by auto
  have self: "q - q < 4096" for q :: addr by simp
  have "b \<in> dom L" using b(1) by auto
  then have "b \<in> stub_heads g \<or> b \<in> free_cells ` dom (gc_pools g)"
    using inv_dom(1) [OF inv] by simp
  then show ?thesis
  proof
    assume h: "b \<in> stub_heads g"
    show ?thesis
    proof (cases "c = b")
      case True
      then show ?thesis using head_not_in_pool(3) [OF inv h p] by simp
    next
      case False
      then have cx: "c \<in> set xs" using c(1) by simp
      from h obtain t where t: "t \<in> set obj_types" "b = usable_pools g t \<or> b = full_pools g t"
        by (auto simp: stub_heads_def)
      from parts(3) t(1) obtain us fs where v: "L (usable_pools g t) = Some us" "L (full_pools g t) = Some fs"
        "set us \<union> set fs \<subseteq> pools_of g t" "pools_of g t - D \<subseteq> set us \<union> set fs"
        "\<forall>p \<in> set us - D. L (free_cells p) \<noteq> Some []" "\<forall>p \<in> set fs - D. L (free_cells p) = Some []"
        by (rule lists_ok_type)
      have "c \<in> pools_of g t" using t(2) v(1-3) b(1) cx by auto
      then have "c \<in> dom (gc_pools g)" by (auto simp: pools_of_def)
      then show ?thesis using other [OF _ c(2) self] by simp
    qed
  next
    assume "b \<in> free_cells ` dom (gc_pools g)"
    then obtain q where q: "b = free_cells q" "q \<in> dom (gc_pools g)" by blast
    then have qp: "q \<noteq> p" using b(2) by auto
    obtain Q where Q: "gc_pools g q = Some Q" using q(2) by auto
    have "c - q < 4096"
    proof (cases "c = b")
      case True
      then show ?thesis using free_cells_page(1) [OF pg [OF q(2)]] q(1) by simp
    next
      case False
      then have "c \<in> set xs" using c(1) by simp
      then obtain i where "i < cells_of g (p_type Q)" "c = obj_cell g (p_type Q) q i"
        using parts(4) [OF Q] b(1) q(1) by (auto simp: pool_ok_def)
      then show ?thesis using obj_cell_facts(3) [OF inv Q] by simp
    qed
    then show ?thesis by (rule other [OF q(2) qp])
  qed
qed

lemma cell_elsewhere:
  assumes inv: "gc_inv D g L" and P: "gc_pools g p = Some P"
    and i: "i < cells_of g (p_type P)" and b: "L b = Some xs" "b \<noteq> free_cells p"
  shows "obj_cell g (p_type P) p i \<notin> insert b (set xs)"
proof
  assume "obj_cell g (p_type P) p i \<in> insert b (set xs)"
  then have "\<not> obj_cell g (p_type P) p i - p < 4096"
    using obj_cell_facts(5) [OF inv P i] P by (intro list_pages [OF inv _ b]) auto
  then show False using obj_cell_facts(3) [OF inv P i] by simp
qed

subsection \<open>The bitmap loop\<close>

definition swept :: "u32 \<Rightarrow> u32" where
  "swept m = (if m = GC_MARK_BLACK then GC_MARK_WHITE else GC_MARK_UNUSED)"

text \<open>The first \<open>k\<close> marks of \<open>P\<close> have been swept.\<close>

definition marked_below :: "M_GCCellPool \<Rightarrow> nat \<Rightarrow> u32 \<Rightarrow> nat set" where
  "marked_below P k m = {i. i < k \<and> mark (bitmap P) i = m}"

definition sweep_at ::
    "GC \<Rightarrow> (addr \<rightharpoonup> addr list) \<Rightarrow> addr \<Rightarrow> M_GCCellPool \<Rightarrow> nat \<Rightarrow> sweep \<Rightarrow> bool" where
  "sweep_at g L p P k s \<longleftrightarrow> (case s of (have_black, bmp, h, allocated) \<Rightarrow>
     length bmp = length (bitmap P) \<and>
     (\<forall>i < 16 * length bmp. mark bmp i = (if i < k then swept (mark (bitmap P) i) else mark (bitmap P) i)) \<and>
     have_black = (marked_below P k GC_MARK_BLACK \<noteq> {}) \<and>
     allocated = gc_allocated_size g -
       of_nat (card (marked_below P k GC_MARK_WHITE)) * ucast (d_size (descr_of (p_type P))) \<and>
     dom h = dom (gc_cells g) \<and> (\<forall>b. \<not> b - p < 4096 \<longrightarrow> h b = gc_cells g b) \<and>
     (\<exists>fs. family h (L(free_cells p \<mapsto> fs)) \<and>
       set fs = obj_cell g (p_type P) p ` ({i. i < cells_of g (p_type P) \<and> mark (bitmap P) i = GC_MARK_UNUSED} \<union>
         marked_below P k GC_MARK_WHITE)))"

lemma swept_0 [simp]: "swept 0 = 0" by (simp add: swept_def)

lemma marked_below_Suc:
  "marked_below P (Suc k) m = (if mark (bitmap P) k = m then insert k (marked_below P k m) else marked_below P k m)"
  by (auto simp: marked_below_def less_Suc_eq)

lemma marked_below_finite [simp]: "finite (marked_below P k m)" "k \<notin> marked_below P k m"
  by (simp_all add: marked_below_def)

lemma marked_below_skip:
  assumes "k \<le> k'" "\<And>i. k \<le> i \<Longrightarrow> i < k' \<Longrightarrow> mark (bitmap P) i = 0" "m \<noteq> 0"
  shows "marked_below P k' m = marked_below P k m"
  using assms by (auto simp: marked_below_def) (metis not_less)

lemma sweep_at_skip:
  assumes s: "sweep_at g L p P k s" and k: "k \<le> k'"
    and z: "\<And>i. k \<le> i \<Longrightarrow> i < k' \<Longrightarrow> mark (bitmap P) i = 0"
  shows "sweep_at g L p P k' s"
proof -
  obtain hb bmp h al where [simp]: "s = (hb, bmp, h, al)" by (cases s)
  have m: "mark bmp i = (if i < k' then swept (mark (bitmap P) i) else mark (bitmap P) i)"
    if "i < 16 * length bmp" for i
    using s that z [of i] k by (cases "i < k") (auto simp: sweep_at_def)
  have "marked_below P k' GC_MARK_WHITE = marked_below P k GC_MARK_WHITE"
    "marked_below P k' GC_MARK_BLACK = marked_below P k GC_MARK_BLACK"
    using marked_below_skip [OF k z] by simp_all
  then show ?thesis using s m by (simp add: sweep_at_def)
qed

lemma sweep_at_0:
  assumes inv: "gc_inv D g L" and P: "gc_pools g p = Some P"
  shows "sweep_at g L p P 0 (False, bitmap P, gc_cells g, gc_allocated_size g)"
proof -
  note parts = gc_ok_parts [OF inv]
  obtain fs where fs: "L (free_cells p) = Some fs"
    "set fs = obj_cell g (p_type P) p ` {i. i < cells_of g (p_type P) \<and> mark (bitmap P) i = GC_MARK_UNUSED}"
    using parts(4) [OF P] by (auto simp: pool_ok_def)
  have "L(free_cells p \<mapsto> fs) = L" using fs(1) by (simp add: fun_upd_idem)
  then have "family (gc_cells g) (L(free_cells p \<mapsto> fs))" using inv_dom(2) [OF inv] by simp
  moreover have e: "marked_below P 0 m = {}" for m by (simp add: marked_below_def)
  ultimately show ?thesis using fs(2) by (auto simp: sweep_at_def)
qed

lemma mark_bits:
  "mark bmp (16 * n + j) = drop_bit (2 * j) (bmp ! n) AND 3" if "j < 16"
  using that by (simp add: mark_def word_mark_def)

lemma index_word: "(16 * n + j) div 16 = n" "(16 * n + j) mod 16 = j" if "j < 16" for n j :: nat
  using that by simp_all

lemma sweep_cell_ok:
  assumes inv: "gc_inv D g L" and P: "gc_pools g p = Some P"
    and s: "sweep_at g L p P (16 * n + j) s" and n: "n < length (bitmap P)" "j < 16"
    and ptr: "ptr = p_begin P + of_nat (16 * n + j) * ucast (d_size (descr_of (p_type P)))"
  shows "\<exists>s'. sweep_cell (descr_of (p_type P)) p n (mark (bitmap P) (16 * n + j)) ptr (2 * j) s = Some s' \<and>
    sweep_at g L p P (Suc (16 * n + j)) s'"
proof -
  note parts = gc_ok_parts [OF inv]
  note pok = parts(4) [OF P]
  let ?k = "16 * n + j" and ?t = "p_type P"
  let ?m = "mark (bitmap P) ?k" and ?ds = "ucast (d_size (descr_of ?t)) :: u64"
  obtain hb bmp h al where s_eq: "s = (hb, bmp, h, al)" by (cases s)
  obtain fs where sd: "length bmp = length (bitmap P)"
    "\<forall>i < 16 * length bmp. mark bmp i = (if i < ?k then swept (mark (bitmap P) i) else mark (bitmap P) i)"
    "hb = (marked_below P ?k GC_MARK_BLACK \<noteq> {})"
    "al = gc_allocated_size g - of_nat (card (marked_below P ?k GC_MARK_WHITE)) * ?ds"
    "dom h = dom (gc_cells g)" "\<forall>b. \<not> b - p < 4096 \<longrightarrow> h b = gc_cells g b"
    and fs: "family h (L(free_cells p \<mapsto> fs))"
    "set fs = obj_cell g ?t p ` ({i. i < cells_of g ?t \<and> mark (bitmap P) i = GC_MARK_UNUSED} \<union>
      marked_below P ?k GC_MARK_WHITE)"
    using s [unfolded sweep_at_def s_eq prod.case] by (elim exE conjE)
  have len: "length bmp = length (bitmap P)" and k16: "?k < 16 * length (bitmap P)" using sd(1) n by simp_all
  have clear: "bmp[n := bmp ! n AND NOT (push_bit (2 * j) 3)] = set_mark bmp ?k 0"
    using n(2) by (simp add: set_mark_def word_set_def)
  have white: "(set_mark bmp ?k 0)[n := set_mark bmp ?k 0 ! n OR push_bit (2 * j) GC_MARK_WHITE] =
      set_mark bmp ?k GC_MARK_WHITE"
    using n len by (simp add: set_mark_def word_set_def)
  have mk: "mark (set_mark bmp ?k m) i = (if i = ?k then m else mark bmp i)" if "m < 4" for m i
    using that k16 len by (simp add: mark_set_mark)
  have below: "i < Suc ?k \<longleftrightarrow> i < ?k \<or> i = ?k" for i by auto
  have marks: "mark (set_mark bmp ?k (swept ?m)) i =
      (if i < Suc ?k then swept (mark (bitmap P) i) else mark (bitmap P) i)" if "i < 16 * length bmp" for i
    using that sd(2) by (auto simp: mk swept_def below)
  have cell: "?m \<noteq> 0 \<Longrightarrow> ?k < cells_of g ?t" using pok k16 unfolding pool_ok_def by (meson not_le)
  have ptr_cell: "ptr = obj_cell g ?t p ?k"
    using pok by (simp add: ptr obj_cell_def cell_at_def pool_ok_def)
  have cases4: "?m = 0 \<or> ?m = GC_MARK_WHITE \<or> ?m = GC_MARK_BLACK"
  proof -
    have "?m < 4" unfolding mark_bits [OF n(2)] by (rule and_3_less)
    then have "?m = 0 \<or> ?m = 1 \<or> ?m = 2 \<or> ?m = 3" by (rule word_less_4)
    moreover have "?m \<noteq> 2" using pok cell by (cases "?m = 0") (auto simp: pool_ok_def)
    ultimately show ?thesis by auto
  qed
  then consider "?m = 0" | "?m = GC_MARK_WHITE" | "?m = GC_MARK_BLACK" by blast
  then show ?thesis
  proof cases
    case 1
    then have "sweep_at g L p P (Suc ?k) s"
      by (intro sweep_at_skip [OF s]) (auto simp: le_less_Suc_eq)
    then show ?thesis using 1 by (simp add: sweep_cell_def s_eq)
  next
    case 2
    have k: "?k < cells_of g ?t" using 2 cell by simp
    note cf = obj_cell_facts [OF inv P k]
    have "ptr \<in> dom (gc_cells g)" unfolding ptr_cell
      by (rule pool_mapped(1) [OF parts(2) _ cf(3)]) (use P in blast)
    then obtain v where v: "h ptr = Some v" using sd(5) by blast
    have notfs: "ptr \<notin> set fs"
    proof
      assume "ptr \<in> set fs"
      then obtain i where i: "ptr = obj_cell g ?t p i"
        "i \<in> {i. i < cells_of g ?t \<and> mark (bitmap P) i = GC_MARK_UNUSED} \<union> marked_below P ?k GC_MARK_WHITE"
        unfolding fs(2) by blast
      have "i \<noteq> ?k" "i < cells_of g ?t" using i(2) 2 k by (auto simp: marked_below_def)
      then show False using obj_cell_inj [OF parts(1) pok, of i ?k] i(1) k ptr_cell by simp
    qed
    have else: "elsewhere (L(free_cells p \<mapsto> fs)) ptr"
      using cell_elsewhere [OF inv P k] notfs cf(4) unfolding elsewhere_def ptr_cell
      by (auto split: if_splits)
    have pnz: "ptr \<noteq> 0" using cf(2) ptr_cell by simp
    have at: "(L(free_cells p \<mapsto> fs)) (free_cells p) = Some fs" by simp
    obtain h' where h': "m_slist_push (free_cells p) ptr h = Some h'"
      "family h' ((L(free_cells p \<mapsto> fs))(free_cells p \<mapsto> ptr # fs))" "dom h' = dom h"
      "\<forall>b. b \<noteq> free_cells p \<and> b \<noteq> ptr \<longrightarrow> h' b = h b"
      using family_push [OF fs(1) at pnz v else] by blast
    let ?s = "(hb, set_mark bmp ?k 0, h', al - ?ds)"
    have run: "sweep_cell (descr_of ?t) p n ?m ptr (2 * j) s = Some ?s"
      using 2 h'(1) clear by (simp add: sweep_cell_def s_eq)
    have "swept ?m = 0" using 2 by (simp add: swept_def)
    then have "\<forall>i < 16 * length bmp. mark (set_mark bmp ?k 0) i =
        (if i < Suc ?k then swept (mark (bitmap P) i) else mark (bitmap P) i)"
      using marks by simp
    moreover have "marked_below P (Suc ?k) GC_MARK_BLACK = marked_below P ?k GC_MARK_BLACK"
      "marked_below P (Suc ?k) GC_MARK_WHITE = insert ?k (marked_below P ?k GC_MARK_WHITE)"
      using 2 by (simp_all add: marked_below_Suc)
    moreover have "h' b = gc_cells g b" if "\<not> b - p < 4096" for b
    proof -
      have "b \<noteq> free_cells p" "b \<noteq> ptr"
        using that cf(3) free_cells_page(1) [of p] pok ptr_cell by (auto simp: pool_ok_def)
      then show ?thesis using h'(4) sd(6) that by simp
    qed
    moreover have "set (ptr # fs) = obj_cell g ?t p ` ({i. i < cells_of g ?t \<and> mark (bitmap P) i = GC_MARK_UNUSED} \<union>
        insert ?k (marked_below P ?k GC_MARK_WHITE))"
      using fs(2) ptr_cell by auto
    moreover have "(L(free_cells p \<mapsto> fs))(free_cells p \<mapsto> ptr # fs) = L(free_cells p \<mapsto> ptr # fs)" by simp
    ultimately have "sweep_at g L p P (Suc ?k) ?s"
      using sd(1,3-5) h'(2,3) unfolding sweep_at_def prod.case
      by (intro conjI exI [of _ "ptr # fs"]) (simp_all add: algebra_simps)
    then show ?thesis using run by blast
  next
    case 3
    let ?s = "(True, set_mark bmp ?k GC_MARK_WHITE, h, al)"
    have run: "sweep_cell (descr_of ?t) p n ?m ptr (2 * j) s = Some ?s"
      unfolding sweep_cell_def s_eq prod.case Let_def clear white using 3 by simp
    have "swept ?m = 1" using 3 by (simp add: swept_def)
    then have "\<forall>i < 16 * length bmp. mark (set_mark bmp ?k 1) i =
        (if i < Suc ?k then swept (mark (bitmap P) i) else mark (bitmap P) i)"
      using marks by simp
    moreover have "marked_below P (Suc ?k) GC_MARK_BLACK \<noteq> {}"
      "marked_below P (Suc ?k) GC_MARK_WHITE = marked_below P ?k GC_MARK_WHITE"
      using 3 by (simp_all add: marked_below_Suc)
    ultimately have "sweep_at g L p P (Suc ?k) ?s"
      using sd(1,4-6) fs unfolding sweep_at_def prod.case by (intro conjI exI [of _ fs]) simp_all
    then show ?thesis using run by blast
  qed
qed

lemma index_size:
  assumes inv: "gc_inv D g L" and P: "gc_pools g p = Some P" and i: "i < cells_of g (p_type P)"
  shows "ucast (of_nat i * d_size (descr_of (p_type P))) = (of_nat i * ucast (d_size (descr_of (p_type P))) :: u64)"
proof -
  note parts = gc_ok_parts [OF inv]
  let ?ds = "d_size (descr_of (p_type P))"
  have lay: "layout_ok (gc_obj_stubs g (p_type P)) (descr_of (p_type P))" and page: "page_start p"
    using parts(1) parts(4) [OF P] by (auto simp: pool_ok_def config_ok_def)
  have sm: "i * unat ?ds < 4096" "unat ?ds < 2 ^ 32"
    using cell_offset(2) [OF lay page] i unsigned_less [of ?ds, where ?'a = nat]
    by (force simp: cells_of_def)+
  have "unat (of_nat i :: u32) = i" "unat (of_nat i :: u64) = i"
    using obj_cell_facts(9) [OF inv P i] by (simp_all add: unat_of_nat take_bit_eq_mod)
  moreover have "unat (ucast ?ds :: u64) = unat ?ds"
    using sm(2) by (simp add: unsigned_ucast_eq take_bit_eq_mod)
  ultimately have "unat (of_nat i * ?ds) = i * unat ?ds" "unat (of_nat i * ucast ?ds :: u64) = i * unat ?ds"
    using sm by (simp_all add: unat_word_ariths)
  then show ?thesis using sm by (simp add: word_unat_eq_iff unsigned_ucast_eq take_bit_eq_mod)
qed

lemma sweep_word_ok:
  assumes inv: "gc_inv D g L" and P: "gc_pools g p = Some P" and n: "n < length (bitmap P)"
  shows "sweep_at g L p P (16 * n + j) s \<Longrightarrow> j < 16 \<Longrightarrow>
    ptr = p_begin P + of_nat (16 * n + j) * ucast (d_size (descr_of (p_type P))) \<Longrightarrow>
    \<exists>s'. sweep_word (descr_of (p_type P)) p n (drop_bit (2 * j) (bitmap P ! n)) ptr (2 * j) s = Some s' \<and>
      sweep_at g L p P (16 * n + 16) s'"
proof (induction "15 - j" arbitrary: j s ptr)
  case 0
  then have j: "j = 15" by simp
  obtain s1 where s1: "sweep_cell (descr_of (p_type P)) p n (mark (bitmap P) (16 * n + j)) ptr (2 * j) s = Some s1"
    "sweep_at g L p P (Suc (16 * n + j)) s1"
    using sweep_cell_ok [OF inv P 0(2) n 0(3,4)] by blast
  have "drop_bit 2 (drop_bit (2 * j) (bitmap P ! n)) = 0"
    unfolding drop_bit_drop_bit j using drop_bit_word_beyond [of 32 "bitmap P ! n"] by simp
  then show ?case using s1 mark_bits [OF 0(3), of "bitmap P" n] j
    by (intro exI [of _ s1] conjI) (subst sweep_word.simps, simp, simp add: add.commute)
next
  case (Suc m)
  obtain s1 where s1: "sweep_cell (descr_of (p_type P)) p n (mark (bitmap P) (16 * n + j)) ptr (2 * j) s = Some s1"
    "sweep_at g L p P (Suc (16 * n + j)) s1"
    using sweep_cell_ok [OF inv P Suc.prems(1) n Suc.prems(2,3)] by blast
  have flags: "drop_bit 2 (drop_bit (2 * j) (bitmap P ! n)) = drop_bit (2 * Suc j) (bitmap P ! n)"
    by (simp add: drop_bit_drop_bit)
  have step: "sweep_word (descr_of (p_type P)) p n (drop_bit (2 * j) (bitmap P ! n)) ptr (2 * j) s =
      (if drop_bit (2 * Suc j) (bitmap P ! n) = 0 then Some s1
       else sweep_word (descr_of (p_type P)) p n (drop_bit (2 * Suc j) (bitmap P ! n))
         (ptr + ucast (d_size (descr_of (p_type P)))) (2 * Suc j) s1)"
    unfolding flags [symmetric] using s1(1) mark_bits [OF Suc.prems(2), of "bitmap P" n]
    by (subst sweep_word.simps) (simp add: Let_def)
  show ?case
  proof (cases "drop_bit (2 * Suc j) (bitmap P ! n) = 0")
    case True
    have "mark (bitmap P) i = 0" if i: "Suc (16 * n + j) \<le> i" "i < 16 * n + 16" for i
    proof -
      obtain l where l: "i = 16 * n + l" "Suc j \<le> l" "l < 16" using i by (intro that [of "i - 16 * n"]) auto
      have "2 * l = (2 * l - 2 * Suc j) + 2 * Suc j" using l(2) by simp
      then have "drop_bit (2 * l) (bitmap P ! n) = drop_bit (2 * l - 2 * Suc j) (drop_bit (2 * Suc j) (bitmap P ! n))"
        using drop_bit_drop_bit by metis
      then show ?thesis unfolding l(1) mark_bits [OF l(3)] True by simp
    qed
    then have "sweep_at g L p P (16 * n + 16) s1"
      using Suc.prems(2) by (intro sweep_at_skip [OF s1(2)]) auto
    then show ?thesis using step True by simp
  next
    case False
    have "sweep_at g L p P (16 * n + Suc j) s1" "Suc j < 16" "m = 15 - Suc j"
      using s1(2) Suc.hyps(2) by auto
    moreover have "ptr + ucast (d_size (descr_of (p_type P))) =
        p_begin P + of_nat (16 * n + Suc j) * ucast (d_size (descr_of (p_type P)))"
      using Suc.prems(3) by (simp add: algebra_simps)
    ultimately show ?thesis using Suc.hyps(1) [of "Suc j" s1] step False by simp
  qed
qed

lemma word_marks_eq:
  assumes "\<And>j. j < 16 \<Longrightarrow> word_mark w j = word_mark v j"
  shows "w = v"
proof (rule bit_word_eqI)
  fix k assume "k < LENGTH(32)"
  then have j: "k div 2 < 16" by simp
  have "bit u k \<longleftrightarrow> bit (word_mark u (k div 2)) (k mod 2)" for u
    unfolding bit_word_mark by simp
  then show "bit w k \<longleftrightarrow> bit v k" using assms [OF j] by simp
qed

lemma bitmap_word:
  assumes "sweep_at g L p P (16 * n) (hb, bmp, h, al)" "n < length (bitmap P)"
  shows "bmp ! n = bitmap P ! n"
proof (rule word_marks_eq)
  fix j :: nat assume j: "j < 16"
  have "mark bmp (16 * n + j) = mark (bitmap P) (16 * n + j)"
    using assms j by (simp add: sweep_at_def)
  then show "word_mark (bmp ! n) j = word_mark (bitmap P ! n) j"
    using j by (simp add: mark_def)
qed

lemma sweep_words_ok:
  assumes inv: "gc_inv D g L" and P: "gc_pools g p = Some P"
  shows "sweep_at g L p P (16 * n) s \<Longrightarrow> n + k = length (bitmap P) \<Longrightarrow>
    \<exists>s'. sweep_words (descr_of (p_type P)) p (p_begin P) k n s = Some s' \<and>
      sweep_at g L p P (16 * length (bitmap P)) s'"
proof (induction k arbitrary: n s)
  case (Suc k)
  note parts = gc_ok_parts [OF inv]
  obtain hb bmp h al where s: "s = (hb, bmp, h, al)" by (cases s)
  have n: "n < length (bitmap P)" and len: "length bmp = length (bitmap P)"
    using Suc.prems s by (auto simp: sweep_at_def)
  have w: "bmp ! n = bitmap P ! n" using bitmap_word Suc.prems(1) n unfolding s by blast
  let ?ptr = "p_begin P + ucast (of_nat (16 * n) * d_size (descr_of (p_type P)))"
  have "\<exists>s1. (if bmp ! n \<noteq> 0 then sweep_word (descr_of (p_type P)) p n (bmp ! n) ?ptr 0 s else Some s) = Some s1 \<and>
      sweep_at g L p P (16 * n + 16) s1"
  proof (cases "bitmap P ! n = 0")
    case True
    have "mark (bitmap P) i = 0" if i: "16 * n \<le> i" "i < 16 * n + 16" for i
    proof -
      obtain l where "i = 16 * n + l" "l < 16" using i by (intro that [of "i - 16 * n"]) auto
      then show ?thesis using mark_bits [of l "bitmap P" n] True by simp
    qed
    then have "sweep_at g L p P (16 * n + 16) s" by (intro sweep_at_skip [OF Suc.prems(1)]) auto
    then show ?thesis using True w by simp
  next
    case False
    have "16 * n < cells_of g (p_type P)"
    proof (rule ccontr)
      assume out: "\<not> 16 * n < cells_of g (p_type P)"
      have "word_mark (bitmap P ! n) j = word_mark 0 j" if "j < 16" for j
      proof -
        have "16 * n + j < 16 * length (bitmap P)" using n that by linarith
        then have "mark (bitmap P) (16 * n + j) = 0"
          using parts(4) [OF P] out that by (auto simp: pool_ok_def)
        then show ?thesis using that by (simp add: mark_def word_mark_def)
      qed
      then show False using word_marks_eq False by blast
    qed
    from index_size [OF inv P this]
    have ptr: "?ptr = p_begin P + of_nat (16 * n + 0) * ucast (d_size (descr_of (p_type P)))"
      by (simp only: add_0_right)
    have "\<exists>s1. sweep_word (descr_of (p_type P)) p n (drop_bit (2 * 0) (bitmap P ! n)) ?ptr (2 * 0) s = Some s1 \<and>
        sweep_at g L p P (16 * n + 16) s1"
      using Suc.prems(1) by (intro sweep_word_ok [OF inv P n _ _ ptr]) simp_all
    then show ?thesis using w False by simp
  qed
  then obtain s1 where s1: "(if bmp ! n \<noteq> 0 then sweep_word (descr_of (p_type P)) p n (bmp ! n) ?ptr 0 s else Some s) = Some s1"
    "sweep_at g L p P (16 * n + 16) s1" by blast
  have "sweep_at g L p P (16 * Suc n) s1" using s1(2) by (simp add: add.commute)
  from Suc.IH [OF this] Suc.prems(2) obtain s' where
    "sweep_words (descr_of (p_type P)) p (p_begin P) k (Suc n) s1 = Some s'"
    "sweep_at g L p P (16 * length (bitmap P)) s'" by auto
  moreover have fs: "fst (snd s) = bmp" "n < length bmp" using n len s by simp_all
  ultimately show ?case
    unfolding sweep_words.simps fs(1) Let_def s1(1) by (intro exI [of _ s']) simp
qed auto

end
