(* ===== verification/GC_Sweep_All.thy ===== *)
theory GC_Sweep_All
  imports GC_Sweep
begin

text \<open>
  The effect of sweeping one pool and of the whole sweep: the invariant holds again, the white
  objects are gone, the black ones are white, and \<open>gc_allocated_size\<close> is still the total size
  of the objects.
\<close>

subsection \<open>The effect on the pools and the total size\<close>

text \<open>What becomes of a pool.\<close>

definition sweep_result :: "M_GCCellPool \<Rightarrow> M_GCCellPool option \<Rightarrow> bool" where
  "sweep_result P r \<longleftrightarrow>
     (if \<forall>i < 16 * length (bitmap P). mark (bitmap P) i \<noteq> GC_MARK_BLACK then r = None
      else \<exists>bm. r = Some (P\<lparr>bitmap := bm\<rparr>) \<and> length bm = length (bitmap P) \<and>
        (\<forall>i < 16 * length bm. mark bm i = swept (mark (bitmap P) i)))"

definition pool_bytes :: "GC \<Rightarrow> addr \<Rightarrow> u64" where
  "pool_bytes g p = (case gc_pools g p of None \<Rightarrow> 0
     | Some P \<Rightarrow> of_nat (card {i. i < 16 * length (bitmap P) \<and> mark (bitmap P) i \<noteq> GC_MARK_UNUSED}) *
         ucast (d_size (descr_of (p_type P))))"

text \<open>The total size of the objects; \<open>bytes_ok\<close> is an invariant.\<close>

definition objs_size :: "GC \<Rightarrow> u64" where
  "objs_size g = (\<Sum>p \<in> UNIV. pool_bytes g p)"

definition bytes_ok :: "GC \<Rightarrow> bool" where
  "bytes_ok g \<longleftrightarrow> gc_allocated_size g = objs_size g"

lemma objs_size_upd:
  assumes "\<And>q. q \<noteq> p \<Longrightarrow> gc_pools g' q = gc_pools g q"
  shows "objs_size g' = objs_size g - pool_bytes g p + pool_bytes g' p"
proof -
  have "(\<Sum>q \<in> UNIV - {p}. pool_bytes g' q) = (\<Sum>q \<in> UNIV - {p}. pool_bytes g q)"
    using assms by (intro sum.cong) (auto simp: pool_bytes_def)
  moreover have "objs_size h = pool_bytes h p + (\<Sum>q \<in> UNIV - {p}. pool_bytes h q)" for h
    unfolding objs_size_def by (rule sum.remove) simp_all
  ultimately show ?thesis by simp
qed

text \<open>A step that changes nothing but the mapped memory, the nodes, the pools and the total
  size.\<close>

definition pools_step :: "GC \<Rightarrow> GC \<Rightarrow> bool" where
  "pools_step g g' \<longleftrightarrow> g' = g\<lparr>gc_vm := gc_vm g', gc_cells := gc_cells g', gc_pools := gc_pools g',
     gc_allocated_size := gc_allocated_size g'\<rparr>"

lemma pools_step_refl [simp]: "pools_step g g"
  by (simp add: pools_step_def)

lemma pools_step_trans: "pools_step g g' \<Longrightarrow> pools_step g' g'' \<Longrightarrow> pools_step g g''"
  unfolding pools_step_def by (cases g; cases g'; cases g'') simp

lemma pools_step_static:
  assumes "pools_step g g'"
  shows "usable_pools g' t = usable_pools g t" "full_pools g' t = full_pools g t"
    "stub_heads g' = stub_heads g" "gc_obj_stubs g' = gc_obj_stubs g" "gc_status g' = gc_status g"
    "gc_cell_pool_size g' = gc_cell_pool_size g" "gc_gray_stack g' = gc_gray_stack g"
    "gc_need_scan_gray g' = gc_need_scan_gray g"
  by (subst assms [unfolded pools_step_def], simp)+

subsection \<open>Unmapping a pool\<close>

lemma free_pool_ok:
  assumes inv: "gc_inv D g L" and P: "gc_pools g p = Some P" and else: "elsewhere L p"
  shows "gc_inv (D - {p}) (gc_free_pool p g) (L(free_cells p := None))" (is "gc_inv _ ?g ?L")
proof -
  note parts = gc_ok_parts [OF inv]
  have dp: "p \<in> dom (gc_pools g)" using P by blast
  have pg: "page_start q" if "q \<in> dom (gc_pools g)" for q using gc_ok_page [OF inv that] .
  have apart: "\<not> x - p < 4096" if "q \<in> dom (gc_pools g)" "q \<noteq> p" "x - q < 4096" for q x
    using pages_apart [OF pg [OF dp] pg [OF that(1)]] that by auto
  have sz: "gc_cell_pool_size g = 4096" using parts(1) by (simp add: config_ok_def)
  have cells: "gc_cells ?g x = (if x - p < 4096 then None else gc_cells g x)" for x
    by (simp add: gc_free_pool_def drop_cells_def sz)
  have vm: "gc_vm ?g x = (if x - p < 4096 then None else gc_vm g x)" for x
    by (simp add: gc_free_pool_def gc_munmap_def sys_munmap_def set_range_def sz)
  have pools: "gc_pools ?g = (gc_pools g)(p := None)" and st: "stub_heads ?g = stub_heads g"
    "usable_pools ?g t = usable_pools g t" "full_pools ?g t = full_pools g t"
    "gc_obj_stubs ?g = gc_obj_stubs g" "config_ok ?g = config_ok g" for t
    by (simp_all add: gc_free_pool_def)
  have heads: "a \<noteq> free_cells p" "\<not> a - p < 4096" if "a \<in> stub_heads g" for a
    using head_not_in_pool [OF inv that dp] by simp_all
  have "memory_ok ?g"
    unfolding memory_ok_def
  proof (intro conjI allI ballI impI)
    show "gc_vm ?g x \<noteq> None" if "gc_cells ?g x \<noteq> None" for x
      using that parts(2) unfolding vm cells by (auto simp: memory_ok_def split: if_splits)
    show "gc_cells ?g x \<noteq> None" if "q \<in> dom (gc_pools ?g)" "x - q < 4096" for q x
    proof -
      have "q \<in> dom (gc_pools g)" "q \<noteq> p" using that(1) by (auto simp: pools split: if_splits)
      then have "\<not> x - p < 4096" "x \<in> dom (gc_cells g)"
        using apart that(2) pool_mapped(1) [OF parts(2)] by blast+
      then show ?thesis unfolding cells by auto
    qed
    show "gc_cells ?g a \<noteq> None" if "a \<in> stub_heads ?g" for a
      using that heads(2) parts(2) unfolding cells st by (simp add: memory_ok_def)
    show "\<not> a - q < 4096" if "a \<in> stub_heads ?g" "q \<in> dom (gc_pools ?g)" for a q
      using that parts(2) unfolding st by (auto simp: memory_ok_def pools split: if_splits)
  qed
  moreover have "lists_ok (D - {p}) ?g ?L"
    unfolding lists_ok_def st
  proof (intro conjI ballI)
    have "family (gc_cells g) ?L" by (rule family_drop [OF inv_dom(2) [OF inv]])
    then show "family (gc_cells ?g) ?L"
    proof (rule family_frame)
      fix b xs c
      assume b: "?L b = Some xs" "c \<in> insert b (set xs)"
      then have b': "L b = Some xs" "b \<noteq> free_cells p" by (auto split: if_splits)
      then have "c \<noteq> p" using b(2) else by (auto simp: elsewhere_def)
      then show "gc_cells ?g c = gc_cells g c"
        using list_pages [OF inv dp b' b(2)] cells by simp
    qed
    show "dom ?L = stub_heads g \<union> free_cells ` dom (gc_pools ?g)"
      using inv_dom(1) [OF inv] heads(1) by (auto simp: pools)
    fix t assume t: "t \<in> set obj_types"
    from parts(3) this obtain us fs where v: "L (usable_pools g t) = Some us" "L (full_pools g t) = Some fs"
      "set us \<union> set fs \<subseteq> pools_of g t" "pools_of g t - D \<subseteq> set us \<union> set fs"
      "\<forall>p \<in> set us - D. L (free_cells p) \<noteq> Some []" "\<forall>p \<in> set fs - D. L (free_cells p) = Some []"
      by (rule lists_ok_type)
    have np: "p \<notin> set us" "p \<notin> set fs" using else v(1,2) by (auto simp: elsewhere_def)
    have po: "pools_of ?g t = pools_of g t - {p}" by (auto simp: pools_of_def pools)
    have hd: "?L (usable_pools g t) = Some us" "?L (full_pools g t) = Some fs"
      using heads(1) stub_heads_iff [OF t, of g] v(1,2) by simp_all
    show "\<exists>us fs. ?L (usable_pools g t) = Some us \<and> ?L (full_pools g t) = Some fs \<and>
        set us \<union> set fs \<subseteq> pools_of ?g t \<and> pools_of ?g t - (D - {p}) \<subseteq> set us \<union> set fs \<and>
        (\<forall>q \<in> set us - (D - {p}). ?L (free_cells q) \<noteq> Some []) \<and>
        (\<forall>q \<in> set fs - (D - {p}). ?L (free_cells q) = Some [])"
      unfolding po using hd v(3-6) np by (intro exI [of _ us] exI [of _ fs]) auto
  qed
  moreover have "pool_ok ?g ?L q Q" if Q: "gc_pools ?g q = Some Q" for q Q
  proof -
    have q: "gc_pools g q = Some Q" "q \<noteq> p" using Q by (auto simp: pools split: if_splits)
    then show ?thesis using st(4) by (intro pool_ok_cong [OF parts(4) [OF q(1)]]) simp_all
  qed
  ultimately show ?thesis using parts(1) st(5) unfolding gc_inv_def by simp
qed

subsection \<open>Sweeping one pool\<close>

lemma pool_marks:
  assumes inv: "gc_inv D g L" and P: "gc_pools g p = Some P" and i: "i < 16 * length (bitmap P)"
  shows "mark (bitmap P) i = GC_MARK_UNUSED \<or> mark (bitmap P) i = GC_MARK_WHITE \<or> mark (bitmap P) i = GC_MARK_BLACK"
    "mark (bitmap P) i \<noteq> 0 \<Longrightarrow> i < cells_of g (p_type P)"
proof -
  note pok = gc_ok_parts(4) [OF inv P]
  show c: "mark (bitmap P) i \<noteq> 0 \<Longrightarrow> i < cells_of g (p_type P)"
    using pok i unfolding pool_ok_def by (meson not_le)
  have "mark (bitmap P) i < 4" unfolding mark_def word_mark_def by (rule and_3_less)
  then have "mark (bitmap P) i = 0 \<or> mark (bitmap P) i = 1 \<or> mark (bitmap P) i = 2 \<or> mark (bitmap P) i = 3"
    by (rule word_less_4)
  moreover have "mark (bitmap P) i \<noteq> 2" using pok c by (cases "mark (bitmap P) i = 0") (auto simp: pool_ok_def)
  ultimately show "mark (bitmap P) i = GC_MARK_UNUSED \<or> mark (bitmap P) i = GC_MARK_WHITE \<or>
    mark (bitmap P) i = GC_MARK_BLACK" by auto
qed

lemma used_count:
  assumes inv: "gc_inv D g L" and P: "gc_pools g p = Some P"
  defines "n \<equiv> 16 * length (bitmap P)"
  shows "card {i. i < n \<and> mark (bitmap P) i \<noteq> GC_MARK_UNUSED} =
    card (marked_below P n GC_MARK_WHITE) + card (marked_below P n GC_MARK_BLACK)"
proof -
  have "{i. i < n \<and> mark (bitmap P) i \<noteq> GC_MARK_UNUSED} = marked_below P n GC_MARK_WHITE \<union> marked_below P n GC_MARK_BLACK"
    using pool_marks(1) [OF inv P] by (auto simp: marked_below_def n_def)
  moreover have "marked_below P n GC_MARK_WHITE \<inter> marked_below P n GC_MARK_BLACK = {}"
    by (auto simp: marked_below_def)
  ultimately show ?thesis by (simp add: card_Un_disjoint)
qed

text \<open>The state after the loop over the bitmap.\<close>

lemma sweep_words_inv:
  assumes inv: "gc_inv D g L" and P: "gc_pools g p = Some P" and D: "p \<in> D"
    and s: "sweep_at g L p P (16 * length (bitmap P)) (hb, bmp, h, al)"
  shows "\<exists>fs. gc_inv D (g\<lparr>gc_cells := h, gc_pools := (gc_pools g)(p \<mapsto> P\<lparr>bitmap := bmp\<rparr>)\<rparr>) (L(free_cells p \<mapsto> fs)) \<and>
    p \<notin> set fs \<and> length bmp = length (bitmap P) \<and>
    (\<forall>i < 16 * length bmp. mark bmp i = swept (mark (bitmap P) i)) \<and>
    hb = (\<exists>i < 16 * length (bitmap P). mark (bitmap P) i = GC_MARK_BLACK) \<and>
    dom h = dom (gc_cells g) \<and> (\<forall>b. \<not> b - p < 4096 \<longrightarrow> h b = gc_cells g b) \<and>
    al + pool_bytes g p = gc_allocated_size g +
      pool_bytes (g\<lparr>gc_pools := (gc_pools g)(p \<mapsto> P\<lparr>bitmap := bmp\<rparr>)\<rparr>) p"
proof -
  note pok = gc_ok_parts(4) [OF inv P]
  let ?n = "16 * length (bitmap P)" and ?t = "p_type P"
  let ?ds = "ucast (d_size (descr_of ?t)) :: u64"
  obtain fs where sd: "length bmp = length (bitmap P)"
    "\<forall>i < 16 * length bmp. mark bmp i = (if i < ?n then swept (mark (bitmap P) i) else mark (bitmap P) i)"
    "hb = (marked_below P ?n GC_MARK_BLACK \<noteq> {})"
    "al = gc_allocated_size g - of_nat (card (marked_below P ?n GC_MARK_WHITE)) * ?ds"
    "dom h = dom (gc_cells g)" "\<forall>b. \<not> b - p < 4096 \<longrightarrow> h b = gc_cells g b"
    and fs: "family h (L(free_cells p \<mapsto> fs))"
    "set fs = obj_cell g ?t p ` ({i. i < cells_of g ?t \<and> mark (bitmap P) i = GC_MARK_UNUSED} \<union>
      marked_below P ?n GC_MARK_WHITE)"
    using s [unfolded sweep_at_def prod.case] by (elim exE conjE)
  have mk: "mark bmp i = swept (mark (bitmap P) i)" if "i < ?n" for i using sd(1,2) that by simp
  have cn: "i < ?n" if "i < cells_of g ?t" for i
    using obj_cell_facts(8) [OF inv P that] .
  have free: "{i. i < cells_of g ?t \<and> mark (bitmap P) i = GC_MARK_UNUSED} \<union> marked_below P ?n GC_MARK_WHITE =
      {i. i < cells_of g ?t \<and> mark bmp i = GC_MARK_UNUSED}"
  proof (rule set_eqI)
    fix i
    show "i \<in> {i. i < cells_of g ?t \<and> mark (bitmap P) i = GC_MARK_UNUSED} \<union> marked_below P ?n GC_MARK_WHITE \<longleftrightarrow>
        i \<in> {i. i < cells_of g ?t \<and> mark bmp i = GC_MARK_UNUSED}"
      using pool_marks [OF inv P, of i] mk [of i] cn [of i]
      by (cases "i < ?n") (auto simp: marked_below_def swept_def)
  qed
  have "gc_inv D (g\<lparr>gc_cells := h, gc_pools := (gc_pools g)(p \<mapsto> P\<lparr>bitmap := bmp\<rparr>)\<rparr>) (L(free_cells p \<mapsto> fs))"
  proof (rule inv_cells [OF inv P D fs(1) sd(5,1)])
    show "mark bmp i = 0" if "cells_of g ?t \<le> i" "i < 16 * length bmp" for i
      using that pool_marks(2) [OF inv P, of i] mk [of i] sd(1) by (cases "mark (bitmap P) i = 0") simp_all
    show "mark bmp i \<noteq> GC_MARK_GRAY" if "i < cells_of g ?t" for i
      using mk [OF cn [OF that]] by (simp add: swept_def)
    show "set fs = obj_cell g ?t p ` {i. i < cells_of g ?t \<and> mark bmp i = GC_MARK_UNUSED}"
      unfolding fs(2) free ..
  qed
  moreover have "p \<notin> set fs"
  proof
    assume "p \<in> set fs"
    then obtain i where "i < cells_of g ?t" "p = obj_cell g ?t p i" unfolding fs(2) free by blast
    then show False using obj_cell_facts(5) [OF inv P, of i] by simp
  qed
  moreover have "al + pool_bytes g p = gc_allocated_size g +
      pool_bytes (g\<lparr>gc_pools := (gc_pools g)(p \<mapsto> P\<lparr>bitmap := bmp\<rparr>)\<rparr>) p"
  proof -
    have "{i. i < 16 * length bmp \<and> mark bmp i \<noteq> 0} = marked_below P ?n GC_MARK_BLACK"
      using mk sd(1) by (auto simp: marked_below_def swept_def split: if_splits)
    then show ?thesis
      using used_count [OF inv P] P by (simp add: pool_bytes_def sd(4) algebra_simps)
  qed
  moreover have "hb = (\<exists>i < ?n. mark (bitmap P) i = GC_MARK_BLACK)"
    unfolding sd(3) by (auto simp: marked_below_def)
  ultimately show ?thesis using sd(1,5,6) mk by (intro exI [of _ fs]) simp
qed

text \<open>\<open>sweep_step A g L g' L'\<close>: the pools of \<open>A\<close> have been swept.\<close>

definition sweep_step ::
    "addr set \<Rightarrow> GC \<Rightarrow> (addr \<rightharpoonup> addr list) \<Rightarrow> GC \<Rightarrow> (addr \<rightharpoonup> addr list) \<Rightarrow> bool" where
  "sweep_step A g L g' L' \<longleftrightarrow> pools_step g g' \<and>
     (\<forall>p P. p \<in> A \<longrightarrow> gc_pools g p = Some P \<longrightarrow> sweep_result P (gc_pools g' p)) \<and>
     (\<forall>p. p \<notin> A \<longrightarrow> gc_pools g' p = gc_pools g p) \<and>
     gc_allocated_size g' - objs_size g' = gc_allocated_size g - objs_size g \<and>
     (\<forall>q \<in> dom (gc_pools g) - A. elsewhere L q \<longrightarrow> elsewhere L' q) \<and>
     (\<forall>b. b \<notin> stub_heads g \<longrightarrow> (\<forall>p \<in> A. \<not> b - p < 4096) \<longrightarrow> gc_cells g' b = gc_cells g b)"

lemma elsewhere_upd: "elsewhere L q \<Longrightarrow> q \<noteq> a \<Longrightarrow> q \<notin> set xs \<Longrightarrow> elsewhere (L(a \<mapsto> xs)) q"
  "elsewhere L q \<Longrightarrow> elsewhere (L(a := None)) q"
  by (auto simp: elsewhere_def split: if_splits)

lemma sweep_pool_ok:
  assumes inv: "gc_inv D g L" and P: "gc_pools g p = Some P" and D: "p \<in> D" and else: "elsewhere L p"
  shows "\<exists>g' L'. gc_sweep_pool (descr_of (p_type P)) (p_type P) p g = Some g' \<and>
    gc_inv (D - {p}) g' L' \<and> sweep_step {p} g L g' L'"
proof -
  note parts = gc_ok_parts [OF inv]
  note pok = parts(4) [OF P]
  let ?t = "p_type P"
  have t: "?t \<in> real_types" "?t \<in> set obj_types" using pok real_type(1) by (auto simp: pool_ok_def)
  have len: "unat (bitmap_size (gc_obj_stubs g ?t)) div 4 = length (bitmap P)"
    using pok unfolding pool_ok_def by linarith
  obtain hb bmp h al where words: "sweep_words (descr_of ?t) p (p_begin P) (length (bitmap P)) 0
      (False, bitmap P, gc_cells g, gc_allocated_size g) = Some (hb, bmp, h, al)"
    "sweep_at g L p P (16 * length (bitmap P)) (hb, bmp, h, al)"
    using sweep_words_ok [OF inv P, of 0 "(False, bitmap P, gc_cells g, gc_allocated_size g)" "length (bitmap P)"]
      sweep_at_0 [OF inv P] by auto
  obtain fs where w: "gc_inv D (g\<lparr>gc_cells := h, gc_pools := (gc_pools g)(p \<mapsto> P\<lparr>bitmap := bmp\<rparr>)\<rparr>) (L(free_cells p \<mapsto> fs))"
    "p \<notin> set fs" "length bmp = length (bitmap P)"
    "\<forall>i < 16 * length bmp. mark bmp i = swept (mark (bitmap P) i)"
    "hb = (\<exists>i < 16 * length (bitmap P). mark (bitmap P) i = GC_MARK_BLACK)"
    "dom h = dom (gc_cells g)" "\<forall>b. \<not> b - p < 4096 \<longrightarrow> h b = gc_cells g b"
    "al + pool_bytes g p = gc_allocated_size g +
      pool_bytes (g\<lparr>gc_pools := (gc_pools g)(p \<mapsto> P\<lparr>bitmap := bmp\<rparr>)\<rparr>) p"
    using sweep_words_inv [OF inv P D words(2)] by (elim exE conjE)
  let ?g1 = "g\<lparr>gc_cells := h, gc_pools := (gc_pools g)(p \<mapsto> P\<lparr>bitmap := bmp\<rparr>), gc_allocated_size := al\<rparr>"
  let ?L1 = "L(free_cells p \<mapsto> fs)"
  have inv1: "gc_inv D ?g1 ?L1"
    using w(1) gc_inv_static(6) [of D "\<lambda>_. al" "g\<lparr>gc_cells := h, gc_pools := (gc_pools g)(p \<mapsto> P\<lparr>bitmap := bmp\<rparr>)\<rparr>"]
    by simp
  have else1: "elsewhere ?L1 p" using else w(2) by (intro elsewhere_upd) (auto simp: free_cells_def)
  have q_else1: "elsewhere ?L1 q" if "q \<in> dom (gc_pools g) - {p}" "elsewhere L q" for q
  proof -
    have far: "\<not> q - p < 4096"
      using pages_apart [OF gc_ok_page [OF inv] gc_ok_page [OF inv], of p q q] P that(1) by auto
    have "q \<noteq> free_cells p" using far by (auto simp: free_cells_def)
    moreover have "q \<notin> set fs"
    proof
      assume "q \<in> set fs"
      moreover have "?L1 (free_cells p) = Some fs" by simp
      moreover have P1: "gc_pools ?g1 p = Some (P\<lparr>bitmap := bmp\<rparr>)" by simp
      ultimately obtain i where "i < cells_of ?g1 ?t" "q = obj_cell ?g1 ?t p i"
        using gc_ok_parts(4) [OF inv1 P1] by (auto simp: pool_ok_def)
      then show False using obj_cell_facts(3) [OF inv1 P1] far by simp
    qed
    ultimately show ?thesis using that(2) by (intro elsewhere_upd)
  qed
  have run: "gc_sweep_pool (descr_of ?t) ?t p g = (if hb then do {
        e \<leftarrow> m_slist_empty (free_cells p) h;
        h' \<leftarrow> m_slist_push (if e then full_pools g ?t else usable_pools g ?t) p h;
        Some (?g1\<lparr>gc_cells := h'\<rparr>) }
      else Some (gc_free_pool p ?g1))"
    using P words(1) len by (simp add: gc_sweep_pool_def Let_def)
  have bytes: "gc_allocated_size g' - objs_size g' = gc_allocated_size g - objs_size g"
    if "\<And>q. q \<noteq> p \<Longrightarrow> gc_pools g' q = gc_pools g q" "gc_allocated_size g' = al"
      "pool_bytes g' p = pool_bytes (g\<lparr>gc_pools := (gc_pools g)(p \<mapsto> P\<lparr>bitmap := bmp\<rparr>)\<rparr>) p" for g'
  proof -
    have "al = gc_allocated_size g + pool_bytes g' p - pool_bytes g p"
      using w(8) unfolding that(3) by (metis add_diff_cancel_right')
    then show ?thesis using objs_size_upd [of p g' g, OF that(1)] that(2) by simp
  qed
  have step_only: "(\<forall>q Q. q \<in> {p} \<longrightarrow> gc_pools g q = Some Q \<longrightarrow> sweep_result Q (gc_pools g' q))"
    if "sweep_result P (gc_pools g' p)" for g' using that P by simp
  show ?thesis
  proof (cases hb)
    case False
    let ?g2 = "gc_free_pool p ?g1"
    have no: "\<forall>i < 16 * length (bitmap P). mark (bitmap P) i \<noteq> GC_MARK_BLACK" using w(5) False by blast
    have pools: "gc_pools ?g2 = (gc_pools g)(p := None)" by (simp add: gc_free_pool_def)
    have inv2: "gc_inv (D - {p}) ?g2 (?L1(free_cells p := None))"
      by (rule free_pool_ok [OF inv1 _ else1, of "P\<lparr>bitmap := bmp\<rparr>"]) simp
    have none: "{i. i < 16 * length bmp \<and> mark bmp i \<noteq> 0} = {}"
      using no w(3,4) by (auto simp: swept_def)
    have "pool_bytes (g\<lparr>gc_pools := (gc_pools g)(p \<mapsto> P\<lparr>bitmap := bmp\<rparr>)\<rparr>) p =
        of_nat (card {i. i < 16 * length bmp \<and> mark bmp i \<noteq> 0}) * ucast (d_size (descr_of ?t))"
      by (simp add: pool_bytes_def)
    then have "pool_bytes (g\<lparr>gc_pools := (gc_pools g)(p \<mapsto> P\<lparr>bitmap := bmp\<rparr>)\<rparr>) p = 0"
      unfolding none by simp
    moreover have "pool_bytes ?g2 p = 0" "gc_allocated_size ?g2 = al"
      by (simp_all add: pool_bytes_def gc_free_pool_def)
    ultimately have b2: "gc_allocated_size ?g2 - objs_size ?g2 = gc_allocated_size g - objs_size g"
      using pools by (intro bytes) simp_all
    have sz: "gc_cell_pool_size g = 4096" using parts(1) by (simp add: config_ok_def)
    have "sweep_step {p} g L ?g2 (?L1(free_cells p := None))"
      unfolding sweep_step_def
    proof (intro conjI)
      show "pools_step g ?g2" by (simp add: pools_step_def gc_free_pool_def)
      show "\<forall>q Q. q \<in> {p} \<longrightarrow> gc_pools g q = Some Q \<longrightarrow> sweep_result Q (gc_pools ?g2 q)"
        by (rule step_only) (use no pools in \<open>simp add: sweep_result_def\<close>)
      show "\<forall>q. q \<notin> {p} \<longrightarrow> gc_pools ?g2 q = gc_pools g q" using pools by simp
      show "gc_allocated_size ?g2 - objs_size ?g2 = gc_allocated_size g - objs_size g" by (rule b2)
      show "\<forall>q \<in> dom (gc_pools g) - {p}. elsewhere L q \<longrightarrow> elsewhere (?L1(free_cells p := None)) q"
        using elsewhere_upd(2) [OF q_else1] by blast
      show "\<forall>b. b \<notin> stub_heads g \<longrightarrow> (\<forall>q \<in> {p}. \<not> b - q < 4096) \<longrightarrow> gc_cells ?g2 b = gc_cells g b"
        using w(7) by (simp add: gc_free_pool_def drop_cells_def sz)
    qed
    then show ?thesis using run False inv2 by (intro exI conjI) (simp, assumption+)
  next
    case True
    have fam: "family h ?L1" using inv_dom(2) [OF inv1] by simp
    have at: "?L1 (free_cells p) = Some fs" by simp
    let ?a = "if fs = [] then full_pools g ?t else usable_pools g ?t"
    have a: "?a = usable_pools ?g1 ?t \<or> ?a = full_pools ?g1 ?t" "?a \<in> stub_heads g"
      using stub_heads_iff [OF t(2), of g] by auto
    have "?a \<in> dom ?L1" using inv_dom(1) [OF inv1] a(2) by simp
    then obtain xs where xs: "?L1 ?a = Some xs" by blast
    have pz: "p \<noteq> 0" using pok by (simp add: pool_ok_def page_start_def)
    have "p \<in> dom h" using pool_mapped(2) [OF parts(2)] P w(6) by blast
    then obtain v where v: "h p = Some v" by blast
    obtain h' where h': "m_slist_push ?a p h = Some h'" "family h' (?L1(?a \<mapsto> p # xs))" "dom h' = dom h"
      "\<forall>b. b \<noteq> ?a \<and> b \<noteq> p \<longrightarrow> h' b = h b"
      using family_push [OF fam xs pz v else1] by blast
    let ?g2 = "?g1\<lparr>gc_cells := h'\<rparr>" and ?L2 = "?L1(?a \<mapsto> p # xs)"
    have run2: "gc_sweep_pool (descr_of ?t) ?t p g = Some ?g2"
      using run True family_is_empty [OF fam at] h'(1) by simp
    have sub: "set xs \<subseteq> pools_of ?g1 ?t"
    proof -
      from gc_ok_parts(3) [OF inv1] t(2) obtain us fs' where "?L1 (usable_pools ?g1 ?t) = Some us"
        "?L1 (full_pools ?g1 ?t) = Some fs'" "set us \<union> set fs' \<subseteq> pools_of ?g1 ?t" "pools_of ?g1 ?t - D \<subseteq> set us \<union> set fs'"
        "\<forall>p \<in> set us - D. ?L1 (free_cells p) \<noteq> Some []" "\<forall>p \<in> set fs' - D. ?L1 (free_cells p) = Some []"
        by (rule lists_ok_type)
      then show ?thesis using a(1) xs by (auto simp del: fun_upd_apply)
    qed
    have inv2: "gc_inv D ?g2 ?L2"
    proof (rule inv_head [OF inv1 t(2) a(1) xs h'(2)])
      show "dom h' = dom (gc_cells ?g1)" using h'(3) by simp
      show "set (p # xs) - D = set xs - D" using D by auto
      show "set (p # xs) \<subseteq> pools_of ?g1 ?t" using sub by (simp add: pools_of_def)
    qed
    have P2: "gc_pools ?g2 p = Some (P\<lparr>bitmap := bmp\<rparr>)" by simp
    have ne: "?a \<noteq> free_cells p" using head_not_in_pool(1) [OF inv a(2), of p] P by blast
    have inv3: "gc_inv (D - {p}) ?g2 ?L2"
      by (rule inv_resume [OF inv2 P2]) (use ne in \<open>auto split: if_splits\<close>)
    have res: "sweep_result P (gc_pools ?g2 p)"
    proof -
      have "\<not> (\<forall>i < 16 * length (bitmap P). mark (bitmap P) i \<noteq> GC_MARK_BLACK)" using True w(5) by simp
      then show ?thesis
        unfolding sweep_result_def P2 by (subst if_not_P, assumption) (intro exI [of _ bmp] conjI refl w(3,4))
    qed
    have "sweep_step {p} g L ?g2 ?L2"
      unfolding sweep_step_def
    proof (intro conjI)
      show "pools_step g ?g2" by (simp add: pools_step_def)
      show "\<forall>q Q. q \<in> {p} \<longrightarrow> gc_pools g q = Some Q \<longrightarrow> sweep_result Q (gc_pools ?g2 q)"
        by (rule step_only [OF res])
      show "\<forall>q. q \<notin> {p} \<longrightarrow> gc_pools ?g2 q = gc_pools g q" by simp
      show "gc_allocated_size ?g2 - objs_size ?g2 = gc_allocated_size g - objs_size g"
        by (rule bytes) (simp_all add: pool_bytes_def)
      show "\<forall>q \<in> dom (gc_pools g) - {p}. elsewhere L q \<longrightarrow> elsewhere ?L2 q"
      proof (intro ballI impI)
        fix q assume q: "q \<in> dom (gc_pools g) - {p}" "elsewhere L q"
        then have "elsewhere ?L1 q" by (rule q_else1)
        moreover have "q \<noteq> ?a" using head_not_in_pool(2) [OF inv a(2), of q] q(1) by blast
        moreover have "q \<notin> set (p # xs)" using \<open>elsewhere ?L1 q\<close> xs q(1) unfolding elsewhere_def by auto
        ultimately show "elsewhere ?L2 q" by (rule elsewhere_upd(1))
      qed
      show "\<forall>b. b \<notin> stub_heads g \<longrightarrow> (\<forall>q \<in> {p}. \<not> b - q < 4096) \<longrightarrow> gc_cells ?g2 b = gc_cells g b"
      proof (intro allI impI)
        fix b assume b: "b \<notin> stub_heads g" "\<forall>q \<in> {p}. \<not> b - q < 4096"
        then have "b \<noteq> ?a" "b \<noteq> p" using a(2) by auto
        then show "gc_cells ?g2 b = gc_cells g b" using h'(4) w(7) b(2) by simp
      qed
    qed
    then show ?thesis using run2 inv3 by blast
  qed
qed

subsection \<open>Sweeping the pools of a type\<close>

lemma sweep_step_trans:
  assumes 1: "sweep_step A g L g1 L1" and 2: "sweep_step B g1 L1 g2 L2" and AB: "A \<inter> B = {}"
  shows "sweep_step (A \<union> B) g L g2 L2"
  unfolding sweep_step_def
proof (intro conjI)
  note a = 1 [unfolded sweep_step_def] and b = 2 [unfolded sweep_step_def]
  have st: "stub_heads g1 = stub_heads g" using a pools_step_static(3) by blast
  show "pools_step g g2" using a b pools_step_trans by blast
  show "\<forall>p P. p \<in> A \<union> B \<longrightarrow> gc_pools g p = Some P \<longrightarrow> sweep_result P (gc_pools g2 p)"
  proof (intro allI impI)
    fix p P assume p: "p \<in> A \<union> B" "gc_pools g p = Some P"
    show "sweep_result P (gc_pools g2 p)"
    proof (cases "p \<in> A")
      case True
      then have "p \<notin> B" using AB by blast
      then show ?thesis using True a b p(2) by simp
    next
      case False
      then show ?thesis using p a b by simp
    qed
  qed
  show "\<forall>p. p \<notin> A \<union> B \<longrightarrow> gc_pools g2 p = gc_pools g p" using a b by simp
  show "gc_allocated_size g2 - objs_size g2 = gc_allocated_size g - objs_size g" using a b by simp
  show "\<forall>q \<in> dom (gc_pools g) - (A \<union> B). elsewhere L q \<longrightarrow> elsewhere L2 q"
  proof (intro ballI impI)
    fix q assume q: "q \<in> dom (gc_pools g) - (A \<union> B)" "elsewhere L q"
    then have "gc_pools g1 q = gc_pools g q" using a by simp
    then have "q \<in> dom (gc_pools g1) - B" using q(1) by auto
    then show "elsewhere L2 q" using a b q by simp
  qed
  show "\<forall>c. c \<notin> stub_heads g \<longrightarrow> (\<forall>p \<in> A \<union> B. \<not> c - p < 4096) \<longrightarrow> gc_cells g2 c = gc_cells g c"
    using a b unfolding st by simp
qed

lemma sweep_chain:
  "sseg (gc_cells g) a ps \<Longrightarrow> gc_inv D g L \<Longrightarrow> set ps \<subseteq> D \<Longrightarrow> set ps \<subseteq> pools_of g t \<Longrightarrow>
    (\<And>q. q \<in> set ps \<Longrightarrow> elsewhere L q) \<Longrightarrow>
    \<exists>g' L'. m_slist_foreach_value_safe_loop 0 (sweep_body (descr_of t) t) (m_node_value a 0) (gc_cells g, g) =
        Some (gc_cells g', g') \<and> gc_inv (D - set ps) g' L' \<and> sweep_step (set ps) g L g' L'"
proof (induction ps arbitrary: g a D L)
  case Nil
  have "sweep_step {} g L g L" by (simp add: sweep_step_def)
  then show ?case using Nil by (intro exI [of _ g] exI [of _ L])
      (simp add: m_slist_foreach_value_safe_loop.simps)
next
  case (Cons x xs)
  obtain b where b: "a = x" "x \<noteq> 0" "gc_cells g x = Some \<lparr>s_next = b\<rparr>" "sseg (gc_cells g) b xs"
    using Cons.prems(1) by auto
  have dist: "x \<notin> set xs" using sseg_distinct [OF Cons.prems(1)] by simp
  obtain P where P: "gc_pools g x = Some P" "p_type P = t" using Cons.prems(4) by (auto simp: pools_of_def)
  have xd: "x \<in> D" "elsewhere L x" using Cons.prems by auto
  obtain g1 L1 where 1: "gc_sweep_pool (descr_of t) t x g = Some g1" "gc_inv (D - {x}) g1 L1"
    "sweep_step {x} g L g1 L1"
    using sweep_pool_ok [OF Cons.prems(2) P(1) xd] unfolding P(2) by blast
  note st = 1(3) [unfolded sweep_step_def]
  have dom: "y \<in> dom (gc_pools g) - {x}" if "y \<in> set xs" for y
    using that Cons.prems(4) dist by (auto simp: pools_of_def)
  have same: "gc_pools g1 y = gc_pools g y" if "y \<in> set xs" for y using st dom [OF that] by simp
  have "sseg (gc_cells g1) b xs"
  proof (rule sseg_cong [OF b(4)])
    fix y assume y: "y \<in> set xs"
    have "y \<notin> stub_heads g" using head_not_in_pool(2) [OF Cons.prems(2), of y y] dom [OF y] by auto
    moreover have "\<not> y - x < 4096"
      using pages_apart [OF gc_ok_page [OF Cons.prems(2)] gc_ok_page [OF Cons.prems(2)], of x y y] P(1) dom [OF y]
      by auto
    ultimately show "gc_cells g1 y = gc_cells g y" using st by simp
  qed
  moreover have "set xs \<subseteq> D - {x}" using Cons.prems(3) dist by auto
  moreover have "set xs \<subseteq> pools_of g1 t" using Cons.prems(4) same by (auto simp: pools_of_def)
  moreover have "elsewhere L1 q" if "q \<in> set xs" for q
    using st dom [OF that] Cons.prems(5) [of q] that by simp
  ultimately obtain g' L' where
    2: "m_slist_foreach_value_safe_loop 0 (sweep_body (descr_of t) t) (m_node_value b 0) (gc_cells g1, g1) =
      Some (gc_cells g', g')" "gc_inv (D - {x} - set xs) g' L'" "sweep_step (set xs) g1 L1 g' L'"
    using Cons.IH [OF _ 1(2)] by blast
  have "sweep_step ({x} \<union> set xs) g L g' L'" by (rule sweep_step_trans [OF 1(3) 2(3)]) (use dist in simp)
  moreover have "m_slist_foreach_value_safe_loop 0 (sweep_body (descr_of t) t) (m_node_value a 0) (gc_cells g, g) =
      Some (gc_cells g', g')"
    using b 1(1) 2(1) by (subst m_slist_foreach_value_safe_loop.simps) (simp add: access sweep_body_def)
  moreover have "D - {x} - set xs = D - set (x # xs)" by auto
  ultimately show ?case using 2(2) by (metis insert_is_Un list.simps(15))
qed

lemma slist_chain:
  assumes "slist h a xs"
  obtains b where "a \<noteq> 0" "h a = Some \<lparr>s_next = b\<rparr>" "sseg h b xs"
  using assms by (auto simp: slist_def)

text \<open>Emptying both lists of a type.\<close>

lemma init_head_ok:
  assumes inv: "gc_inv D g L" and t: "t \<in> set obj_types" and a: "a = usable_pools g t \<or> a = full_pools g t"
    and xs: "L a = Some xs" "set xs \<subseteq> D"
  shows "\<exists>h. m_slist_init a (gc_cells g) = Some h \<and> gc_inv D (g\<lparr>gc_cells := h\<rparr>) (L(a \<mapsto> [])) \<and>
    (\<forall>b. b \<noteq> a \<longrightarrow> h b = gc_cells g b)"
proof -
  have fam: "family (gc_cells g) L" by (rule inv_dom(2) [OF inv])
  from family_slist [OF fam xs(1)] obtain b where b: "a \<noteq> 0" "gc_cells g a = Some \<lparr>s_next = b\<rparr>"
    by (rule slist_chain)
  have "a \<in> dom L" using xs(1) by blast
  then have na: "\<And>c zs. L c = Some zs \<Longrightarrow> a \<notin> set zs" using family_heads [OF fam] by blast
  have "\<exists>h'. m_slist_init a (gc_cells g) = Some h' \<and> family h' (L(a \<mapsto> [])) \<and> dom h' = dom (gc_cells g) \<and>
      (\<forall>b. b \<noteq> a \<longrightarrow> h' b = gc_cells g b)"
    by (rule family_init [OF fam b]) (rule na)
  then obtain h where
    h: "m_slist_init a (gc_cells g) = Some h" "family h (L(a \<mapsto> []))" "dom h = dom (gc_cells g)"
      "\<forall>b. b \<noteq> a \<longrightarrow> h b = gc_cells g b" by blast
  have "gc_inv D (g\<lparr>gc_cells := h\<rparr>) (L(a \<mapsto> []))"
    by (rule inv_head [OF inv t a xs(1) h(2,3)]) (use xs(2) in auto)
  then show ?thesis using h by blast
qed

lemma types_descr: "t \<in> set obj_types \<Longrightarrow> gc_obj_get_descr t = Some (descr_of t)"
  by (auto simp: obj_types_def descr_of_def gc_obj_get_descr_def)

lemma sweep_type_ok:
  assumes ok: "gc_ok g L" and t: "t \<in> set obj_types"
  shows "\<exists>g' L'. gc_sweep_type t g = Some g' \<and> gc_ok g' L' \<and> sweep_step (pools_of g t) g L g' L'"
proof -
  note parts = gc_ok_parts [OF ok]
  from parts(3) t obtain us fs where v: "L (usable_pools g t) = Some us" "L (full_pools g t) = Some fs"
    "set us \<union> set fs \<subseteq> pools_of g t" "pools_of g t - {} \<subseteq> set us \<union> set fs"
    "\<forall>p \<in> set us - {}. L (free_cells p) \<noteq> Some []" "\<forall>p \<in> set fs - {}. L (free_cells p) = Some []"
    by (rule lists_ok_type)
  let ?D = "set us \<union> set fs"
  have D: "?D = pools_of g t" using v(3,4) by blast
  have fam: "family (gc_cells g) L" by (rule inv_dom(2) [OF ok])
  have hd: "usable_pools g t \<noteq> full_pools g t" using heads_distinct(3) [OF parts(1) t t] .
  have dis: "set us \<inter> set fs = {}" using family_disjoint [OF fam v(1,2) hd] .
  from family_slist [OF fam v(2)] obtain a where a: "full_pools g t \<noteq> 0"
    "gc_cells g (full_pools g t) = Some \<lparr>s_next = a\<rparr>" "sseg (gc_cells g) a fs" by (rule slist_chain)
  from family_slist [OF fam v(1)] obtain b where b: "usable_pools g t \<noteq> 0"
    "gc_cells g (usable_pools g t) = Some \<lparr>s_next = b\<rparr>" "sseg (gc_cells g) b us" by (rule slist_chain)
  have inv0: "gc_inv ?D g L" by (rule inv_suspend [OF ok]) simp
  obtain h1 where h1: "m_slist_init (full_pools g t) (gc_cells g) = Some h1"
    "gc_inv ?D (g\<lparr>gc_cells := h1\<rparr>) (L(full_pools g t \<mapsto> []))"
    "\<forall>c. c \<noteq> full_pools g t \<longrightarrow> h1 c = gc_cells g c"
    using init_head_ok [OF inv0 t _ v(2)] by auto
  have "(L(full_pools g t \<mapsto> [])) (usable_pools g t) = Some us" using v(1) hd by simp
  from init_head_ok [OF h1(2) t _ this]
  have "\<exists>h. m_slist_init (usable_pools g t) h1 = Some h \<and>
      gc_inv ?D (g\<lparr>gc_cells := h\<rparr>) (L(full_pools g t \<mapsto> [], usable_pools g t \<mapsto> [])) \<and>
      (\<forall>c. c \<noteq> usable_pools g t \<longrightarrow> h c = h1 c)" by (simp del: fun_upd_apply)
  then obtain h2 where h2: "m_slist_init (usable_pools g t) h1 = Some h2"
    "gc_inv ?D (g\<lparr>gc_cells := h2\<rparr>) (L(full_pools g t \<mapsto> [], usable_pools g t \<mapsto> []))"
    "\<forall>c. c \<noteq> usable_pools g t \<longrightarrow> h2 c = h1 c" by (elim exE conjE)
  let ?g2 = "g\<lparr>gc_cells := h2\<rparr>" and ?L2 = "L(full_pools g t \<mapsto> [], usable_pools g t \<mapsto> [])"
  have D_head: "q \<notin> stub_heads g" if "q \<in> ?D" for q
    using that head_not_in_pool(2) [OF ok, of q q] D by (auto simp: pools_of_def)
  have heads: "usable_pools g t \<in> stub_heads g" "full_pools g t \<in> stub_heads g"
    using stub_heads_iff [OF t, of g] by simp_all
  have h2_same: "h2 c = gc_cells g c" if "c \<notin> stub_heads g" for c
    using that h1(3) h2(3) heads by metis
  have fs2: "sseg h2 a fs" using D_head by (intro sseg_cong [OF a(3)] h2_same) auto
  have us2: "sseg h2 b us" using D_head by (intro sseg_cong [OF b(3)] h2_same) auto
  have else2: "elsewhere ?L2 q" if q: "q \<in> ?D" for q
  proof -
    have "q \<notin> dom L" using q family_heads [OF fam v(1)] family_heads [OF fam v(2)] by blast
    moreover have "q \<notin> set zs" if z: "L c = Some zs" "c \<noteq> usable_pools g t" "c \<noteq> full_pools g t" for c zs
      using q family_disjoint [OF fam v(1) z(1)] family_disjoint [OF fam v(2) z(1)] z(2,3) by auto
    ultimately show ?thesis using heads D_head [OF q] unfolding elsewhere_def by (auto split: if_splits)
  qed
  have po2: "pools_of ?g2 t = pools_of g t" by (simp add: pools_of_def)
  have step2: "sweep_step {} g L ?g2 ?L2"
    unfolding sweep_step_def
  proof (intro conjI)
    show "pools_step g ?g2" by (simp add: pools_step_def)
    show "gc_allocated_size ?g2 - objs_size ?g2 = gc_allocated_size g - objs_size g"
      by (simp add: objs_size_def pool_bytes_def)
    show "\<forall>q \<in> dom (gc_pools g) - {}. elsewhere L q \<longrightarrow> elsewhere ?L2 q"
      using head_not_in_pool(2) [OF ok heads(1)] head_not_in_pool(2) [OF ok heads(2)]
      by (intro ballI impI elsewhere_upd(1)) auto
    show "\<forall>c. c \<notin> stub_heads g \<longrightarrow> (\<forall>p \<in> {}. \<not> c - p < 4096) \<longrightarrow> gc_cells ?g2 c = gc_cells g c"
      using h2_same by simp
  qed simp_all
  obtain g3 L3 where 3: "m_slist_foreach_value_safe_loop 0 (sweep_body (descr_of t) t) (m_node_value a 0) (h2, ?g2) =
      Some (gc_cells g3, g3)" "gc_inv (?D - set fs) g3 L3" "sweep_step (set fs) ?g2 ?L2 g3 L3"
    using sweep_chain [of ?g2 a fs ?D ?L2 t] fs2 h2(2) v(3) po2 else2 by auto
  note st3 = 3(3) [unfolded sweep_step_def]
  have dom_us: "q \<in> dom (gc_pools ?g2) - set fs" if "q \<in> set us" for q
    using that v(3) dis by (auto simp: pools_of_def)
  have same: "gc_pools g3 q = gc_pools g q" if "q \<in> set us" for q using st3 dom_us [OF that] by simp
  have us3: "sseg (gc_cells g3) b us"
  proof (rule sseg_cong [OF us2])
    fix y assume y: "y \<in> set us"
    have "\<not> y - q < 4096" if q: "q \<in> set fs" for q
    proof -
      have "q \<noteq> y" "q \<in> dom (gc_pools g)" "y \<in> dom (gc_pools g)"
        using q y dis v(3) by (auto simp: pools_of_def)
      then show ?thesis using pages_apart [OF gc_ok_page [OF ok] gc_ok_page [OF ok], of q y y] by simp
    qed
    moreover have "y \<notin> stub_heads ?g2" using D_head y by simp
    ultimately show "gc_cells g3 y = h2 y" using st3 by simp
  qed
  have "set us \<subseteq> ?D - set fs" using dis by blast
  moreover have "set us \<subseteq> pools_of g3 t" using v(3) same by (auto simp: pools_of_def)
  moreover have "elsewhere L3 q" if "q \<in> set us" for q
    using st3 dom_us [OF that] else2 [of q] that by blast
  ultimately obtain g4 L4 where
    4: "m_slist_foreach_value_safe_loop 0 (sweep_body (descr_of t) t) (m_node_value b 0) (gc_cells g3, g3) =
      Some (gc_cells g4, g4)" "gc_inv (?D - set fs - set us) g4 L4" "sweep_step (set us) g3 L3 g4 L4"
    using sweep_chain [OF us3 3(2), of t] by blast
  have "sweep_step ({} \<union> set fs) g L g3 L3" by (rule sweep_step_trans [OF step2 3(3)]) simp
  then have "sweep_step ({} \<union> set fs \<union> set us) g L g4 L4"
    by (rule sweep_step_trans [OF _ 4(3)]) (use dis in auto)
  moreover have "{} \<union> set fs \<union> set us = pools_of g t" using D by auto
  moreover have "?D - set fs - set us = {}" by auto
  moreover have "gc_sweep_type t g = Some g4"
    using types_descr [OF t] a(1,2) b(1,2) h1(1) h2(1) 3(1) 4(1) by (simp add: gc_sweep_type_def access)
  ultimately show ?thesis using 4(2) by metis
qed

subsection \<open>The whole sweep\<close>

lemma sweep_result_marks:
  assumes "sweep_result P r"
  shows "(case r of None \<Rightarrow> 0 | Some Q \<Rightarrow> if i < 16 * length (bitmap Q) then mark (bitmap Q) i else 0) =
    swept (if i < 16 * length (bitmap P) then mark (bitmap P) i else 0)"
    "r \<noteq> None \<longleftrightarrow> (\<exists>i < 16 * length (bitmap P). mark (bitmap P) i = GC_MARK_BLACK)"
    "r = Some Q \<Longrightarrow> p_type Q = p_type P \<and> length (bitmap Q) = length (bitmap P)"
  using assms by (auto simp: sweep_result_def swept_def split: if_splits)

lemma sweep_step_pools_of:
  assumes "sweep_step (pools_of g t) g L g' L'" "u \<noteq> t"
  shows "pools_of g' u = pools_of g u"
proof -
  have "p \<in> pools_of g' u \<longleftrightarrow> p \<in> pools_of g u" for p
  proof (cases "p \<in> pools_of g t")
    case True
    then obtain P where P: "gc_pools g p = Some P" "p_type P = t" by (auto simp: pools_of_def)
    have "sweep_result P (gc_pools g' p)" using assms(1) True P(1) by (simp add: sweep_step_def)
    then have "p_type Q = t" if "gc_pools g' p = Some Q" for Q
      using sweep_result_marks(3) that P(2) by blast
    then show ?thesis using P assms(2) by (auto simp: pools_of_def)
  next
    case False
    then have "gc_pools g' p = gc_pools g p" using assms(1) by (simp add: sweep_step_def)
    then show ?thesis by (simp add: pools_of_def)
  qed
  then show ?thesis by blast
qed

lemma sweep_types_ok:
  "gc_ok g L \<Longrightarrow> distinct ts \<Longrightarrow> set ts \<subseteq> set obj_types \<Longrightarrow>
    \<exists>g' L'. gc_sweep_types ts g = Some g' \<and> gc_ok g' L' \<and> sweep_step (\<Union>t \<in> set ts. pools_of g t) g L g' L'"
proof (induction ts arbitrary: g L)
  case Nil
  then show ?case by (auto simp: sweep_step_def)
next
  case (Cons t ts)
  obtain g1 L1 where 1: "gc_sweep_type t g = Some g1" "gc_ok g1 L1" "sweep_step (pools_of g t) g L g1 L1"
    using sweep_type_ok [OF Cons.prems(1), of t] Cons.prems(3) by auto
  have "distinct ts" "set ts \<subseteq> set obj_types" using Cons.prems by auto
  from Cons.IH [OF 1(2) this] obtain g2 L2 where 2: "gc_sweep_types ts g1 = Some g2" "gc_ok g2 L2"
    "sweep_step (\<Union>u \<in> set ts. pools_of g1 u) g1 L1 g2 L2" by blast
  have "pools_of g1 u = pools_of g u" if "u \<in> set ts" for u
    using sweep_step_pools_of [OF 1(3), of u] that Cons.prems(2) by auto
  then have eq: "(\<Union>u \<in> set ts. pools_of g1 u) = (\<Union>u \<in> set ts. pools_of g u)" by simp
  have dis: "pools_of g t \<inter> (\<Union>u \<in> set ts. pools_of g u) = {}"
    using Cons.prems(2) by (auto simp: pools_of_def)
  have "sweep_step (pools_of g t \<union> (\<Union>u \<in> set ts. pools_of g u)) g L g2 L2"
    using sweep_step_trans [OF 1(3) 2(3)] dis unfolding eq by blast
  then show ?case using 1(1) 2(1,2) by (intro exI [of _ g2] exI [of _ L2]) simp
qed

lemma obj_types_distinct: "distinct obj_types"
  by (simp add: obj_types_def)

text \<open>The states before and after, pool by pool, and what it means for the objects.\<close>

definition swept_pools :: "GC \<Rightarrow> GC \<Rightarrow> bool" where
  "swept_pools g g' \<longleftrightarrow> (\<forall>p. gc_pools g p = None \<longrightarrow> gc_pools g' p = None) \<and>
     (\<forall>p P. gc_pools g p = Some P \<longrightarrow> sweep_result P (gc_pools g' p))"

lemma obj_mark_pool:
  assumes "gc_inv D g L" "gc_pools g p = Some P"
  shows "obj_mark g p i = (if i < 16 * length (bitmap P) then mark (bitmap P) i else 0)"
  using pool_marks(2) [OF assms, of i] obj_cell_facts(8) [OF assms, of i] assms(2)
  by (auto simp: obj_mark_def)

lemma gc_objs_mark:
  "m \<noteq> 0 \<Longrightarrow> gc_objs g m = {obj_cell g (p_type P) p i | p P i. gc_pools g p = Some P \<and> obj_mark g p i = m}"
  unfolding gc_objs_def obj_mark_def by (intro Collect_cong ex_cong1) (auto split: if_splits)

lemma gc_objs_memI:
  assumes "gc_pools g p = Some P" "obj_mark g p i = m" "m \<noteq> 0"
  shows "obj_cell g (p_type P) p i \<in> gc_objs g m"
  unfolding gc_objs_mark [OF assms(3)] using assms(1,2) by blast

lemma swept_pools_mark:
  assumes ok: "gc_inv D g L" "gc_inv D' g' L'" and sw: "swept_pools g g'"
  shows "obj_mark g' p i = swept (obj_mark g p i)"
proof (cases "gc_pools g p")
  case None
  then show ?thesis using sw by (simp add: obj_mark_def swept_pools_def)
next
  case (Some P)
  then have r: "sweep_result P (gc_pools g' p)" using sw by (simp add: swept_pools_def)
  show ?thesis
  proof (cases "gc_pools g' p")
    case None
    then show ?thesis using sweep_result_marks(1) [OF r, of i] obj_mark_pool [OF ok(1) Some, of i]
      by (simp add: obj_mark_def)
  next
    case Q: (Some Q)
    then show ?thesis
      using sweep_result_marks(1) [OF r, of i] obj_mark_pool [OF ok(1) Some, of i] obj_mark_pool [OF ok(2) Q, of i]
      by simp
  qed
qed

lemma swept_pools_kept:
  assumes ok: "gc_inv D g L" and sw: "swept_pools g g'"
  shows "gc_pools g' p \<noteq> None \<longleftrightarrow> (\<exists>i. obj_mark g p i = GC_MARK_BLACK)"
proof (cases "gc_pools g p")
  case None
  then show ?thesis using sw by (simp add: obj_mark_def swept_pools_def)
next
  case (Some P)
  then have r: "sweep_result P (gc_pools g' p)" using sw by (simp add: swept_pools_def)
  have "(\<exists>i. obj_mark g p i = GC_MARK_BLACK) \<longleftrightarrow> (\<exists>i < 16 * length (bitmap P). mark (bitmap P) i = GC_MARK_BLACK)"
    unfolding obj_mark_pool [OF ok Some] by auto
  then show ?thesis using sweep_result_marks(2) [OF r] by blast
qed

lemma swept_pools_type:
  assumes "swept_pools g g'" "gc_pools g' p = Some Q"
  obtains P where "gc_pools g p = Some P" "p_type P = p_type Q"
  using assms sweep_result_marks(3) unfolding swept_pools_def by (metis not_None_eq)

lemma swept_pools_objs:
  assumes ok: "gc_inv D g L" "gc_inv D' g' L'" and sw: "swept_pools g g'"
    and stubs: "gc_obj_stubs g' = gc_obj_stubs g"
  shows "gc_objs g' GC_MARK_WHITE = gc_objs g GC_MARK_BLACK" "gc_objs g' GC_MARK_BLACK = {}"
proof -
  have cell: "obj_cell g' t p i = obj_cell g t p i" for t p i using stubs by (simp add: obj_cell_def)
  have mk: "obj_mark g' p i = GC_MARK_WHITE \<longleftrightarrow> obj_mark g p i = GC_MARK_BLACK" "obj_mark g' p i \<noteq> GC_MARK_BLACK" for p i
    unfolding swept_pools_mark [OF ok sw] by (simp_all add: swept_def)
  have "x \<in> gc_objs g' GC_MARK_WHITE \<longleftrightarrow> x \<in> gc_objs g GC_MARK_BLACK" for x
  proof
    assume "x \<in> gc_objs g' GC_MARK_WHITE"
    then obtain p Q i where Q: "x = obj_cell g (p_type Q) p i" "gc_pools g' p = Some Q" "obj_mark g p i = GC_MARK_BLACK"
      by (auto simp: gc_objs_mark cell mk)
    from sw Q(2) obtain P where P: "gc_pools g p = Some P" "p_type P = p_type Q" by (rule swept_pools_type)
    then show "x \<in> gc_objs g GC_MARK_BLACK" using gc_objs_memI [OF P(1) Q(3)] Q(1) by simp
  next
    assume "x \<in> gc_objs g GC_MARK_BLACK"
    then obtain p P i where P: "x = obj_cell g (p_type P) p i" "gc_pools g p = Some P" "obj_mark g p i = GC_MARK_BLACK"
      by (auto simp: gc_objs_mark)
    then obtain Q where Q: "gc_pools g' p = Some Q" using swept_pools_kept [OF ok(1) sw, of p] by blast
    then have "p_type Q = p_type P" using sw P(2) sweep_result_marks(3) unfolding swept_pools_def by blast
    moreover have "obj_mark g' p i = GC_MARK_WHITE" using mk(1) P(3) by simp
    ultimately show "x \<in> gc_objs g' GC_MARK_WHITE"
      using gc_objs_memI [OF Q, of i GC_MARK_WHITE] P(1) cell by simp
  qed
  then show "gc_objs g' GC_MARK_WHITE = gc_objs g GC_MARK_BLACK" by blast
  show "gc_objs g' GC_MARK_BLACK = {}" using mk(2) by (simp add: gc_objs_mark)
qed

lemma all_pools:
  assumes "gc_inv D g L"
  shows "(\<Union>t \<in> set obj_types. pools_of g t) = dom (gc_pools g)"
proof -
  have "p_type P \<in> set obj_types" if "gc_pools g p = Some P" for p P
    using gc_ok_parts(4) [OF assms that] real_type(1) by (auto simp: pool_ok_def)
  then show ?thesis by (auto simp: pools_of_def)
qed

lemma gc_sweep_ok:
  assumes ok: "gc_ok g L"
  shows "\<exists>g1 L'. gc_sweep g = Some (g1\<lparr>gc_last_allocated_size := gc_allocated_size g1\<rparr>) \<and> gc_ok g1 L' \<and>
    pools_step g g1 \<and> swept_pools g g1 \<and> (bytes_ok g \<longrightarrow> bytes_ok g1)"
proof -
  obtain g1 L1 where 1: "gc_sweep_types obj_types g = Some g1" "gc_ok g1 L1" "sweep_step (dom (gc_pools g)) g L g1 L1"
    using sweep_types_ok [OF ok obj_types_distinct] unfolding all_pools [OF ok] by blast
  note st = 1(3) [unfolded sweep_step_def]
  have "swept_pools g g1"
    unfolding swept_pools_def
  proof (intro conjI allI impI)
    show "gc_pools g1 p = None" if "gc_pools g p = None" for p using st that by (simp add: domIff)
    show "sweep_result P (gc_pools g1 p)" if "gc_pools g p = Some P" for p P using st that by blast
  qed
  moreover have "pools_step g g1" using st by blast
  moreover have "bytes_ok g \<longrightarrow> bytes_ok g1" using st unfolding bytes_ok_def by (metis eq_iff_diff_eq_0)
  ultimately show ?thesis using 1(1,2) by (intro exI [of _ g1] exI [of _ L1]) (simp add: gc_sweep_def)
qed

end
