(* ===== verification/GC_State.thy ===== *)
theory GC_State
  imports GC_Sweep_All GC_Buf GC_Root DList
begin

text \<open>
  The state that the object manager shares with the threads: the data of every thread
  (\<open>include/m_thread.h\<close>) with its stack of new borned objects in the C heap, the roots and the
  object manager itself. The list node of a thread is at offset 0 of \<open>M_Thread\<close>: the nodes are
  in \<open>mg_thread_nodes\<close>, the other members in \<open>mg_threads\<close>. \<open>mg_self\<close> is the thread
  that runs (\<open>pthread_getspecific\<close>). The second part holds the functions of
  \<open>include/m_gc.h\<close> on the new borned stack.
\<close>

subsection \<open>Threads and the process\<close>

record M_Thread =
  th_actor :: addr
  nb_stack :: addr
  nb_size :: u32
  nb_top :: u32
  th_flags :: u32

abbreviation (input) M_THREAD_FL_PAUSED :: u32 where "M_THREAD_FL_PAUSED \<equiv> 1"
abbreviation (input) M_GC_NBSTK_FLAGS :: u32 where "M_GC_NBSTK_FLAGS \<equiv> 3"
abbreviation (input) GC_NB_FL_NO_PTR :: u64 where "GC_NB_FL_NO_PTR \<equiv> 1"

record ming =
  mg_gc :: GC
  mg_mem :: cmem
  mg_roots :: gc_roots
  mg_threads :: "addr \<rightharpoonup> M_Thread"
  mg_thread_nodes :: dheap
  mg_thread_list :: addr
  mg_self :: addr
  mg_gc_thread :: addr
  mg_thread_num :: u32
  mg_paused_num :: u32
  mg_pause_flag :: bool
  mg_gray_buf :: addr

definition m_thread_self :: "ming \<Rightarrow> addr option" where
  "m_thread_self s = do { c_assert (mg_self s \<noteq> 0); Some (mg_self s) }"

definition thread_at :: "ming \<Rightarrow> addr \<Rightarrow> M_Thread option" where
  "thread_at s th = rd (mg_threads s) th"

definition set_thread :: "addr \<Rightarrow> M_Thread \<Rightarrow> ming \<Rightarrow> ming" where
  "set_thread th T s = s\<lparr>mg_threads := (mg_threads s)(th \<mapsto> T)\<rparr>"

text \<open>Words of a stack: a block of the C heap.\<close>

definition nb_read :: "cmem \<Rightarrow> addr \<Rightarrow> nat \<Rightarrow> u64 option" where
  "nb_read m p k = do { c \<leftarrow> blocks m p; (if k < length c then c ! k else None) }"

definition nb_write :: "cmem \<Rightarrow> addr \<Rightarrow> nat \<Rightarrow> u64 \<Rightarrow> cmem option" where
  "nb_write m p k w = do {
     c \<leftarrow> blocks m p;
     c_assert (k < length c);
     Some (m\<lparr>blocks := (blocks m)(p \<mapsto> c[k := Some w])\<rparr>) }"

lemma nb_read_write:
  "nb_write m p k w = Some m' \<Longrightarrow> nb_read m' q j = (if q = p \<and> j = k then Some w else nb_read m q j)"
  by (auto simp: nb_write_def nb_read_def bind_eq_Some_conv)

subsection \<open>The functions of \<open>m_gc.h\<close>\<close>

definition m_gc_get_nb_level :: "ming \<Rightarrow> u64 option" where
  "m_gc_get_nb_level s = do {
     th \<leftarrow> m_thread_self s;
     T \<leftarrow> thread_at s th;
     Some (ucast (nb_top T)) }"

text \<open>\<open>m_gc_set_nb_level\<close> has a result type but returns nothing.\<close>

definition m_gc_set_nb_level :: "u64 \<Rightarrow> ming \<Rightarrow> ming option" where
  "m_gc_set_nb_level level s = do {
     th \<leftarrow> m_thread_self s;
     T \<leftarrow> thread_at s th;
     c_assert (level \<le> ucast (nb_top T));
     Some (set_thread th (T\<lparr>nb_top := ucast level\<rparr>) s) }"

definition m_gc_add_obj :: "u64 \<Rightarrow> ming \<Rightarrow> ming option" where
  "m_gc_add_obj oid s = do {
     th \<leftarrow> m_thread_self s;
     T \<leftarrow> thread_at s th;
     c_assert (oid < ucast (nb_top T));
     w \<leftarrow> nb_read (mg_mem s) (nb_stack T) (unat oid);
     m \<leftarrow> nb_write (mg_mem s) (nb_stack T) (unat oid) (w AND NOT 3);
     Some (s\<lparr>mg_mem := m\<rparr>) }"

text \<open>Restoring the level that was read before.\<close>

lemma nb_level_restored:
  assumes "mg_self s \<noteq> 0" "mg_threads s (mg_self s) = Some T" "unat level \<le> unat (nb_top T)"
  shows "\<exists>s'. m_gc_set_nb_level level s = Some s' \<and> m_gc_get_nb_level s' = Some level \<and>
    s' = s\<lparr>mg_threads := (mg_threads s)(mg_self s \<mapsto> T\<lparr>nb_top := ucast level\<rparr>)\<rparr>"
proof -
  have b: "unat (nb_top T) < 2 ^ 32" using unsigned_less [of "nb_top T", where ?'a = nat] by simp
  then have u: "unat (ucast (nb_top T) :: u64) = unat (nb_top T)"
    by (simp add: unsigned_ucast_eq take_bit_eq_mod)
  have "unat (take_bit 32 level) = unat level"
    unfolding unsigned_take_bit_eq using assms(3) b by (simp add: take_bit_eq_mod)
  then have "take_bit 32 level = level" by (simp only: word_unat_eq_iff)
  moreover have "ucast (ucast level :: u32) = take_bit 32 level"
    by (rule bit_word_eqI) (auto simp: bit_ucast_iff bit_take_bit_iff dest: bit_imp_le_length)
  ultimately have "ucast (ucast level :: u32) = level" by simp
  moreover have "level \<le> ucast (nb_top T)" using assms(3) u by (simp add: word_le_nat_alt)
  ultimately show ?thesis using assms(1,2)
    by (simp add: m_gc_set_nb_level_def m_gc_get_nb_level_def m_thread_self_def thread_at_def
        set_thread_def access)
qed

end
