(* ===== verification/GC_Mark.thy ===== *)
theory GC_Mark
  imports GC_State Hash_Iter
begin

text \<open>
  Marking: the gray stack, \<open>gc_mark_with_color\<close>, the roots (new borned stacks and root table)
  and the scan of gray objects of \<open>src/m_gc_obj.c\<close>. The gray stack is a list with its top
  first and \<open>gc_gray_limit\<close> entries at most. The scan functions of all types have empty
  bodies.
\<close>

subsection \<open>Operations\<close>

definition gc_push_gray_stack :: "addr \<Rightarrow> GC \<Rightarrow> bool \<times> GC" where
  "gc_push_gray_stack ptr g =
     (if length (gc_gray_stack g) = unat (gc_gray_limit g) then (False, g\<lparr>gc_need_scan_gray := True\<rparr>)
      else (True, g\<lparr>gc_gray_stack := ptr # gc_gray_stack g\<rparr>))"

definition gc_mark_with_color :: "addr \<Rightarrow> u32 \<Rightarrow> GC \<Rightarrow> GC option" where
  "gc_mark_with_color ptr set_flags g =
     (let pool = gc_obj_get_pool g ptr in do {
      P \<leftarrow> gc_pools g pool;
      descr \<leftarrow> gc_obj_get_descr (p_type P);
      i \<leftarrow> gc_obj_get_id descr P ptr;
      flags \<leftarrow> gc_obj_get_bitmap (bitmap P) i;
      (if flags = GC_MARK_WHITE then
         let flags' = (if set_flags = GC_MARK_BLACK \<or> d_flags descr AND M_GC_OBJ_FL_PTR = 0
                       then GC_MARK_BLACK else flags) in do {
         bmp \<leftarrow> gc_obj_set_bitmap (bitmap P) i flags';
         (let g1 = g\<lparr>gc_pools := (gc_pools g)(pool \<mapsto> P\<lparr>bitmap := bmp\<rparr>)\<rparr> in
          Some (if flags' = GC_MARK_GRAY then snd (gc_push_gray_stack ptr g1) else g1)) }
       else Some g) })"

definition gc_mark :: "addr \<Rightarrow> GC \<Rightarrow> GC option" where
  "gc_mark ptr g = gc_mark_with_color ptr GC_MARK_GRAY g"

text \<open>One new borned stack: \<open>num\<close> words from index \<open>k\<close> on.\<close>

fun gc_mark_nb_words :: "cmem \<Rightarrow> addr \<Rightarrow> nat \<Rightarrow> nat \<Rightarrow> GC \<Rightarrow> GC option" where
  "gc_mark_nb_words m stack 0 k g = Some g"
| "gc_mark_nb_words m stack (Suc num) k g = do {
     w \<leftarrow> nb_read m stack k;
     g' \<leftarrow> (if w AND GC_NB_FL_NO_PTR \<noteq> 0
           then gc_mark_with_color (w AND NOT GC_NB_FL_NO_PTR) GC_MARK_BLACK g
           else gc_mark w g);
     gc_mark_nb_words m stack num (Suc k) g' }"

definition gc_mark_nb_stacks :: "ming \<Rightarrow> ming option" where
  "gc_mark_nb_stacks s = do {
     r \<leftarrow> m_list_foreach_value (mg_thread_list s) 0
       (\<lambda>th (nodes, g). map_option (Pair nodes) (do {
          T \<leftarrow> thread_at s th;
          gc_mark_nb_words (mg_mem s) (nb_stack T) (unat (nb_top T)) 0 g }))
       (mg_thread_nodes s, mg_gc s);
     Some (s\<lparr>mg_gc := snd r\<rparr>) }"

definition gc_mark_root_hash :: "ming \<Rightarrow> ming option" where
  "gc_mark_root_hash s = do {
     r \<leftarrow> m_hash_foreach_value 0
       (\<lambda>rn (h, g). map_option (Pair h) (do {
          n \<leftarrow> rd (root_nodes (mg_roots s)) rn;
          gc_mark (rn_ptr n) g }))
       ((root_hash (mg_roots s), root_links (mg_roots s)), mg_gc s);
     Some (s\<lparr>mg_gc := snd r\<rparr>) }"

definition gc_mark_root :: "ming \<Rightarrow> ming option" where
  "gc_mark_root s = do {
     s1 \<leftarrow> gc_mark_nb_stacks (s\<lparr>mg_gc := (mg_gc s)\<lparr>gc_need_scan_gray := False\<rparr>\<rparr>);
     gc_mark_root_hash s1 }"

text \<open>Looking for gray objects in a pool: the result is false when the stack is full.\<close>

function scan_gray_word :: "u64 \<Rightarrow> u32 \<Rightarrow> addr \<Rightarrow> GC \<Rightarrow> bool \<times> GC" where
  "scan_gray_word dsize flags ptr g =
     (let (ok, g') = (if flags AND 3 = GC_MARK_GRAY then gc_push_gray_stack ptr g else (True, g));
          flags' = drop_bit 2 flags in
      if \<not> ok then (False, g')
      else if flags' = 0 then (True, g')
      else scan_gray_word dsize flags' (ptr + dsize) g')"
  by pat_completeness auto

termination scan_gray_word
  by (relation "measure (\<lambda>(_, flags, _). unat flags)") (simp_all add: flags_decrease)

declare scan_gray_word.simps [simp del]

fun scan_gray_words :: "M_GCObjDescr \<Rightarrow> M_GCCellPool \<Rightarrow> nat \<Rightarrow> nat \<Rightarrow> GC \<Rightarrow> (bool \<times> GC) option" where
  "scan_gray_words descr P 0 n g = Some (True, g)"
| "scan_gray_words descr P (Suc k) n g = do {
     c_assert (n < length (bitmap P));
     (let flags = bitmap P ! n;
          (ok, g') = (if flags \<noteq> 0
            then scan_gray_word (ucast (d_size descr)) flags (p_begin P + ucast (of_nat (16 * n) * d_size descr)) g
            else (True, g)) in
      if \<not> ok then Some (False, g') else scan_gray_words descr P k (Suc n) g') }"

definition gc_scan_pool_gray :: "addr \<Rightarrow> GC \<Rightarrow> (bool \<times> GC) option" where
  "gc_scan_pool_gray pool g = do {
     P \<leftarrow> gc_pools g pool;
     descr \<leftarrow> gc_obj_get_descr (p_type P);
     scan_gray_words descr P (unat (bitmap_size (gc_obj_stubs g (p_type P))) div 4) 0 g }"

text \<open>The traversals of \<open>gc_scan_gray\<close> with their early return.\<close>

partial_function (option) scan_gray_pools :: "addr \<Rightarrow> GC \<Rightarrow> (bool \<times> GC) option" where
  "scan_gray_pools pool g =
     (if pool = 0 then Some (True, g)
      else do {
        r \<leftarrow> gc_scan_pool_gray pool g;
        (if \<not> fst r then Some r
         else do { n \<leftarrow> rd (gc_cells (snd r)) pool; scan_gray_pools (m_node_value (s_next n) 0) (snd r) }) })"

fun scan_gray_types :: "M_GCObjType list \<Rightarrow> GC \<Rightarrow> GC option" where
  "scan_gray_types [] g = Some g"
| "scan_gray_types (t # ts) g = do {
     full \<leftarrow> rd (gc_cells g) (full_pools g t);
     r \<leftarrow> scan_gray_pools (m_node_value (s_next full) 0) g;
     (if \<not> fst r then Some (snd r)
      else do {
        usable \<leftarrow> rd (gc_cells (snd r)) (usable_pools (snd r) t);
        q \<leftarrow> scan_gray_pools (m_node_value (s_next usable) 0) (snd r);
        (if \<not> fst q then Some (snd q) else scan_gray_types ts (snd q)) }) }"

definition gc_scan_gray :: "GC \<Rightarrow> GC option" where
  "gc_scan_gray g = do {
     c_assert (gc_need_scan_gray g);
     scan_gray_types obj_types (g\<lparr>gc_need_scan_gray := False\<rparr>) }"

text \<open>Emptying the gray stack; \<open>gc_scan\<close> reads the type of the pool and calls an empty
  function.\<close>

fun scan_gray_stack :: "addr list \<Rightarrow> GC \<Rightarrow> GC option" where
  "scan_gray_stack [] g = Some (g\<lparr>gc_gray_stack := []\<rparr>)"
| "scan_gray_stack (ptr # stack) g = do {
     P \<leftarrow> gc_pools g (gc_obj_get_pool g ptr);
     scan_gray_stack stack g }"

definition gc_mark_objs :: "GC \<Rightarrow> (bool \<times> GC) option" where
  "gc_mark_objs g =
     (if gc_gray_stack g = [] \<and> \<not> gc_need_scan_gray g then Some (True, g)
      else do {
        g1 \<leftarrow> (if gc_gray_stack g = [] then gc_scan_gray g else Some g);
        c_assert (gc_gray_stack g1 \<noteq> []);
        g2 \<leftarrow> scan_gray_stack (gc_gray_stack g1) g1;
        Some (\<not> gc_need_scan_gray g2, g2) })"

subsection \<open>Marking one object\<close>

text \<open>A mark is written only when an object is white, and it becomes black when black is asked
  for or its type has no pointers. An object with pointers that is to be gray keeps its white
  mark.\<close>

definition no_pointers :: "M_GCObjType \<Rightarrow> bool" where
  "no_pointers t \<longleftrightarrow> d_flags (descr_of t) AND M_GC_OBJ_FL_PTR = 0"

lemma no_pointers_types: "t \<in> real_types \<Longrightarrow> no_pointers t \<longleftrightarrow> t = M_GC_OBJ_DOUBLE"
  by (auto simp: real_types_def obj_types_def no_pointers_def descr_of_def)

definition marked :: "u32 \<Rightarrow> M_GCObjType \<Rightarrow> u32 \<Rightarrow> u32" where
  "marked c t m = (if m = GC_MARK_WHITE \<and> (c = GC_MARK_BLACK \<or> no_pointers t) then GC_MARK_BLACK else m)"

lemma set_mark_same: "i < 16 * length bmp \<Longrightarrow> set_mark bmp i (mark bmp i) = bmp"
proof -
  assume i: "i < 16 * length bmp"
  have "word_mark (word_set (bmp ! (i div 16)) (i mod 16) (mark bmp i)) j = word_mark (bmp ! (i div 16)) j"
    if "j < 16" for j
    using that and_3_less by (subst word_mark_set) (auto simp: mark_def word_mark_def)
  then have "word_set (bmp ! (i div 16)) (i mod 16) (mark bmp i) = bmp ! (i div 16)"
    by (rule word_marks_eq)
  then show ?thesis by (simp add: set_mark_def)
qed

lemma mark_with_color_run:
  assumes inv: "gc_inv D g L" and P: "gc_pools g p = Some P" and i: "i < cells_of g (p_type P)"
  shows "gc_mark_with_color (obj_cell g (p_type P) p i) c g =
    Some (g\<lparr>gc_pools := (gc_pools g)(p \<mapsto> P\<lparr>bitmap := set_mark (bitmap P) i (marked c (p_type P) (mark (bitmap P) i))\<rparr>)\<rparr>)"
proof -
  note cf = obj_cell_facts [OF inv P i]
  have t: "p_type P \<in> real_types" using gc_ok_parts(4) [OF inv P] by (simp add: pool_ok_def)
  note d = real_type(2) [OF t]
  have same: "g\<lparr>gc_pools := (gc_pools g)(p \<mapsto> P)\<rparr> = g" using P by (cases g) (simp add: fun_upd_idem)
  show ?thesis
    using P d cf(6,7) get_bitmap_mark [OF cf(8,9)] set_bitmap_mark [OF cf(8,9)] set_mark_same [OF cf(8)] same
    by (auto simp: gc_mark_with_color_def Let_def marked_def no_pointers_def)
qed

lemma mark_inv:
  assumes inv: "gc_ok g L" and P: "gc_pools g p = Some P" and i: "i < cells_of g (p_type P)"
    and bm: "bm = set_mark (bitmap P) i (marked c (p_type P) (mark (bitmap P) i))"
  shows "gc_ok (g\<lparr>gc_pools := (gc_pools g)(p \<mapsto> P\<lparr>bitmap := bm\<rparr>)\<rparr>) L"
proof -
  note parts = gc_ok_parts [OF inv]
  note pok = parts(4) [OF P]
  note cf = obj_cell_facts [OF inv P i]
  have m4: "mark (bitmap P) i < 4" unfolding mark_def word_mark_def by (rule and_3_less)
  have mk: "mark bm j = (if j = i then marked c (p_type P) (mark (bitmap P) i) else mark (bitmap P) j)" for j
    unfolding bm using m4 by (intro mark_set_mark cf(8)) (simp add: marked_def)
  have zero: "mark bm j = 0 \<longleftrightarrow> mark (bitmap P) j = 0" for j by (auto simp: mk marked_def)
  obtain fs where fs: "L (free_cells p) = Some fs"
    "set fs = obj_cell g (p_type P) p ` {i. i < cells_of g (p_type P) \<and> mark (bitmap P) i = GC_MARK_UNUSED}"
    using pok by (auto simp: pool_ok_def)
  have L: "L(free_cells p \<mapsto> fs) = L" using fs(1) by (simp add: fun_upd_idem)
  have g: "g\<lparr>gc_cells := gc_cells g, gc_pools := (gc_pools g)(p \<mapsto> P\<lparr>bitmap := bm\<rparr>)\<rparr> =
      g\<lparr>gc_pools := (gc_pools g)(p \<mapsto> P\<lparr>bitmap := bm\<rparr>)\<rparr>" by simp
  have "gc_inv {p} (g\<lparr>gc_cells := gc_cells g, gc_pools := (gc_pools g)(p \<mapsto> P\<lparr>bitmap := bm\<rparr>)\<rparr>) (L(free_cells p \<mapsto> fs))"
  proof (rule inv_cells [OF inv_suspend [OF inv] P])
    show "family (gc_cells g) (L(free_cells p \<mapsto> fs))" unfolding L by (rule inv_dom(2) [OF inv])
    show "length bm = length (bitmap P)" by (simp add: bm)
    show "mark bm j = 0" if "cells_of g (p_type P) \<le> j" "j < 16 * length bm" for j
      using that pok unfolding zero by (simp add: pool_ok_def bm)
    show "mark bm j \<noteq> GC_MARK_GRAY" if "j < cells_of g (p_type P)" for j
      using that pok i by (auto simp: mk marked_def pool_ok_def)
    show "set fs = obj_cell g (p_type P) p ` {i. i < cells_of g (p_type P) \<and> mark bm i = GC_MARK_UNUSED}"
      unfolding zero by (rule fs(2))
  qed simp_all
  then have inv1: "gc_inv {p} (g\<lparr>gc_pools := (gc_pools g)(p \<mapsto> P\<lparr>bitmap := bm\<rparr>)\<rparr>) L" unfolding L g .
  from pok have t: "p_type P \<in> set obj_types" using real_type(1) by (simp add: pool_ok_def)
  from parts(3) t obtain us vs where v: "L (usable_pools g (p_type P)) = Some us" "L (full_pools g (p_type P)) = Some vs"
    "set us \<union> set vs \<subseteq> pools_of g (p_type P)" "pools_of g (p_type P) - {} \<subseteq> set us \<union> set vs"
    "\<forall>p \<in> set us - {}. L (free_cells p) \<noteq> Some []" "\<forall>p \<in> set vs - {}. L (free_cells p) = Some []"
    by (rule lists_ok_type)
  have "p \<in> set us \<union> set vs" using v(4) P by (auto simp: pools_of_def)
  then have at: "if L (free_cells p) = Some [] then p \<in> set vs else p \<in> set us" using v(5,6) by auto
  have "gc_inv ({p} - {p}) (g\<lparr>gc_pools := (gc_pools g)(p \<mapsto> P\<lparr>bitmap := bm\<rparr>)\<rparr>) L"
    by (rule inv_resume [OF inv1, of p "P\<lparr>bitmap := bm\<rparr>"]) (use at v(1,2) in \<open>auto split: if_splits\<close>)
  then show ?thesis by simp
qed

end
