(* ===== verification/GC_Mark_Roots.thy ===== *)
theory GC_Mark_Roots
  imports GC_Mark
begin

text \<open>
  The effect of marking the roots. The words of the new borned stacks and the entries of the root
  table are requests: an address and the color asked for. \<open>gc_mark_root\<close> runs all of them, and
  an object is black afterwards when a request asked for black or its type has no pointers.
\<close>

subsection \<open>Requests\<close>

definition is_cell :: "GC \<Rightarrow> addr \<Rightarrow> bool" where
  "is_cell g x \<longleftrightarrow> (\<exists>p P i. gc_pools g p = Some P \<and> i < cells_of g (p_type P) \<and> x = obj_cell g (p_type P) p i)"

definition mark_pin :: "addr \<times> u32 \<Rightarrow> GC \<Rightarrow> GC option" where
  "mark_pin r g = gc_mark_with_color (fst r) (snd r) g"

definition blackens :: "(addr \<times> u32) set \<Rightarrow> M_GCObjType \<Rightarrow> addr \<Rightarrow> bool" where
  "blackens R t x \<longleftrightarrow> (\<exists>c. (x, c) \<in> R \<and> (c = GC_MARK_BLACK \<or> no_pointers t))"

text \<open>Only marks change: \<open>R\<close> are the requests that have been run.\<close>

definition mark_step :: "(addr \<times> u32) set \<Rightarrow> GC \<Rightarrow> GC \<Rightarrow> bool" where
  "mark_step R g g' \<longleftrightarrow> g' = g\<lparr>gc_pools := gc_pools g'\<rparr> \<and>
     (\<forall>p. map_option p_type (gc_pools g' p) = map_option p_type (gc_pools g p)) \<and>
     objs_size g' = objs_size g \<and>
     (\<forall>p P i. gc_pools g p = Some P \<longrightarrow> obj_mark g' p i =
        (if obj_mark g p i = GC_MARK_WHITE \<and> blackens R (p_type P) (obj_cell g (p_type P) p i)
         then GC_MARK_BLACK else obj_mark g p i))"

lemma mark_step_static:
  assumes "mark_step R g g'"
  shows "obj_cell g' t p i = obj_cell g t p i" "cells_of g' t = cells_of g t" "gc_cells g' = gc_cells g"
    "gc_vm g' = gc_vm g" "gc_obj_stubs g' = gc_obj_stubs g" "gc_status g' = gc_status g"
    "gc_need_scan_gray g' = gc_need_scan_gray g" "gc_gray_stack g' = gc_gray_stack g"
    "gc_allocated_size g' = gc_allocated_size g"
  by (subst assms [unfolded mark_step_def, THEN conjunct1], simp)+

lemma mark_step_type:
  assumes "mark_step R g g'"
  shows "gc_pools g p = Some P \<Longrightarrow> \<exists>Q. gc_pools g' p = Some Q \<and> p_type Q = p_type P"
    "gc_pools g' p = Some Q \<Longrightarrow> \<exists>P. gc_pools g p = Some P \<and> p_type P = p_type Q"
    "gc_pools g' p = None \<longleftrightarrow> gc_pools g p = None"
proof -
  have e: "map_option p_type (gc_pools g' p) = map_option p_type (gc_pools g p)"
    using assms by (simp add: mark_step_def)
  then show "gc_pools g p = Some P \<Longrightarrow> \<exists>Q. gc_pools g' p = Some Q \<and> p_type Q = p_type P" by auto
  show "gc_pools g' p = Some Q \<Longrightarrow> \<exists>P. gc_pools g p = Some P \<and> p_type P = p_type Q"
    using e by (cases "gc_pools g p") auto
  show "gc_pools g' p = None \<longleftrightarrow> gc_pools g p = None" using e by (cases "gc_pools g p") auto
qed

lemma mark_step_is_cell:
  assumes "mark_step R g g'"
  shows "is_cell g' x \<longleftrightarrow> is_cell g x"
  unfolding is_cell_def mark_step_static [OF assms] using mark_step_type [OF assms] by metis

lemma mark_step_refl [simp]: "mark_step {} g g"
  by (simp add: mark_step_def blackens_def)

lemma mark_step_trans:
  assumes 1: "mark_step R g g1" and 2: "mark_step S g1 g2"
  shows "mark_step (R \<union> S) g g2"
  unfolding mark_step_def
proof (intro conjI allI impI)
  note a = 1 [unfolded mark_step_def] and b = 2 [unfolded mark_step_def]
  show "g2 = g\<lparr>gc_pools := gc_pools g2\<rparr>"
    using a b by (cases g; cases g1; cases g2) simp
  show "map_option p_type (gc_pools g2 p) = map_option p_type (gc_pools g p)" for p using a b by simp
  show "objs_size g2 = objs_size g" using a b by simp
  fix p P i assume P: "gc_pools g p = Some P"
  obtain Q where Q: "gc_pools g1 p = Some Q" "p_type Q = p_type P" using mark_step_type(1) [OF 1 P] by blast
  have bl: "blackens (R \<union> S) t x \<longleftrightarrow> blackens R t x \<or> blackens S t x" for t x by (auto simp: blackens_def)
  have m1: "obj_mark g1 p i = (if obj_mark g p i = 1 \<and> blackens R (p_type P) (obj_cell g (p_type P) p i)
      then 3 else obj_mark g p i)" using a P by blast
  have m2: "obj_mark g2 p i = (if obj_mark g1 p i = 1 \<and> blackens S (p_type P) (obj_cell g (p_type P) p i)
      then 3 else obj_mark g1 p i)" using b Q unfolding mark_step_static(1) [OF 1] by metis
  show "obj_mark g2 p i = (if obj_mark g p i = 1 \<and> blackens (R \<union> S) (p_type P) (obj_cell g (p_type P) p i)
      then 3 else obj_mark g p i)"
    unfolding m2 m1 bl by auto
qed

lemma cell_unique:
  assumes inv: "gc_inv D g L" and P: "gc_pools g p = Some P" "i < cells_of g (p_type P)"
    and Q: "gc_pools g q = Some Q" "j < cells_of g (p_type Q)"
    and eq: "obj_cell g (p_type P) p i = obj_cell g (p_type Q) q j"
  shows "p = q \<and> i = j"
proof -
  have "p = q" using obj_cell_facts(1) [OF inv P] obj_cell_facts(1) [OF inv Q] eq by simp
  moreover from this have "P = Q" using P(1) Q(1) by simp
  ultimately show ?thesis
    using obj_cell_inj [OF gc_ok_parts(1) [OF inv] gc_ok_parts(4) [OF inv P(1)] P(2)] Q(2) eq by simp
qed

lemma mark_pin_ok:
  assumes ok: "gc_ok g L" and x: "is_cell g x"
  shows "\<exists>g'. mark_pin (x, c) g = Some g' \<and> gc_ok g' L \<and> mark_step {(x, c)} g g'"
proof -
  obtain p P i where P: "gc_pools g p = Some P" "i < cells_of g (p_type P)" "x = obj_cell g (p_type P) p i"
    using x by (auto simp: is_cell_def)
  let ?t = "p_type P"
  let ?bm = "set_mark (bitmap P) i (marked c ?t (mark (bitmap P) i))"
  let ?g = "g\<lparr>gc_pools := (gc_pools g)(p \<mapsto> P\<lparr>bitmap := ?bm\<rparr>)\<rparr>"
  note cf = obj_cell_facts [OF ok P(1,2)]
  have m4: "mark (bitmap P) i < 4" unfolding mark_def word_mark_def by (rule and_3_less)
  have mk: "mark ?bm j = (if j = i then marked c ?t (mark (bitmap P) i) else mark (bitmap P) j)" for j
    using m4 by (intro mark_set_mark cf(8)) (simp add: marked_def)
  have om: "obj_mark ?g q j = (if q = p \<and> j = i then marked c ?t (obj_mark g q j) else obj_mark g q j)" for q j
    using P(1,2) by (auto simp: obj_mark_def mk split: option.split)
  have zero: "mark ?bm j = 0 \<longleftrightarrow> mark (bitmap P) j = 0" for j by (simp add: mk) (simp add: marked_def)
  have "pool_bytes ?g p = pool_bytes g p" using P(1) zero by (simp add: pool_bytes_def)
  then have size: "objs_size ?g = objs_size g" using objs_size_upd [of p ?g g] by simp
  have "mark_step {(x, c)} g ?g"
    unfolding mark_step_def
  proof (intro conjI allI impI)
    show "map_option p_type (gc_pools ?g q) = map_option p_type (gc_pools g q)" for q using P(1) by simp
    fix q Q j assume Q: "gc_pools g q = Some Q"
    show "obj_mark ?g q j = (if obj_mark g q j = 1 \<and> blackens {(x, c)} (p_type Q) (obj_cell g (p_type Q) q j)
        then 3 else obj_mark g q j)"
    proof (cases "q = p \<and> j = i")
      case True
      then have "obj_cell g (p_type Q) q j = x" "p_type Q = ?t" using Q P(1,3) by auto
      then show ?thesis unfolding om using True by (auto simp: marked_def blackens_def)
    next
      case False
      have "obj_mark g q j = 1 \<Longrightarrow> j < cells_of g (p_type Q)" using Q by (auto simp: obj_mark_def split: if_splits)
      then have "obj_mark g q j = 1 \<Longrightarrow> obj_cell g (p_type Q) q j \<noteq> x"
        using cell_unique [OF ok Q _ P(1,2), of j] False P(3) by auto
      then show ?thesis unfolding om using False by (auto simp: blackens_def)
    qed
  qed (simp_all add: size)
  then show ?thesis
    using mark_with_color_run [OF ok P(1,2), of c] mark_inv [OF ok P(1,2) refl, of c] P(3)
    by (simp add: mark_pin_def)
qed

lemma mark_pins_ok:
  "gc_ok g L \<Longrightarrow> (\<And>x c. (x, c) \<in> set ps \<Longrightarrow> is_cell g x) \<Longrightarrow>
    \<exists>g'. fold_opt mark_pin ps g = Some g' \<and> gc_ok g' L \<and> mark_step (set ps) g g'"
proof (induction ps arbitrary: g)
  case (Cons r ps)
  obtain x c where r: "r = (x, c)" by (cases r)
  obtain g1 where 1: "mark_pin r g = Some g1" "gc_ok g1 L" "mark_step {(x, c)} g g1"
    using mark_pin_ok [OF Cons.prems(1), of x c] Cons.prems(2) [of x c] r by auto
  have "\<exists>g'. fold_opt mark_pin ps g1 = Some g' \<and> gc_ok g' L \<and> mark_step (set ps) g1 g'"
  proof (rule Cons.IH [OF 1(2)])
    show "is_cell g1 y" if "(y, d) \<in> set ps" for y d
      using mark_step_is_cell [OF 1(3)] Cons.prems(2) [of y d] that by simp
  qed
  then obtain g2 where 2: "fold_opt mark_pin ps g1 = Some g2" "gc_ok g2 L"
    "mark_step (set ps) g1 g2" by blast
  have "mark_step ({(x, c)} \<union> set ps) g g2" by (rule mark_step_trans [OF 1(3) 2(3)])
  then show ?case using 1(1) 2(1,2) r by simp
qed simp

subsection \<open>The requests of the roots\<close>

definition nb_pin :: "u64 \<Rightarrow> addr \<times> u32" where
  "nb_pin w = (if w AND GC_NB_FL_NO_PTR \<noteq> 0 then (w AND NOT GC_NB_FL_NO_PTR, GC_MARK_BLACK) else (w, GC_MARK_GRAY))"

definition nb_words :: "cmem \<Rightarrow> M_Thread \<Rightarrow> u64 list" where
  "nb_words m T = map (\<lambda>k. the (nb_read m (nb_stack T) k)) [0..<unat (nb_top T)]"

definition nb_stack_ok :: "cmem \<Rightarrow> M_Thread \<Rightarrow> bool" where
  "nb_stack_ok m T \<longleftrightarrow> (\<forall>k < unat (nb_top T). nb_read m (nb_stack T) k \<noteq> None)"

text \<open>\<open>ths\<close> are the threads and \<open>N\<close> the entries of the root table.\<close>

definition roots_ok :: "root_env \<Rightarrow> ming \<Rightarrow> addr list \<Rightarrow> addr set \<Rightarrow> bool" where
  "roots_ok env s ths N \<longleftrightarrow> dlist (mg_thread_nodes s) (mg_thread_list s) ths \<and>
     (\<forall>th \<in> set ths. \<exists>T. mg_threads s th = Some T \<and> nb_stack_ok (mg_mem s) T) \<and>
     root_rep env (mg_roots s) N"

definition root_pins :: "ming \<Rightarrow> addr list \<Rightarrow> addr set \<Rightarrow> (addr \<times> u32) set" where
  "root_pins s ths N =
     (\<Union>th \<in> set ths. nb_pin ` set (nb_words (mg_mem s) (the (mg_threads s th)))) \<union>
     (\<lambda>rn. (rn_ptr (the (root_nodes (mg_roots s) rn)), GC_MARK_GRAY)) ` N"

lemma mark_nb_words_run:
  "(\<And>j. j < length ws \<Longrightarrow> nb_read m stack (k + j) = Some (ws ! j)) \<Longrightarrow>
    gc_mark_nb_words m stack (length ws) k g = fold_opt mark_pin (map nb_pin ws) g"
proof (induction ws arbitrary: k g)
  case (Cons w ws)
  have w: "nb_read m stack k = Some w" using Cons.prems [of 0] by simp
  have "nb_read m stack (Suc k + j) = Some (ws ! j)" if "j < length ws" for j
    using Cons.prems [of "Suc j"] that by simp
  then have "gc_mark_nb_words m stack (length ws) (Suc k) = fold_opt mark_pin (map nb_pin ws)"
    using Cons.IH [of "Suc k"] by blast
  moreover have "mark_pin (nb_pin w) g = (if w AND GC_NB_FL_NO_PTR \<noteq> 0
      then gc_mark_with_color (w AND NOT GC_NB_FL_NO_PTR) GC_MARK_BLACK g else gc_mark w g)"
    by (simp add: nb_pin_def mark_pin_def gc_mark_def)
  ultimately show ?case using w by simp
qed simp

lemma mark_thread_run:
  assumes "mg_threads s th = Some T" "nb_stack_ok (mg_mem s) T" "th \<noteq> 0"
  shows "(do { T \<leftarrow> thread_at s th; gc_mark_nb_words (mg_mem s) (nb_stack T) (unat (nb_top T)) 0 g }) =
    fold_opt mark_pin (map nb_pin (nb_words (mg_mem s) T)) g"
proof -
  have "nb_read (mg_mem s) (nb_stack T) (0 + j) = Some (nb_words (mg_mem s) T ! j)"
    if "j < length (nb_words (mg_mem s) T)" for j
    using that assms(2) by (auto simp: nb_words_def nb_stack_ok_def)
  from mark_nb_words_run [OF this] show ?thesis
    using assms(1,3) by (simp add: thread_at_def access) (simp add: nb_words_def)
qed

lemma fold_opt_cong: "(\<And>x s. x \<in> set xs \<Longrightarrow> f x s = g x s) \<Longrightarrow> fold_opt f xs s = fold_opt g xs s"
proof (induction xs arbitrary: s)
  case (Cons x xs)
  then show ?case by (cases "g x s") simp_all
qed simp

lemma mark_nb_stacks_run:
  assumes "roots_ok env s ths N"
  shows "gc_mark_nb_stacks s = map_option (\<lambda>g. s\<lparr>mg_gc := g\<rparr>)
    (fold_opt mark_pin (concat (map (\<lambda>th. map nb_pin (nb_words (mg_mem s) (the (mg_threads s th)))) ths)) (mg_gc s))"
proof -
  have l: "dlist (mg_thread_nodes s) (mg_thread_list s) ths" using assms by (simp add: roots_ok_def)
  let ?f = "\<lambda>th g. do { T \<leftarrow> thread_at s th; gc_mark_nb_words (mg_mem s) (nb_stack T) (unat (nb_top T)) 0 g }"
  have "fold_opt ?f ths (mg_gc s) =
      fold_opt (\<lambda>th. fold_opt mark_pin (map nb_pin (nb_words (mg_mem s) (the (mg_threads s th))))) ths (mg_gc s)"
  proof (rule fold_opt_cong)
    fix th g assume th: "th \<in> set ths"
    then obtain T where T: "mg_threads s th = Some T" "nb_stack_ok (mg_mem s) T"
      using assms by (auto simp: roots_ok_def)
    have "th \<noteq> 0" using th l by (auto simp: dlist_def)
    then show "?f th g = fold_opt mark_pin (map nb_pin (nb_words (mg_mem s) (the (mg_threads s th)))) g"
      using mark_thread_run [OF T] T(1) by simp
  qed
  then have eq: "fold_opt ?f (map (\<lambda>a. a - 0) ths) (mg_gc s) =
      fold_opt mark_pin (concat (map (\<lambda>th. map nb_pin (nb_words (mg_mem s) (the (mg_threads s th)))) ths)) (mg_gc s)"
    by (simp add: fold_opt_concat fold_opt_map)
  show ?thesis
    unfolding gc_mark_nb_stacks_def dlist_foreach_value_opt [OF l] eq
    by (simp add: bind_Some_map option.map_comp comp_def)
qed

lemma mark_root_hash_run:
  assumes "roots_ok env s ths N"
  shows "\<exists>ns. set ns = N \<and> gc_mark_root_hash s = map_option (\<lambda>g. s\<lparr>mg_gc := g\<rparr>)
    (fold_opt mark_pin (map (\<lambda>rn. (rn_ptr (the (root_nodes (mg_roots s) rn)), GC_MARK_GRAY)) ns) (mg_gc s))"
proof -
  let ?r = "mg_roots s"
  obtain key bs where rep: "hash_rep (filed env key) (root_hash ?r, root_links ?r) bs" and N: "N = set (concat bs)"
    and data: "\<forall>a \<in> N. root_nodes ?r a \<noteq> None"
    using assms by (auto simp: roots_ok_def root_rep_def hash_nodes_def)
  have nz: "0 \<notin> set (concat bs)" using hash_rep_mapped(1) [OF rep] by blast
  let ?f = "\<lambda>rn g. do { n \<leftarrow> rd (root_nodes ?r) rn; gc_mark (rn_ptr n) g }"
  have "fold_opt ?f (concat bs) (mg_gc s) =
      fold_opt (\<lambda>rn. mark_pin (rn_ptr (the (root_nodes ?r rn)), GC_MARK_GRAY)) (concat bs) (mg_gc s)"
  proof (rule fold_opt_cong)
    fix rn g assume rn: "rn \<in> set (concat bs)"
    then have "rn \<noteq> 0" "rn \<in> N" using nz N by (blast, simp)
    then obtain n where "root_nodes ?r rn = Some n" using data by blast
    then show "?f rn g = mark_pin (rn_ptr (the (root_nodes ?r rn)), GC_MARK_GRAY) g"
      using \<open>rn \<noteq> 0\<close> by (simp add: access mark_pin_def gc_mark_def)
  qed
  then have eq: "fold_opt ?f (map (\<lambda>a. a - 0) (concat bs)) (mg_gc s) =
      fold_opt mark_pin (map (\<lambda>rn. (rn_ptr (the (root_nodes ?r rn)), GC_MARK_GRAY)) (concat bs)) (mg_gc s)"
    by (simp add: fold_opt_map)
  have "gc_mark_root_hash s = map_option (\<lambda>g. s\<lparr>mg_gc := g\<rparr>)
      (fold_opt mark_pin (map (\<lambda>rn. (rn_ptr (the (root_nodes ?r rn)), GC_MARK_GRAY)) (concat bs)) (mg_gc s))"
    unfolding gc_mark_root_hash_def foreach_value_opt [OF rep nz] eq
    by (simp add: bind_Some_map option.map_comp comp_def)
  then show ?thesis using N by blast
qed

text \<open>Marking the roots runs all requests.\<close>

lemma mark_root_ok:
  assumes ok: "gc_ok (mg_gc s) L" and roots: "roots_ok env s ths N"
    and cells: "\<And>x c. (x, c) \<in> root_pins s ths N \<Longrightarrow> is_cell (mg_gc s) x"
  shows "\<exists>g'. gc_mark_root s = Some (s\<lparr>mg_gc := g'\<rparr>) \<and> gc_ok g' L \<and>
    mark_step (root_pins s ths N) ((mg_gc s)\<lparr>gc_need_scan_gray := False\<rparr>) g'"
proof -
  let ?s = "s\<lparr>mg_gc := (mg_gc s)\<lparr>gc_need_scan_gray := False\<rparr>\<rparr>" and ?g = "(mg_gc s)\<lparr>gc_need_scan_gray := False\<rparr>"
  let ?nb = "concat (map (\<lambda>th. map nb_pin (nb_words (mg_mem s) (the (mg_threads s th)))) ths)"
  have ok0: "gc_ok ?g L" using ok by simp
  have cell0: "is_cell ?g x \<longleftrightarrow> is_cell (mg_gc s) x" for x by (simp add: is_cell_def)
  have roots0: "roots_ok env ?s ths N" using roots by (simp add: roots_ok_def)
  have nb_sub: "set ?nb \<subseteq> root_pins s ths N" by (auto simp: root_pins_def)
  obtain g1 where 1: "fold_opt mark_pin ?nb ?g = Some g1" "gc_ok g1 L" "mark_step (set ?nb) ?g g1"
    using mark_pins_ok [OF ok0, of ?nb] cells nb_sub unfolding cell0 by blast
  have run1: "gc_mark_nb_stacks ?s = Some (s\<lparr>mg_gc := g1\<rparr>)"
    using mark_nb_stacks_run [OF roots0] 1(1) by simp
  have roots1: "roots_ok env (s\<lparr>mg_gc := g1\<rparr>) ths N" using roots by (simp add: roots_ok_def)
  obtain ns where ns: "set ns = N" "gc_mark_root_hash (s\<lparr>mg_gc := g1\<rparr>) = map_option (\<lambda>g. s\<lparr>mg_gc := g\<rparr>)
    (fold_opt mark_pin (map (\<lambda>rn. (rn_ptr (the (root_nodes (mg_roots s) rn)), GC_MARK_GRAY)) ns) g1)"
    using mark_root_hash_run [OF roots1] by auto
  let ?ps = "map (\<lambda>rn. (rn_ptr (the (root_nodes (mg_roots s) rn)), GC_MARK_GRAY)) ns"
  have ps_sub: "set ?ps \<subseteq> root_pins s ths N" using ns(1) by (auto simp: root_pins_def)
  have "\<exists>g'. fold_opt mark_pin ?ps g1 = Some g' \<and> gc_ok g' L \<and> mark_step (set ?ps) g1 g'"
  proof (rule mark_pins_ok [OF 1(2)])
    show "is_cell g1 x" if "(x, c) \<in> set ?ps" for x c
      using cells [of x c] ps_sub that mark_step_is_cell [OF 1(3)] cell0 by blast
  qed
  then obtain g2 where 2: "fold_opt mark_pin ?ps g1 = Some g2" "gc_ok g2 L"
    "mark_step (set ?ps) g1 g2" by blast
  have "set ?nb \<union> set ?ps = root_pins s ths N" using ns(1) by (auto simp: root_pins_def)
  then have "mark_step (root_pins s ths N) ?g g2" using mark_step_trans [OF 1(3) 2(3)] by simp
  then show ?thesis using run1 ns(2) 2(1,2) by (intro exI [of _ g2]) (simp add: gc_mark_root_def)
qed

end
