(* ===== verification/GC_Collect.thy ===== *)
theory GC_Collect
  imports GC_Mark_Roots
begin

text \<open>
  The collection: the state machine \<open>gc_do_collect\<close>, and \<open>gc_collect_objs\<close> and
  \<open>m_gc_run\<close> that stop the other threads around it. The cases of the \<open>switch\<close> fall through,
  so each case is a definition that ends with the next one. Locking has no effect here; where a
  thread would have to wait for another one the result is \<open>None\<close>, the waiting itself is modelled
  in \<open>Thread\<close>.
\<close>

subsection \<open>Operations\<close>

abbreviation (input) M_GC_COLLECT_FL_INCREMENT :: u32 where "M_GC_COLLECT_FL_INCREMENT \<equiv> 1"
abbreviation (input) M_GC_COLLECT_FL_CLEAR :: u32 where "M_GC_COLLECT_FL_CLEAR \<equiv> 2"

definition set_status :: "GCStatus \<Rightarrow> ming \<Rightarrow> ming" where
  "set_status st s = s\<lparr>mg_gc := (mg_gc s)\<lparr>gc_status := st\<rparr>\<rparr>"

definition collect_compact :: "u32 \<Rightarrow> ming \<Rightarrow> (bool \<times> ming) option" where
  "collect_compact flags s = Some (True, set_status GC_STATUS_IDLE s)"

definition collect_sweep :: "u32 \<Rightarrow> ming \<Rightarrow> (bool \<times> ming) option" where
  "collect_sweep flags s = do {
     g \<leftarrow> gc_sweep (mg_gc s);
     (let s' = set_status GC_STATUS_COMPACT (s\<lparr>mg_gc := g\<rparr>) in
      if flags AND M_GC_COLLECT_FL_INCREMENT \<noteq> 0 then Some (False, s') else collect_compact flags s') }"

text \<open>The \<open>do\<close> loop; the first component tells that the function returns from inside the
  loop.\<close>

partial_function (option) mark_objs_loop :: "u32 \<Rightarrow> ming \<Rightarrow> (bool \<times> ming) option" where
  "mark_objs_loop flags s = do {
     r \<leftarrow> gc_mark_objs (mg_gc s);
     (let s1 = s\<lparr>mg_gc := snd r\<rparr>; s2 = (if fst r then set_status GC_STATUS_SWEEP s1 else s1) in
      if flags AND M_GC_COLLECT_FL_INCREMENT \<noteq> 0 then Some (True, s2)
      else if fst r then Some (False, s2)
      else mark_objs_loop flags s2) }"

definition collect_mark_obj :: "u32 \<Rightarrow> ming \<Rightarrow> (bool \<times> ming) option" where
  "collect_mark_obj flags s =
     (if flags AND M_GC_COLLECT_FL_CLEAR = 0 then do {
        r \<leftarrow> mark_objs_loop flags s;
        (if fst r then Some (False, snd r) else collect_sweep flags (snd r)) }
      else collect_sweep flags (set_status GC_STATUS_SWEEP s))"

definition collect_mark_root :: "u32 \<Rightarrow> ming \<Rightarrow> (bool \<times> ming) option" where
  "collect_mark_root flags s =
     (if flags AND M_GC_COLLECT_FL_CLEAR = 0 then do {
        s1 \<leftarrow> gc_mark_root s;
        (let s2 = set_status GC_STATUS_MARK_OBJ s1 in
         if flags AND M_GC_COLLECT_FL_INCREMENT \<noteq> 0 then Some (False, s2) else collect_mark_obj flags s2) }
      else collect_mark_obj flags (set_status GC_STATUS_MARK_OBJ s))"

definition gc_do_collect :: "u32 \<Rightarrow> ming \<Rightarrow> (bool \<times> ming) option" where
  "gc_do_collect flags s =
     (case gc_status (mg_gc s) of
        GC_STATUS_IDLE \<Rightarrow> collect_mark_root flags (set_status GC_STATUS_MARK_ROOT s)
      | GC_STATUS_MARK_ROOT \<Rightarrow> collect_mark_root flags s
      | GC_STATUS_MARK_OBJ \<Rightarrow> collect_mark_obj flags s
      | GC_STATUS_SWEEP \<Rightarrow> collect_sweep flags s
      | GC_STATUS_COMPACT \<Rightarrow> collect_compact flags s)"

text \<open>Stopping the other threads, in the case in which all of them are paused already.\<close>

definition pause_self :: "ming \<Rightarrow> ming option" where
  "pause_self s = do {
     th \<leftarrow> m_thread_self s;
     T \<leftarrow> thread_at s th;
     c_assert (th_flags T AND M_THREAD_FL_PAUSED = 0);
     Some ((set_thread th (T\<lparr>th_flags := th_flags T OR M_THREAD_FL_PAUSED\<rparr>) s)
       \<lparr>mg_pause_flag := True, mg_paused_num := mg_paused_num s + 1\<rparr>) }"

definition pause_all_now :: "ming \<Rightarrow> ming option" where
  "pause_all_now s = do {
     s' \<leftarrow> pause_self s;
     c_assert (mg_thread_num s' = mg_paused_num s');
     Some s' }"

definition resume_all_now :: "ming \<Rightarrow> ming option" where
  "resume_all_now s = do {
     th \<leftarrow> m_thread_self s;
     T \<leftarrow> thread_at s th;
     c_assert (th_flags T AND M_THREAD_FL_PAUSED \<noteq> 0);
     Some ((set_thread th (T\<lparr>th_flags := th_flags T AND NOT M_THREAD_FL_PAUSED\<rparr>) s)
       \<lparr>mg_pause_flag := False, mg_paused_num := mg_paused_num s - 1\<rparr>) }"

text \<open>The result of \<open>gc_collect_objs\<close> is not initialized when it runs the collection.\<close>

definition gc_collect_objs :: "u32 \<Rightarrow> ming \<Rightarrow> (bool option \<times> ming) option" where
  "gc_collect_objs flags s = do {
     th \<leftarrow> m_thread_self s;
     (if mg_gc_thread s = 0 then do {
        s1 \<leftarrow> pause_all_now (s\<lparr>mg_gc_thread := th\<rparr>);
        r \<leftarrow> gc_do_collect flags s1;
        s2 \<leftarrow> resume_all_now (snd r);
        Some (None, s2\<lparr>mg_gc_thread := 0\<rparr>) }
      else if th \<noteq> mg_gc_thread s then do {
        T \<leftarrow> thread_at s th;
        c_assert (th_flags T AND M_THREAD_FL_PAUSED = 0);
        c_assert (\<not> mg_pause_flag s);
        Some (Some (gc_status (mg_gc s) = GC_STATUS_IDLE), s) }
      else Some (Some False, s)) }"

definition m_gc_run :: "u32 \<Rightarrow> ming \<Rightarrow> ming option" where
  "m_gc_run flags s = do { r \<leftarrow> gc_collect_objs flags s; Some (snd r) }"

subsection \<open>A state between two collections\<close>

text \<open>No collection is under way: nothing is black, the gray stack is empty. The roots are cells
  of pools.\<close>

definition at_rest :: "GC \<Rightarrow> bool" where
  "at_rest g \<longleftrightarrow> gc_status g = GC_STATUS_IDLE \<and> gc_gray_stack g = [] \<and> gc_objs g GC_MARK_BLACK = {} \<and> bytes_ok g"

definition ming_ok :: "root_env \<Rightarrow> ming \<Rightarrow> (addr \<rightharpoonup> addr list) \<Rightarrow> addr list \<Rightarrow> addr set \<Rightarrow> bool" where
  "ming_ok env s L ths N \<longleftrightarrow> gc_ok (mg_gc s) L \<and> at_rest (mg_gc s) \<and> roots_ok env s ths N \<and>
     (\<forall>x c. (x, c) \<in> root_pins s ths N \<longrightarrow> is_cell (mg_gc s) x)"

text \<open>The objects that a collection keeps: those that a request of the roots turns black.\<close>

definition obj_type :: "GC \<Rightarrow> addr \<Rightarrow> M_GCObjType" where
  "obj_type g x = p_type (the (gc_pools g (page_of x)))"

definition kept_objs :: "ming \<Rightarrow> addr list \<Rightarrow> addr set \<Rightarrow> addr set" where
  "kept_objs s ths N = {x \<in> gc_objs (mg_gc s) GC_MARK_WHITE.
     blackens (root_pins s ths N) (obj_type (mg_gc s) x) x}"

lemma obj_type_cell:
  assumes "gc_inv D g L" "gc_pools g p = Some P" "i < cells_of g (p_type P)"
  shows "obj_type g (obj_cell g (p_type P) p i) = p_type P"
  using obj_cell_facts(1) [OF assms] assms(2) by (simp add: obj_type_def)

lemma obj_mark_cell: "obj_mark g p i = m \<Longrightarrow> m \<noteq> 0 \<Longrightarrow> gc_pools g p = Some P \<Longrightarrow> i < cells_of g (p_type P)"
  by (auto simp: obj_mark_def split: if_splits)

lemma mark_step_black:
  assumes ok: "gc_ok g L" and st: "mark_step R g g'" and no: "gc_objs g GC_MARK_BLACK = {}"
  shows "gc_objs g' GC_MARK_BLACK = {x \<in> gc_objs g GC_MARK_WHITE. blackens R (obj_type g x) x}"
proof -
  have mk: "obj_mark g' p i = (if obj_mark g p i = GC_MARK_WHITE \<and> blackens R (p_type P) (obj_cell g (p_type P) p i)
      then GC_MARK_BLACK else obj_mark g p i)" if "gc_pools g p = Some P" for p P i
    using st that by (simp add: mark_step_def)
  have nb: "obj_mark g p i \<noteq> GC_MARK_BLACK" if "gc_pools g p = Some P" for p P i
    using no gc_objs_memI [OF that, of i GC_MARK_BLACK] by auto
  have "x \<in> gc_objs g' GC_MARK_BLACK \<longleftrightarrow> x \<in> gc_objs g GC_MARK_WHITE \<and> blackens R (obj_type g x) x" for x
  proof
    assume "x \<in> gc_objs g' GC_MARK_BLACK"
    then obtain p Q i where Q: "x = obj_cell g (p_type Q) p i" "gc_pools g' p = Some Q" "obj_mark g' p i = GC_MARK_BLACK"
      unfolding gc_objs_mark [of "3 :: u32", simplified] mark_step_static [OF st] by blast
    obtain P where P: "gc_pools g p = Some P" "p_type P = p_type Q" using mark_step_type(2) [OF st Q(2)] by blast
    have w: "obj_mark g p i = GC_MARK_WHITE" "blackens R (p_type P) x"
      using Q(1,3) mk [OF P(1), of i] nb [OF P(1), of i] P(2) by (auto split: if_splits)
    have "obj_type g x = p_type P"
      using obj_type_cell [OF ok P(1) obj_mark_cell [OF w(1) _ P(1)]] Q(1) P(2) by simp
    moreover have "x \<in> gc_objs g GC_MARK_WHITE" using gc_objs_memI [OF P(1) w(1)] Q(1) P(2) by simp
    ultimately show "x \<in> gc_objs g GC_MARK_WHITE \<and> blackens R (obj_type g x) x" using w(2) by simp
  next
    assume x: "x \<in> gc_objs g GC_MARK_WHITE \<and> blackens R (obj_type g x) x"
    then obtain p P i where P: "x = obj_cell g (p_type P) p i" "gc_pools g p = Some P" "obj_mark g p i = GC_MARK_WHITE"
      unfolding gc_objs_mark [of "1 :: u32", simplified] by blast
    have "obj_type g x = p_type P"
      using obj_type_cell [OF ok P(2) obj_mark_cell [OF P(3) _ P(2)]] P(1) by simp
    then have b: "obj_mark g' p i = GC_MARK_BLACK" using mk [OF P(2), of i] P x by simp
    obtain Q where Q: "gc_pools g' p = Some Q" "p_type Q = p_type P" using mark_step_type(1) [OF st P(2)] by blast
    then show "x \<in> gc_objs g' GC_MARK_BLACK"
      using gc_objs_memI [OF Q(1) b] P(1) mark_step_static(1) [OF st] by simp
  qed
  then show ?thesis by blast
qed

subsection \<open>The phases\<close>

lemma mark_objs_done: "gc_gray_stack g = [] \<Longrightarrow> \<not> gc_need_scan_gray g \<Longrightarrow> gc_mark_objs g = Some (True, g)"
  by (simp add: gc_mark_objs_def)

lemma mark_objs_loop_done:
  assumes "gc_gray_stack (mg_gc s) = []" "\<not> gc_need_scan_gray (mg_gc s)"
  shows "mark_objs_loop flags s =
    Some (flags AND M_GC_COLLECT_FL_INCREMENT \<noteq> 0, set_status GC_STATUS_SWEEP s)"
  using mark_objs_done [OF assms] by (subst mark_objs_loop.simps) (simp add: Let_def)

text \<open>No pool is new and none has changed its type.\<close>

definition same_types :: "GC \<Rightarrow> GC \<Rightarrow> bool" where
  "same_types g g' \<longleftrightarrow> (\<forall>p Q. gc_pools g' p = Some Q \<longrightarrow> (\<exists>P. gc_pools g p = Some P \<and> p_type P = p_type Q))"

lemma same_types_trans: "same_types g g' \<Longrightarrow> same_types g' g'' \<Longrightarrow> same_types g g''"
  unfolding same_types_def by metis

lemma same_types_upd [simp]:
  "same_types (gc_status_update f g) g' = same_types g g'" "same_types g (gc_status_update f g') = same_types g g'"
  "same_types (gc_need_scan_gray_update f' g) g' = same_types g g'"
  by (simp_all add: same_types_def)

lemma same_types_obj: "same_types g g' \<Longrightarrow> gc_pools g' (page_of x) \<noteq> None \<Longrightarrow> obj_type g' x = obj_type g x"
  unfolding same_types_def obj_type_def by (metis not_None_eq option.sel)

text \<open>A sweep of a state with all marks made, up to the end of the collection.\<close>

lemma collect_sweep_ok:
  assumes ok: "gc_ok (mg_gc s) L"
  shows "\<exists>g L'. gc_sweep (mg_gc s) = Some g \<and> gc_ok g L' \<and> (bytes_ok (mg_gc s) \<longrightarrow> bytes_ok g) \<and>
    gc_objs g GC_MARK_WHITE = gc_objs (mg_gc s) GC_MARK_BLACK \<and> gc_objs g GC_MARK_BLACK = {} \<and>
    (\<forall>p. gc_pools g p \<noteq> None \<longleftrightarrow> (\<exists>i. obj_mark (mg_gc s) p i = GC_MARK_BLACK)) \<and>
    gc_status g = gc_status (mg_gc s) \<and> gc_gray_stack g = gc_gray_stack (mg_gc s) \<and>
    gc_last_allocated_size g = gc_allocated_size g \<and> same_types (mg_gc s) g"
proof -
  obtain g1 L' where 1: "gc_sweep (mg_gc s) = Some (g1\<lparr>gc_last_allocated_size := gc_allocated_size g1\<rparr>)"
    "gc_ok g1 L'" "pools_step (mg_gc s) g1" "swept_pools (mg_gc s) g1" "bytes_ok (mg_gc s) \<longrightarrow> bytes_ok g1"
    using gc_sweep_ok [OF ok] by blast
  let ?g = "g1\<lparr>gc_last_allocated_size := gc_allocated_size g1\<rparr>"
  note st = pools_step_static [OF 1(3)]
  have ty: "same_types (mg_gc s) ?g"
    unfolding same_types_def by (auto elim: swept_pools_type [OF 1(4)])
  have upd: "gc_objs ?g m = gc_objs g1 m" "bytes_ok ?g = bytes_ok g1" for m
    by (simp_all add: gc_objs_def bytes_ok_def objs_size_def pool_bytes_def)
  show ?thesis
    using 1 swept_pools_objs [OF ok 1(2,4) st(4)] swept_pools_kept [OF ok 1(4)] st(5,7) ty
    by (intro exI [of _ ?g] exI [of _ L']) (simp add: upd)
qed

lemma set_status_simps [simp]:
  "mg_gc (set_status st s) = (mg_gc s)\<lparr>gc_status := st\<rparr>"
  "set_status st (s\<lparr>mg_gc := g\<rparr>) = s\<lparr>mg_gc := g\<lparr>gc_status := st\<rparr>\<rparr>"
  by (simp_all add: set_status_def)

lemma gc_objs_static [simp]:
  "gc_objs (gc_status_update f g) m = gc_objs g m"
  "gc_objs (gc_need_scan_gray_update f' g) m = gc_objs g m"
  "bytes_ok (gc_status_update f g) = bytes_ok g"
  "bytes_ok (gc_need_scan_gray_update f' g) = bytes_ok g"
  "obj_mark (gc_status_update f g) p i = obj_mark g p i"
  by (simp_all add: gc_objs_def bytes_ok_def objs_size_def pool_bytes_def obj_mark_def cong: option.case_cong)

lemma mark_phase:
  assumes ok: "ming_ok env s L ths N"
  shows "\<exists>g. gc_mark_root (set_status st s) = Some (s\<lparr>mg_gc := g\<rparr>) \<and> gc_ok g L \<and>
    gc_objs g GC_MARK_BLACK = kept_objs s ths N \<and> bytes_ok g \<and> gc_gray_stack g = [] \<and>
    \<not> gc_need_scan_gray g \<and> gc_status g = st \<and> same_types (mg_gc s) g"
proof -
  let ?s = "set_status st s"
  have ok1: "gc_ok (mg_gc ?s) L" and roots: "roots_ok env ?s ths N" and pins: "root_pins ?s ths N = root_pins s ths N"
    using ok by (simp_all add: ming_ok_def roots_ok_def root_pins_def set_status_def)
  have cells: "is_cell (mg_gc ?s) x" if "(x, c) \<in> root_pins ?s ths N" for x c
    using ok that unfolding pins by (auto simp: ming_ok_def is_cell_def)
  have "\<exists>g. gc_mark_root ?s = Some (?s\<lparr>mg_gc := g\<rparr>) \<and> gc_ok g L \<and>
      mark_step (root_pins s ths N) ((mg_gc ?s)\<lparr>gc_need_scan_gray := False\<rparr>) g"
    using mark_root_ok [OF ok1 roots cells, of "\<lambda>_ c. c"] unfolding pins by simp
  then obtain g where g: "gc_mark_root ?s = Some (?s\<lparr>mg_gc := g\<rparr>)" "gc_ok g L"
    "mark_step (root_pins s ths N) ((mg_gc ?s)\<lparr>gc_need_scan_gray := False\<rparr>) g" by blast
  let ?g0 = "(mg_gc ?s)\<lparr>gc_need_scan_gray := False\<rparr>"
  have rest: "gc_objs ?g0 GC_MARK_BLACK = {}" "bytes_ok (mg_gc s)" "gc_gray_stack (mg_gc s) = []"
    using ok by (simp_all add: ming_ok_def at_rest_def)
  have ok0: "gc_ok ?g0 L" using ok1 by simp
  have "obj_type ?g0 x = obj_type (mg_gc s) x" for x by (simp add: obj_type_def)
  then have "gc_objs g GC_MARK_BLACK = kept_objs s ths N"
    using mark_step_black [OF ok0 g(3) rest(1)] by (simp add: kept_objs_def)
  moreover have "bytes_ok g" using g(3) rest(2) mark_step_static(9) [OF g(3)]
    by (simp add: bytes_ok_def mark_step_def objs_size_def pool_bytes_def)
  moreover have "same_types ?g0 g" unfolding same_types_def using mark_step_type(2) [OF g(3)] by blast
  ultimately show ?thesis using g(1,2) mark_step_static(6-8) [OF g(3)] rest(3)
    by (intro exI [of _ g]) (simp add: set_status_def)
qed

text \<open>What is left of the objects when the sweep has followed the marking of the roots.\<close>

definition collected :: "ming \<Rightarrow> addr list \<Rightarrow> addr set \<Rightarrow> GC \<Rightarrow> bool" where
  "collected s ths N g \<longleftrightarrow> gc_objs g GC_MARK_WHITE = kept_objs s ths N \<and> at_rest g \<and>
     gc_last_allocated_size g = gc_allocated_size g \<and> same_types (mg_gc s) g \<and>
     (\<forall>p. gc_pools g p \<noteq> None \<longrightarrow> p \<in> page_of ` kept_objs s ths N)"

lemma collect_phases:
  assumes ok: "ming_ok env s L ths N"
  shows "\<exists>g1 g2 L'. gc_mark_root (set_status GC_STATUS_MARK_ROOT s) = Some (s\<lparr>mg_gc := g1\<rparr>) \<and>
    gc_gray_stack g1 = [] \<and> \<not> gc_need_scan_gray g1 \<and>
    gc_sweep (g1\<lparr>gc_status := GC_STATUS_SWEEP\<rparr>) = Some g2 \<and>
    gc_ok (g2\<lparr>gc_status := GC_STATUS_IDLE\<rparr>) L' \<and> collected s ths N (g2\<lparr>gc_status := GC_STATUS_IDLE\<rparr>)"
proof -
  obtain g1 where 1: "gc_mark_root (set_status GC_STATUS_MARK_ROOT s) = Some (s\<lparr>mg_gc := g1\<rparr>)" "gc_ok g1 L"
    "gc_objs g1 GC_MARK_BLACK = kept_objs s ths N" "bytes_ok g1" "gc_gray_stack g1 = []" "\<not> gc_need_scan_gray g1"
    "same_types (mg_gc s) g1"
    using mark_phase [OF ok] by blast
  let ?s1 = "s\<lparr>mg_gc := g1\<lparr>gc_status := GC_STATUS_SWEEP\<rparr>\<rparr>"
  have "gc_ok (mg_gc ?s1) L" using 1(2) by simp
  from collect_sweep_ok [OF this] obtain g2 L' where 2: "gc_sweep (g1\<lparr>gc_status := GC_STATUS_SWEEP\<rparr>) = Some g2"
    "gc_ok g2 L'" "bytes_ok g2" "gc_objs g2 GC_MARK_WHITE = gc_objs g1 GC_MARK_BLACK" "gc_objs g2 GC_MARK_BLACK = {}"
    "gc_gray_stack g2 = []" "gc_last_allocated_size g2 = gc_allocated_size g2" "same_types g1 g2"
    "\<forall>p. gc_pools g2 p \<noteq> None \<longleftrightarrow> (\<exists>i. obj_mark g1 p i = GC_MARK_BLACK)"
    using 1(4,5) by auto
  have pages: "p \<in> page_of ` kept_objs s ths N" if p: "gc_pools g2 p \<noteq> None" for p
  proof -
    obtain i where i: "obj_mark g1 p i = GC_MARK_BLACK" using 2(9) p by blast
    then obtain P where P: "gc_pools g1 p = Some P" by (cases "gc_pools g1 p") (simp_all add: obj_mark_def)
    have "page_of (obj_cell g1 (p_type P) p i) = p"
      by (rule obj_cell_facts(1) [OF 1(2) P obj_mark_cell [OF i _ P]]) simp
    then show ?thesis using gc_objs_memI [OF P i] 1(3) by force
  qed
  have "collected s ths N (g2\<lparr>gc_status := GC_STATUS_IDLE\<rparr>)"
    using 2(2-7) 1(3) pages same_types_trans [OF 1(7) 2(8)] by (simp add: collected_def at_rest_def)
  then show ?thesis using 1 2(1,2) by (intro exI [of _ g1] exI [of _ g2] exI [of _ L']) simp
qed

text \<open>A full collection runs through all phases and keeps \<open>kept_objs\<close>.\<close>

lemma full_collection:
  assumes ok: "ming_ok env s L ths N"
  shows "\<exists>g L'. gc_do_collect 0 s = Some (True, s\<lparr>mg_gc := g\<rparr>) \<and> gc_ok g L' \<and> collected s ths N g"
proof -
  have idle: "gc_status (mg_gc s) = GC_STATUS_IDLE" using ok by (simp add: ming_ok_def at_rest_def)
  obtain g1 g2 L' where p: "gc_mark_root (set_status GC_STATUS_MARK_ROOT s) = Some (s\<lparr>mg_gc := g1\<rparr>)"
    "gc_gray_stack g1 = []" "\<not> gc_need_scan_gray g1" "gc_sweep (g1\<lparr>gc_status := GC_STATUS_SWEEP\<rparr>) = Some g2"
    "gc_ok (g2\<lparr>gc_status := GC_STATUS_IDLE\<rparr>) L'" "collected s ths N (g2\<lparr>gc_status := GC_STATUS_IDLE\<rparr>)"
    using collect_phases [OF ok] by blast
  have "gc_do_collect 0 s = Some (True, s\<lparr>mg_gc := g2\<lparr>gc_status := GC_STATUS_IDLE\<rparr>\<rparr>)"
    using idle p(1-4) mark_objs_loop_done [of "s\<lparr>mg_gc := g1\<lparr>gc_status := GC_STATUS_MARK_OBJ\<rparr>\<rparr>" 0]
    by (simp add: gc_do_collect_def collect_mark_root_def collect_mark_obj_def collect_sweep_def
        collect_compact_def Let_def)
  then show ?thesis using p(5,6) by blast
qed

text \<open>An incremental collection without other work between the calls: three calls return false,
  the fourth one ends in the state of the full collection.\<close>

definition collect_step :: "ming \<Rightarrow> (bool \<times> ming) option" where
  "collect_step s = gc_do_collect M_GC_COLLECT_FL_INCREMENT s"

lemma incremental_collection:
  assumes ok: "ming_ok env s L ths N"
  shows "\<exists>s1 s2 s3. collect_step s = Some (False, s1) \<and> collect_step s1 = Some (False, s2) \<and>
    collect_step s2 = Some (False, s3) \<and> collect_step s3 = gc_do_collect 0 s \<and> collect_step s3 \<noteq> None"
proof -
  have idle: "gc_status (mg_gc s) = GC_STATUS_IDLE" using ok by (simp add: ming_ok_def at_rest_def)
  obtain g1 g2 L' where p: "gc_mark_root (set_status GC_STATUS_MARK_ROOT s) = Some (s\<lparr>mg_gc := g1\<rparr>)"
    "gc_gray_stack g1 = []" "\<not> gc_need_scan_gray g1" "gc_sweep (g1\<lparr>gc_status := GC_STATUS_SWEEP\<rparr>) = Some g2"
    "gc_ok (g2\<lparr>gc_status := GC_STATUS_IDLE\<rparr>) L'" "collected s ths N (g2\<lparr>gc_status := GC_STATUS_IDLE\<rparr>)"
    using collect_phases [OF ok] by blast
  let ?s1 = "s\<lparr>mg_gc := g1\<lparr>gc_status := GC_STATUS_MARK_OBJ\<rparr>\<rparr>"
    and ?s2 = "s\<lparr>mg_gc := g1\<lparr>gc_status := GC_STATUS_SWEEP\<rparr>\<rparr>"
    and ?s3 = "s\<lparr>mg_gc := g2\<lparr>gc_status := GC_STATUS_COMPACT\<rparr>\<rparr>"
  note defs = gc_do_collect_def collect_mark_root_def collect_mark_obj_def collect_sweep_def collect_compact_def
    Let_def collect_step_def
  have "gc_do_collect 0 s = Some (True, s\<lparr>mg_gc := g2\<lparr>gc_status := GC_STATUS_IDLE\<rparr>\<rparr>)"
    using idle p(1-4) mark_objs_loop_done [of ?s1 0] by (simp add: defs)
  moreover have "collect_step s = Some (False, ?s1)" using idle p(1) by (simp add: defs)
  moreover have "collect_step ?s1 = Some (False, ?s2)"
    using p(2,3) mark_objs_loop_done [of ?s1 1] by (simp add: defs)
  moreover have "collect_step ?s2 = Some (False, ?s3)" using p(4) by (simp add: defs)
  moreover have "collect_step ?s3 = Some (True, s\<lparr>mg_gc := g2\<lparr>gc_status := GC_STATUS_IDLE\<rparr>\<rparr>)"
    by (simp add: defs)
  ultimately show ?thesis by (intro exI [of _ ?s1] exI [of _ ?s2] exI [of _ ?s3]) simp
qed

text \<open>Clearing at shutdown: without a mark every pool is unmapped, whatever the roots are.\<close>

lemma clear_collection:
  assumes ok: "gc_ok (mg_gc s) L" and rest: "at_rest (mg_gc s)"
  shows "\<exists>g L'. gc_do_collect M_GC_COLLECT_FL_CLEAR s = Some (True, s\<lparr>mg_gc := g\<rparr>) \<and> gc_ok g L' \<and> at_rest g \<and>
    (\<forall>p. gc_pools g p = None) \<and> gc_allocated_size g = 0"
proof -
  have idle: "gc_status (mg_gc s) = GC_STATUS_IDLE" using rest by (simp add: at_rest_def)
  let ?s = "s\<lparr>mg_gc := (mg_gc s)\<lparr>gc_status := GC_STATUS_SWEEP\<rparr>\<rparr>"
  have "gc_ok (mg_gc ?s) L" using ok by simp
  from collect_sweep_ok [OF this] obtain g L' where 2: "gc_sweep (mg_gc ?s) = Some g" "gc_ok g L'"
    "bytes_ok (mg_gc ?s) \<longrightarrow> bytes_ok g" "gc_objs g GC_MARK_BLACK = {}"
    "\<forall>p. gc_pools g p \<noteq> None \<longleftrightarrow> (\<exists>i. obj_mark (mg_gc ?s) p i = GC_MARK_BLACK)"
    "gc_gray_stack g = gc_gray_stack (mg_gc ?s)" by blast
  have none: "gc_pools g p = None" for p
  proof (rule ccontr)
    assume "gc_pools g p \<noteq> None"
    then obtain i where i: "obj_mark (mg_gc s) p i = GC_MARK_BLACK" using 2(5) by auto
    then obtain P where "gc_pools (mg_gc s) p = Some P" by (auto simp: obj_mark_def split: option.splits)
    then have "obj_cell (mg_gc s) (p_type P) p i \<in> gc_objs (mg_gc s) GC_MARK_BLACK"
      using i by (intro gc_objs_memI) simp_all
    then show False using rest by (simp add: at_rest_def)
  qed
  then have "objs_size g = 0" by (simp add: objs_size_def pool_bytes_def)
  moreover have "bytes_ok g" using 2(3) rest by (simp add: at_rest_def)
  ultimately have size: "gc_allocated_size g = 0" by (simp add: bytes_ok_def)
  let ?g = "g\<lparr>gc_status := GC_STATUS_IDLE\<rparr>"
  have "gc_do_collect M_GC_COLLECT_FL_CLEAR s = Some (True, s\<lparr>mg_gc := ?g\<rparr>)"
    using idle 2(1)
    by (simp add: gc_do_collect_def collect_mark_root_def collect_mark_obj_def collect_sweep_def
        collect_compact_def Let_def set_status_def)
  moreover have "at_rest ?g" using 2(4,6) \<open>bytes_ok g\<close> rest by (simp add: at_rest_def)
  moreover have "gc_ok ?g L'" using 2(2) by simp
  ultimately show ?thesis using none size by (intro exI [of _ ?g] exI [of _ L']) simp
qed

end
