(* ===== verification/GC_Alloc_Obj.thy ===== *)
theory GC_Alloc_Obj
  imports GC_Collect
begin

text \<open>
  Allocation of an object, \<open>gc_alloc_obj\<close> and \<open>m_gc_alloc_obj\<close> of \<open>src/m_gc_obj.c\<close>:
  the pool, the new borned stack of the thread, the cell, the mark, and the test whether to collect.
  \<open>A\<close> is the C allocator, \<open>os\<close> the mapping function of the system.
\<close>

subsection \<open>Operations\<close>

text \<open>The usable pool of a type, 0 when a new one cannot be mapped.\<close>

definition gc_usable_pool :: "os \<Rightarrow> M_GCObjType \<Rightarrow> M_GCObjDescr \<Rightarrow> GC \<Rightarrow> (addr \<times> GC) option" where
  "gc_usable_pool os type od g = do {
     e \<leftarrow> m_slist_empty (usable_pools g type) (gc_cells g);
     (if e then gc_alloc_pool os type od g
      else do { n \<leftarrow> rd (gc_cells g) (usable_pools g type); Some (m_node_value (s_next n) 0, g) }) }"

definition nb_reserve :: "allocator \<Rightarrow> ming \<Rightarrow> ming option" where
  "nb_reserve A s = do {
     th \<leftarrow> m_thread_self s;
     T \<leftarrow> thread_at s th;
     (if nb_top T = nb_size T then
        let nsize = M_MAX (nb_size T * 2) 32 in do {
          r \<leftarrow> m_gc_realloc_buf A (nb_stack T) (ucast (nb_size T) * 8) (ucast nsize * 8)
            M_GC_NBSTK_FLAGS (mg_mem s);
          m_assert_alloc (fst r);
          Some (set_thread th (T\<lparr>nb_stack := fst r, nb_size := nsize\<rparr>) (s\<lparr>mg_mem := snd r\<rparr>)) }
      else Some s) }"

definition nb_push :: "addr \<Rightarrow> ming \<Rightarrow> (u64 \<times> ming) option" where
  "nb_push cell s = do {
     th \<leftarrow> m_thread_self s;
     T \<leftarrow> thread_at s th;
     m \<leftarrow> nb_write (mg_mem s) (nb_stack T) (unat (nb_top T)) (cell OR GC_NB_FL_NO_PTR);
     Some (ucast (nb_top T), set_thread th (T\<lparr>nb_top := nb_top T + 1\<rparr>) (s\<lparr>mg_mem := m\<rparr>)) }"

definition need_collect :: "GC \<Rightarrow> bool" where
  "need_collect g \<longleftrightarrow> gc_begin_size g \<le> gc_allocated_size g \<and>
     gc_last_allocated_size g * 3 < gc_allocated_size g * 2"

text \<open>The part of \<open>gc_alloc_obj\<close> before the test.\<close>

definition gc_new_obj :: "allocator \<Rightarrow> os \<Rightarrow> M_GCObjType \<Rightarrow> ming \<Rightarrow> (addr \<times> u64 option \<times> ming) option" where
  "gc_new_obj A os type s = do {
     od \<leftarrow> gc_obj_get_descr type;
     p \<leftarrow> gc_usable_pool os type od (mg_gc s);
     (if fst p = 0 then Some (0, None, s\<lparr>mg_gc := snd p\<rparr>)
      else do {
        s1 \<leftarrow> nb_reserve A (s\<lparr>mg_gc := snd p\<rparr>);
        c \<leftarrow> gc_get_cell type (fst p) (mg_gc s1);
        r \<leftarrow> nb_push (fst c) (s1\<lparr>mg_gc := snd (snd c)\<rparr>);
        g \<leftarrow> gc_set_white od (fst c) (fst (snd c)) (mg_gc (snd r));
        Some (fst c, Some (fst r), (snd r)\<lparr>mg_gc := g\<rparr>) }) }"

definition gc_alloc_obj :: "allocator \<Rightarrow> os \<Rightarrow> M_GCObjType \<Rightarrow> ming \<Rightarrow> (addr \<times> u64 option \<times> ming) option" where
  "gc_alloc_obj A os type s = do {
     r \<leftarrow> gc_new_obj A os type s;
     (case r of (ptr, oid, s1) \<Rightarrow>
      if ptr \<noteq> 0 \<and> need_collect (mg_gc s1) then do {
        q \<leftarrow> gc_collect_objs 0 s1; Some (ptr, oid, snd q) }
      else Some r) }"

definition m_gc_alloc_obj :: "allocator \<Rightarrow> os \<Rightarrow> M_GCObjType \<Rightarrow> ming \<Rightarrow> (addr \<times> u64 option \<times> ming) option" where
  "m_gc_alloc_obj A os type s = gc_alloc_obj A os type s"

subsection \<open>The new borned stack\<close>

text \<open>The block of a stack has \<open>nb_size\<close> words; the first \<open>nb_top\<close> of them are
  written.\<close>

definition nb_ok :: "cmem \<Rightarrow> M_Thread \<Rightarrow> bool" where
  "nb_ok m T \<longleftrightarrow> nb_top T \<le> nb_size T \<and> nb_stack_ok m T \<and>
     (if nb_size T = 0 then nb_stack T = 0
      else nb_stack T \<noteq> 0 \<and> (\<exists>c. blocks m (nb_stack T) = Some c \<and> length c = unat (nb_size T)))"

definition threads_ok :: "ming \<Rightarrow> addr list \<Rightarrow> bool" where
  "threads_ok s ths \<longleftrightarrow> dlist (mg_thread_nodes s) (mg_thread_list s) ths \<and> mg_self s \<in> set ths \<and>
     (\<forall>th \<in> set ths. \<exists>T. mg_threads s th = Some T \<and> nb_ok (mg_mem s) T) \<and>
     (\<forall>th \<in> set ths. \<forall>th' \<in> set ths. th \<noteq> th' \<longrightarrow>
        nb_size (the (mg_threads s th)) \<noteq> 0 \<longrightarrow> nb_size (the (mg_threads s th')) \<noteq> 0 \<longrightarrow>
        nb_stack (the (mg_threads s th)) \<noteq> nb_stack (the (mg_threads s th')))"

lemma ucast_times_8: "unat n < 2 ^ 32 \<Longrightarrow> unat (ucast n * 8 :: u64) = 8 * unat n" for n :: u32
  by (simp add: unat_word_ariths unsigned_ucast_eq take_bit_eq_mod)

lemma block_words_8: "unat n < 2 ^ 32 \<Longrightarrow> block_words (gc_size_align (ucast n * 8)) = unat n" for n :: u32
  using block_words_align [of "ucast n * 8"] ucast_times_8 [of n] by simp

text \<open>Growing a stack keeps its words and leaves the other blocks alone.\<close>

lemma nb_grow:
  fixes n n' :: u32
  assumes A: "allocator_ok A" and c: "if n = 0 then p = 0 else p \<noteq> 0 \<and> blocks m p = Some c \<and> length c = unat n"
    and n: "unat n < unat n'" and run: "m_gc_realloc_buf A p (ucast n * 8) (ucast n' * 8) fl m = Some (q, m')"
    and q: "q \<noteq> 0"
  shows "\<exists>c'. blocks m' q = Some c' \<and> length c' = unat n' \<and> (n \<noteq> 0 \<longrightarrow> take (unat n) c' = c) \<and>
    (q \<noteq> p \<longrightarrow> blocks m q = None) \<and> (\<forall>a. a \<noteq> p \<and> a \<noteq> q \<longrightarrow> blocks m' a = blocks m a)"
proof -
  have u32: "unat w < 2 ^ 32" for w :: u32 using unsigned_less [of w, where ?'a = nat] by simp
  note b = u32 [of n] u32 [of n']
  note w = block_words_8 [OF b(2)]
  have nz: "n' \<noteq> 0" using n by auto
  show ?thesis
  proof (cases "n = 0")
    case True
    then have "m_malloc A (gc_size_align (ucast n' * 8)) m = Some (q, m')"
      using run c by (simp add: m_gc_realloc_buf_def m_gc_alloc_buf_def)
    then have q': "q = malloc_at A m (gc_size_align (ucast n' * 8))"
      "m' = m\<lparr>blocks := (blocks m)(q \<mapsto> replicate (unat n') None)\<rparr>"
      using q w by (auto simp: m_malloc_def Let_def split: if_splits)
    have "q = 0 \<or> blocks m q = None" using A q'(1) by (simp add: allocator_ok_def)
    then show ?thesis using q q'(2) True by simp
  next
    case False
    then have p: "p \<noteq> 0" "blocks m p = Some c" "length c = unat n" using c by auto
    have u: "unat (ucast n * 8 :: u64) = 8 * unat n" "unat (ucast n' * 8 :: u64) = 8 * unat n'"
      using ucast_times_8 b by simp_all
    have "unat n \<noteq> 0" using False by (simp add: unat_eq_0)
    then have "(ucast n * 8 :: u64) \<noteq> 0" "(ucast n' * 8 :: u64) \<noteq> 0" "\<not> (ucast n' * 8 :: u64) \<le> ucast n * 8"
      using u n by (auto simp: word_le_nat_alt simp flip: unat_eq_0)
    then have r: "m_realloc A p (gc_size_align (ucast n' * 8)) m = Some (q, m')"
      using run p(1) by (simp add: m_gc_realloc_buf_def)
    have "gc_size_align (ucast n' * 8) \<noteq> 0" using w n by (auto simp: block_words_def)
    then have q': "q = realloc_at A m p (gc_size_align (ucast n' * 8))"
      "m' = m\<lparr>blocks := (blocks m)(p := None, q \<mapsto> take (unat n') (c @ replicate (unat n') None))\<rparr>"
      using r p q w by (auto simp: m_realloc_def Let_def split: if_splits)
    have "q = 0 \<or> q = p \<or> blocks m q = None" using A q'(1) by (simp add: allocator_ok_def)
    then show ?thesis using q q'(2) n p(3) by auto
  qed
qed

lemma threads_ok_apart:
  assumes "threads_ok s ths" "th \<in> set ths" "th' \<in> set ths" "th \<noteq> th'"
    "mg_threads s th = Some T" "mg_threads s th' = Some U" "nb_size T \<noteq> 0" "nb_size U \<noteq> 0"
  shows "nb_stack T \<noteq> nb_stack U"
  using assms unfolding threads_ok_def by (metis option.sel)

text \<open>A stack with room for another word: \<open>st\<close> with \<open>sz\<close> words in the heap \<open>m\<close>
  takes the place of the stack of \<open>T\<close> in \<open>s\<close>.\<close>

definition nb_room :: "ming \<Rightarrow> addr list \<Rightarrow> M_Thread \<Rightarrow> cmem \<Rightarrow> addr \<Rightarrow> u32 \<Rightarrow> bool" where
  "nb_room s ths T m st sz \<longleftrightarrow> nb_top T < sz \<and> st \<noteq> 0 \<and>
     (\<exists>c. blocks m st = Some c \<and> length c = unat sz) \<and>
     (\<forall>k < unat (nb_top T). nb_read m st k = nb_read (mg_mem s) (nb_stack T) k) \<and>
     (\<forall>th \<in> set ths - {mg_self s}. nb_size (the (mg_threads s th)) \<noteq> 0 \<longrightarrow>
        nb_stack (the (mg_threads s th)) \<noteq> st \<and>
        blocks m (nb_stack (the (mg_threads s th))) = blocks (mg_mem s) (nb_stack (the (mg_threads s th))))"

lemma nb_reserve_ok:
  assumes A: "allocator_ok A" and ok: "threads_ok s ths" and run: "nb_reserve A s = Some s'"
    and small: "unat (nb_size (the (mg_threads s (mg_self s)))) < 2 ^ 31"
  shows "\<exists>T m' st sz. mg_threads s (mg_self s) = Some T \<and> nb_room s ths T m' st sz \<and>
    s' = s\<lparr>mg_mem := m', mg_threads := (mg_threads s)(mg_self s \<mapsto> T\<lparr>nb_stack := st, nb_size := sz\<rparr>)\<rparr>"
proof -
  have self: "mg_self s \<noteq> 0" "mg_self s \<in> set ths" using ok by (auto simp: threads_ok_def dlist_def)
  then obtain T where T: "mg_threads s (mg_self s) = Some T" "nb_ok (mg_mem s) T"
    using ok by (auto simp: threads_ok_def)
  have other: "nb_stack (the (mg_threads s th)) \<noteq> nb_stack T"
    "\<exists>c. blocks (mg_mem s) (nb_stack (the (mg_threads s th))) = Some c"
    if "th \<in> set ths - {mg_self s}" "nb_size (the (mg_threads s th)) \<noteq> 0" "nb_size T \<noteq> 0 \<or> nb_stack T = 0" for th
  proof -
    note th = that
    obtain U where U: "mg_threads s th = Some U" "nb_ok (mg_mem s) U" using ok th(1) by (auto simp: threads_ok_def)
    then show "\<exists>c. blocks (mg_mem s) (nb_stack (the (mg_threads s th))) = Some c"
      using that(2) by (auto simp: nb_ok_def)
    have "nb_stack U \<noteq> 0" using U that(2) by (simp add: nb_ok_def)
    then show "nb_stack (the (mg_threads s th)) \<noteq> nb_stack T"
      using threads_ok_apart [OF ok _ self(2) _ U(1) T(1)] th U(1) by (cases "nb_size T = 0") auto
  qed
  have z: "nb_size T \<noteq> 0 \<or> nb_stack T = 0" using T(2) by (auto simp: nb_ok_def)
  show ?thesis
  proof (cases "nb_top T = nb_size T")
    case False
    then have lt: "nb_top T < nb_size T" using T(2) by (simp add: nb_ok_def order_less_le)
    then have "nb_size T \<noteq> 0" by auto
    then obtain c where c: "nb_stack T \<noteq> 0" "blocks (mg_mem s) (nb_stack T) = Some c" "length c = unat (nb_size T)"
      using T(2) by (auto simp: nb_ok_def)
    have "s' = s" using run False T(1) self(1) by (simp add: nb_reserve_def m_thread_self_def thread_at_def access)
    moreover have "s = s\<lparr>mg_mem := mg_mem s, mg_threads := (mg_threads s)(mg_self s \<mapsto> T\<lparr>nb_stack := nb_stack T, nb_size := nb_size T\<rparr>)\<rparr>"
      using T(1) by (cases s) (simp add: fun_upd_idem)
    moreover have "nb_room s ths T (mg_mem s) (nb_stack T) (nb_size T)"
      unfolding nb_room_def using lt c other(1) [OF _ _ z] by blast
    ultimately show ?thesis using T(1) by (intro exI conjI) (assumption, assumption, simp)
  next
    case True
    let ?n = "M_MAX (nb_size T * 2) 32"
    obtain q m' where r: "m_gc_realloc_buf A (nb_stack T) (ucast (nb_size T) * 8) (ucast ?n * 8) M_GC_NBSTK_FLAGS (mg_mem s) = Some (q, m')"
      "q \<noteq> 0" "s' = set_thread (mg_self s) (T\<lparr>nb_stack := q, nb_size := ?n\<rparr>) (s\<lparr>mg_mem := m'\<rparr>)"
    proof -
      have step: "nb_reserve A s = do {
          r \<leftarrow> m_gc_realloc_buf A (nb_stack T) (ucast (nb_size T) * 8) (ucast ?n * 8) M_GC_NBSTK_FLAGS (mg_mem s);
          m_assert_alloc (fst r);
          Some (set_thread (mg_self s) (T\<lparr>nb_stack := fst r, nb_size := ?n\<rparr>) (s\<lparr>mg_mem := snd r\<rparr>)) }"
        using True T(1) self(1) by (simp add: nb_reserve_def m_thread_self_def thread_at_def access Let_def)
      show ?thesis
      proof (cases "m_gc_realloc_buf A (nb_stack T) (ucast (nb_size T) * 8) (ucast ?n * 8) M_GC_NBSTK_FLAGS (mg_mem s)")
        case None
        then show ?thesis using run step by simp
      next
        case (Some r)
        then show ?thesis using run step
          by (intro that [of "fst r" "snd r"]) (simp_all add: m_assert_alloc_def split: if_splits)
      qed
    qed
    have sz: "unat (nb_size T) < 2 ^ 31" using small T(1) by simp
    then have d: "unat (nb_size T * 2) = 2 * unat (nb_size T)" by (simp add: unat_word_ariths)
    have grow: "unat (nb_size T) < unat ?n"
    proof (cases "nb_size T * 2 > 32")
      case True
      then have "32 < 2 * unat (nb_size T)" using d by (simp add: word_less_nat_alt)
      then show ?thesis using True d by (simp add: M_MAX_def)
    next
      case False
      then have "2 * unat (nb_size T) \<le> 32" using d by (simp add: word_less_nat_alt)
      then show ?thesis using False by (simp add: M_MAX_def)
    qed
    obtain c where c: "if nb_size T = 0 then nb_stack T = 0
        else nb_stack T \<noteq> 0 \<and> blocks (mg_mem s) (nb_stack T) = Some c \<and> length c = unat (nb_size T)"
      using T(2) by (auto simp: nb_ok_def split: if_splits)
    obtain c' where c': "blocks m' q = Some c'" "length c' = unat ?n" "nb_size T \<noteq> 0 \<longrightarrow> take (unat (nb_size T)) c' = c"
      "q \<noteq> nb_stack T \<longrightarrow> blocks (mg_mem s) q = None"
      "\<forall>a. a \<noteq> nb_stack T \<and> a \<noteq> q \<longrightarrow> blocks m' a = blocks (mg_mem s) a"
      using nb_grow [OF A c grow r(1,2)] by blast
    have words: "nb_read m' q k = nb_read (mg_mem s) (nb_stack T) k" if k: "k < unat (nb_top T)" for k
    proof -
      have nz: "nb_size T \<noteq> 0" "k < unat (nb_size T)" using k True by auto
      then have "c' ! k = c ! k" using c'(3) by (metis nth_take)
      then show ?thesis using nz c c'(1,2) grow by (simp add: nb_read_def)
    qed
    have oth: "nb_stack (the (mg_threads s th)) \<noteq> q \<and>
        blocks m' (nb_stack (the (mg_threads s th))) = blocks (mg_mem s) (nb_stack (the (mg_threads s th)))"
      if "th \<in> set ths - {mg_self s}" "nb_size (the (mg_threads s th)) \<noteq> 0" for th
      using other [OF that z] c'(4,5) by auto
    have "nb_top T < ?n" using grow True by (simp add: word_less_nat_alt)
    then have "nb_room s ths T m' q ?n" unfolding nb_room_def using r(2) c'(1,2) words oth by blast
    then show ?thesis using T(1) r(3)
      by (intro exI [of _ T] exI [of _ m'] exI [of _ q] exI [of _ ?n]) (simp add: set_thread_def)
  qed
qed

text \<open>Pushing a word.\<close>

lemma nb_words_same:
  assumes "nb_ok m U" "nb_size U \<noteq> 0 \<Longrightarrow> \<forall>k. nb_read m' (nb_stack U) k = nb_read m (nb_stack U) k"
  shows "nb_words m' U = nb_words m U \<and> nb_stack_ok m' U"
proof (cases "nb_size U = 0")
  case True
  then have "nb_top U = 0" using assms(1) by (simp add: nb_ok_def)
  then show ?thesis by (simp add: nb_words_def nb_stack_ok_def)
next
  case False
  then show ?thesis using assms by (simp add: nb_words_def nb_stack_ok_def nb_ok_def)
qed

lemma nb_push_ok:
  assumes ok: "threads_ok s ths" and T: "mg_threads s (mg_self s) = Some T" and room: "nb_room s ths T m st sz"
  shows "\<exists>m'. nb_push c (s\<lparr>mg_mem := m, mg_threads := (mg_threads s)(mg_self s \<mapsto> T\<lparr>nb_stack := st, nb_size := sz\<rparr>)\<rparr>) =
      Some (ucast (nb_top T), s\<lparr>mg_mem := m', mg_threads := (mg_threads s)(mg_self s \<mapsto>
        T\<lparr>nb_stack := st, nb_size := sz, nb_top := nb_top T + 1\<rparr>)\<rparr>) \<and>
    nb_words m' (T\<lparr>nb_stack := st, nb_size := sz, nb_top := nb_top T + 1\<rparr>) = nb_words (mg_mem s) T @ [c OR 1] \<and>
    nb_ok m' (T\<lparr>nb_stack := st, nb_size := sz, nb_top := nb_top T + 1\<rparr>) \<and>
    (\<forall>th \<in> set ths - {mg_self s}. \<exists>U. mg_threads s th = Some U \<and> nb_ok m' U \<and>
       nb_words m' U = nb_words (mg_mem s) U \<and> (nb_size U \<noteq> 0 \<longrightarrow> nb_stack U \<noteq> st))"
proof -
  have self: "mg_self s \<noteq> 0" "mg_self s \<in> set ths" using ok by (auto simp: threads_ok_def dlist_def)
  have Tok: "nb_ok (mg_mem s) T" using ok self(2) T by (auto simp: threads_ok_def)
  let ?k = "unat (nb_top T)" and ?T = "T\<lparr>nb_stack := st, nb_size := sz, nb_top := nb_top T + 1\<rparr>"
  obtain cs where cs: "blocks m st = Some cs" "length cs = unat sz" and lt: "nb_top T < sz" and st: "st \<noteq> 0"
    using room by (auto simp: nb_room_def)
  have k: "?k < length cs" using cs(2) lt by (simp add: word_less_nat_alt)
  let ?m = "m\<lparr>blocks := (blocks m)(st \<mapsto> cs[?k := Some (c OR 1)])\<rparr>"
  have w: "nb_write m st ?k (c OR 1) = Some ?m" using cs(1) k by (simp add: nb_write_def)
  have rd: "nb_read ?m q j = (if q = st \<and> j = ?k then Some (c OR 1) else nb_read m q j)" for q j
    by (rule nb_read_write [OF w])
  have old: "nb_read m st j = nb_read (mg_mem s) (nb_stack T) j" if "j < ?k" for j
    using room that by (simp add: nb_room_def)
  have top: "unat (nb_top T + 1) = Suc ?k"
    using lt unsigned_less [of sz, where ?'a = nat] by (simp add: unat_word_ariths word_less_nat_alt)
  have words: "nb_words ?m ?T = nb_words (mg_mem s) T @ [c OR 1]"
    by (simp add: nb_words_def top rd old)
  have stack: "nb_stack_ok ?m ?T"
    using Tok old by (auto simp: nb_stack_ok_def top rd nb_ok_def less_Suc_eq)
  have "nb_top T + 1 \<le> sz" using lt top by (simp add: word_le_nat_alt word_less_nat_alt)
  moreover have "sz \<noteq> 0" using lt by auto
  ultimately have nok: "nb_ok ?m ?T" using stack st cs by (simp add: nb_ok_def)
  have other: "\<exists>U. mg_threads s th = Some U \<and> nb_ok ?m U \<and> nb_words ?m U = nb_words (mg_mem s) U \<and>
      (nb_size U \<noteq> 0 \<longrightarrow> nb_stack U \<noteq> st)" if th: "th \<in> set ths - {mg_self s}" for th
  proof -
    obtain U where U: "mg_threads s th = Some U" "nb_ok (mg_mem s) U" using ok th by (auto simp: threads_ok_def)
    have far: "nb_size U \<noteq> 0 \<Longrightarrow> nb_stack U \<noteq> st \<and> blocks m (nb_stack U) = blocks (mg_mem s) (nb_stack U)"
      using room th U(1) unfolding nb_room_def by (metis option.sel)
    then have same: "nb_size U \<noteq> 0 \<Longrightarrow> \<forall>k. nb_read ?m (nb_stack U) k = nb_read (mg_mem s) (nb_stack U) k"
      unfolding rd by (simp add: nb_read_def)
    have "nb_ok ?m U" using U(2) nb_words_same [OF U(2) same] far by (auto simp: nb_ok_def split: if_splits)
    then show ?thesis using U(1) nb_words_same [OF U(2) same] far by blast
  qed
  have "nb_push c (s\<lparr>mg_mem := m, mg_threads := (mg_threads s)(mg_self s \<mapsto> T\<lparr>nb_stack := st, nb_size := sz\<rparr>)\<rparr>) =
      Some (ucast (nb_top T), s\<lparr>mg_mem := ?m, mg_threads := (mg_threads s)(mg_self s \<mapsto> ?T)\<rparr>)"
    using self(1) w by (simp add: nb_push_def m_thread_self_def thread_at_def access set_thread_def)
  then show ?thesis using words nok other by blast
qed

subsection \<open>The cell\<close>

text \<open>The pool and cell parts together: a step that adds the object \<open>c\<close> of type \<open>t\<close>.\<close>

definition obj_added :: "M_GCObjType \<Rightarrow> addr \<Rightarrow> GC \<Rightarrow> GC \<Rightarrow> bool" where
  "obj_added t c g g' \<longleftrightarrow> pools_step g g' \<and>
     (\<forall>q Q. gc_pools g q = Some Q \<longrightarrow> (\<exists>Q'. gc_pools g' q = Some Q' \<and> p_type Q' = p_type Q)) \<and>
     (\<exists>p P i. gc_pools g' p = Some P \<and> p_type P = t \<and> i < cells_of g t \<and> c = obj_cell g t p i \<and>
        obj_mark g p i = GC_MARK_UNUSED \<and>
        (\<forall>q j. obj_mark g' q j = (if q = p \<and> j = i then GC_MARK_WHITE else obj_mark g q j))) \<and>
     gc_allocated_size g' - objs_size g' = gc_allocated_size g - objs_size g"

lemma usable_pool_ok:
  assumes ok: "gc_ok g L" and t: "t \<in> real_types"
    and map: "mapped_pages 4096 0 (gc_vm g) (gc_mmap os 4096 0 (gc_vm g))"
  shows "gc_usable_pool os t (descr_of t) g = Some (0, g) \<and> fst (gc_mmap os 4096 0 (gc_vm g)) = 0 \<or>
    (\<exists>p g1 L1 us. gc_usable_pool os t (descr_of t) g = Some (p, g1) \<and> p \<noteq> 0 \<and> gc_ok g1 L1 \<and>
      L1 (usable_pools g t) = Some (p # us) \<and> pools_step g g1 \<and> gc_allocated_size g1 = gc_allocated_size g \<and>
      (\<forall>q Q. gc_pools g q = Some Q \<longrightarrow> gc_pools g1 q = Some Q) \<and>
      (\<forall>q i. obj_mark g1 q i = obj_mark g q i) \<and> objs_size g1 = objs_size g)"
proof -
  note parts = gc_ok_parts [OF ok]
  have fam: "family (gc_cells g) L" by (rule inv_dom(2) [OF ok])
  have "usable_pools g t \<in> dom L" using inv_dom(1) [OF ok] stub_heads_iff [OF real_type(1) [OF t], of g] by simp
  then obtain us where us: "L (usable_pools g t) = Some us" by blast
  note empty = family_is_empty [OF fam us]
  show ?thesis
  proof (cases us)
    case (Cons p vs)
    from family_slist [OF fam us] obtain b where b: "usable_pools g t \<noteq> 0"
      "gc_cells g (usable_pools g t) = Some \<lparr>s_next = b\<rparr>" "sseg (gc_cells g) b us" by (rule slist_chain)
    then have "b = p" "p \<noteq> 0" using Cons by auto
    then have "gc_usable_pool os t (descr_of t) g = Some (p, g)"
      using empty b(1,2) Cons by (simp add: gc_usable_pool_def access)
    then show ?thesis using \<open>p \<noteq> 0\<close> ok us Cons
      by (intro disjI2 exI [of _ p] exI [of _ g] exI [of _ L] exI [of _ vs]) simp
  next
    case Nil
    then have run: "gc_usable_pool os t (descr_of t) g = gc_alloc_pool os t (descr_of t) g"
      using empty by (simp add: gc_usable_pool_def)
    from alloc_pool_ok [OF ok t map] show ?thesis
    proof
      assume "gc_alloc_pool os t (descr_of t) g = Some (0, g) \<and> fst (gc_mmap os 4096 0 (gc_vm g)) = 0"
      then show ?thesis using run by simp
    next
      assume "\<exists>p g' us cs. gc_alloc_pool os t (descr_of t) g = Some (p, g') \<and> p \<noteq> 0 \<and> gc_pools g p = None \<and>
        L (usable_pools g t) = Some us \<and> gc_ok g' (L(free_cells p \<mapsto> cs, usable_pools g t \<mapsto> p # us)) \<and> cs \<noteq> [] \<and>
        (\<exists>P. gc_pools g' = (gc_pools g)(p \<mapsto> P) \<and> p_type P = t \<and> bitmap P = replicate (length (bitmap P)) 0) \<and>
        (\<exists>vm h. g' = g\<lparr>gc_vm := vm, gc_cells := h, gc_pools := gc_pools g'\<rparr>)"
      then obtain p g' us cs P vm h where a: "gc_alloc_pool os t (descr_of t) g = Some (p, g')" "p \<noteq> 0" "gc_pools g p = None"
        "gc_ok g' (L(free_cells p \<mapsto> cs, usable_pools g t \<mapsto> p # us))"
        "gc_pools g' = (gc_pools g)(p \<mapsto> P)" "bitmap P = replicate (length (bitmap P)) 0"
        "g' = g\<lparr>gc_vm := vm, gc_cells := h, gc_pools := gc_pools g'\<rparr>" by (elim exE conjE)
      have step: "pools_step g g'" "gc_allocated_size g' = gc_allocated_size g" "cells_of g' u = cells_of g u" for u
        by (subst a(7), simp add: pools_step_def)+
      have Pp: "gc_pools g' p = Some P" using a(5) by simp
      have zero: "mark (bitmap P) i = 0" if "i < 16 * length (bitmap P)" for i
        using that by (subst a(6)) (rule mark_zeros)
      have "obj_mark g' q i = obj_mark g q i" for q i
      proof (cases "q = p")
        case True
        then show ?thesis using obj_mark_pool [OF a(4) Pp, of i] zero a(3) by (simp add: obj_mark_def)
      next
        case False
        then show ?thesis using a(5) step(3) by (simp add: obj_mark_def cong: option.case_cong)
      qed
      moreover have "objs_size g' = objs_size g"
      proof -
        have "{i. i < 16 * length (bitmap P) \<and> mark (bitmap P) i \<noteq> 0} = {}" using zero by auto
        then have "pool_bytes g' p = 0" unfolding pool_bytes_def Pp option.case by (simp only: card.empty) simp
        moreover have "pool_bytes g p = 0" using a(3) by (simp add: pool_bytes_def)
        ultimately show ?thesis using objs_size_upd [of p g' g] a(5) by simp
      qed
      moreover have "\<forall>q Q. gc_pools g q = Some Q \<longrightarrow> gc_pools g' q = Some Q" using a(3,5) by auto
      ultimately show ?thesis using run a(1,2,4) step
        by (intro disjI2 exI [of _ p] exI [of _ g'] exI [of _ "L(free_cells p \<mapsto> cs, usable_pools g t \<mapsto> p # us)"] exI [of _ us])
          simp
    qed
  qed
qed

text \<open>One more mark in a pool, and its part of the total size.\<close>

lemma white_size:
  assumes ok: "gc_ok g L" and P: "gc_pools g p = Some P" "i < cells_of g (p_type P)" "mark (bitmap P) i = GC_MARK_UNUSED"
  shows "objs_size (g\<lparr>gc_pools := (gc_pools g)(p \<mapsto> P\<lparr>bitmap := set_mark (bitmap P) i GC_MARK_WHITE\<rparr>)\<rparr>) =
    objs_size g + ucast (d_size (descr_of (p_type P)))"
proof -
  let ?bm = "set_mark (bitmap P) i GC_MARK_WHITE" and ?n = "16 * length (bitmap P)"
  let ?g = "g\<lparr>gc_pools := (gc_pools g)(p \<mapsto> P\<lparr>bitmap := ?bm\<rparr>)\<rparr>"
  have i: "i < ?n" using obj_cell_facts(8) [OF ok P(1,2)] .
  have "{j. j < ?n \<and> mark ?bm j \<noteq> 0} = insert i {j. j < ?n \<and> mark (bitmap P) j \<noteq> 0}"
    using i by (auto simp: mark_set_mark)
  moreover have "i \<notin> {j. j < ?n \<and> mark (bitmap P) j \<noteq> 0}" using P(3) by simp
  ultimately have "card {j. j < ?n \<and> mark ?bm j \<noteq> 0} = Suc (card {j. j < ?n \<and> mark (bitmap P) j \<noteq> 0})"
    by simp
  then have "pool_bytes ?g p = pool_bytes g p + ucast (d_size (descr_of (p_type P)))"
    using P(1) by (simp add: pool_bytes_def algebra_simps)
  moreover have "objs_size ?g = objs_size g - pool_bytes g p + pool_bytes ?g p" by (rule objs_size_upd) simp
  ultimately show ?thesis by simp
qed

lemma new_cell_ok:
  assumes ok: "gc_ok g L" and t: "t \<in> real_types"
    and map: "mapped_pages 4096 0 (gc_vm g) (gc_mmap os 4096 0 (gc_vm g))"
  shows "gc_usable_pool os t (descr_of t) g = Some (0, g) \<and> fst (gc_mmap os 4096 0 (gc_vm g)) = 0 \<or>
    (\<exists>p g1 c g2 g3 L'. gc_usable_pool os t (descr_of t) g = Some (p, g1) \<and> p \<noteq> 0 \<and>
      gc_get_cell t p g1 = Some (c, p, g2) \<and> gc_set_white (descr_of t) c p g2 = Some g3 \<and> c \<noteq> 0 \<and>
      gc_ok g3 L' \<and> obj_added t c g g3)"
  using usable_pool_ok [OF ok t map]
proof
  assume "\<exists>p g1 L1 us. gc_usable_pool os t (descr_of t) g = Some (p, g1) \<and> p \<noteq> 0 \<and> gc_ok g1 L1 \<and>
      L1 (usable_pools g t) = Some (p # us) \<and> pools_step g g1 \<and> gc_allocated_size g1 = gc_allocated_size g \<and>
      (\<forall>q Q. gc_pools g q = Some Q \<longrightarrow> gc_pools g1 q = Some Q) \<and>
      (\<forall>q i. obj_mark g1 q i = obj_mark g q i) \<and> objs_size g1 = objs_size g"
  then obtain p g1 L1 us where 1: "gc_usable_pool os t (descr_of t) g = Some (p, g1)" "p \<noteq> 0" "gc_ok g1 L1"
      "L1 (usable_pools g t) = Some (p # us)" "pools_step g g1" "gc_allocated_size g1 = gc_allocated_size g"
      "\<forall>q Q. gc_pools g q = Some Q \<longrightarrow> gc_pools g1 q = Some Q"
      "\<forall>q i. obj_mark g1 q i = obj_mark g q i" "objs_size g1 = objs_size g" by (elim exE conjE)
  note st = pools_step_static [OF 1(5)]
  have us: "L1 (usable_pools g1 t) = Some (p # us)" using 1(4) st(1) by simp
  obtain c g2 h P i L' where 2: "gc_get_cell t p g1 = Some (c, p, g2)"
    "gc_set_white (descr_of t) c p g2 = Some (g1\<lparr>gc_cells := h,
      gc_pools := (gc_pools g1)(p \<mapsto> P\<lparr>bitmap := set_mark (bitmap P) i GC_MARK_WHITE\<rparr>),
      gc_allocated_size := gc_allocated_size g1 + ucast (d_size (descr_of t))\<rparr>)"
    "gc_pools g1 p = Some P" "p_type P = t" "i < cells_of g1 t" "mark (bitmap P) i = GC_MARK_UNUSED"
    "c = obj_cell g1 t p i"
    "gc_ok (g1\<lparr>gc_cells := h, gc_pools := (gc_pools g1)(p \<mapsto> P\<lparr>bitmap := set_mark (bitmap P) i GC_MARK_WHITE\<rparr>)\<rparr>) L'"
    using take_cell_ok [OF 1(3) t us] by (elim exE conjE)
  let ?bm = "set_mark (bitmap P) i GC_MARK_WHITE"
  let ?g = "g1\<lparr>gc_cells := h, gc_pools := (gc_pools g1)(p \<mapsto> P\<lparr>bitmap := ?bm\<rparr>),
      gc_allocated_size := gc_allocated_size g1 + ucast (d_size (descr_of t))\<rparr>"
  have ic: "i < cells_of g1 (p_type P)" using 2(4,5) by simp
  note cf = obj_cell_facts [OF 1(3) 2(3) ic]
  have cells: "cells_of g1 u = cells_of g u" "obj_cell g1 u q j = obj_cell g u q j" for u q j
    using st(4) by (simp_all add: cells_of_def obj_cell_def)
  have ok3: "gc_ok ?g L'" using gc_inv_static(6) [of "{}" "\<lambda>_. gc_allocated_size g1 + ucast (d_size (descr_of t))"] 2(8) by simp
  have marks: "obj_mark ?g q j = (if q = p \<and> j = i then GC_MARK_WHITE else obj_mark g q j)" for q j
  proof -
    have "obj_mark ?g q j = (if q = p \<and> j = i then GC_MARK_WHITE else obj_mark g1 q j)"
      using 2(3) cf(8) ic by (auto simp: obj_mark_def mark_set_mark split: option.split)
    then show ?thesis using 1(8) by simp
  qed
  have "objs_size ?g = objs_size (g1\<lparr>gc_pools := (gc_pools g1)(p \<mapsto> P\<lparr>bitmap := ?bm\<rparr>)\<rparr>)"
    by (simp add: objs_size_def pool_bytes_def)
  then have "objs_size ?g = objs_size g + ucast (d_size (descr_of t))"
    using white_size [OF 1(3) 2(3) ic 2(6)] 2(4) 1(9) by simp
  then have size: "gc_allocated_size ?g - objs_size ?g = gc_allocated_size g - objs_size g" using 1(6) by simp
  have "obj_added t c g ?g"
    unfolding obj_added_def
  proof (intro conjI)
    have "pools_step g1 ?g" by (simp add: pools_step_def)
    then show "pools_step g ?g" by (rule pools_step_trans [OF 1(5)])
    show "\<forall>q Q. gc_pools g q = Some Q \<longrightarrow> (\<exists>Q'. gc_pools ?g q = Some Q' \<and> p_type Q' = p_type Q)"
      using 1(7) 2(3) by auto
    show "\<exists>p P i. gc_pools ?g p = Some P \<and> p_type P = t \<and> i < cells_of g t \<and> c = obj_cell g t p i \<and>
        obj_mark g p i = GC_MARK_UNUSED \<and>
        (\<forall>q j. obj_mark ?g q j = (if q = p \<and> j = i then GC_MARK_WHITE else obj_mark g q j))"
    proof (intro exI conjI allI)
      show "gc_pools ?g p = Some (P\<lparr>bitmap := ?bm\<rparr>)" by simp
      show "p_type (P\<lparr>bitmap := ?bm\<rparr>) = t" using 2(4) by simp
      show "i < cells_of g t" "c = obj_cell g t p i" using 2(5,7) cells by simp_all
      show "obj_mark g p i = GC_MARK_UNUSED" using 1(8) 2(3,6) by (metis obj_mark_pool [OF 1(3) 2(3)])
      show "obj_mark ?g q j = (if q = p \<and> j = i then GC_MARK_WHITE else obj_mark g q j)" for q j by (rule marks)
    qed
  qed (rule size)
  moreover have "c \<noteq> 0" using cf(2) 2(4,7) by simp
  ultimately show ?thesis using 1(1,2) 2(1,2) ok3 by blast
qed simp

text \<open>What an added object means for the sets of objects.\<close>

lemma obj_added_objs:
  assumes ok: "gc_ok g L" "gc_ok g' L'" and add: "obj_added t c g g'"
  shows "gc_objs g' GC_MARK_WHITE = insert c (gc_objs g GC_MARK_WHITE)" "c \<notin> gc_objs g GC_MARK_WHITE"
    "gc_objs g' GC_MARK_BLACK = gc_objs g GC_MARK_BLACK" "is_cell g' c" "\<And>x. is_cell g x \<Longrightarrow> is_cell g' x"
proof -
  obtain p P i where P: "gc_pools g' p = Some P" "p_type P = t" "i < cells_of g t" "c = obj_cell g t p i"
      "obj_mark g p i = GC_MARK_UNUSED"
      "\<forall>q j. obj_mark g' q j = (if q = p \<and> j = i then GC_MARK_WHITE else obj_mark g q j)"
    and old: "\<forall>q Q. gc_pools g q = Some Q \<longrightarrow> (\<exists>Q'. gc_pools g' q = Some Q' \<and> p_type Q' = p_type Q)"
    and st: "pools_step g g'"
    using add unfolding obj_added_def by (elim exE conjE)
  have cells: "cells_of g' u = cells_of g u" "obj_cell g' u q j = obj_cell g u q j" for u q j
    using pools_step_static(4) [OF st] by (simp_all add: cells_of_def obj_cell_def)
  show "is_cell g' c" unfolding is_cell_def cells using P by blast
  show "is_cell g x \<Longrightarrow> is_cell g' x" for x unfolding is_cell_def cells using old by metis
  have out: "obj_mark g q j = m \<Longrightarrow> m \<noteq> 0 \<Longrightarrow> \<exists>Q. gc_pools g q = Some Q" for q j m
    by (auto simp: obj_mark_def split: option.splits)
  have backw: "x \<in> gc_objs g m" if "gc_pools g' q = Some Q" "obj_mark g q j = m" "x = obj_cell g (p_type Q) q j" "m \<noteq> 0" for x q Q j m
  proof -
    note b = that
    obtain R where R: "gc_pools g q = Some R" using out [OF b(2,4)] by blast
    then have "p_type R = p_type Q" using old b(1) by fastforce
    then show ?thesis using gc_objs_memI [OF R b(2,4)] b(3) by simp
  qed
  have forw: "x \<in> gc_objs g' m" if "gc_pools g q = Some Q" "obj_mark g' q j = m" "x = obj_cell g (p_type Q) q j" "m \<noteq> 0" for x q Q j m
  proof -
    note b = that
    obtain R where R: "gc_pools g' q = Some R" "p_type R = p_type Q" using old b(1) by blast
    then show ?thesis using gc_objs_memI [OF R(1) b(2,4)] b(3) cells(2) by simp
  qed
  show "c \<notin> gc_objs g GC_MARK_WHITE"
  proof
    assume "c \<in> gc_objs g GC_MARK_WHITE"
    then obtain q Q j where Q: "c = obj_cell g (p_type Q) q j" "gc_pools g q = Some Q" "obj_mark g q j = GC_MARK_WHITE"
      unfolding gc_objs_mark [of "1 :: u32", simplified] by blast
    obtain R where R: "gc_pools g' q = Some R" "p_type R = p_type Q" using old Q(2) by blast
    have j: "j < cells_of g (p_type Q)" using obj_mark_cell [OF Q(3) _ Q(2)] by simp
    have "q = p \<and> j = i"
      using cell_unique [OF ok(2) R(1) _ P(1), of j i] R(2) P(2-4) Q(1) j cells by simp
    then show False using P(5) Q(3) by simp
  qed
  show "gc_objs g' GC_MARK_WHITE = insert c (gc_objs g GC_MARK_WHITE)"
  proof (intro subset_antisym subsetI)
    fix x assume "x \<in> gc_objs g' GC_MARK_WHITE"
    then obtain q Q j where Q: "x = obj_cell g (p_type Q) q j" "gc_pools g' q = Some Q" "obj_mark g' q j = GC_MARK_WHITE"
      unfolding gc_objs_mark [of "1 :: u32", simplified] cells by blast
    show "x \<in> insert c (gc_objs g GC_MARK_WHITE)"
    proof (cases "q = p \<and> j = i")
      case True
      then show ?thesis using Q(1,2) P(1,2,4) by simp
    next
      case False
      then have "obj_mark g q j = GC_MARK_WHITE" using P(6) Q(3) by auto
      then show ?thesis using backw [OF Q(2) _ Q(1)] by simp
    qed
  next
    fix x assume "x \<in> insert c (gc_objs g GC_MARK_WHITE)"
    then consider "x = c" | "x \<in> gc_objs g GC_MARK_WHITE" by blast
    then show "x \<in> gc_objs g' GC_MARK_WHITE"
    proof cases
      case 1
      have "obj_mark g' p i = GC_MARK_WHITE" using P(6) by simp
      then show ?thesis using 1 gc_objs_memI [OF P(1), of i GC_MARK_WHITE] P(2,4) cells by simp
    next
      case 2
      then obtain q Q j where Q: "x = obj_cell g (p_type Q) q j" "gc_pools g q = Some Q" "obj_mark g q j = GC_MARK_WHITE"
        unfolding gc_objs_mark [of "1 :: u32", simplified] by blast
      have "obj_mark g' q j = GC_MARK_WHITE" using P(6) Q(3) by auto
      then show ?thesis using forw [OF Q(2) _ Q(1)] by simp
    qed
  qed
  have bl: "obj_mark g' q j = GC_MARK_BLACK \<longleftrightarrow> obj_mark g q j = GC_MARK_BLACK" for q j using P(5,6) by auto
  show "gc_objs g' GC_MARK_BLACK = gc_objs g GC_MARK_BLACK"
  proof (intro subset_antisym subsetI)
    fix x assume "x \<in> gc_objs g' GC_MARK_BLACK"
    then obtain q Q j where Q: "x = obj_cell g (p_type Q) q j" "gc_pools g' q = Some Q" "obj_mark g' q j = GC_MARK_BLACK"
      unfolding gc_objs_mark [of "3 :: u32", simplified] cells by blast
    then show "x \<in> gc_objs g GC_MARK_BLACK" using backw [OF Q(2) _ Q(1), of GC_MARK_BLACK] bl by simp
  next
    fix x assume "x \<in> gc_objs g GC_MARK_BLACK"
    then obtain q Q j where Q: "x = obj_cell g (p_type Q) q j" "gc_pools g q = Some Q" "obj_mark g q j = GC_MARK_BLACK"
      unfolding gc_objs_mark [of "3 :: u32", simplified] by blast
    then show "x \<in> gc_objs g' GC_MARK_BLACK" using forw [OF Q(2) _ Q(1), of GC_MARK_BLACK] bl by simp
  qed
qed

subsection \<open>A new object\<close>

text \<open>The address of a cell is a multiple of 8, so the two flags in the lowest bits can be taken
  off again.\<close>

lemma cell_aligned:
  assumes inv: "gc_inv D g L" and P: "gc_pools g p = Some P" "i < cells_of g (p_type P)"
  shows "8 dvd unat (obj_cell g (p_type P) p i)"
proof -
  have pok: "pool_ok g L p P" by (rule gc_ok_parts(4) [OF inv P(1)])
  then have t: "p_type P \<in> real_types" and page: "page_start p" by (auto simp: pool_ok_def)
  have lay: "layout_ok (gc_obj_stubs g (p_type P)) (descr_of (p_type P))"
    using gc_ok_parts(1) [OF inv] t by (simp add: config_ok_def)
  have ds: "8 dvd unat (d_size (descr_of (p_type P)))"
    using t by (auto simp: real_types_def obj_types_def descr_of_def)
  have bs: "8 dvd unat (bitmap_size (gc_obj_stubs g (p_type P)))"
    using lay unfolding layout_ok_def by presburger
  have pe: "8 dvd unat p"
    using page by (auto simp: page_start_def mod_eq_0_iff_dvd intro: dvd_trans [of 8 4096])
  have "unat (obj_cell g (p_type P) p i) =
      unat p + 40 + unat (bitmap_size (gc_obj_stubs g (p_type P))) + i * unat (d_size (descr_of (p_type P)))"
    using cell_offset(3) [OF lay page] P(2) by (simp add: obj_cell_def cells_of_def)
  then show ?thesis using ds bs pe by simp
qed

lemma aligned_bits: "2 ^ k dvd unat c \<Longrightarrow> n < k \<Longrightarrow> \<not> bit c n" for c :: u64
proof -
  assume c: "2 ^ k dvd unat c" and n: "n < k"
  have "bit (unat c) n \<longleftrightarrow> bit (take_bit k (unat c)) n" using n by (simp add: bit_take_bit_iff)
  also have "take_bit k (unat c) = 0" using c by (simp add: take_bit_eq_mod)
  finally show "\<not> bit c n" by (cases "n < 64") (simp_all add: bit_unsigned_iff bit_imp_le_length)
qed

lemma nb_pin_new:
  assumes "8 dvd unat c"
  shows "nb_pin (c OR GC_NB_FL_NO_PTR) = (c, GC_MARK_BLACK)" "nb_pin c = (c, GC_MARK_GRAY)"
    "(c OR GC_NB_FL_NO_PTR) AND NOT 3 = c"
proof -
  note z = aligned_bits [of 3 c]
  have c: "\<not> bit c 0" "\<not> bit c 1" using z [of 0] z [of 1] assms by simp_all
  have 1: "(c OR 1) AND NOT 1 = c" "bit ((c OR 1) AND 1) 0"
    using c by (auto intro!: bit_word_eqI simp: bit_simps) (metis gr0I)
  then show "nb_pin (c OR GC_NB_FL_NO_PTR) = (c, GC_MARK_BLACK)" by (auto simp: nb_pin_def)
  have "c AND 1 = 0" using c by (auto intro!: bit_word_eqI simp: bit_simps)
  then show "nb_pin c = (c, GC_MARK_GRAY)" by (simp add: nb_pin_def)
  have 3: "(3 :: u64) = mask 2" by (simp add: mask_eq_exp_minus_1)
  show "(c OR GC_NB_FL_NO_PTR) AND NOT 3 = c"
    unfolding 3 by (rule bit_word_eqI) (use c in \<open>auto simp: bit_simps less_2_cases_iff intro: gr0I\<close>)
qed

lemma process_gc [simp]:
  "m_thread_self (s\<lparr>mg_gc := g\<rparr>) = m_thread_self s" "thread_at (s\<lparr>mg_gc := g\<rparr>) th = thread_at s th"
  by (simp_all add: m_thread_self_def thread_at_def)

lemma set_thread_gc [simp]:
  "set_thread th T (s\<lparr>mg_gc := g, mg_mem := m\<rparr>) = (set_thread th T (s\<lparr>mg_mem := m\<rparr>))\<lparr>mg_gc := g\<rparr>"
  by (cases s) (simp add: set_thread_def)

lemma nb_reserve_gc: "nb_reserve A (s\<lparr>mg_gc := g\<rparr>) = map_option (\<lambda>s'. s'\<lparr>mg_gc := g\<rparr>) (nb_reserve A s)"
proof (cases "m_thread_self s")
  case (Some th)
  show ?thesis
  proof (cases "thread_at s th")
    case T: (Some T)
    let ?r = "m_gc_realloc_buf A (nb_stack T) (ucast (nb_size T) * 8)
      (ucast (M_MAX (nb_size T * 2) 32) * 8) M_GC_NBSTK_FLAGS (mg_mem s)"
    show ?thesis
      by (cases ?r; cases "m_assert_alloc (fst (the ?r))") (simp_all add: nb_reserve_def Some T Let_def)
  qed (simp add: nb_reserve_def Some)
qed (simp add: nb_reserve_def)

lemma nb_push_gc: "nb_push c (s\<lparr>mg_gc := g\<rparr>) = map_option (\<lambda>r. (fst r, (snd r)\<lparr>mg_gc := g\<rparr>)) (nb_push c s)"
proof (cases "m_thread_self s")
  case (Some th)
  show ?thesis
  proof (cases "thread_at s th")
    case T: (Some T)
    show ?thesis
      by (cases "nb_write (mg_mem s) (nb_stack T) (unat (nb_top T)) (c OR 1)")
        (simp_all add: nb_push_def Some T)
  qed (simp add: nb_push_def Some)
qed (simp add: nb_push_def)

definition same_process :: "ming \<Rightarrow> ming \<Rightarrow> bool" where
  "same_process s s' \<longleftrightarrow> mg_roots s' = mg_roots s \<and> mg_self s' = mg_self s \<and> mg_gc_thread s' = mg_gc_thread s \<and>
     mg_thread_num s' = mg_thread_num s \<and> mg_paused_num s' = mg_paused_num s \<and>
     mg_pause_flag s' = mg_pause_flag s \<and>
     map_option th_flags (mg_threads s' (mg_self s)) = map_option th_flags (mg_threads s (mg_self s))"

text \<open>One more word on the stack of the running thread.\<close>

definition pushed :: "u64 \<Rightarrow> u64 \<Rightarrow> ming \<Rightarrow> ming \<Rightarrow> addr list \<Rightarrow> bool" where
  "pushed w oid s s' ths \<longleftrightarrow> mg_roots s' = mg_roots s \<and> mg_self s' = mg_self s \<and>
     oid = of_nat (length (nb_words (mg_mem s) (the (mg_threads s (mg_self s))))) \<and>
     (\<forall>th \<in> set ths. nb_words (mg_mem s') (the (mg_threads s' th)) =
        nb_words (mg_mem s) (the (mg_threads s th)) @ (if th = mg_self s then [w] else []))"

lemma pushed_pins:
  assumes "pushed w oid s s' ths" "mg_self s \<in> set ths"
  shows "root_pins s' ths N = insert (nb_pin w) (root_pins s ths N)"
proof -
  have "(\<Union>th \<in> set ths. nb_pin ` set (nb_words (mg_mem s') (the (mg_threads s' th)))) =
      insert (nb_pin w) (\<Union>th \<in> set ths. nb_pin ` set (nb_words (mg_mem s) (the (mg_threads s th))))"
    using assms by (auto simp: pushed_def split: if_splits)
  then show ?thesis using assms(1) by (simp add: root_pins_def pushed_def)
qed

lemma gc_new_obj_ok:
  assumes A: "allocator_ok A" and ok: "ming_ok env s L ths N" and ths: "threads_ok s ths"
    and small: "unat (nb_size (the (mg_threads s (mg_self s)))) < 2 ^ 31" and t: "t \<in> real_types"
    and map: "mapped_pages 4096 0 (gc_vm (mg_gc s)) (gc_mmap os 4096 0 (gc_vm (mg_gc s)))"
    and grow: "nb_reserve A s \<noteq> None"
  shows "gc_new_obj A os t s = Some (0, None, s) \<and> fst (gc_mmap os 4096 0 (gc_vm (mg_gc s))) = 0 \<or>
    (\<exists>c oid s' L'. gc_new_obj A os t s = Some (c, Some oid, s') \<and> c \<noteq> 0 \<and>
      ming_ok env s' L' ths N \<and> threads_ok s' ths \<and> obj_added t c (mg_gc s) (mg_gc s') \<and>
      root_pins s' ths N = insert (c, GC_MARK_BLACK) (root_pins s ths N) \<and> same_process s s' \<and>
      8 dvd unat c \<and> pushed (c OR GC_NB_FL_NO_PTR) oid s s' ths)"
proof -
  have gok: "gc_ok (mg_gc s) L" and rest: "at_rest (mg_gc s)" and roots: "roots_ok env s ths N"
    and pins: "\<forall>x c. (x, c) \<in> root_pins s ths N \<longrightarrow> is_cell (mg_gc s) x" using ok by (simp_all add: ming_ok_def)
  note descr = real_type(2) [OF t]
  from new_cell_ok [OF gok t map] show ?thesis
  proof
    assume "gc_usable_pool os t (descr_of t) (mg_gc s) = Some (0, mg_gc s) \<and> fst (gc_mmap os 4096 0 (gc_vm (mg_gc s))) = 0"
    then show ?thesis using descr by (simp add: gc_new_obj_def)
  next
    assume "\<exists>p g1 c g2 g3 L'. gc_usable_pool os t (descr_of t) (mg_gc s) = Some (p, g1) \<and> p \<noteq> 0 \<and>
      gc_get_cell t p g1 = Some (c, p, g2) \<and> gc_set_white (descr_of t) c p g2 = Some g3 \<and> c \<noteq> 0 \<and>
      gc_ok g3 L' \<and> obj_added t c (mg_gc s) g3"
    then obtain p g1 c g2 g3 L' where 1: "gc_usable_pool os t (descr_of t) (mg_gc s) = Some (p, g1)" "p \<noteq> 0"
      "gc_get_cell t p g1 = Some (c, p, g2)" "gc_set_white (descr_of t) c p g2 = Some g3" "c \<noteq> 0"
      "gc_ok g3 L'" "obj_added t c (mg_gc s) g3" by (elim exE conjE)
    obtain s1 where s1: "nb_reserve A s = Some s1" using grow by blast
    obtain T m st sz where T: "mg_threads s (mg_self s) = Some T" "nb_room s ths T m st sz"
      "s1 = s\<lparr>mg_mem := m, mg_threads := (mg_threads s)(mg_self s \<mapsto> T\<lparr>nb_stack := st, nb_size := sz\<rparr>)\<rparr>"
      using nb_reserve_ok [OF A ths s1 small] by (elim exE conjE)
    let ?T = "T\<lparr>nb_stack := st, nb_size := sz, nb_top := nb_top T + 1\<rparr>"
    obtain m' where push: "nb_push c s1 = Some (ucast (nb_top T), s\<lparr>mg_mem := m', mg_threads := (mg_threads s)(mg_self s \<mapsto> ?T)\<rparr>)"
      "nb_words m' ?T = nb_words (mg_mem s) T @ [c OR 1]" "nb_ok m' ?T"
      "\<forall>th \<in> set ths - {mg_self s}. \<exists>U. mg_threads s th = Some U \<and> nb_ok m' U \<and>
         nb_words m' U = nb_words (mg_mem s) U \<and> (nb_size U \<noteq> 0 \<longrightarrow> nb_stack U \<noteq> st)"
      using nb_push_ok [OF ths T(1,2), of c] unfolding T(3) by blast
    let ?s = "s\<lparr>mg_mem := m', mg_threads := (mg_threads s)(mg_self s \<mapsto> ?T), mg_gc := g3\<rparr>"
    have self: "mg_self s \<in> set ths" "dlist (mg_thread_nodes s) (mg_thread_list s) ths"
      using ths by (simp_all add: threads_ok_def)
    have push_g: "nb_push c (s1\<lparr>mg_gc := g\<rparr>) = Some (ucast (nb_top T),
        s\<lparr>mg_mem := m', mg_threads := (mg_threads s)(mg_self s \<mapsto> ?T), mg_gc := g\<rparr>)" for g
      using push(1) by (simp add: nb_push_gc)
    have run: "gc_new_obj A os t s = Some (c, Some (ucast (nb_top T)), ?s)"
      using descr 1(1-4) s1 push_g [of g2] by (simp add: gc_new_obj_def nb_reserve_gc)
    obtain q P i where q: "gc_pools g3 q = Some P" "i < cells_of g3 (p_type P)" "c = obj_cell g3 (p_type P) q i"
      using obj_added_objs(4) [OF gok 1(6,7)] by (auto simp: is_cell_def)
    have al: "8 dvd unat c" using cell_aligned [OF 1(6) q(1,2)] q(3) by simp
    have thd: "\<exists>U. mg_threads ?s th = Some U \<and> nb_ok m' U" if "th \<in> set ths" for th
      using that push(3,4) by (cases "th = mg_self s") auto
    have words: "nb_words m' (the (mg_threads ?s th)) =
        nb_words (mg_mem s) (the (mg_threads s th)) @ (if th = mg_self s then [c OR 1] else [])" if "th \<in> set ths" for th
    proof (cases "th = mg_self s")
      case False
      then obtain U where "mg_threads s th = Some U" "nb_words m' U = nb_words (mg_mem s) U"
        using push(4) \<open>th \<in> set ths\<close> by blast
      then show ?thesis using False by simp
    qed (use push(2) T(1) in simp)
    have pu: "pushed (c OR GC_NB_FL_NO_PTR) (ucast (nb_top T)) s ?s ths"
      using words T(1) by (simp add: pushed_def nb_words_def)
    have rp: "root_pins ?s ths N = insert (c, GC_MARK_BLACK) (root_pins s ths N)"
      using pushed_pins [OF pu self(1)] nb_pin_new(1) [OF al] by simp
    have "threads_ok ?s ths"
      unfolding threads_ok_def
    proof (intro conjI ballI impI)
      show "\<exists>U. mg_threads ?s th = Some U \<and> nb_ok (mg_mem ?s) U" if "th \<in> set ths" for th using thd [OF that] by simp
      fix th th' assume th: "th \<in> set ths" "th' \<in> set ths" "th \<noteq> th'"
        "nb_size (the (mg_threads ?s th)) \<noteq> 0" "nb_size (the (mg_threads ?s th')) \<noteq> 0"
      consider "th = mg_self s" | "th' = mg_self s" | "th \<noteq> mg_self s" "th' \<noteq> mg_self s" by blast
      then show "nb_stack (the (mg_threads ?s th)) \<noteq> nb_stack (the (mg_threads ?s th'))"
      proof cases
        case 1
        then obtain U where "mg_threads s th' = Some U" "nb_size U \<noteq> 0 \<longrightarrow> nb_stack U \<noteq> st" using push(4) th by blast
        then show ?thesis using 1 th by auto
      next
        case 2
        then obtain U where "mg_threads s th = Some U" "nb_size U \<noteq> 0 \<longrightarrow> nb_stack U \<noteq> st" using push(4) th by blast
        then show ?thesis using 2 th by auto
      next
        case 3
        then obtain U V where "mg_threads s th = Some U" "mg_threads s th' = Some V" using push(4) th by blast
        then show ?thesis using 3 th threads_ok_apart [OF ths th(1-3)] by simp
      qed
    qed (use self in simp_all)
    moreover have "ming_ok env ?s L' ths N"
    proof -
      have "roots_ok env ?s ths N" using roots thd self(2) by (fastforce simp: roots_ok_def nb_ok_def)
      moreover have "is_cell g3 x" if "(x, d) \<in> root_pins ?s ths N" for x d
        using that pins obj_added_objs(4,5) [OF gok 1(6,7)] unfolding rp by blast
      moreover have "at_rest g3"
        using rest obj_added_objs(3) [OF gok 1(6,7)] 1(7) pools_step_static(5,7)
        by (auto simp: at_rest_def obj_added_def bytes_ok_def)
      ultimately show ?thesis using 1(6) by (simp add: ming_ok_def)
    qed
    moreover have "same_process s ?s" using T(1) by (simp add: same_process_def)
    ultimately show ?thesis using run 1(5,7) rp al pu
      by (intro disjI2 exI [of _ c] exI [of _ "ucast (nb_top T)"] exI [of _ ?s] exI [of _ L']) simp
  qed
qed

subsection \<open>Collecting when the other threads are paused\<close>

definition runs_alone :: "ming \<Rightarrow> bool" where
  "runs_alone s \<longleftrightarrow> mg_self s \<noteq> 0 \<and> mg_gc_thread s = 0 \<and> \<not> mg_pause_flag s \<and>
     mg_thread_num s = mg_paused_num s + 1 \<and>
     (\<exists>T. mg_threads s (mg_self s) = Some T \<and> th_flags T AND M_THREAD_FL_PAUSED = 0)"

lemma runs_alone_process: "same_process s s' \<Longrightarrow> runs_alone s \<Longrightarrow> runs_alone s'"
  by (auto simp: same_process_def runs_alone_def)

lemma flag_set_clear: "f AND 1 = 0 \<Longrightarrow> (f OR 1) AND NOT 1 = f" "(f OR 1) AND 1 \<noteq> 0" for f :: u32
proof -
  have "bit ((f OR 1) AND 1) 0" by (simp add: bit_simps)
  then show "(f OR 1) AND 1 \<noteq> 0" by auto
  assume a: "f AND 1 = 0"
  have "\<not> bit f 0"
  proof
    assume "bit f 0"
    then have "bit (f AND 1) 0" by (simp add: bit_simps)
    then show False using a by simp
  qed
  then show "(f OR 1) AND NOT 1 = f" by (auto intro!: bit_word_eqI simp: bit_simps) (metis gr0I)
qed

lemma ming_ok_flags:
  assumes T: "mg_threads s th = Some T"
  shows "ming_ok env (s\<lparr>mg_threads := (mg_threads s)(th \<mapsto> T\<lparr>th_flags := f\<rparr>)\<rparr>) L ths N \<longleftrightarrow> ming_ok env s L ths N"
    "kept_objs (s\<lparr>mg_threads := (mg_threads s)(th \<mapsto> T\<lparr>th_flags := f\<rparr>)\<rparr>) ths N = kept_objs s ths N"
proof -
  let ?s = "s\<lparr>mg_threads := (mg_threads s)(th \<mapsto> T\<lparr>th_flags := f\<rparr>)\<rparr>"
  have stack: "nb_stack_ok (mg_mem s) (T\<lparr>th_flags := f\<rparr>) = nb_stack_ok (mg_mem s) T" by (simp add: nb_stack_ok_def)
  have words: "nb_words (mg_mem s) (T\<lparr>th_flags := f\<rparr>) = nb_words (mg_mem s) T" by (simp add: nb_words_def)
  have w: "nb_words (mg_mem ?s) (the (mg_threads ?s t)) = nb_words (mg_mem s) (the (mg_threads s t))" for t
    using T words by simp
  have pins: "root_pins ?s ths N = root_pins s ths N" unfolding root_pins_def w by simp
  have "(\<exists>U. mg_threads ?s t = Some U \<and> nb_stack_ok (mg_mem s) U) \<longleftrightarrow>
      (\<exists>U. mg_threads s t = Some U \<and> nb_stack_ok (mg_mem s) U)" for t
    using T stack by simp
  then have roots: "roots_ok env ?s ths N = roots_ok env s ths N" by (simp add: roots_ok_def)
  show "ming_ok env ?s L ths N \<longleftrightarrow> ming_ok env s L ths N" by (simp add: ming_ok_def roots pins)
  show "kept_objs ?s ths N = kept_objs s ths N" by (simp add: kept_objs_def pins)
qed

lemma ming_ok_process [simp]:
  "ming_ok env (mg_gc_thread_update f0 s) L ths N = ming_ok env s L ths N"
  "ming_ok env (mg_pause_flag_update f1 s) L ths N = ming_ok env s L ths N"
  "ming_ok env (mg_paused_num_update f2 s) L ths N = ming_ok env s L ths N"
  "kept_objs (mg_gc_thread_update f0 s) ths N = kept_objs s ths N"
  "kept_objs (mg_pause_flag_update f1 s) ths N = kept_objs s ths N"
  "kept_objs (mg_paused_num_update f2 s) ths N = kept_objs s ths N"
  by (simp_all add: ming_ok_def roots_ok_def root_pins_def kept_objs_def)

lemma gc_run_ok:
  assumes ok: "ming_ok env s L ths N" and alone: "runs_alone s"
  shows "\<exists>g L'. gc_collect_objs 0 s = Some (None, s\<lparr>mg_gc := g\<rparr>) \<and> gc_ok g L' \<and> collected s ths N g"
proof -
  obtain T where T: "mg_threads s (mg_self s) = Some T" "th_flags T AND M_THREAD_FL_PAUSED = 0"
    and a: "mg_self s \<noteq> 0" "mg_gc_thread s = 0" "\<not> mg_pause_flag s" "mg_thread_num s = mg_paused_num s + 1"
    using alone by (auto simp: runs_alone_def)
  let ?T = "T\<lparr>th_flags := th_flags T OR 1\<rparr>"
  let ?s = "s\<lparr>mg_threads := (mg_threads s)(mg_self s \<mapsto> ?T), mg_gc_thread := mg_self s,
      mg_pause_flag := True, mg_paused_num := mg_paused_num s + 1\<rparr>"
  have pause: "pause_all_now (s\<lparr>mg_gc_thread := mg_self s\<rparr>) = Some ?s"
    using T a by (simp add: pause_all_now_def pause_self_def m_thread_self_def thread_at_def access set_thread_def)
  have ok1: "ming_ok env ?s L ths N" and kept: "kept_objs ?s ths N = kept_objs s ths N"
    using ok ming_ok_flags [OF T(1), where f = "th_flags T OR 1"] by simp_all
  obtain g L' where g: "gc_do_collect 0 ?s = Some (True, ?s\<lparr>mg_gc := g\<rparr>)" "gc_ok g L'" "collected ?s ths N g"
    using full_collection [OF ok1] by blast
  have "T\<lparr>th_flags := (th_flags T OR 1) AND NOT 1\<rparr> = T" using flag_set_clear(1) [OF T(2)] by (cases T) simp
  then have "(mg_threads s)(mg_self s \<mapsto> T\<lparr>th_flags := (th_flags T OR 1) AND NOT 1\<rparr>) = mg_threads s"
    using T(1) by (simp add: fun_upd_idem)
  then have "do { s2 \<leftarrow> resume_all_now (?s\<lparr>mg_gc := g\<rparr>); Some (s2\<lparr>mg_gc_thread := 0\<rparr>) } = Some (s\<lparr>mg_gc := g\<rparr>)"
    using a flag_set_clear(2) [of "th_flags T"]
    by (cases s) (simp add: resume_all_now_def m_thread_self_def thread_at_def access set_thread_def)
  then have "gc_collect_objs 0 s = Some (None, s\<lparr>mg_gc := g\<rparr>)"
    using a(1,2) pause g(1) by (auto simp: gc_collect_objs_def m_thread_self_def bind_eq_Some_conv)
  moreover have "collected s ths N g" using g(3) kept by (simp add: collected_def)
  ultimately show ?thesis using g(2) by blast
qed

text \<open>Allocation as a whole: the object is there afterwards, also when a collection has run.\<close>

lemma obj_added_type:
  assumes "gc_ok g' L" "obj_added t c g g'"
  shows "obj_type g' c = t"
proof -
  obtain p P i where P: "gc_pools g' p = Some P" "p_type P = t" "i < cells_of g t" "c = obj_cell g t p i"
    and st: "pools_step g g'" using assms(2) by (auto simp: obj_added_def)
  have "c = obj_cell g' t p i" "i < cells_of g' t"
    using P(3,4) pools_step_static(4) [OF st] by (simp_all add: obj_cell_def cells_of_def)
  then show ?thesis using obj_type_cell [OF assms(1) P(1)] P(2) by simp
qed

lemma obj_added_keeps:
  assumes ok: "gc_ok g L" and add: "obj_added t c g g'" and x: "x \<in> gc_objs g GC_MARK_WHITE"
  shows "obj_type g' x = obj_type g x"
proof -
  obtain p P i where P: "gc_pools g p = Some P" "i < cells_of g (p_type P)" "x = obj_cell g (p_type P) p i"
    using x by (auto simp: gc_objs_def)
  then have "page_of x = p" using obj_cell_facts(1) [OF ok] by simp
  then show ?thesis using add P(1) by (fastforce simp: obj_added_def obj_type_def)
qed

text \<open>The objects that are pinned black survive, with their types, whatever happens.\<close>

definition keeps_pinned :: "ming \<Rightarrow> ming \<Rightarrow> addr list \<Rightarrow> addr set \<Rightarrow> bool" where
  "keeps_pinned s s' ths N \<longleftrightarrow> (\<forall>x \<in> gc_objs (mg_gc s) GC_MARK_WHITE. (x, GC_MARK_BLACK) \<in> root_pins s ths N \<longrightarrow>
     x \<in> gc_objs (mg_gc s') GC_MARK_WHITE \<and> obj_type (mg_gc s') x = obj_type (mg_gc s) x)"

lemma collected_keeps:
  assumes "gc_ok g L" "collected s ths N g"
  shows "keeps_pinned s (s\<lparr>mg_gc := g\<rparr>) ths N"
  unfolding keeps_pinned_def
proof (intro ballI impI)
  fix x
  assume "x \<in> gc_objs (mg_gc s) GC_MARK_WHITE" "(x, GC_MARK_BLACK) \<in> root_pins s ths N"
  then have x: "x \<in> gc_objs g GC_MARK_WHITE" using assms(2) by (auto simp: collected_def kept_objs_def blackens_def)
  then have "gc_pools g (page_of x) \<noteq> None" using obj_cell_facts(1) [OF assms(1)] by (auto simp: gc_objs_def)
  then show "x \<in> gc_objs (mg_gc (s\<lparr>mg_gc := g\<rparr>)) GC_MARK_WHITE \<and> obj_type (mg_gc (s\<lparr>mg_gc := g\<rparr>)) x = obj_type (mg_gc s) x"
    using x same_types_obj [of "mg_gc s" g x] assms(2) by (simp add: collected_def)
qed

lemma gc_alloc_obj_ok:
  assumes A: "allocator_ok A" and ok: "ming_ok env s L ths N" and ths: "threads_ok s ths" and alone: "runs_alone s"
    and small: "unat (nb_size (the (mg_threads s (mg_self s)))) < 2 ^ 31" and t: "t \<in> real_types"
    and map: "mapped_pages 4096 0 (gc_vm (mg_gc s)) (gc_mmap os 4096 0 (gc_vm (mg_gc s)))"
    and grow: "nb_reserve A s \<noteq> None"
  shows "gc_alloc_obj A os t s = Some (0, None, s) \<and> fst (gc_mmap os 4096 0 (gc_vm (mg_gc s))) = 0 \<or>
    (\<exists>c oid s' L'. gc_alloc_obj A os t s = Some (c, Some oid, s') \<and> c \<noteq> 0 \<and>
      c \<notin> gc_objs (mg_gc s) GC_MARK_WHITE \<and> c \<in> gc_objs (mg_gc s') GC_MARK_WHITE \<and>
      gc_objs (mg_gc s') GC_MARK_WHITE \<subseteq> insert c (gc_objs (mg_gc s) GC_MARK_WHITE) \<and>
      gc_ok (mg_gc s') L' \<and> at_rest (mg_gc s') \<and> threads_ok s' ths \<and> runs_alone s' \<and>
      root_pins s' ths N = insert (c, GC_MARK_BLACK) (root_pins s ths N) \<and>
      8 dvd unat c \<and> pushed (c OR GC_NB_FL_NO_PTR) oid s s' ths \<and> obj_type (mg_gc s') c = t \<and>
      keeps_pinned s s' ths N)"
  using gc_new_obj_ok [OF A ok ths small t map grow]
proof
  assume "gc_new_obj A os t s = Some (0, None, s) \<and> fst (gc_mmap os 4096 0 (gc_vm (mg_gc s))) = 0"
  then show ?thesis by (simp add: gc_alloc_obj_def)
next
  assume "\<exists>c oid s' L'. gc_new_obj A os t s = Some (c, Some oid, s') \<and> c \<noteq> 0 \<and>
      ming_ok env s' L' ths N \<and> threads_ok s' ths \<and> obj_added t c (mg_gc s) (mg_gc s') \<and>
      root_pins s' ths N = insert (c, GC_MARK_BLACK) (root_pins s ths N) \<and> same_process s s' \<and>
      8 dvd unat c \<and> pushed (c OR GC_NB_FL_NO_PTR) oid s s' ths"
  then obtain c oid s1 L1 where 1: "gc_new_obj A os t s = Some (c, Some oid, s1)" "c \<noteq> 0"
    "ming_ok env s1 L1 ths N" "threads_ok s1 ths" "obj_added t c (mg_gc s) (mg_gc s1)"
    "root_pins s1 ths N = insert (c, GC_MARK_BLACK) (root_pins s ths N)" "same_process s s1"
    "8 dvd unat c" "pushed (c OR GC_NB_FL_NO_PTR) oid s s1 ths" by (elim exE conjE)
  have gok: "gc_ok (mg_gc s) L" "gc_ok (mg_gc s1) L1" and rest: "at_rest (mg_gc s1)"
    using ok 1(3) by (simp_all add: ming_ok_def)
  note objs = obj_added_objs [OF gok 1(5)]
  have ty: "obj_type (mg_gc s1) c = t" by (rule obj_added_type [OF gok(2) 1(5)])
  have alone1: "runs_alone s1" by (rule runs_alone_process [OF 1(7) alone])
  have keep1: "keeps_pinned s s1 ths N"
    using obj_added_keeps [OF gok(1) 1(5)] objs(1) by (simp add: keeps_pinned_def)
  show ?thesis
  proof (cases "need_collect (mg_gc s1)")
    case False
    then have "gc_alloc_obj A os t s = Some (c, Some oid, s1)" using 1(1) by (simp add: gc_alloc_obj_def)
    then show ?thesis using 1(2,4,6,8,9) objs(1,2) gok(2) rest alone1 ty keep1
      by (intro disjI2 exI [of _ c] exI [of _ oid] exI [of _ s1] exI [of _ L1]) simp
  next
    case True
    obtain g L' where g: "gc_collect_objs 0 s1 = Some (None, s1\<lparr>mg_gc := g\<rparr>)" "gc_ok g L'" "collected s1 ths N g"
      using gc_run_ok [OF 1(3) alone1] by blast
    have run: "gc_alloc_obj A os t s = Some (c, Some oid, s1\<lparr>mg_gc := g\<rparr>)"
      using 1(1,2) True g(1) by (simp add: gc_alloc_obj_def)
    have white: "gc_objs g GC_MARK_WHITE = kept_objs s1 ths N" "at_rest g" using g(3) by (simp_all add: collected_def)
    have "c \<in> kept_objs s1 ths N" using objs(1) 1(6) by (auto simp: kept_objs_def blackens_def)
    moreover have "kept_objs s1 ths N \<subseteq> insert c (gc_objs (mg_gc s) GC_MARK_WHITE)"
      using objs(1) by (auto simp: kept_objs_def)
    moreover have "threads_ok (s1\<lparr>mg_gc := g\<rparr>) ths" "runs_alone (s1\<lparr>mg_gc := g\<rparr>)"
      "root_pins (s1\<lparr>mg_gc := g\<rparr>) ths N = root_pins s1 ths N"
      "pushed (c OR GC_NB_FL_NO_PTR) oid s (s1\<lparr>mg_gc := g\<rparr>) ths"
      using 1(4,9) alone1 by (simp_all add: threads_ok_def runs_alone_def root_pins_def pushed_def)
    moreover have "obj_type g c = t"
    proof -
      have "c \<in> gc_objs g GC_MARK_WHITE" using white(1) \<open>c \<in> kept_objs s1 ths N\<close> by simp
      then have "gc_pools g (page_of c) \<noteq> None" using obj_cell_facts(1) [OF g(2)] by (auto simp: gc_objs_def)
      then show ?thesis using same_types_obj [of "mg_gc s1" g c] g(3) ty by (simp add: collected_def)
    qed
    moreover have "keeps_pinned s (s1\<lparr>mg_gc := g\<rparr>) ths N"
      using keep1 collected_keeps [OF g(2,3)] 1(6) by (simp add: keeps_pinned_def)
    ultimately show ?thesis using run white 1(2,6,8) objs(2) g(2)
      by (intro disjI2 exI [of _ c] exI [of _ oid] exI [of _ "s1\<lparr>mg_gc := g\<rparr>"] exI [of _ L']) simp
  qed
qed

text \<open>\<open>m_gc_add_obj\<close> for the word on top clears its flags.\<close>

lemma add_obj_pushed:
  assumes ok: "threads_ok s' ths" and pu: "pushed w oid s s' ths"
  shows "\<exists>m. m_gc_add_obj oid s' = Some (s'\<lparr>mg_mem := m\<rparr>) \<and> threads_ok (s'\<lparr>mg_mem := m\<rparr>) ths \<and>
    pushed (w AND NOT 3) oid s (s'\<lparr>mg_mem := m\<rparr>) ths"
proof -
  define ws where "ws = nb_words (mg_mem s) (the (mg_threads s (mg_self s)))"
  have self: "mg_self s' \<in> set ths" "mg_self s' \<noteq> 0" "mg_self s' = mg_self s"
    using ok pu by (auto simp: threads_ok_def pushed_def dlist_def)
  obtain T where T: "mg_threads s' (mg_self s') = Some T" "nb_ok (mg_mem s') T"
    using ok self(1) by (auto simp: threads_ok_def)
  have words: "nb_words (mg_mem s') T = ws @ [w]" using pu self T(1) unfolding pushed_def ws_def by force
  have "length (nb_words (mg_mem s') T) = Suc (length ws)" unfolding words by simp
  then have top: "unat (nb_top T) = Suc (length ws)" by (simp add: nb_words_def)
  let ?k = "length ws"
  have small: "Suc ?k < 2 ^ 32" using unsigned_less [of "nb_top T", where ?'a = nat] top by simp
  have oid: "oid = of_nat ?k" "unat oid = ?k" using pu small by (simp_all add: pushed_def ws_def unat_of_nat take_bit_eq_mod)
  have lt: "oid < ucast (nb_top T)" using oid(2) top small by (simp add: word_less_nat_alt unsigned_ucast_eq take_bit_eq_mod)
  have nz: "nb_size T \<noteq> 0" using T(2) top by (auto simp: nb_ok_def)
  obtain cs where cs: "blocks (mg_mem s') (nb_stack T) = Some cs" "length cs = unat (nb_size T)"
    using T(2) nz by (auto simp: nb_ok_def)
  have kl: "?k < length cs" using T(2) top cs(2) by (simp add: nb_ok_def word_le_nat_alt)
  have "nb_read (mg_mem s') (nb_stack T) ?k \<noteq> None" using T(2) top by (auto simp: nb_ok_def nb_stack_ok_def)
  moreover have "nb_words (mg_mem s') T ! ?k = the (nb_read (mg_mem s') (nb_stack T) ?k)"
    using top unfolding nb_words_def by (subst nth_map) (simp_all del: upt_Suc)
  ultimately have rd: "nb_read (mg_mem s') (nb_stack T) ?k = Some w" unfolding words by auto
  let ?m = "(mg_mem s')\<lparr>blocks := (blocks (mg_mem s'))(nb_stack T \<mapsto> cs[?k := Some (w AND NOT 3)])\<rparr>"
  have wr: "nb_write (mg_mem s') (nb_stack T) ?k (w AND NOT 3) = Some ?m" using cs(1) kl by (simp add: nb_write_def)
  note new = nb_read_write [OF wr]
  have run: "m_gc_add_obj oid s' = Some (s'\<lparr>mg_mem := ?m\<rparr>)"
    using self(2) T(1) lt oid(2) rd wr by (simp add: m_gc_add_obj_def m_thread_self_def thread_at_def access)
  have own: "nb_words ?m T = ws @ [w AND NOT 3]"
  proof -
    have "map (\<lambda>k. the (nb_read ?m (nb_stack T) k)) [0..<?k] = map (\<lambda>k. the (nb_read (mg_mem s') (nb_stack T) k)) [0..<?k]"
      unfolding new by simp
    also have "\<dots> = ws" using words top by (simp add: nb_words_def)
    finally show ?thesis using top unfolding nb_words_def new by simp
  qed
  have own_ok: "nb_ok ?m T"
    using T(2) cs unfolding nb_ok_def nb_stack_ok_def new by simp
  have other: "\<exists>U. mg_threads s' th = Some U \<and> nb_ok ?m U \<and> nb_words ?m U = nb_words (mg_mem s') U"
    if th: "th \<in> set ths" "th \<noteq> mg_self s'" for th
  proof -
    obtain U where U: "mg_threads s' th = Some U" "nb_ok (mg_mem s') U" using ok th by (auto simp: threads_ok_def)
    have far: "nb_size U \<noteq> 0 \<Longrightarrow> nb_stack U \<noteq> nb_stack T"
      using threads_ok_apart [OF ok th(1) self(1) th(2) U(1) T(1)] nz by simp
    then have same: "nb_size U \<noteq> 0 \<Longrightarrow> \<forall>k. nb_read ?m (nb_stack U) k = nb_read (mg_mem s') (nb_stack U) k"
      unfolding new by simp
    have "nb_ok ?m U" using U(2) nb_words_same [OF U(2) same] far by (auto simp: nb_ok_def split: if_splits)
    then show ?thesis using U(1) nb_words_same [OF U(2) same] by blast
  qed
  have "\<exists>U. mg_threads s' th = Some U \<and> nb_ok ?m U" if "th \<in> set ths" for th
    using that other own_ok T(1) by (cases "th = mg_self s'") auto
  then have "threads_ok (s'\<lparr>mg_mem := ?m\<rparr>) ths" using ok by (simp add: threads_ok_def)
  moreover have "pushed (w AND NOT 3) oid s (s'\<lparr>mg_mem := ?m\<rparr>) ths"
    unfolding pushed_def
  proof (intro conjI ballI)
    fix th assume th: "th \<in> set ths"
    show "nb_words (mg_mem (s'\<lparr>mg_mem := ?m\<rparr>)) (the (mg_threads (s'\<lparr>mg_mem := ?m\<rparr>) th)) =
        nb_words (mg_mem s) (the (mg_threads s th)) @ (if th = mg_self s then [w AND NOT 3] else [])"
    proof (cases "th = mg_self s'")
      case True
      then show ?thesis using own T(1) self(3) by (simp add: ws_def)
    next
      case False
      then obtain U where "mg_threads s' th = Some U" "nb_words ?m U = nb_words (mg_mem s') U" using other [OF th] by blast
      moreover have "nb_words (mg_mem s') (the (mg_threads s' th)) = nb_words (mg_mem s) (the (mg_threads s th))"
        using pu th False self(3) by (auto simp: pushed_def)
      ultimately show ?thesis using False self(3) by simp
    qed
  qed (use pu in \<open>simp_all add: pushed_def\<close>)
  ultimately show ?thesis using run by blast
qed

end
