(* ===== verification/GC_Start.thy ===== *)
theory GC_Start
  imports GC_Alloc_Obj
begin

text \<open>
  Startup and shutdown of the object manager (\<open>gc_obj_startup\<close>, \<open>gc_obj_shutdown\<close>) and of
  the collector (\<open>src/m_gc.c\<close>). The three environment variables are given by the values that
  \<open>strtol\<close> returns for them, \<open>None\<close> when a variable is not set.
\<close>

subsection \<open>Operations\<close>

record gc_env =
  env_begin_size :: "int option"
  env_cell_pool_size :: "int option"
  env_gray_stack_size :: "int option"

definition LONG_MAX :: int where "LONG_MAX = 2 ^ 63 - 1"

abbreviation (input) M_GC_BEGIN_SIZE :: u64 where "M_GC_BEGIN_SIZE \<equiv> 128 * 1024"
abbreviation (input) M_GC_GRAY_STACK_SIZE :: u64 where "M_GC_GRAY_STACK_SIZE \<equiv> 256"

text \<open>A value that is taken when it is positive and not the result of an overflow.\<close>

definition env_size :: "u64 \<Rightarrow> int option \<Rightarrow> u64" where
  "env_size dflt val = (case val of None \<Rightarrow> dflt
     | Some n \<Rightarrow> if n \<noteq> LONG_MAX \<and> 0 < n then word_of_int n else dflt)"

text \<open>The loop that looks for a power of two that is not below \<open>n\<close>.\<close>

partial_function (option) pow2_loop :: "u64 \<Rightarrow> u64 \<Rightarrow> u64 option" where
  "pow2_loop n v =
     (if n \<le> v then Some v
      else let v' = push_bit 1 v in if v' \<noteq> 0 then pow2_loop n v' else Some v')"

text \<open>The pool size: \<open>n > gc_cell_pool_size\<close> compares a \<open>long\<close> with a \<open>size_t\<close>, that
  is, as unsigned numbers.\<close>

definition env_pool_size :: "int option \<Rightarrow> u64 option" where
  "env_pool_size val = (case val of None \<Rightarrow> Some M_PAGE_SIZE
     | Some n \<Rightarrow> if n \<noteq> LONG_MAX \<and> word_of_int n > M_PAGE_SIZE then do {
           v \<leftarrow> pow2_loop (word_of_int n) 1;
           Some (if word_of_int n \<noteq> v then M_PAGE_SIZE else word_of_int n) }
         else Some M_PAGE_SIZE)"

fun init_stubs :: "M_GCObjType list \<Rightarrow> GC \<Rightarrow> GC option" where
  "init_stubs [] g = Some g"
| "init_stubs (t # ts) g = do {
     descr \<leftarrow> gc_obj_descrs t;
     h1 \<leftarrow> m_slist_init (usable_pools g t) (gc_cells g);
     h2 \<leftarrow> m_slist_init (full_pools g t) h1;
     st \<leftarrow> pool_layout (gc_cell_pool_size g) descr;
     init_stubs ts (g\<lparr>gc_cells := h2, gc_obj_stubs := (gc_obj_stubs g)(t := st)\<rparr>) }"

definition gc_obj_startup :: "allocator \<Rightarrow> gc_env \<Rightarrow> ming \<Rightarrow> ming option" where
  "gc_obj_startup A e s = do {
     psize \<leftarrow> env_pool_size (env_cell_pool_size e);
     (let gsize = env_size M_GC_GRAY_STACK_SIZE (env_gray_stack_size e) in do {
        b \<leftarrow> M_NEW A 8 gsize (mg_mem s);
        m_assert_alloc (fst b);
        g \<leftarrow> init_stubs obj_types ((mg_gc s)\<lparr>gc_status := GC_STATUS_IDLE,
          gc_begin_size := env_size M_GC_BEGIN_SIZE (env_begin_size e),
          gc_cell_pool_size := psize, gc_cell_pool_mask := NOT (psize - 1),
          gc_gray_stack := [], gc_gray_limit := gsize\<rparr>);
        Some (s\<lparr>mg_gc := g, mg_mem := snd b, mg_gc_thread := 0, mg_gray_buf := fst b\<rparr>) }) }"

definition gc_obj_shutdown :: "ming \<Rightarrow> ming option" where
  "gc_obj_shutdown s = do {
     r \<leftarrow> gc_do_collect M_GC_COLLECT_FL_CLEAR s;
     m \<leftarrow> m_free (mg_gray_buf (snd r)) (mg_mem (snd r));
     Some ((snd r)\<lparr>mg_mem := m\<rparr>) }"

definition m_gc_startup :: "allocator \<Rightarrow> gc_env \<Rightarrow> ming \<Rightarrow> ming option" where
  "m_gc_startup A e s = do {
     s1 \<leftarrow> gc_obj_startup A e
       (s\<lparr>mg_gc := (mg_gc s)\<lparr>gc_allocated_size := 0, gc_last_allocated_size := 0\<rparr>\<rparr>);
     Some (s1\<lparr>mg_roots := gc_root_hash_startup (mg_roots s1)\<rparr>) }"

definition m_gc_shutdown :: "root_env \<Rightarrow> ming \<Rightarrow> ming option" where
  "m_gc_shutdown env s = do {
     s1 \<leftarrow> gc_obj_shutdown s;
     r \<leftarrow> gc_root_hash_shutdown env (mg_roots s1);
     Some (s1\<lparr>mg_roots := r\<rparr>) }"

subsection \<open>The size of a pool\<close>

lemma push_bit_pow2: "k < 63 \<Longrightarrow> push_bit 1 (2 ^ k :: u64) = 2 ^ Suc k"
  by (simp add: push_bit_eq_mult)

lemma unat_pow2: "k < 64 \<Longrightarrow> unat (2 ^ k :: u64) = 2 ^ k"
proof -
  assume k: "k < 64"
  then have lt: "(2 :: nat) ^ k < 2 ^ 64" by (rule power_strict_increasing) simp
  have "(2 ^ k :: u64) = of_nat (2 ^ k)" by simp
  then show "unat (2 ^ k :: u64) = 2 ^ k"
    using k lt unat_of_nat [where 'a = 64, of "2 ^ k"] by (simp add: take_bit_eq_mod)
qed

text \<open>The loop ends, at the least power of two that is not below \<open>n\<close>, or at 0 when there is
  none.\<close>

lemma pow2_loop_least:
  "k < 64 \<Longrightarrow> (\<And>j. j < k \<Longrightarrow> 2 ^ j < unat n) \<Longrightarrow>
    \<exists>v. pow2_loop n (2 ^ k) = Some v \<and>
      (if unat n \<le> 2 ^ 63 then \<exists>m < 64. v = 2 ^ m \<and> unat n \<le> 2 ^ m \<and> (\<forall>j < m. 2 ^ j < unat n) else v = 0)"
proof (induction "63 - k" arbitrary: k)
  case 0
  then have k: "k = 63" by simp
  have u: "n \<le> 2 ^ k \<longleftrightarrow> unat n \<le> 2 ^ 63" using unat_pow2 [of k] k by (simp add: word_le_nat_alt)
  have z: "push_bit 1 (2 ^ k :: u64) = 0" using k by (simp add: push_bit_eq_mult)
  show ?case
  proof (cases "unat n \<le> 2 ^ 63")
    case True
    then show ?thesis using u k "0.prems"(2)
      by (subst pow2_loop.simps) (auto intro!: exI [of _ "63 :: nat"])
  next
    case False
    then show ?thesis using u z by (subst pow2_loop.simps) simp
  qed
next
  case (Suc m)
  then have k: "k < 63" by simp
  have u: "n \<le> 2 ^ k \<longleftrightarrow> unat n \<le> 2 ^ k" using unat_pow2 [of k] k by (simp add: word_le_nat_alt)
  have le: "(2 :: nat) ^ k \<le> 2 ^ 63" using k by (intro power_increasing) simp_all
  show ?case
  proof (cases "unat n \<le> 2 ^ k")
    case True
    then have "unat n \<le> 2 ^ 63" using le by linarith
    then show ?thesis using True u k Suc.prems(2)
      by (subst pow2_loop.simps) (auto intro!: exI [of _ k])
  next
    case False
    have "2 ^ j < unat n" if "j < Suc k" for j
      using that Suc.prems(2) [of j] False by (cases "j = k") auto
    moreover have "m = 63 - Suc k" "Suc k < 64" using Suc.hyps(2) k by simp_all
    moreover have nz: "push_bit 1 (2 ^ k :: u64) \<noteq> 0"
    proof -
      have "unat (2 ^ Suc k :: u64) \<noteq> 0" using unat_pow2 [of "Suc k"] k by simp
      then show ?thesis unfolding push_bit_pow2 [OF k] by auto
    qed
    ultimately obtain v where v: "pow2_loop n (push_bit 1 (2 ^ k)) = Some v"
      "if unat n \<le> 2 ^ 63 then \<exists>m < 64. v = 2 ^ m \<and> unat n \<le> 2 ^ m \<and> (\<forall>j < m. 2 ^ j < unat n) else v = 0"
      using Suc.hyps(1) [of "Suc k"] unfolding push_bit_pow2 [OF k] by blast
    have "pow2_loop n (2 ^ k) = pow2_loop n (push_bit 1 (2 ^ k))"
      using False u nz by (subst pow2_loop.simps) (simp only: Let_def if_False if_True not_False_eq_True)
    then show ?thesis using v by (intro exI [of _ v]) simp
  qed
qed

lemma pow2_loop_result:
  "\<exists>v. pow2_loop n 1 = Some v \<and> (n = v \<and> n \<noteq> 0 \<longleftrightarrow> (\<exists>m < 64. n = 2 ^ m))"
proof -
  obtain v where v: "pow2_loop n (2 ^ 0) = Some v"
    "if unat n \<le> 2 ^ 63 then \<exists>m < 64. v = 2 ^ m \<and> unat n \<le> 2 ^ m \<and> (\<forall>j < m. 2 ^ j < unat n) else v = 0"
    using pow2_loop_least [of 0 n] by auto
  have "n = v" if m: "m < 64" "n = 2 ^ m" for m
  proof -
    have un: "unat n = 2 ^ m" using unat_pow2 m by simp
    then have "unat n \<le> 2 ^ 63" using power_increasing [of m 63 "2 :: nat"] m(1) by simp
    then obtain m' where m': "m' < 64" "v = 2 ^ m'" "unat n \<le> 2 ^ m'" "\<forall>j < m'. 2 ^ j < unat n" using v(2) by auto
    have "m \<le> m'" using m'(3) un by simp
    moreover have "\<not> m < m'" using m'(4) un by auto
    ultimately show ?thesis using m(2) m'(2) by simp
  qed
  moreover have "\<exists>m < 64. n = 2 ^ m" if "n = v" "n \<noteq> 0" using that v(2) by (auto split: if_splits)
  moreover have "n \<noteq> 0" if "m < 64" "n = 2 ^ m" for m
    using that unat_pow2 [of m] by (metis power_not_zero unat_0 zero_neq_numeral)
  ultimately show ?thesis using v(1) by auto
qed

lemma env_pool_size_result:
  "env_pool_size val = Some (case val of None \<Rightarrow> 4096
     | Some n \<Rightarrow> if n \<noteq> LONG_MAX \<and> 4096 < (word_of_int n :: u64) \<and> (\<exists>m < 64. word_of_int n = (2 ^ m :: u64))
                then word_of_int n else 4096)"
proof (cases val)
  case (Some n)
  obtain v where v: "pow2_loop (word_of_int n) 1 = Some v"
    "word_of_int n = v \<and> (word_of_int n :: u64) \<noteq> 0 \<longleftrightarrow> (\<exists>m < 64. (word_of_int n :: u64) = 2 ^ m)"
    using pow2_loop_result by blast
  have "4096 < (word_of_int n :: u64) \<Longrightarrow> (word_of_int n :: u64) \<noteq> 0" by auto
  then show ?thesis using Some v by (auto simp: env_pool_size_def M_PAGE_SIZE_def)
qed (simp add: env_pool_size_def M_PAGE_SIZE_def)

subsection \<open>The state after startup\<close>

text \<open>The layouts of pools of one page: the first number of cells that is tried fits.\<close>

fun page_layout :: "M_GCObjType \<Rightarrow> M_GCPoolStub" where
  "page_layout M_GC_OBJ_STRING = \<lparr>cell_num = 249, bitmap_size = 64\<rparr>"
| "page_layout M_GC_OBJ_OBJECT = \<lparr>cell_num = 100, bitmap_size = 32\<rparr>"
| "page_layout M_GC_OBJ_CLOSURE = \<lparr>cell_num = 167, bitmap_size = 48\<rparr>"
| "page_layout M_GC_OBJ_FRAME = \<lparr>cell_num = 167, bitmap_size = 48\<rparr>"
| "page_layout M_GC_OBJ_ARRAY = \<lparr>cell_num = 16224, bitmap_size = 4056\<rparr>"
| "page_layout _ = \<lparr>cell_num = 491, bitmap_size = 128\<rparr>"

lemma align_up_values:
  "M_ALIGN_UP (982 :: u64) 64 = 1024" "M_ALIGN_UP (498 :: u64) 64 = 512" "M_ALIGN_UP (200 :: u64) 64 = 256"
  "M_ALIGN_UP (334 :: u64) 64 = 384" "M_ALIGN_UP (32448 :: u64) 64 = 32448"
  by (simp_all add: M_ALIGN_UP_def)

lemma fit_cells_now:
  assumes "num * dsize + M_ALIGN_UP (num * 2) 64 div 8 \<le> sz"
  shows "fit_cells dsize sz num = Some \<lparr>cell_num = num, bitmap_size = M_ALIGN_UP (num * 2) 64 div 8\<rparr>"
  using assms by (subst fit_cells.simps) simp

lemma page_layouts: "t \<in> set obj_types \<Longrightarrow> pool_layout 4096 (descr_of t) = Some (page_layout t)"
  by (auto simp: obj_types_def descr_of_def pool_layout_def sizeof_cell_pool_def Let_def
      fit_cells_now align_up_values)

lemma page_layout_ok: "t \<in> real_types \<Longrightarrow> layout_ok (page_layout t) (descr_of t)"
  by (auto simp: real_types_def obj_types_def descr_of_def layout_ok_def)

definition heads_of :: "GC \<Rightarrow> M_GCObjType list \<Rightarrow> addr set" where
  "heads_of g ts = usable_pools g ` set ts \<union> full_pools g ` set ts"

lemma init_stubs_run:
  "gc_cell_pool_size g = 4096 \<Longrightarrow> set ts \<subseteq> set obj_types \<Longrightarrow>
    (\<And>a. a \<in> heads_of g ts \<Longrightarrow> a \<noteq> 0 \<and> gc_cells g a \<noteq> None) \<Longrightarrow>
    init_stubs ts g = Some (g\<lparr>gc_cells := (\<lambda>a. if a \<in> heads_of g ts then Some \<lparr>s_next = 0\<rparr> else gc_cells g a),
      gc_obj_stubs := (\<lambda>t. if t \<in> set ts then page_layout t else gc_obj_stubs g t)\<rparr>)"
proof (induction ts arbitrary: g)
  case Nil
  then show ?case by (cases g) (simp add: heads_of_def)
next
  case (Cons t ts)
  let ?u = "usable_pools g t" and ?f = "full_pools g t"
  have u: "?u \<noteq> 0" "\<exists>v. gc_cells g ?u = Some v" and f: "?f \<noteq> 0" "\<exists>v. gc_cells g ?f = Some v"
    using Cons.prems(3) [of ?u] Cons.prems(3) [of ?f] by (auto simp: heads_of_def)
  let ?h1 = "(gc_cells g)(?u \<mapsto> \<lparr>s_next = 0\<rparr>)"
  let ?h2 = "?h1(?f \<mapsto> \<lparr>s_next = 0\<rparr>)"
  obtain v where "?h1 ?f = Some v" using f(2) by fastforce
  then have h: "m_slist_init ?u (gc_cells g) = Some ?h1" "m_slist_init ?f ?h1 = Some ?h2"
    using u f(1) by (auto simp: m_slist_init_def wr_mapped)
  have d: "gc_obj_descrs t = Some (descr_of t)" "pool_layout 4096 (descr_of t) = Some (page_layout t)"
    using types_descr [of t] page_layouts [of t] Cons.prems(2)
    by (auto simp: gc_obj_get_descr_def bind_eq_Some_conv)
  let ?g = "g\<lparr>gc_cells := ?h2, gc_obj_stubs := (gc_obj_stubs g)(t := page_layout t)\<rparr>"
  have heads: "heads_of ?g ts = heads_of g ts" by (simp add: heads_of_def usable_pools_def full_pools_def)
  have "init_stubs ts ?g = Some (?g\<lparr>gc_cells := (\<lambda>a. if a \<in> heads_of ?g ts then Some \<lparr>s_next = 0\<rparr> else gc_cells ?g a),
      gc_obj_stubs := (\<lambda>t. if t \<in> set ts then page_layout t else gc_obj_stubs ?g t)\<rparr>)"
  proof (rule Cons.IH)
    show "gc_cell_pool_size ?g = 4096" "set ts \<subseteq> set obj_types" using Cons.prems(1,2) by simp_all
    show "a \<noteq> 0 \<and> gc_cells ?g a \<noteq> None" if "a \<in> heads_of ?g ts" for a
      using that Cons.prems(3) [of a] unfolding heads by (auto simp: heads_of_def)
  qed
  moreover have "init_stubs (t # ts) g = init_stubs ts ?g" using d h Cons.prems(1) by simp
  moreover have "(\<lambda>a. if a \<in> heads_of ?g ts then Some \<lparr>s_next = 0\<rparr> else gc_cells ?g a) =
      (\<lambda>a. if a \<in> heads_of g (t # ts) then Some \<lparr>s_next = 0\<rparr> else gc_cells g a)"
    unfolding heads by (auto simp: heads_of_def fun_eq_iff)
  moreover have "(\<lambda>t'. if t' \<in> set ts then page_layout t' else gc_obj_stubs ?g t') =
      (\<lambda>t'. if t' \<in> set (t # ts) then page_layout t' else gc_obj_stubs g t')"
    by (auto simp: fun_eq_iff)
  ultimately show ?case by simp
qed

text \<open>The static memory before startup: the array of stubs is mapped and there are no pools.\<close>

definition static_memory :: "GC \<Rightarrow> bool" where
  "static_memory g \<longleftrightarrow> (\<forall>p. gc_pools g p = None) \<and>
     unat (gc_stub_base g) + 256 < 2 ^ 64 \<and> 0 < unat (gc_stub_base g) \<and>
     (\<forall>x. gc_cells g x \<noteq> None \<longrightarrow> gc_vm g x \<noteq> None) \<and>
     (\<forall>a \<in> heads_of g obj_types. gc_cells g a \<noteq> None)"

definition empty_lists :: "GC \<Rightarrow> addr \<rightharpoonup> addr list" where
  "empty_lists g = (\<lambda>a. if a \<in> stub_heads g then Some [] else None)"

lemma heads_of_all: "heads_of g obj_types = stub_heads g"
  by (simp add: heads_of_def stub_heads_def)

lemma stub_head_nonnull: "config_ok g \<Longrightarrow> a \<in> stub_heads g \<Longrightarrow> a \<noteq> 0"
  using heads_distinct(5,6) [of g] by (auto simp: stub_heads_def)

lemma empty_state_ok:
  assumes cfg: "config_ok g" and none: "\<And>p. gc_pools g p = None"
    and vm: "\<And>x. gc_cells g x \<noteq> None \<Longrightarrow> gc_vm g x \<noteq> None"
    and heads: "\<And>a. a \<in> stub_heads g \<Longrightarrow> gc_cells g a = Some \<lparr>s_next = 0\<rparr>"
  shows "gc_ok g (empty_lists g)"
proof -
  note nz = stub_head_nonnull [OF cfg]
  have fam: "family (gc_cells g) (empty_lists g)"
    using nz heads by (auto simp: family_def empty_lists_def slist_def split: if_splits)
  have "lists_ok {} g (empty_lists g)"
    unfolding lists_ok_def
  proof (intro conjI ballI fam)
    show "dom (empty_lists g) = stub_heads g \<union> free_cells ` dom (gc_pools g)"
      using none by (auto simp: empty_lists_def dom_def split: if_splits)
    fix t assume t: "t \<in> set obj_types"
    then show "\<exists>us fs. empty_lists g (usable_pools g t) = Some us \<and> empty_lists g (full_pools g t) = Some fs \<and>
        set us \<union> set fs \<subseteq> pools_of g t \<and> pools_of g t - {} \<subseteq> set us \<union> set fs \<and>
        (\<forall>p \<in> set us - {}. empty_lists g (free_cells p) \<noteq> Some []) \<and>
        (\<forall>p \<in> set fs - {}. empty_lists g (free_cells p) = Some [])"
      using stub_heads_iff [OF t, of g] none by (intro exI [of _ "[]"]) (simp add: empty_lists_def pools_of_def)
  qed
  moreover have "memory_ok g" using vm heads none by (auto simp: memory_ok_def)
  ultimately show ?thesis using cfg none by (simp add: gc_inv_def)
qed

lemma init_state_ok:
  assumes st: "static_memory g" and size: "gc_cell_pool_size g = 4096" "gc_cell_pool_mask g = NOT (4096 - 1)"
  shows "\<exists>h st. init_stubs obj_types g = Some (g\<lparr>gc_cells := h, gc_obj_stubs := st\<rparr>) \<and>
    gc_ok (g\<lparr>gc_cells := h, gc_obj_stubs := st\<rparr>) (empty_lists g)"
proof -
  let ?h = "\<lambda>a. if a \<in> heads_of g obj_types then Some \<lparr>s_next = 0\<rparr> else gc_cells g a"
    and ?st = "\<lambda>t. if t \<in> set obj_types then page_layout t else gc_obj_stubs g t"
  let ?g = "g\<lparr>gc_cells := ?h, gc_obj_stubs := ?st\<rparr>"
  have stubs: "stub_heads ?g = heads_of g obj_types" "stub_heads g = heads_of g obj_types"
    by (simp_all add: heads_of_def stub_heads_def usable_pools_def full_pools_def)
  have none: "gc_pools ?g p = None" for p using st by (simp add: static_memory_def)
  have cfg: "config_ok ?g"
    using st size page_layout_ok real_type(1) by (auto simp: config_ok_def static_memory_def)
  have nz: "a \<noteq> 0" if "a \<in> heads_of g obj_types" for a
  proof -
    have "a \<in> stub_heads ?g" by (subst stubs(1)) (rule that)
    with cfg show ?thesis by (rule stub_head_nonnull)
  qed
  have run: "init_stubs obj_types g = Some ?g"
  proof (rule init_stubs_run [OF size(1) subset_refl])
    show "a \<noteq> 0 \<and> gc_cells g a \<noteq> None" if "a \<in> heads_of g obj_types" for a
      using that nz [of a] st by (simp add: static_memory_def)
  qed
  have "gc_ok ?g (empty_lists ?g)"
  proof (rule empty_state_ok [OF cfg none])
    show "gc_vm ?g x \<noteq> None" if "gc_cells ?g x \<noteq> None" for x
      using that st unfolding static_memory_def by (auto split: if_splits)
    show "gc_cells ?g a = Some \<lparr>s_next = 0\<rparr>" if "a \<in> stub_heads ?g" for a
      using that unfolding stubs by simp
  qed
  moreover have "empty_lists ?g = empty_lists g" using stubs by (simp only: empty_lists_def)
  ultimately show ?thesis using run by (intro exI [of _ ?h] exI [of _ ?st]) simp
qed

lemma gc_startup_ok:
  assumes st: "static_memory (mg_gc s)" and size: "env_pool_size (env_cell_pool_size e) = Some 4096"
    and buf: "M_NEW A 8 (env_size M_GC_GRAY_STACK_SIZE (env_gray_stack_size e)) (mg_mem s) = Some (b, m)" "b \<noteq> 0"
  shows "\<exists>g L. m_gc_startup A e s = Some (s\<lparr>mg_gc := g, mg_mem := m, mg_gc_thread := 0, mg_gray_buf := b,
      mg_roots := gc_root_hash_startup (mg_roots s)\<rparr>) \<and> gc_ok g L \<and> at_rest g \<and> (\<forall>p. gc_pools g p = None) \<and>
    gc_vm g = gc_vm (mg_gc s) \<and> gc_begin_size g = env_size M_GC_BEGIN_SIZE (env_begin_size e)"
proof -
  let ?gsize = "env_size M_GC_GRAY_STACK_SIZE (env_gray_stack_size e)"
    and ?bsize = "env_size M_GC_BEGIN_SIZE (env_begin_size e)"
  define g0 where "g0 = (mg_gc s)\<lparr>gc_allocated_size := 0, gc_last_allocated_size := 0, gc_status := GC_STATUS_IDLE,
      gc_begin_size := ?bsize, gc_cell_pool_size := 4096, gc_cell_pool_mask := NOT (4096 - 1),
      gc_gray_stack := [], gc_gray_limit := ?gsize\<rparr>"
  have "static_memory g0"
    using st by (simp add: g0_def static_memory_def heads_of_def usable_pools_def full_pools_def)
  then obtain h sts where i: "init_stubs obj_types g0 = Some (g0\<lparr>gc_cells := h, gc_obj_stubs := sts\<rparr>)"
    "gc_ok (g0\<lparr>gc_cells := h, gc_obj_stubs := sts\<rparr>) (empty_lists g0)"
    using init_state_ok [of g0] by (auto simp: g0_def)
  have run: "m_gc_startup A e s = Some (s\<lparr>mg_gc := g0\<lparr>gc_cells := h, gc_obj_stubs := sts\<rparr>, mg_mem := m,
      mg_gc_thread := 0, mg_gray_buf := b, mg_roots := gc_root_hash_startup (mg_roots s)\<rparr>)"
    using size buf i(1) unfolding g0_def
    by (simp add: m_gc_startup_def gc_obj_startup_def m_assert_alloc_def Let_def)
  have none: "\<forall>p. gc_pools g0 p = None" using st by (simp add: g0_def static_memory_def)
  have f: "gc_status g0 = GC_STATUS_IDLE" "gc_gray_stack g0 = []" "gc_allocated_size g0 = 0"
    "gc_vm g0 = gc_vm (mg_gc s)" "gc_begin_size g0 = ?bsize" by (simp_all add: g0_def)
  have "at_rest (g0\<lparr>gc_cells := h, gc_obj_stubs := sts\<rparr>)"
    using none f by (simp add: at_rest_def gc_objs_def bytes_ok_def objs_size_def pool_bytes_def)
  then show ?thesis using run i(2) none f
    by (intro exI [of _ "g0\<lparr>gc_cells := h, gc_obj_stubs := sts\<rparr>"] exI [of _ "empty_lists g0"]) simp
qed

text \<open>Shutdown: no pool is left, the gray stack is released.\<close>

lemma gc_shutdown_ok:
  assumes ok: "gc_ok (mg_gc s) L" "at_rest (mg_gc s)" and roots: "root_rep env (mg_roots s) N"
    and buf: "mg_gray_buf s = 0 \<or> blocks (mg_mem s) (mg_gray_buf s) \<noteq> None"
  shows "\<exists>s'. m_gc_shutdown env s = Some s' \<and> (\<forall>p. gc_pools (mg_gc s') p = None) \<and>
    gc_allocated_size (mg_gc s') = 0 \<and> gc_status (mg_gc s') = GC_STATUS_IDLE \<and>
    (mg_gray_buf s \<noteq> 0 \<longrightarrow> blocks (mg_mem s') (mg_gray_buf s) = None) \<and>
    (\<forall>a \<in> N. root_links (mg_roots s') a = None \<and> root_nodes (mg_roots s') a = None)"
proof -
  obtain g L' where g: "gc_do_collect M_GC_COLLECT_FL_CLEAR s = Some (True, s\<lparr>mg_gc := g\<rparr>)" "at_rest g"
    "\<forall>p. gc_pools g p = None" "gc_allocated_size g = 0" using clear_collection [OF ok] by blast
  obtain m where m: "m_free (mg_gray_buf s) (mg_mem s) = Some m"
    "mg_gray_buf s \<noteq> 0 \<longrightarrow> blocks m (mg_gray_buf s) = None"
    using buf by (cases "mg_gray_buf s = 0") (auto simp: m_free_def)
  obtain r where r: "gc_root_hash_shutdown env (mg_roots s) = Some r"
    "\<forall>a. root_links r a = (if a \<in> N then None else root_links (mg_roots s) a)" "\<forall>a \<in> N. root_nodes r a = None"
    using root_shutdown_rep [OF roots] by blast
  have "m_gc_shutdown env s = Some (s\<lparr>mg_gc := g, mg_mem := m, mg_roots := r\<rparr>)"
    using g(1) m(1) r(1) by (simp add: m_gc_shutdown_def gc_obj_shutdown_def)
  then show ?thesis using g(2-4) m(2) r(2,3) by (simp add: at_rest_def)
qed

end
