(* ===== verification/Startup.thy ===== *)
theory Startup
  imports GC_Start
begin

text \<open>
  Startup and shutdown of the process, \<open>src/m_startup.c\<close>, with the registration of threads of
  \<open>src/m_thread.c\<close> on the whole state: the thread data, its list node and its stack of new borned
  objects are allocated and released here; how threads stop and resume each other is in \<open>Thread\<close>.
  The log has a state of its own (\<open>Log\<close>), and so have the actor threads (\<open>Actor\<close>): without them
  \<open>threads_shutdown\<close> is all that \<open>m_thread_shutdown\<close> does.
\<close>

subsection \<open>Threads\<close>

text \<open>Two links, two pointers and three 32 bit numbers, with padding.\<close>

definition sizeof_M_Thread :: u64 where "sizeof_M_Thread = 48"

abbreviation (input) M_GC_THREAD_FLAGS :: u32 where "M_GC_THREAD_FLAGS \<equiv> 3"

definition register_thread :: "allocator \<Rightarrow> ming \<Rightarrow> ming option" where
  "register_thread A s = do {
     r \<leftarrow> m_gc_alloc_buf A sizeof_M_Thread M_GC_THREAD_FLAGS (mg_mem s);
     m_assert_alloc (fst r);
     (let th = fst r; T = \<lparr>th_actor = 0, nb_stack = 0, nb_size = 0, nb_top = 0, th_flags = 0\<rparr> in do {
        nodes \<leftarrow> m_list_append (mg_thread_list s) th ((mg_thread_nodes s)(th \<mapsto> \<lparr>l_prev = 0, l_next = 0\<rparr>));
        Some (s\<lparr>mg_mem := snd r, mg_threads := (mg_threads s)(th \<mapsto> T), mg_self := th,
          mg_thread_num := mg_thread_num s + 1, mg_thread_nodes := nodes\<rparr>) }) }"

definition release_thread :: "addr \<Rightarrow> ming \<Rightarrow> ming option" where
  "release_thread th s = do {
     T \<leftarrow> thread_at s th;
     nodes \<leftarrow> m_list_remove th (mg_thread_nodes s);
     (let paused = (if th_flags T AND M_THREAD_FL_PAUSED \<noteq> 0 then mg_paused_num s - 1 else mg_paused_num s) in do {
        m \<leftarrow> (if nb_stack T \<noteq> 0
              then m_gc_free_buf (nb_stack T) (ucast (8 * ucast (nb_size T) :: u64)) M_GC_NBSTK_FLAGS (mg_mem s)
              else Some (mg_mem s));
        m' \<leftarrow> m_gc_free_buf th (ucast sizeof_M_Thread) M_GC_THREAD_FLAGS m;
        Some (s\<lparr>mg_mem := m', mg_threads := (mg_threads s)(th := None), mg_thread_nodes := nodes(th := None),
          mg_thread_num := mg_thread_num s - 1, mg_paused_num := paused\<rparr>) }) }"

definition threads_startup :: "allocator \<Rightarrow> ming \<Rightarrow> ming option" where
  "threads_startup A s = do {
     nodes \<leftarrow> m_list_init (mg_thread_list s) (mg_thread_nodes s);
     register_thread A (s\<lparr>mg_thread_num := 0, mg_paused_num := 0, mg_pause_flag := False, mg_thread_nodes := nodes\<rparr>) }"

definition threads_shutdown :: "ming \<Rightarrow> ming option" where
  "threads_shutdown s = do {
     mth \<leftarrow> m_thread_self s;
     s' \<leftarrow> release_thread mth s;
     Some (s'\<lparr>mg_self := 0\<rparr>) }"

subsection \<open>The process\<close>

definition process_startup :: "allocator \<Rightarrow> gc_env \<Rightarrow> ming \<Rightarrow> ming option" where
  "process_startup A e s = do { s1 \<leftarrow> m_gc_startup A e s; threads_startup A s1 }"

definition process_shutdown :: "root_env \<Rightarrow> ming \<Rightarrow> ming option" where
  "process_shutdown env s = do { s1 \<leftarrow> threads_shutdown s; m_gc_shutdown env s1 }"

text \<open>\<open>pthread_once\<close>: the flag tells whether \<open>startup\<close> has run.\<close>

definition m_startup :: "allocator \<Rightarrow> gc_env \<Rightarrow> bool \<times> ming \<Rightarrow> (bool \<times> ming) option" where
  "m_startup A e p =
     (if fst p then Some p else do { s \<leftarrow> process_startup A e (snd p); Some (True, s) })"

subsection \<open>The state of a running process\<close>

text \<open>Before startup the list head is static memory, which \<open>malloc\<close> does not hand out.\<close>

definition fresh_process :: "ming \<Rightarrow> bool" where
  "fresh_process s \<longleftrightarrow> static_memory (mg_gc s) \<and> mg_thread_list s \<noteq> 0 \<and>
     mg_thread_nodes s (mg_thread_list s) \<noteq> None \<and> blocks (mg_mem s) (mg_thread_list s) \<noteq> None"

lemma malloc_fresh: "allocator_ok A \<Longrightarrow> malloc_at A m sz = 0 \<or> blocks m (malloc_at A m sz) = None"
  by (simp add: allocator_ok_def)

lemma register_first_thread:
  assumes A: "allocator_ok A" and l: "dlist (mg_thread_nodes s) (mg_thread_list s) []"
    and head: "blocks (mg_mem s) (mg_thread_list s) \<noteq> None"
    and th: "malloc_at A (mg_mem s) sizeof_M_Thread = th" "th \<noteq> 0"
  shows "\<exists>m nodes. register_thread A s = Some (s\<lparr>mg_mem := m,
      mg_threads := (mg_threads s)(th \<mapsto> \<lparr>th_actor = 0, nb_stack = 0, nb_size = 0, nb_top = 0, th_flags = 0\<rparr>),
      mg_self := th, mg_thread_num := mg_thread_num s + 1, mg_thread_nodes := nodes\<rparr>) \<and>
    dlist nodes (mg_thread_list s) [th] \<and>
    m = (mg_mem s)\<lparr>blocks := (blocks (mg_mem s))(th \<mapsto> replicate 6 None)\<rparr>"
proof -
  have al: "gc_size_align sizeof_M_Thread = sizeof_M_Thread" "block_words sizeof_M_Thread = 6"
    by (simp_all add: sizeof_M_Thread_def gc_size_align_def M_ALIGN_UP_def block_words_def)
  have "blocks (mg_mem s) th = None" using A th by (metis allocator_ok_def)
  then have ne: "th \<noteq> mg_thread_list s" using head by auto
  let ?h = "(mg_thread_nodes s)(th \<mapsto> \<lparr>l_prev = 0, l_next = 0\<rparr>)"
  have "dlist ?h (mg_thread_list s) []" using l ne by (simp add: dlist_empty_heap)
  from dlist_append [OF this, of th] obtain nodes where
    n: "m_list_append (mg_thread_list s) th ?h = Some nodes" "dlist nodes (mg_thread_list s) [th]"
    using th(2) ne by auto
  have run: "m_gc_alloc_buf A sizeof_M_Thread M_GC_THREAD_FLAGS (mg_mem s) =
      Some (th, (mg_mem s)\<lparr>blocks := (blocks (mg_mem s))(th \<mapsto> replicate 6 None)\<rparr>)"
    using th al by (simp add: m_gc_alloc_buf_def m_malloc_def Let_def)
  show ?thesis
    unfolding register_thread_def run
    using n th(2) by (intro exI [of _ "(mg_mem s)\<lparr>blocks := (blocks (mg_mem s))(th \<mapsto> replicate 6 None)\<rparr>"] exI [of _ nodes])
      (simp add: m_assert_alloc_def Let_def)
qed

lemma threads_startup_ok:
  assumes A: "allocator_ok A" and f: "mg_thread_list s \<noteq> 0" "mg_thread_nodes s (mg_thread_list s) \<noteq> None"
      "blocks (mg_mem s) (mg_thread_list s) \<noteq> None"
    and th: "malloc_at A (mg_mem s) sizeof_M_Thread = th" "th \<noteq> 0"
  shows "\<exists>nodes. threads_startup A s = Some (s\<lparr>mg_thread_num := 1, mg_paused_num := 0, mg_pause_flag := False,
      mg_mem := (mg_mem s)\<lparr>blocks := (blocks (mg_mem s))(th \<mapsto> replicate 6 None)\<rparr>,
      mg_threads := (mg_threads s)(th \<mapsto> \<lparr>th_actor = 0, nb_stack = 0, nb_size = 0, nb_top = 0, th_flags = 0\<rparr>),
      mg_self := th, mg_thread_nodes := nodes\<rparr>) \<and> dlist nodes (mg_thread_list s) [th]"
proof -
  obtain n where "mg_thread_nodes s (mg_thread_list s) = Some n" using f(2) by auto
  from dlist_init [where h = "mg_thread_nodes s", OF f(1) this] obtain h where
    h: "m_list_init (mg_thread_list s) (mg_thread_nodes s) = Some h" "dlist h (mg_thread_list s) []" by blast
  let ?s = "s\<lparr>mg_thread_num := 0, mg_paused_num := 0, mg_pause_flag := False, mg_thread_nodes := h\<rparr>"
  obtain nodes where "register_thread A ?s = Some (?s\<lparr>
      mg_mem := (mg_mem s)\<lparr>blocks := (blocks (mg_mem s))(th \<mapsto> replicate 6 None)\<rparr>,
      mg_threads := (mg_threads s)(th \<mapsto> \<lparr>th_actor = 0, nb_stack = 0, nb_size = 0, nb_top = 0, th_flags = 0\<rparr>),
      mg_self := th, mg_thread_num := 1, mg_thread_nodes := nodes\<rparr>)" "dlist nodes (mg_thread_list s) [th]"
    using register_first_thread [OF A, of ?s th] h(2) f(3) th by auto
  then show ?thesis using h(1) by (intro exI [of _ nodes]) (cases s, simp add: threads_startup_def)
qed

text \<open>After startup one thread runs, with an empty stack, and there are no roots, no pools and no
  objects. Startup fails only when memory runs out.\<close>

definition started :: "root_env \<Rightarrow> ming \<Rightarrow> ming \<Rightarrow> addr \<Rightarrow> bool" where
  "started env s s' th \<longleftrightarrow> (\<exists>L. ming_ok env s' L [th] {}) \<and> threads_ok s' [th] \<and> runs_alone s' \<and>
     mg_self s' = th \<and> mg_thread_list s' = mg_thread_list s \<and> mg_thread_num s' = 1 \<and>
     root_pins s' [th] {} = {} \<and> (\<forall>p. gc_pools (mg_gc s') p = None) \<and>
     gc_vm (mg_gc s') = gc_vm (mg_gc s) \<and>
     mg_threads s' th = Some \<lparr>th_actor = 0, nb_stack = 0, nb_size = 0, nb_top = 0, th_flags = 0\<rparr> \<and>
     mg_gray_buf s' \<noteq> 0 \<and> mg_gray_buf s' \<noteq> th \<and>
     (\<forall>a. blocks (mg_mem s') a = blocks (mg_mem s) a \<or> (a = mg_gray_buf s' \<or> a = th) \<and> blocks (mg_mem s') a \<noteq> None) \<and>
     blocks (mg_mem s') th \<noteq> None \<and> blocks (mg_mem s') (mg_gray_buf s') \<noteq> None \<and>
     blocks (mg_mem s) th = None \<and> blocks (mg_mem s) (mg_gray_buf s') = None"

text \<open>One of the two calls of \<open>malloc\<close> in startup fails: that for the gray stack, or, on the heap
  with the gray stack, that for the data of the main thread.\<close>

definition out_of_memory :: "allocator \<Rightarrow> gc_env \<Rightarrow> ming \<Rightarrow> bool" where
  "out_of_memory A e s \<longleftrightarrow>
     (let n = 8 * env_size M_GC_GRAY_STACK_SIZE (env_gray_stack_size e); b = malloc_at A (mg_mem s) n in
      b = 0 \<or> malloc_at A ((mg_mem s)\<lparr>blocks := (blocks (mg_mem s))(b \<mapsto> replicate (block_words n) None)\<rparr>) sizeof_M_Thread = 0)"

lemma process_startup_ok:
  assumes A: "allocator_ok A" and f: "fresh_process s" and size: "env_pool_size (env_cell_pool_size e) = Some 4096"
  shows "process_startup A e s = None \<and> out_of_memory A e s \<or>
    (\<exists>s' th. process_startup A e s = Some s' \<and> started env s s' th)"
proof -
  let ?sz = "8 * env_size M_GC_GRAY_STACK_SIZE (env_gray_stack_size e)"
  note fr = f [unfolded fresh_process_def]
  show ?thesis
  proof (cases "malloc_at A (mg_mem s) ?sz = 0")
    case True
    then have "M_NEW A 8 (env_size M_GC_GRAY_STACK_SIZE (env_gray_stack_size e)) (mg_mem s) = Some (0, mg_mem s)"
      by (simp add: M_NEW_def m_malloc_def)
    then have "m_gc_startup A e s = None"
      using size by (simp add: m_gc_startup_def gc_obj_startup_def m_assert_alloc_def Let_def)
    then show ?thesis using True by (simp add: process_startup_def out_of_memory_def Let_def)
  next
    case False
    define b where "b = malloc_at A (mg_mem s) ?sz"
    let ?m = "(mg_mem s)\<lparr>blocks := (blocks (mg_mem s))(b \<mapsto> replicate (block_words ?sz) None)\<rparr>"
    have b: "b \<noteq> 0" "blocks (mg_mem s) b = None" using A False by (auto simp: b_def allocator_ok_def)
    have new: "M_NEW A 8 (env_size M_GC_GRAY_STACK_SIZE (env_gray_stack_size e)) (mg_mem s) = Some (b, ?m)"
      using b(1) by (simp add: M_NEW_def m_malloc_def b_def [symmetric] Let_def)
    obtain g L where g: "m_gc_startup A e s = Some (s\<lparr>mg_gc := g, mg_mem := ?m, mg_gc_thread := 0, mg_gray_buf := b,
        mg_roots := gc_root_hash_startup (mg_roots s)\<rparr>)" "gc_ok g L" "at_rest g" "\<forall>p. gc_pools g p = None"
        "gc_vm g = gc_vm (mg_gc s)"
      using gc_startup_ok [OF _ size new b(1)] fr by blast
    let ?s1 = "s\<lparr>mg_gc := g, mg_mem := ?m, mg_gc_thread := 0, mg_gray_buf := b, mg_roots := gc_root_hash_startup (mg_roots s)\<rparr>"
    show ?thesis
    proof (cases "malloc_at A ?m sizeof_M_Thread = 0")
      case True
      then have "register_thread A t = None" if "mg_mem t = ?m" for t
        using that by (simp add: register_thread_def m_gc_alloc_buf_def m_malloc_def m_assert_alloc_def
            gc_size_align_def M_ALIGN_UP_def sizeof_M_Thread_def)
      then have "threads_startup A ?s1 = None" by (simp add: threads_startup_def bind_eq_None_conv)
      then show ?thesis using g(1) True by (simp add: process_startup_def out_of_memory_def Let_def b_def [symmetric])
    next
      case ok: False
      define th where "th = malloc_at A ?m sizeof_M_Thread"
      have "malloc_at A ?m sizeof_M_Thread = 0 \<or> blocks ?m (malloc_at A ?m sizeof_M_Thread) = None"
        by (rule malloc_fresh [OF A])
      then have th: "th \<noteq> 0" "blocks ?m th = None" unfolding th_def using ok by blast+
      then have thb: "th \<noteq> b" "blocks (mg_mem s) th = None" by (auto split: if_splits)
      let ?T = "\<lparr>th_actor = 0, nb_stack = 0, nb_size = 0, nb_top = 0, th_flags = 0\<rparr> :: M_Thread"
      have "mg_thread_list ?s1 \<noteq> 0" "mg_thread_nodes ?s1 (mg_thread_list ?s1) \<noteq> None"
        "blocks (mg_mem ?s1) (mg_thread_list ?s1) \<noteq> None"
        using fr by simp_all
      from threads_startup_ok [OF A this, of th] obtain nodes where
        t: "threads_startup A ?s1 = Some (?s1\<lparr>mg_thread_num := 1, mg_paused_num := 0, mg_pause_flag := False,
          mg_mem := ?m\<lparr>blocks := (blocks ?m)(th \<mapsto> replicate 6 None)\<rparr>,
          mg_threads := (mg_threads s)(th \<mapsto> ?T), mg_self := th, mg_thread_nodes := nodes\<rparr>)"
        "dlist nodes (mg_thread_list s) [th]"
        using th(1) by (auto simp: th_def)
      let ?s' = "?s1\<lparr>mg_thread_num := 1, mg_paused_num := 0, mg_pause_flag := False,
          mg_mem := ?m\<lparr>blocks := (blocks ?m)(th \<mapsto> replicate 6 None)\<rparr>,
          mg_threads := (mg_threads s)(th \<mapsto> ?T), mg_self := th, mg_thread_nodes := nodes\<rparr>"
      have pins: "root_pins ?s' [th] {} = {}" by (simp add: root_pins_def nb_words_def)
      have "root_rep env (mg_roots ?s') {}" using root_startup_rep by simp
      then have "roots_ok env ?s' [th] {}" using t(2) by (simp add: roots_ok_def nb_stack_ok_def)
      then have "ming_ok env ?s' L [th] {}" using g(2,3) pins by (simp add: ming_ok_def)
      moreover have "threads_ok ?s' [th]" using t(2) by (simp add: threads_ok_def nb_ok_def nb_stack_ok_def)
      moreover have "runs_alone ?s'" using th(1) by (simp add: runs_alone_def)
      ultimately have "started env s ?s' th"
        unfolding started_def using pins g(4,5) b th(1) thb
        by (intro conjI) (blast, simp_all)
      then show ?thesis using g(1) t(1) by (intro disjI2 exI [of _ ?s'] exI [of _ th]) (simp add: process_startup_def)
    qed
  qed
qed

subsection \<open>Shutdown\<close>

text \<open>The blocks of the process itself: the thread data, its stack and the gray stack.\<close>

definition own_blocks :: "ming \<Rightarrow> addr \<Rightarrow> addr set" where
  "own_blocks s th = {th, mg_gray_buf s, nb_stack (the (mg_threads s th))} - {0}"

definition live_process :: "root_env \<Rightarrow> ming \<Rightarrow> addr \<Rightarrow> addr set \<Rightarrow> bool" where
  "live_process env s th N \<longleftrightarrow> (\<exists>L. gc_ok (mg_gc s) L) \<and> at_rest (mg_gc s) \<and> threads_ok s [th] \<and> mg_self s = th \<and>
     root_rep env (mg_roots s) N \<and> (\<forall>a \<in> own_blocks s th. blocks (mg_mem s) a \<noteq> None) \<and>
     mg_gray_buf s \<noteq> 0 \<and> mg_gray_buf s \<noteq> th \<and> nb_stack (the (mg_threads s th)) \<notin> {th, mg_gray_buf s}"

lemma started_live: "started env s s' th \<Longrightarrow> live_process env s' th {}"
  by (auto simp: started_def live_process_def ming_ok_def roots_ok_def own_blocks_def threads_ok_def dlist_def)

lemma release_thread_run:
  assumes l: "dlist (mg_thread_nodes s) (mg_thread_list s) (xs @ th # ys)" and T: "mg_threads s th = Some T" "th \<noteq> 0"
    and b: "blocks (mg_mem s) th \<noteq> None" "nb_stack T \<noteq> 0 \<longrightarrow> blocks (mg_mem s) (nb_stack T) \<noteq> None" "nb_stack T \<noteq> th"
    and size: "nb_stack T = 0 \<or> unat (nb_size T) mod 2 ^ 29 \<noteq> 0"
  shows "\<exists>s'. release_thread th s = Some s' \<and> mg_gc s' = mg_gc s \<and> mg_roots s' = mg_roots s \<and>
    mg_gray_buf s' = mg_gray_buf s \<and> mg_threads s' = (mg_threads s)(th := None) \<and> mg_thread_list s' = mg_thread_list s \<and>
    dlist (mg_thread_nodes s') (mg_thread_list s') (xs @ ys) \<and> mg_thread_num s' = mg_thread_num s - 1 \<and>
    blocks (mg_mem s') = (\<lambda>a. if a = th \<or> a \<noteq> 0 \<and> a = nb_stack T then None else blocks (mg_mem s) a)"
proof -
  obtain nodes where n: "m_list_remove th (mg_thread_nodes s) = Some nodes" "dlist nodes (mg_thread_list s) (xs @ ys)"
    using dlist_remove [OF l] by auto
  have "th \<notin> set (mg_thread_list s # xs @ ys)" using l by (auto simp: dlist_def)
  then have list: "dlist (nodes(th := None)) (mg_thread_list s) (xs @ ys)" using n(2) dlist_frame by blast
  have nz: "(ucast (8 * ucast (nb_size T) :: u64) :: u32) \<noteq> 0" if "nb_stack T \<noteq> 0"
  proof -
    have lt: "unat (nb_size T) < 2 ^ 32" using unsigned_less [of "nb_size T", where ?'a = nat] by simp
    have "unat (ucast (8 * ucast (nb_size T) :: u64) :: u32) = 8 * unat (nb_size T) mod 2 ^ 32"
      using ucast_times_8 [OF lt] by (simp add: unsigned_ucast_eq take_bit_eq_mod mult.commute)
    also have "\<dots> = 8 * (unat (nb_size T) mod 2 ^ 29)" using mult_mod_right [of 8 "unat (nb_size T)" "2 ^ 29"] by simp
    finally show ?thesis using size that by auto
  qed
  let ?m1 = "if nb_stack T \<noteq> 0 then (mg_mem s)\<lparr>blocks := (blocks (mg_mem s))(nb_stack T := None)\<rparr> else mg_mem s"
  have 1: "(if nb_stack T \<noteq> 0 then m_gc_free_buf (nb_stack T) (ucast (8 * ucast (nb_size T) :: u64)) M_GC_NBSTK_FLAGS (mg_mem s)
      else Some (mg_mem s)) = Some ?m1"
    using nz b(2) by (auto simp: m_gc_free_buf_def m_free_def)
  have "blocks ?m1 th \<noteq> None" using b(1,3) by simp
  then have 2: "m_gc_free_buf th (ucast sizeof_M_Thread) M_GC_THREAD_FLAGS ?m1 = Some (?m1\<lparr>blocks := (blocks ?m1)(th := None)\<rparr>)"
    using T(2) by (simp add: m_gc_free_buf_def m_free_def sizeof_M_Thread_def)
  have "thread_at s th = Some T" using T by (simp add: thread_at_def access)
  then show ?thesis unfolding release_thread_def
    using n(1) 1 2 list by (auto simp: Let_def fun_eq_iff)
qed

text \<open>Shutdown leaves nothing behind: the blocks of the process, its pools and the entries of the
  root table are released, and no other block is touched.\<close>

lemma process_shutdown_ok:
  assumes live: "live_process env s th N"
    and size: "nb_stack (the (mg_threads s th)) = 0 \<or> unat (nb_size (the (mg_threads s th))) mod 2 ^ 29 \<noteq> 0"
  shows "\<exists>s'. process_shutdown env s = Some s' \<and> (\<forall>p. gc_pools (mg_gc s') p = None) \<and> mg_threads s' th = None \<and>
    (\<forall>a \<in> N. root_links (mg_roots s') a = None \<and> root_nodes (mg_roots s') a = None) \<and>
    blocks (mg_mem s') = (\<lambda>a. if a \<in> own_blocks s th then None else blocks (mg_mem s) a)"
proof -
  obtain L where ok: "gc_ok (mg_gc s) L" "at_rest (mg_gc s)" and thr: "threads_ok s [th]" "mg_self s = th"
    and roots: "root_rep env (mg_roots s) N" and bl: "\<forall>a \<in> own_blocks s th. blocks (mg_mem s) a \<noteq> None"
    and gray: "mg_gray_buf s \<noteq> 0" "mg_gray_buf s \<noteq> th" "nb_stack (the (mg_threads s th)) \<notin> {th, mg_gray_buf s}"
    using live by (auto simp: live_process_def)
  obtain T where l: "dlist (mg_thread_nodes s) (mg_thread_list s) [th]" and T: "mg_threads s th = Some T" "th \<noteq> 0"
    using thr by (auto simp: threads_ok_def dlist_def)
  obtain s1 where s1: "release_thread th s = Some s1" "mg_gc s1 = mg_gc s" "mg_roots s1 = mg_roots s"
    "mg_gray_buf s1 = mg_gray_buf s" "mg_threads s1 th = None"
    "blocks (mg_mem s1) = (\<lambda>a. if a = th \<or> a \<noteq> 0 \<and> a = nb_stack T then None else blocks (mg_mem s) a)"
    using release_thread_run [of s "[]" th "[]" T] l T bl gray(3) size T by (auto simp: own_blocks_def)
  let ?s1 = "s1\<lparr>mg_self := 0\<rparr>"
  have "threads_shutdown s = Some ?s1" using s1(1) thr(2) T(2) by (simp add: threads_shutdown_def m_thread_self_def)
  moreover obtain g r where "gc_do_collect M_GC_COLLECT_FL_CLEAR ?s1 = Some (True, ?s1\<lparr>mg_gc := g\<rparr>)" "\<forall>p. gc_pools g p = None"
    using clear_collection [of ?s1 L] ok s1(2) by auto
  moreover obtain r where "gc_root_hash_shutdown env (mg_roots s) = Some r" "\<forall>a \<in> N. root_links r a = None" "\<forall>a \<in> N. root_nodes r a = None"
    using root_shutdown_rep [OF roots] by auto
  moreover have "blocks (mg_mem s1) (mg_gray_buf s) \<noteq> None"
    using s1(6) gray bl T(1) by (auto simp: own_blocks_def)
  ultimately show ?thesis
    using s1 gray(1) T(1) by (auto simp: process_shutdown_def m_gc_shutdown_def gc_obj_shutdown_def m_free_def own_blocks_def fun_eq_iff T(2))
qed

end
