(* ===== verification/Actor.thy ===== *)
theory Actor
  imports Startup
begin

text \<open>
  The actor threads of \<open>src/m_thread.c\<close>: \<open>m_thread_create\<close>, \<open>thread_entry\<close>
  and the whole of \<open>m_thread_shutdown\<close>, as an interleaving of the main thread with the actor
  threads. A step is a critical section of \<open>m_thread_lock\<close> or what the main thread does
  between two of them. The list node of an \<open>ActorThread\<close> is at offset 0. The thread that
  \<open>pthread_create\<close> starts is the choice of the C library; its number is not in use.
\<close>

subsection \<open>State\<close>

text \<open>An actor thread is before the test of its loop, asleep in \<open>pthread_cond_wait\<close>, or has
  returned. The main thread runs, has set the exit flag, is at the test of the loop that joins the
  actor threads, or is done with the shutdown.\<close>

datatype actor_pc = Testing | Asleep | Returned
datatype main_pc = Alive | Flagged | Joining addr | Done

record actors =
  act_ming :: ming
  act_nodes :: sheap
  act_thread :: "addr \<rightharpoonup> nat"
  actor_thread_list :: addr
  thread_exit_flag :: bool
  act_pc :: "nat \<rightharpoonup> actor_pc"
  act_main :: main_pc

definition sizeof_ActorThread :: u64 where "sizeof_ActorThread = 16"

abbreviation (input) M_GC_ATH_FLAGS :: u32 where "M_GC_ATH_FLAGS \<equiv> 2"

definition set_mem :: "cmem \<Rightarrow> ming \<Rightarrow> ming" where
  "set_mem m s = s\<lparr>mg_mem := m\<rparr>"

subsection \<open>The operations\<close>

text \<open>\<open>r\<close> is the outcome of \<open>pthread_create\<close>: the thread, or an error.\<close>

definition m_thread_create :: "allocator \<Rightarrow> nat option \<Rightarrow> actors \<Rightarrow> actors option" where
  "m_thread_create A r s =
     (if thread_exit_flag s then Some s
      else do {
        q \<leftarrow> m_gc_alloc_buf A sizeof_ActorThread M_GC_ATH_FLAGS (mg_mem (act_ming s));
        (let node = fst q; m = snd q in
         if node = 0 then Some s
         else case r of
           None \<Rightarrow> do {
             m' \<leftarrow> m_gc_free_buf node (ucast sizeof_ActorThread) M_GC_ATH_FLAGS m;
             Some (s\<lparr>act_ming := set_mem m' (act_ming s)\<rparr>) }
         | Some t \<Rightarrow> do {
             nodes \<leftarrow> m_slist_push (actor_thread_list s) node ((act_nodes s)(node \<mapsto> \<lparr>s_next = 0\<rparr>));
             Some (s\<lparr>act_ming := set_mem m (act_ming s), act_nodes := nodes,
               act_thread := (act_thread s)(node \<mapsto> t), act_pc := (act_pc s)(t \<mapsto> Testing)\<rparr>) }) })"

text \<open>One test of the loop of \<open>thread_entry\<close>.\<close>

definition thread_entry :: "nat \<Rightarrow> actors \<Rightarrow> actors" where
  "thread_entry t s = s\<lparr>act_pc := (act_pc s)(t \<mapsto> (if thread_exit_flag s then Returned else Asleep))\<rparr>"

text \<open>\<open>m_thread_shutdown\<close>: the flag, the broadcast, one round of the loop, the rest. The loop
  fetches the next node before its body, which waits for the thread and frees the node.\<close>

definition set_exit_flag :: "actors \<Rightarrow> actors" where
  "set_exit_flag s = s\<lparr>thread_exit_flag := True, act_main := Flagged\<rparr>"

definition broadcast_active :: "actors \<Rightarrow> actors option" where
  "broadcast_active s = do {
     n \<leftarrow> rd (act_nodes s) (actor_thread_list s);
     Some (s\<lparr>act_pc := (\<lambda>t. if act_pc s t = Some Asleep then Some Testing else act_pc s t),
       act_main := Joining (m_node_value (s_next n) 0)\<rparr>) }"

definition join_actor :: "addr \<Rightarrow> nat \<Rightarrow> actors \<Rightarrow> actors option" where
  "join_actor node t s = do {
     n \<leftarrow> rd (act_nodes s) node;
     m \<leftarrow> m_gc_free_buf node (ucast sizeof_ActorThread) M_GC_ATH_FLAGS (mg_mem (act_ming s));
     Some (s\<lparr>act_ming := set_mem m (act_ming s), act_nodes := (act_nodes s)(node := None),
       act_thread := (act_thread s)(node := None), act_pc := (act_pc s)(t := None),
       act_main := Joining (m_node_value (s_next n) 0)\<rparr>) }"

text \<open>The rest of \<open>m_thread_shutdown\<close>, and \<open>m_gc_shutdown\<close> after it.\<close>

definition finish_shutdown :: "root_env \<Rightarrow> actors \<Rightarrow> actors option" where
  "finish_shutdown env s = do {
     m \<leftarrow> process_shutdown env (act_ming s);
     Some (s\<lparr>act_ming := m, act_main := Done\<rparr>) }"

definition actors_startup :: "ming \<Rightarrow> addr \<Rightarrow> sheap \<Rightarrow> actors option" where
  "actors_startup m list nodes = do {
     h \<leftarrow> m_slist_init list nodes;
     Some \<lparr>act_ming = m, act_nodes = h, act_thread = Map.empty, actor_thread_list = list,
       thread_exit_flag = False, act_pc = Map.empty, act_main = Alive\<rparr> }"

subsection \<open>Interleaving\<close>

text \<open>\<open>work\<close> is what the main thread does with the rest of the process while it runs: the
  process stays well formed, and the blocks of the actor nodes are not touched.\<close>

definition orderly_process :: "root_env \<Rightarrow> addr \<Rightarrow> ming \<Rightarrow> bool" where
  "orderly_process env th m \<longleftrightarrow> (\<exists>N. live_process env m th N) \<and>
     (nb_stack (the (mg_threads m th)) = 0 \<or> unat (nb_size (the (mg_threads m th))) mod 2 ^ 29 \<noteq> 0)"

inductive astep :: "allocator \<Rightarrow> root_env \<Rightarrow> addr \<Rightarrow> actors \<Rightarrow> actors \<Rightarrow> bool" for A env th where
  work: "act_main s = Alive \<Longrightarrow> orderly_process env th m \<Longrightarrow>
    (\<forall>x \<in> dom (act_thread s). blocks (mg_mem m) x = blocks (mg_mem (act_ming s)) x \<and> x \<notin> own_blocks m th) \<Longrightarrow>
    blocks (mg_mem m) (actor_thread_list s) \<noteq> None \<Longrightarrow> astep A env th s (s\<lparr>act_ming := m\<rparr>)"
| create: "act_main s = Alive \<Longrightarrow> (\<forall>t. r = Some t \<longrightarrow> act_pc s t = None) \<Longrightarrow> m_thread_create A r s = Some s' \<Longrightarrow>
    astep A env th s s'"
| test: "act_pc s t = Some Testing \<Longrightarrow> astep A env th s (thread_entry t s)"
| exit: "act_main s = Alive \<Longrightarrow> astep A env th s (set_exit_flag s)"
| broadcast: "act_main s = Flagged \<Longrightarrow> broadcast_active s = Some s' \<Longrightarrow> astep A env th s s'"
| join: "act_main s = Joining node \<Longrightarrow> node \<noteq> 0 \<Longrightarrow> act_thread s node = Some t \<Longrightarrow> act_pc s t = Some Returned \<Longrightarrow>
    join_actor node t s = Some s' \<Longrightarrow> astep A env th s s'"
| finish: "act_main s = Joining 0 \<Longrightarrow> finish_shutdown env s = Some s' \<Longrightarrow> astep A env th s s'"

inductive_cases astepE: "astep A env th s s'"

text \<open>A thread that sleeps in \<open>pthread_cond_wait\<close> may also wake up without a signal. Such a
  step can happen in a run, but it is not one that progress may rely on.\<close>

inductive any_step :: "allocator \<Rightarrow> root_env \<Rightarrow> addr \<Rightarrow> actors \<Rightarrow> actors \<Rightarrow> bool" for A env th where
  program: "astep A env th s s' \<Longrightarrow> any_step A env th s s'"
| spurious: "act_pc s t = Some Asleep \<Longrightarrow> any_step A env th s (s\<lparr>act_pc := (act_pc s)(t \<mapsto> Testing)\<rparr>)"

subsection \<open>The invariant\<close>

text \<open>\<open>xs\<close> are the nodes whose threads are to be joined: those of the list, or those from the
  node at which the loop is.\<close>

definition threads_of :: "actors \<Rightarrow> addr list \<Rightarrow> nat list" where
  "threads_of s xs = map (\<lambda>x. the (act_thread s x)) xs"

definition main_at :: "actors \<Rightarrow> addr list \<Rightarrow> bool" where
  "main_at s xs = (case act_main s of
       Alive \<Rightarrow> slist (act_nodes s) (actor_thread_list s) xs \<and> \<not> thread_exit_flag s
     | Flagged \<Rightarrow> slist (act_nodes s) (actor_thread_list s) xs \<and> thread_exit_flag s
     | Joining a \<Rightarrow> sseg (act_nodes s) a xs \<and> thread_exit_flag s \<and> (\<forall>t. act_pc s t \<noteq> Some Asleep)
     | Done \<Rightarrow> xs = [])"

definition ainv :: "root_env \<Rightarrow> addr \<Rightarrow> addr list \<Rightarrow> actors \<Rightarrow> bool" where
  "ainv env th xs s \<longleftrightarrow> main_at s xs \<and> dom (act_thread s) = set xs \<and> distinct (threads_of s xs) \<and>
     dom (act_pc s) = set (threads_of s xs) \<and>
     (act_main s \<noteq> Done \<longrightarrow> orderly_process env th (act_ming s) \<and>
       (\<forall>x \<in> set xs. blocks (mg_mem (act_ming s)) x \<noteq> None \<and> x \<notin> own_blocks (act_ming s) th)) \<and>
     (act_main s = Alive \<longrightarrow> blocks (mg_mem (act_ming s)) (actor_thread_list s) \<noteq> None)"

lemma mg_set_mem [simp]:
  "mg_mem (set_mem m s) = m" "mg_threads (set_mem m s) = mg_threads s" "own_blocks (set_mem m s) th = own_blocks s th"
  by (simp_all add: set_mem_def own_blocks_def)

lemma m_node_value_0 [simp]: "m_node_value a 0 = a"
  by (simp add: m_node_value_def M_CONTAINER_OF_def)

text \<open>The process depends on the C heap only through its own blocks.\<close>

lemma orderly_set_mem:
  assumes "orderly_process env th s" "\<And>a. a \<in> own_blocks s th \<Longrightarrow> blocks m a = blocks (mg_mem s) a"
  shows "orderly_process env th (set_mem m s)"
proof -
  obtain N L where live: "gc_ok (mg_gc s) L" "at_rest (mg_gc s)" "threads_ok s [th]" "mg_self s = th" "root_rep env (mg_roots s) N"
    "\<forall>a \<in> own_blocks s th. blocks (mg_mem s) a \<noteq> None" "mg_gray_buf s \<noteq> 0" "mg_gray_buf s \<noteq> th"
    "nb_stack (the (mg_threads s th)) \<notin> {th, mg_gray_buf s}"
    using assms(1) by (auto simp: orderly_process_def live_process_def)
  obtain T where T: "mg_threads s th = Some T" "nb_ok (mg_mem s) T" "dlist (mg_thread_nodes s) (mg_thread_list s) [th]"
    using live(3) by (auto simp: threads_ok_def)
  have "nb_stack T \<noteq> 0 \<Longrightarrow> blocks m (nb_stack T) = blocks (mg_mem s) (nb_stack T)"
    using assms(2) T(1) by (simp add: own_blocks_def)
  then have "nb_ok m T" using T(2) by (cases "nb_size T = 0") (auto simp: nb_ok_def nb_stack_ok_def nb_read_def)
  then have "threads_ok (set_mem m s) [th]"
    using T live(4) by (auto simp: threads_ok_def set_mem_def)
  then have "live_process env (set_mem m s) th N"
    using live assms(2) by (auto simp: live_process_def set_mem_def own_blocks_def)
  then show ?thesis using assms(1) by (auto simp: orderly_process_def)
qed

lemma ainvD:
  assumes "ainv env th xs s"
  shows "main_at s xs" "dom (act_thread s) = set xs" "distinct (threads_of s xs)" "dom (act_pc s) = set (threads_of s xs)"
    "act_main s \<noteq> Done \<Longrightarrow> orderly_process env th (act_ming s)"
    "act_main s \<noteq> Done \<Longrightarrow> x \<in> set xs \<Longrightarrow> blocks (mg_mem (act_ming s)) x \<noteq> None \<and> x \<notin> own_blocks (act_ming s) th"
    "act_main s = Alive \<Longrightarrow> blocks (mg_mem (act_ming s)) (actor_thread_list s) \<noteq> None"
  using assms unfolding ainv_def by blast+

lemma orderly_own_blocks: "orderly_process env th m \<Longrightarrow> a \<in> own_blocks m th \<Longrightarrow> blocks (mg_mem m) a \<noteq> None"
  by (auto simp: orderly_process_def live_process_def)

lemma actors_startup_ok:
  assumes "orderly_process env th m" "list \<noteq> 0" "nodes list = Some n" "blocks (mg_mem m) list \<noteq> None"
  shows "\<exists>s. actors_startup m list nodes = Some s \<and> ainv env th [] s \<and> act_main s = Alive"
proof -
  obtain h where "m_slist_init list nodes = Some h" "slist h list []"
    using slist_init [of list nodes n] assms(2,3) by auto
  then show ?thesis using assms by (auto simp: actors_startup_def ainv_def main_at_def threads_of_def)
qed

lemma threads_of_cong:
  "(\<And>x. x \<in> set xs \<Longrightarrow> act_thread s' x = act_thread s x) \<Longrightarrow> threads_of s' xs = threads_of s xs"
  by (simp add: threads_of_def)

lemma create_inv:
  assumes A: "allocator_ok A" and inv: "ainv env th xs s" and main: "act_main s = Alive"
    and r: "\<forall>t. r = Some t \<longrightarrow> act_pc s t = None"
  shows "\<exists>s' xs'. m_thread_create A r s = Some s' \<and> ainv env th xs' s' \<and> act_main s' = Alive"
proof -
  note I = ainvD [OF inv]
  have l: "slist (act_nodes s) (actor_thread_list s) xs" and fl: "\<not> thread_exit_flag s"
    using I(1) main by (simp_all add: main_at_def)
  have sz: "gc_size_align sizeof_ActorThread = 16" "(ucast sizeof_ActorThread :: u32) \<noteq> 0"
    by (simp_all add: sizeof_ActorThread_def gc_size_align_def M_ALIGN_UP_def)
  let ?m = "mg_mem (act_ming s)" and ?p = "malloc_at A (mg_mem (act_ming s)) 16"
  show ?thesis
  proof (cases "?p = 0")
    case True
    then have "m_thread_create A r s = Some s"
      using fl sz by (simp add: m_thread_create_def m_gc_alloc_buf_def m_malloc_def)
    then show ?thesis using inv main by blast
  next
    case False
    then have new: "blocks ?m ?p = None" using A by (auto simp: allocator_ok_def)
    then have own: "?p \<notin> own_blocks (act_ming s) th" "?p \<notin> set xs" "?p \<noteq> actor_thread_list s"
      using orderly_own_blocks [OF I(5), of ?p] I(6) [of ?p] I(7) main new by (simp_all, (metis option.distinct(1))+)
    let ?m1 = "?m\<lparr>blocks := (blocks ?m)(?p \<mapsto> replicate (block_words 16) None)\<rparr>"
    have al: "m_gc_alloc_buf A sizeof_ActorThread M_GC_ATH_FLAGS ?m = Some (?p, ?m1)"
      using False sz by (simp add: m_gc_alloc_buf_def m_malloc_def Let_def)
    have ord: "orderly_process env th (set_mem m' (act_ming s))" if "\<And>a. a \<noteq> ?p \<Longrightarrow> blocks m' a = blocks ?m a" for m'
      using orderly_set_mem [OF I(5), of m'] that own(1) main by (metis main_pc.distinct(5))
    show ?thesis
    proof (cases r)
      case None
      let ?m2 = "?m1\<lparr>blocks := (blocks ?m1)(?p := None)\<rparr>"
      have "m_thread_create A r s = Some (s\<lparr>act_ming := set_mem ?m2 (act_ming s)\<rparr>)"
        using fl False sz(2) None by (simp add: m_thread_create_def al m_gc_free_buf_def m_free_def)
      moreover have "ainv env th xs (s\<lparr>act_ming := set_mem ?m2 (act_ming s)\<rparr>)"
        using I own new main ord [of ?m2] by (auto simp: ainv_def main_at_def threads_of_def)
      ultimately show ?thesis using main by (intro exI [of _ "s\<lparr>act_ming := set_mem ?m2 (act_ming s)\<rparr>"] exI [of _ xs]) simp
    next
      case (Some t)
      have "slist ((act_nodes s)(?p \<mapsto> \<lparr>s_next = 0\<rparr>)) (actor_thread_list s) xs"
        using l own by (simp add: slist_frame)
      then obtain h where h: "m_slist_push (actor_thread_list s) ?p ((act_nodes s)(?p \<mapsto> \<lparr>s_next = 0\<rparr>)) = Some h"
        "slist h (actor_thread_list s) (?p # xs)"
        using slist_push [of "(act_nodes s)(?p \<mapsto> \<lparr>s_next = 0\<rparr>)" "actor_thread_list s" xs ?p] False own by auto
      let ?s = "s\<lparr>act_ming := set_mem ?m1 (act_ming s), act_nodes := h,
        act_thread := (act_thread s)(?p \<mapsto> t), act_pc := (act_pc s)(t \<mapsto> Testing)\<rparr>"
      have "m_thread_create A r s = Some ?s"
        using fl False Some h(1) by (simp add: m_thread_create_def al Let_def)
      moreover have "t \<notin> set (threads_of s xs)" using r Some I(4) by blast
      moreover have "threads_of ?s (?p # xs) = t # threads_of s xs"
        using own(2) by (auto simp: threads_of_def)
      ultimately show ?thesis
        using I h(2) own new main ord [of ?m1] fl
        by (intro exI [of _ ?s] exI [of _ "?p # xs"]) (auto simp: ainv_def main_at_def)
    qed
  qed
qed

subsection \<open>While the process runs\<close>

text \<open>A step that changes only the state of one actor thread.\<close>

lemma pc_inv:
  assumes inv: "ainv env th xs s" and t: "act_pc s t \<noteq> None" and x: "x = Asleep \<longrightarrow> (\<forall>a. act_main s \<noteq> Joining a)"
  shows "ainv env th xs (s\<lparr>act_pc := (act_pc s)(t \<mapsto> x)\<rparr>)"
proof -
  have "dom ((act_pc s)(t \<mapsto> x)) = dom (act_pc s)" using t by auto
  then show ?thesis using inv x
    by (auto simp: ainv_def main_at_def threads_of_def split: main_pc.splits)
qed

lemma thread_entry_inv:
  assumes inv: "ainv env th xs s" and t: "act_pc s t = Some Testing"
  shows "ainv env th xs (thread_entry t s)"
proof -
  have "thread_exit_flag s" if "act_main s = Joining a" for a
    using ainvD(1) [OF inv] that by (simp add: main_at_def)
  then show ?thesis unfolding thread_entry_def by (intro pc_inv [OF inv]) (use t in auto)
qed

lemma exit_inv: "ainv env th xs s \<Longrightarrow> act_main s = Alive \<Longrightarrow> ainv env th xs (set_exit_flag s)"
  by (auto simp: ainv_def main_at_def set_exit_flag_def threads_of_def)

lemma alive_step:
  assumes "astep A env th s s'" "allocator_ok A" "ainv env th xs s" "act_main s = Alive"
  shows "\<exists>xs'. ainv env th xs' s' \<and> (act_main s' = Alive \<or> s' = set_exit_flag s)"
  using assms(1)
proof (cases rule: astep.cases)
  case (work m)
  then have "ainv env th xs s'" using ainvD [OF assms(3)]
    by (auto simp: ainv_def main_at_def threads_of_def)
  then show ?thesis using work by auto
next
  case (create r)
  then show ?thesis using create_inv [OF assms(2-4), of r] by auto
next
  case (test t)
  then have "ainv env th xs s'" "act_main s' = Alive"
    using thread_entry_inv [OF assms(3), of t] assms(4) by (simp, simp add: thread_entry_def)
  then show ?thesis by blast
next
  case exit
  then show ?thesis using exit_inv [OF assms(3)] by auto
qed (use assms(4) in auto)

lemma alive_any_step:
  assumes "any_step A env th s s'" "allocator_ok A" "ainv env th xs s" "act_main s = Alive"
  shows "\<exists>xs'. ainv env th xs' s' \<and> (act_main s' = Alive \<or> s' = set_exit_flag s)"
  using assms(1)
proof (cases rule: any_step.cases)
  case program
  then show ?thesis using alive_step assms(2-4) by blast
next
  case (spurious t)
  then show ?thesis using pc_inv [OF assms(3), of t Testing] assms(4) by auto
qed

subsection \<open>Shutdown\<close>

text \<open>What remains to be done after the exit flag has been set: the tests of the actor threads, the
  rounds of the loop, the broadcast and the rest.\<close>

fun tests_left :: "actor_pc option \<Rightarrow> nat" where
  "tests_left (Some Asleep) = 2"
| "tests_left (Some Testing) = 1"
| "tests_left _ = 0"

definition main_left :: "actors \<Rightarrow> nat" where
  "main_left s = (case act_main s of Flagged \<Rightarrow> card (dom (act_thread s)) + 2 | Joining _ \<Rightarrow> card (dom (act_thread s)) + 1 | _ \<Rightarrow> 0)"

definition shutdown_left :: "actors \<Rightarrow> nat" where
  "shutdown_left s = (\<Sum>t \<in> dom (act_pc s). tests_left (act_pc s t)) + main_left s"

text \<open>The memory of the process relative to the state \<open>s0\<close> in which the flag was set: the nodes
  that have been joined are released, at the end also the blocks of the process.\<close>

definition released :: "actors \<Rightarrow> addr \<Rightarrow> actors \<Rightarrow> bool" where
  "released s0 th s \<longleftrightarrow> dom (act_thread s) \<subseteq> dom (act_thread s0) \<and>
     (if act_main s = Done
      then act_pc s = Map.empty \<and> act_thread s = Map.empty \<and> (\<forall>p. gc_pools (mg_gc (act_ming s)) p = None) \<and>
        mg_threads (act_ming s) th = None \<and>
        blocks (mg_mem (act_ming s)) = (\<lambda>a. if a \<in> dom (act_thread s0) \<union> own_blocks (act_ming s0) th then None
          else blocks (mg_mem (act_ming s0)) a)
      else \<exists>m. act_ming s = set_mem m (act_ming s0) \<and>
        blocks m = (\<lambda>a. if a \<in> dom (act_thread s0) - dom (act_thread s) then None
          else blocks (mg_mem (act_ming s0)) a))"

lemma released_start: "act_main s \<noteq> Done \<Longrightarrow> released s th s"
  by (auto simp: released_def set_mem_def intro!: exI [of _ "mg_mem (act_ming s)"])

lemma finite_threads:
  assumes "ainv env th xs s"
  shows "finite (dom (act_pc s))" "finite (dom (act_thread s))"
  using ainvD(2,4) [OF assms] by simp_all

text \<open>A move of one actor thread.\<close>

lemma tests_left_sum:
  assumes "finite (dom f)" "f t \<noteq> None"
  shows "(\<Sum>u \<in> dom (f(t \<mapsto> x)). tests_left ((f(t \<mapsto> x)) u)) + tests_left (f t) =
    (\<Sum>u \<in> dom f. tests_left (f u)) + tests_left (Some x)"
proof -
  have d: "dom (f(t \<mapsto> x)) = dom f" "t \<in> dom f" using assms(2) by auto
  have "(\<Sum>u \<in> dom f - {t}. tests_left ((f(t \<mapsto> x)) u)) = (\<Sum>u \<in> dom f - {t}. tests_left (f u))"
    by (rule sum.cong) auto
  then show ?thesis unfolding d(1)
    using sum.remove [OF assms(1) d(2), of "\<lambda>u. tests_left (f u)"]
      sum.remove [OF assms(1) d(2), of "\<lambda>u. tests_left ((f(t \<mapsto> x)) u)"] by simp
qed

lemma actor_move:
  assumes inv: "ainv env th xs s" and t: "act_pc s t = Some y" and less: "tests_left (Some x) < tests_left (Some y)"
    and main: "act_main s \<noteq> Alive" "released s0 th s" and join: "x = Asleep \<longrightarrow> (\<forall>a. act_main s \<noteq> Joining a)"
  shows "\<exists>xs'. ainv env th xs' (s\<lparr>act_pc := (act_pc s)(t \<mapsto> x)\<rparr>) \<and>
    act_main (s\<lparr>act_pc := (act_pc s)(t \<mapsto> x)\<rparr>) \<noteq> Alive \<and> released s0 th (s\<lparr>act_pc := (act_pc s)(t \<mapsto> x)\<rparr>) \<and>
    shutdown_left (s\<lparr>act_pc := (act_pc s)(t \<mapsto> x)\<rparr>) < shutdown_left s"
proof (intro exI conjI)
  let ?s = "s\<lparr>act_pc := (act_pc s)(t \<mapsto> x)\<rparr>"
  show "ainv env th xs ?s" by (rule pc_inv [OF inv _ join]) (simp add: t)
  show "act_main ?s \<noteq> Alive" using main(1) by simp
  have "act_main s \<noteq> Done"
    using ainvD(1,4) [OF inv] t by (auto simp: main_at_def threads_of_def)
  then show "released s0 th ?s" using main(2) by (simp add: released_def)
  have "main_left ?s = main_left s" by (simp add: main_left_def cong: main_pc.case_cong)
  then show "shutdown_left ?s < shutdown_left s"
    using tests_left_sum [OF finite_threads(1) [OF inv], of t x] t less
    by (simp add: shutdown_left_def)
qed

lemma broadcast_step:
  assumes inv: "ainv env th xs s" and main: "act_main s = Flagged" and rel: "released s0 th s"
  shows "\<exists>s'. broadcast_active s = Some s' \<and> ainv env th xs s' \<and> act_main s' \<noteq> Alive \<and> released s0 th s' \<and>
    shutdown_left s' < shutdown_left s"
proof -
  note I = ainvD [OF inv]
  obtain a where a: "actor_thread_list s \<noteq> 0" "act_nodes s (actor_thread_list s) = Some \<lparr>s_next = a\<rparr>" "sseg (act_nodes s) a xs"
    "thread_exit_flag s"
    using I(1) main by (auto simp: main_at_def slist_def)
  define f where "f = (\<lambda>t. if act_pc s t = Some Asleep then Some Testing else act_pc s t)"
  let ?s = "s\<lparr>act_pc := f, act_main := Joining a\<rparr>"
  have dom: "dom f = dom (act_pc s)" by (auto simp: f_def split: if_splits)
  have awake: "f t \<noteq> Some Asleep" for t by (simp add: f_def)
  have "ainv env th xs ?s"
    using inv main a dom awake by (auto simp: ainv_def main_at_def threads_of_def)
  moreover have "(\<Sum>t \<in> dom f. tests_left (f t)) \<le> (\<Sum>t \<in> dom (act_pc s). tests_left (act_pc s t))"
    unfolding dom by (rule sum_mono) (simp add: f_def)
  then have "shutdown_left ?s < shutdown_left s" using main by (simp add: shutdown_left_def main_left_def)
  moreover have "released s0 th ?s" using rel main by (simp add: released_def)
  moreover have "broadcast_active s = Some ?s" using a by (simp add: broadcast_active_def access f_def)
  ultimately show ?thesis by simp
qed

lemma join_step:
  assumes inv: "ainv env th xs s" and main: "act_main s = Joining node" "node \<noteq> 0" and rel: "released s0 th s"
    and t: "act_thread s node = Some t" "act_pc s t = Some Returned"
  shows "\<exists>s' xs'. join_actor node t s = Some s' \<and> ainv env th xs' s' \<and> act_main s' \<noteq> Alive \<and> released s0 th s' \<and>
    shutdown_left s' < shutdown_left s"
proof -
  note I = ainvD [OF inv]
  have seg: "sseg (act_nodes s) node xs" "thread_exit_flag s" "\<forall>t. act_pc s t \<noteq> Some Asleep"
    using I(1) main by (simp_all add: main_at_def)
  then obtain ys b where xs: "xs = node # ys" "act_nodes s node = Some \<lparr>s_next = b\<rparr>" "sseg (act_nodes s) b ys"
    using main(2) by (cases xs) auto
  have nin: "node \<notin> set ys" using sseg_distinct [OF seg(1)] xs(1) by simp
  have bl: "blocks (mg_mem (act_ming s)) node \<noteq> None" "node \<notin> own_blocks (act_ming s) th"
    using I(6) [of node] main xs(1) by simp_all
  define m where "m = (mg_mem (act_ming s))\<lparr>blocks := (blocks (mg_mem (act_ming s)))(node := None)\<rparr>"
  define s' where "s' = s\<lparr>act_ming := set_mem m (act_ming s), act_nodes := (act_nodes s)(node := None),
    act_thread := (act_thread s)(node := None), act_pc := (act_pc s)(t := None), act_main := Joining b\<rparr>"
  have run: "join_actor node t s = Some s'"
    using main(2) xs(2) bl(1)
    by (simp add: join_actor_def access m_gc_free_buf_def m_free_def sizeof_ActorThread_def s'_def m_def)
  have ths: "threads_of s xs = t # threads_of s ys" "threads_of s' ys = threads_of s ys"
    using t(1) nin by (auto simp: threads_of_def xs(1) s'_def)
  have ord: "orderly_process env th (set_mem m (act_ming s))"
    by (rule orderly_set_mem [OF I(5)]) (use bl(2) main in \<open>auto simp: m_def\<close>)
  have "main_at s' ys" using seg xs(3) nin by (simp add: main_at_def s'_def)
  moreover have "dom (act_thread s') = set ys" using I(2) nin xs(1) by (auto simp: s'_def)
  moreover have "dom (act_pc s') = set (threads_of s' ys)" using I(3,4) ths by (auto simp: s'_def)
  moreover have "blocks m x \<noteq> None \<and> x \<notin> own_blocks (act_ming s) th" if "x \<in> set ys" for x
    using I(6) [of x] that xs(1) nin main by (auto simp: m_def)
  ultimately have "ainv env th ys s'" using I(3) ths ord by (simp add: ainv_def s'_def)
  moreover have "released s0 th s'"
  proof -
    have sub: "dom (act_thread s) \<subseteq> dom (act_thread s0)" "node \<in> dom (act_thread s0)"
      using rel t(1) by (auto simp: released_def)
    obtain m0 where m0: "act_ming s = set_mem m0 (act_ming s0)"
      "blocks m0 = (\<lambda>a. if a \<in> dom (act_thread s0) - dom (act_thread s) then None else blocks (mg_mem (act_ming s0)) a)"
      using rel main by (auto simp: released_def)
    have "set_mem m (act_ming s) = set_mem m (act_ming s0)" by (simp add: m0(1) set_mem_def)
    moreover have "blocks m = (\<lambda>a. if a \<in> dom (act_thread s0) - dom (act_thread s') then None
        else blocks (mg_mem (act_ming s0)) a)"
      using sub(2) by (auto simp: m_def m0 fun_eq_iff s'_def)
    ultimately show ?thesis using sub by (auto simp: released_def s'_def)
  qed
  moreover have "shutdown_left s' < shutdown_left s"
  proof -
    have "(\<Sum>u \<in> dom (act_pc s'). tests_left (act_pc s' u)) = (\<Sum>u \<in> dom (act_pc s'). tests_left (act_pc s u))"
      by (rule sum.cong) (auto simp: s'_def split: if_splits)
    moreover have "\<dots> \<le> (\<Sum>u \<in> dom (act_pc s). tests_left (act_pc s u))"
      using finite_threads(1) [OF inv] by (intro sum_mono2) (auto simp: s'_def)
    moreover have "card (dom (act_thread s')) < card (dom (act_thread s))"
      using finite_threads(2) [OF inv] t(1) by (intro psubset_card_mono) (auto simp: s'_def)
    moreover have "main_left s' < main_left s" if "card (dom (act_thread s')) < card (dom (act_thread s))"
      using that main by (simp add: main_left_def s'_def)
    ultimately show ?thesis by (simp add: shutdown_left_def)
  qed
  ultimately show ?thesis using run by (auto simp: s'_def)
qed

lemma finish_step:
  assumes inv: "ainv env th xs s" and main: "act_main s = Joining 0" and rel: "released s0 th s"
  shows "\<exists>s'. finish_shutdown env s = Some s' \<and> ainv env th [] s' \<and> act_main s' = Done \<and> released s0 th s' \<and>
    shutdown_left s' < shutdown_left s"
proof -
  note I = ainvD [OF inv]
  have xs: "xs = []" using I(1) main by (simp add: main_at_def)
  obtain N where N: "live_process env (act_ming s) th N"
    "nb_stack (the (mg_threads (act_ming s) th)) = 0 \<or> unat (nb_size (the (mg_threads (act_ming s) th))) mod 2 ^ 29 \<noteq> 0"
    using I(5) main by (auto simp: orderly_process_def)
  obtain m where m: "process_shutdown env (act_ming s) = Some m" "\<forall>p. gc_pools (mg_gc m) p = None" "mg_threads m th = None"
    "blocks (mg_mem m) = (\<lambda>a. if a \<in> own_blocks (act_ming s) th then None else blocks (mg_mem (act_ming s)) a)"
    using process_shutdown_ok [OF N] by blast
  have none: "act_pc s = Map.empty" "act_thread s = Map.empty"
    using I(2,4) by (simp_all add: xs threads_of_def)
  obtain m0 where m0: "act_ming s = set_mem m0 (act_ming s0)"
    "blocks m0 = (\<lambda>a. if a \<in> dom (act_thread s0) then None else blocks (mg_mem (act_ming s0)) a)"
    using rel main none by (auto simp: released_def)
  have "blocks (mg_mem m) = (\<lambda>a. if a \<in> dom (act_thread s0) \<union> own_blocks (act_ming s0) th then None
      else blocks (mg_mem (act_ming s0)) a)"
    by (auto simp: m(4) m0 fun_eq_iff)
  then show ?thesis using m(1-3) none main
    by (auto simp: finish_shutdown_def ainv_def main_at_def threads_of_def released_def shutdown_left_def main_left_def)
qed

text \<open>From the setting of the flag on every step brings the end nearer, and until everything is done
  there is a step that is not a spurious wakeup.\<close>

lemma shutdown_step:
  assumes "astep A env th s s'" "ainv env th xs s" "act_main s \<noteq> Alive" "released s0 th s"
  shows "\<exists>xs'. ainv env th xs' s' \<and> act_main s' \<noteq> Alive \<and> released s0 th s' \<and> shutdown_left s' < shutdown_left s"
  using assms(1)
proof (cases rule: astep.cases)
  case (test t)
  have fl: "thread_exit_flag s"
    using ainvD(1,4) [OF assms(2)] test(2) assms(3) by (auto simp: main_at_def threads_of_def split: main_pc.splits)
  then show ?thesis
    unfolding test(1) thread_entry_def using actor_move [OF assms(2) test(2) _ assms(3,4), of Returned] by simp
next
  case broadcast
  then show ?thesis using broadcast_step [OF assms(2) _ assms(4)] by auto
next
  case (join node t)
  then show ?thesis using join_step [OF assms(2) join(1,2) assms(4) join(3,4)] by auto
next
  case finish
  then show ?thesis using finish_step [OF assms(2) _ assms(4)] by fastforce
qed (use assms(3) in auto)

lemma shutdown_any_step:
  assumes "any_step A env th s s'" "ainv env th xs s" "act_main s \<noteq> Alive" "released s0 th s"
  shows "\<exists>xs'. ainv env th xs' s' \<and> act_main s' \<noteq> Alive \<and> released s0 th s' \<and> shutdown_left s' < shutdown_left s"
  using assms(1)
proof (cases rule: any_step.cases)
  case program
  then show ?thesis by (rule shutdown_step [OF _ assms(2-4)])
next
  case (spurious t)
  then show ?thesis using actor_move [OF assms(2) spurious(2) _ assms(3,4), of Testing] by simp
qed

lemma shutdown_progress:
  assumes "ainv env th xs s" "act_main s \<noteq> Alive" "released s0 th s"
  shows "act_main s = Done \<or> (\<exists>s'. astep A env th s s')"
proof (cases "act_main s")
  case Flagged
  then show ?thesis using broadcast_step [OF assms(1) _ assms(3)] astep.broadcast by metis
next
  case (Joining a)
  show ?thesis
  proof (cases "a = 0")
    case True
    then show ?thesis using finish_step [OF assms(1) _ assms(3)] Joining astep.finish by metis
  next
    case False
    have seg: "sseg (act_nodes s) a xs" "\<forall>t. act_pc s t \<noteq> Some Asleep"
      using ainvD(1) [OF assms(1)] Joining by (simp_all add: main_at_def)
    then have "a \<in> set xs" using False by (cases xs) auto
    then obtain t where t: "act_thread s a = Some t" "act_pc s t \<noteq> None"
      using ainvD(2,4) [OF assms(1)] by (force simp: threads_of_def)
    then consider "act_pc s t = Some Testing" | "act_pc s t = Some Returned"
      using seg(2) by (metis actor_pc.exhaust option.exhaust)
    then show ?thesis
    proof cases
      case 1
      then show ?thesis using astep.test by blast
    next
      case 2
      then show ?thesis using join_step [OF assms(1) Joining False assms(3) t(1)] astep.join [OF Joining False t(1)] by metis
    qed
  qed
qed (use assms(2) in auto)

lemma shutdown_runs:
  assumes "(any_step A env th ^^ n) s0 s" "ainv env th xs s0" "act_main s0 = Flagged"
  shows "\<exists>xs'. ainv env th xs' s \<and> act_main s \<noteq> Alive \<and> released s0 th s \<and> n + shutdown_left s \<le> shutdown_left s0"
  using assms(1)
proof (induction n arbitrary: s)
  case 0
  then show ?case using assms released_start [of s0] by auto
next
  case (Suc n)
  then obtain s1 where s1: "(any_step A env th ^^ n) s0 s1" "any_step A env th s1 s" by auto
  then obtain xs' where "ainv env th xs' s1" "act_main s1 \<noteq> Alive" "released s0 th s1" "n + shutdown_left s1 \<le> shutdown_left s0"
    using Suc.IH by blast
  then show ?case using shutdown_any_step [OF s1(2)] by fastforce
qed

lemma any_step_inv:
  assumes "any_step A env th s s'" "allocator_ok A" "ainv env th xs s" "act_main s = Alive \<or> released s0 th s"
  shows "\<exists>xs' s1. ainv env th xs' s' \<and> (act_main s' = Alive \<or> released s1 th s')"
proof (cases "act_main s = Alive")
  case True
  then show ?thesis using alive_any_step [OF assms(1-3)] released_start [of s' th] by (auto simp: set_exit_flag_def)
next
  case False
  then show ?thesis using shutdown_any_step [OF assms(1,3)] assms(4) by blast
qed

lemma reachable_inv:
  assumes "(any_step A env th)\<^sup>*\<^sup>* s0 s" "allocator_ok A" "ainv env th xs s0" "act_main s0 = Alive"
  shows "\<exists>xs' s1. ainv env th xs' s \<and> (act_main s = Alive \<or> released s1 th s)"
  using assms(1)
proof (induction rule: rtranclp_induct)
  case base
  then show ?case using assms(3,4) by blast
next
  case (step s s')
  then show ?case using any_step_inv [OF step.hyps(2) assms(2)] by blast
qed

lemma tests_left_le: "tests_left x \<le> 2"
  by (cases x rule: tests_left.cases) simp_all

lemma shutdown_left_bound:
  assumes "ainv env th xs s" "act_main s = Flagged"
  shows "shutdown_left s \<le> 3 * card (dom (act_thread s)) + 2"
proof -
  have "card (dom (act_pc s)) = card (dom (act_thread s))"
    unfolding ainvD(2,4) [OF assms(1)]
  proof -
    have "distinct xs" using ainvD(1) [OF assms(1)] assms(2) slist_distinct by (auto simp: main_at_def)
    then show "card (set (threads_of s xs)) = card (set xs)"
      using ainvD(3) [OF assms(1)] by (metis distinct_card length_map threads_of_def)
  qed
  moreover have "(\<Sum>t \<in> dom (act_pc s). tests_left (act_pc s t)) \<le> card (dom (act_pc s)) * 2"
    using sum_bounded_above [of "dom (act_pc s)" "\<lambda>t. tests_left (act_pc s t)" 2] tests_left_le by simp
  ultimately show ?thesis using assms(2) by (simp add: shutdown_left_def main_left_def)
qed

text \<open>Shutdown from any state that the process can reach: every run ends within a number of steps
  that is linear in the number of actor threads, never depends on a spurious wakeup to go on, and at the end every
  actor thread has been joined and the memory of the process and of the nodes is released.\<close>

lemma actors_shutdown:
  assumes "allocator_ok A" "ainv env th xs s0" "act_main s0 = Alive" "(any_step A env th)\<^sup>*\<^sup>* s0 s" "act_main s = Alive"
    "(any_step A env th ^^ n) (set_exit_flag s) s'"
  shows "n \<le> 3 * card (dom (act_thread s)) + 2 \<and>
    (if act_main s' = Done then released s th s' else \<exists>s''. astep A env th s' s'')"
proof -
  obtain xs where inv: "ainv env th xs s" using reachable_inv [OF assms(4,1-3)] by blast
  let ?s = "set_exit_flag s"
  have f: "ainv env th xs ?s" "act_main ?s = Flagged" using exit_inv [OF inv assms(5)] by (simp_all add: set_exit_flag_def)
  obtain xs' where run: "ainv env th xs' s'" "act_main s' \<noteq> Alive" "released ?s th s'" "n + shutdown_left s' \<le> shutdown_left ?s"
    using shutdown_runs [OF assms(6) f] by blast
  have same: "act_thread ?s = act_thread s" "act_ming ?s = act_ming s" by (simp_all add: set_exit_flag_def)
  have "released s th s' = released ?s th s'" unfolding released_def same by (rule refl)
  then show ?thesis
    using run shutdown_left_bound [OF f] shutdown_progress [OF run(1-3), of A] same(1) by auto
qed

subsection \<open>Overlapping calls of \<open>m_thread_create\<close>\<close>

text \<open>\<open>m_thread_create\<close> takes no lock around \<open>m_slist_push\<close>, whose two
  assignments are these.\<close>

definition push_link :: "addr \<Rightarrow> addr \<Rightarrow> sheap \<Rightarrow> sheap option" where
  "push_link head node h = do { hn \<leftarrow> rd h head; wr h node (s_next_update (\<lambda>_. s_next hn)) }"

definition push_head :: "addr \<Rightarrow> addr \<Rightarrow> sheap \<Rightarrow> sheap option" where
  "push_head head node h = wr h head (s_next_update (\<lambda>_. node))"

lemma m_slist_push_steps:
  "m_slist_push head node h = do { c_assert (head \<noteq> 0 \<and> node \<noteq> 0); h1 \<leftarrow> push_link head node h; push_head head node h1 }"
  unfolding m_slist_push_def push_link_def push_head_def by (simp add: Option.bind_assoc)

text \<open>When two calls overlap, the node of one of them is not in the list: its thread is never
  joined and the node never freed.\<close>

lemma overlapping_create:
  assumes l: "slist h head xs" and n: "h a = Some n" "h b = Some n'" "a \<noteq> 0" "b \<noteq> 0" "a \<noteq> b"
    and new: "a \<notin> set (head # xs)" "b \<notin> set (head # xs)"
  shows "\<exists>h'. (do { h1 \<leftarrow> push_link head a h; h2 \<leftarrow> push_link head b h1; h3 \<leftarrow> push_head head a h2; push_head head b h3 }) = Some h' \<and>
    slist h' head (b # xs)"
proof -
  obtain c where c: "head \<noteq> 0" "head \<notin> set xs" "h head = Some \<lparr>s_next = c\<rparr>" "sseg h c xs" using l by (auto simp: slist_def)
  then show ?thesis using n new by (auto simp: push_link_def push_head_def access slist_def)
qed

subsection \<open>The current actor\<close>

text \<open>\<open>m_actor_self\<close> of \<open>include/m_actor.h\<close>: no thread is ever given an actor.\<close>

definition m_actor_self :: "ming \<Rightarrow> addr option" where
  "m_actor_self s = do { th \<leftarrow> m_thread_self s; T \<leftarrow> thread_at s th; Some (th_actor T) }"

lemma started_no_actor: "started env s s' th \<Longrightarrow> m_actor_self s' = Some 0"
  by (auto simp: started_def threads_ok_def dlist_def m_actor_self_def m_thread_self_def thread_at_def access)

end
