(* ===== verification/Members.thy ===== *)
theory Members
  imports Startup
begin

text \<open>
  Threads that come and go, \<open>thread_register\<close> and \<open>thread_key_destructor\<close> of
  \<open>src/m_thread.c\<close> on the state of a process with any number of threads: a new thread is
  added to the list, with no objects; a thread that ends gives back its data and its stack, and the
  other threads keep theirs.
\<close>

text \<open>The data of the threads are live blocks apart from all stacks; so is the static head of the
  list.\<close>

definition thread_blocks_ok :: "ming \<Rightarrow> addr list \<Rightarrow> bool" where
  "thread_blocks_ok s ths \<longleftrightarrow> blocks (mg_mem s) (mg_thread_list s) \<noteq> None \<and>
     (\<forall>th \<in> set ths. blocks (mg_mem s) th \<noteq> None) \<and>
     (\<forall>th \<in> set ths. nb_stack (the (mg_threads s th)) \<notin> insert (mg_thread_list s) (set ths))"

definition members_ok :: "root_env \<Rightarrow> ming \<Rightarrow> (addr \<rightharpoonup> addr list) \<Rightarrow> addr list \<Rightarrow> addr set \<Rightarrow> bool" where
  "members_ok env s L ths N \<longleftrightarrow> ming_ok env s L ths N \<and> threads_ok s ths \<and> thread_blocks_ok s ths \<and>
     mg_thread_num s = of_nat (length ths)"

text \<open>What a thread sees of the heap.\<close>

lemma nb_ok_cong:
  "nb_ok m T \<Longrightarrow> (nb_stack T \<noteq> 0 \<Longrightarrow> blocks m' (nb_stack T) = blocks m (nb_stack T)) \<Longrightarrow> nb_ok m' T"
  by (cases "nb_size T = 0") (auto simp: nb_ok_def nb_stack_ok_def nb_read_def)

lemma nb_words_cong:
  assumes "nb_ok m T" "nb_stack T \<noteq> 0 \<Longrightarrow> blocks m' (nb_stack T) = blocks m (nb_stack T)"
  shows "nb_words m' T = nb_words m T"
proof (cases "nb_size T = 0")
  case True
  then show ?thesis using assms(1) by (simp add: nb_ok_def nb_words_def)
next
  case False
  then show ?thesis using assms by (simp add: nb_ok_def nb_words_def nb_read_def)
qed

lemma nb_stack_block: "nb_ok m T \<Longrightarrow> nb_stack T \<noteq> 0 \<Longrightarrow> blocks m (nb_stack T) \<noteq> None"
  by (auto simp: nb_ok_def split: if_splits)

subsection \<open>A new thread\<close>

lemma register_member:
  assumes A: "allocator_ok A" and ok: "members_ok env s L ths N" and room: "malloc_at A (mg_mem s) sizeof_M_Thread = th" "th \<noteq> 0"
  shows "\<exists>s'. register_thread A s = Some s' \<and> members_ok env s' L (ths @ [th]) N \<and> th \<notin> set ths \<and> mg_self s' = th \<and>
    root_pins s' (ths @ [th]) N = root_pins s ths N \<and> mg_gc s' = mg_gc s \<and> mg_roots s' = mg_roots s \<and>
    mg_threads s' = (mg_threads s)(th \<mapsto> \<lparr>th_actor = 0, nb_stack = 0, nb_size = 0, nb_top = 0, th_flags = 0\<rparr>) \<and>
    blocks (mg_mem s') = (blocks (mg_mem s))(th \<mapsto> replicate 6 None)"
proof -
  let ?T = "\<lparr>th_actor = 0, nb_stack = 0, nb_size = 0, nb_top = 0, th_flags = 0\<rparr> :: M_Thread"
  let ?m = "(mg_mem s)\<lparr>blocks := (blocks (mg_mem s))(th \<mapsto> replicate 6 None)\<rparr>"
  have al: "gc_size_align sizeof_M_Thread = sizeof_M_Thread" "block_words sizeof_M_Thread = 6"
    by (simp_all add: sizeof_M_Thread_def gc_size_align_def M_ALIGN_UP_def block_words_def)
  have l: "dlist (mg_thread_nodes s) (mg_thread_list s) ths" and bl: "thread_blocks_ok s ths"
    and thr: "\<And>t. t \<in> set ths \<Longrightarrow> \<exists>T. mg_threads s t = Some T \<and> nb_ok (mg_mem s) T"
    using ok by (auto simp: members_ok_def threads_ok_def)
  have new: "blocks (mg_mem s) th = None" using A room by (metis allocator_ok_def)
  then have nin: "th \<notin> set ths" "th \<noteq> mg_thread_list s" using bl by (auto simp: thread_blocks_ok_def)
  let ?h = "(mg_thread_nodes s)(th \<mapsto> \<lparr>l_prev = 0, l_next = 0\<rparr>)"
  have "dlist ?h (mg_thread_list s) ths" using l nin by (simp add: dlist_frame)
  from dlist_append [OF this, of th] obtain nodes where
    n: "m_list_append (mg_thread_list s) th ?h = Some nodes" "dlist nodes (mg_thread_list s) (ths @ [th])"
    using room(2) nin by auto
  define s' where "s' = s\<lparr>mg_mem := ?m, mg_threads := (mg_threads s)(th \<mapsto> ?T), mg_self := th,
    mg_thread_num := mg_thread_num s + 1, mg_thread_nodes := nodes\<rparr>"
  have run: "register_thread A s = Some s'"
    using n room al by (simp add: register_thread_def m_gc_alloc_buf_def m_malloc_def Let_def m_assert_alloc_def s'_def)
  have keep: "mg_threads s' t = mg_threads s t" "nb_ok (mg_mem s') T" "nb_words (mg_mem s') T = nb_words (mg_mem s) T"
    "nb_stack T \<noteq> th"
    if "t \<in> set ths" "mg_threads s t = Some T" for t T
  proof -
    have T: "nb_ok (mg_mem s) T" using thr [OF that(1)] that(2) by auto
    then have "nb_stack T \<noteq> 0 \<Longrightarrow> nb_stack T \<noteq> th" using nb_stack_block [OF T] new by metis
    then have same: "nb_stack T \<noteq> 0 \<Longrightarrow> blocks (mg_mem s') (nb_stack T) = blocks (mg_mem s) (nb_stack T)" by (simp add: s'_def)
    show "nb_ok (mg_mem s') T" "nb_words (mg_mem s') T = nb_words (mg_mem s) T"
      by (rule nb_ok_cong [OF T same], simp, rule nb_words_cong [OF T same], simp)
    show "nb_stack T \<noteq> th" using \<open>nb_stack T \<noteq> 0 \<Longrightarrow> nb_stack T \<noteq> th\<close> room(2) by metis
    show "mg_threads s' t = mg_threads s t" using that(1) nin(1) by (auto simp: s'_def)
  qed
  have T': "mg_threads s' th = Some ?T" "nb_ok (mg_mem s') ?T" "nb_words (mg_mem s') ?T = []"
    by (simp_all add: s'_def nb_ok_def nb_stack_ok_def nb_words_def)
  have fields: "mg_gc s' = mg_gc s" "mg_roots s' = mg_roots s" "mg_thread_nodes s' = nodes" "mg_thread_list s' = mg_thread_list s"
    "mg_self s' = th" "mg_thread_num s' = mg_thread_num s + 1" by (simp_all add: s'_def)
  have pins: "root_pins s' (ths @ [th]) N = root_pins s ths N"
  proof -
    have "nb_words (mg_mem s') (the (mg_threads s' t)) = nb_words (mg_mem s) (the (mg_threads s t))" if "t \<in> set ths" for t
      using thr [OF that] keep(1,3) [OF that] by fastforce
    then show ?thesis using T' by (simp add: root_pins_def fields)
  qed
  have all: "\<exists>T. mg_threads s' t = Some T \<and> nb_ok (mg_mem s') T" if "t \<in> set (ths @ [th])" for t
    using that T' thr [of t] keep(1,2) [of t] by fastforce
  have stack: "nb_stack (the (mg_threads s' t)) = (if t = th then 0 else nb_stack (the (mg_threads s t)))"
    "nb_size (the (mg_threads s' t)) = (if t = th then 0 else nb_size (the (mg_threads s t)))" for t
    by (simp_all add: s'_def)
  have "threads_ok s' (ths @ [th])"
    using n(2) all ok by (auto simp: threads_ok_def fields stack members_ok_def)
  moreover have "ming_ok env s' L (ths @ [th]) N"
    using ok n(2) all pins by (fastforce simp: members_ok_def ming_ok_def roots_ok_def fields nb_ok_def)
  moreover have "thread_blocks_ok s' (ths @ [th])"
  proof -
    have "nb_stack (the (mg_threads s t)) \<noteq> th" if "t \<in> set ths" for t using thr [OF that] keep(4) [OF that] by fastforce
    moreover have "mg_thread_list s \<noteq> 0" "0 \<notin> set ths" using l n(2) by (auto simp: dlist_def)
    ultimately show ?thesis
      using bl room(2) by (auto simp: thread_blocks_ok_def fields stack s'_def)
  qed
  moreover have "mg_thread_num s' = of_nat (length (ths @ [th]))" using ok by (simp add: members_ok_def fields)
  ultimately show ?thesis using run nin(1) pins
    by (intro exI [of _ s']) (simp add: members_ok_def s'_def)
qed

lemma register_fails:
  "malloc_at A (mg_mem s) sizeof_M_Thread = 0 \<Longrightarrow> register_thread A s = None"
  by (simp add: register_thread_def m_gc_alloc_buf_def m_malloc_def Let_def m_assert_alloc_def
      sizeof_M_Thread_def gc_size_align_def M_ALIGN_UP_def)

subsection \<open>A thread that ends\<close>

text \<open>Afterwards one of the other threads runs.\<close>

lemma release_member:
  assumes ok: "members_ok env s L ths N" and th: "th \<in> set ths" "mg_threads s th = Some T"
    and size: "nb_stack T = 0 \<or> unat (nb_size T) mod 2 ^ 29 \<noteq> 0"
  shows "\<exists>s'. release_thread th s = Some s' \<and> (\<forall>u \<in> set ths - {th}. members_ok env (s'\<lparr>mg_self := u\<rparr>) L (remove1 th ths) N) \<and>
    root_pins s' (remove1 th ths) N \<subseteq> root_pins s ths N \<and> mg_gc s' = mg_gc s \<and> mg_roots s' = mg_roots s \<and>
    mg_threads s' = (mg_threads s)(th := None) \<and>
    blocks (mg_mem s') = (\<lambda>a. if a = th \<or> a \<noteq> 0 \<and> a = nb_stack T then None else blocks (mg_mem s) a)"
proof -
  obtain xs ys where xs: "ths = xs @ th # ys" using set_split_ex [OF th(1)] by blast
  have l: "dlist (mg_thread_nodes s) (mg_thread_list s) (xs @ th # ys)" and bl: "thread_blocks_ok s ths" and M: "ming_ok env s L ths N"
    and thr: "\<And>t. t \<in> set ths \<Longrightarrow> \<exists>T. mg_threads s t = Some T \<and> nb_ok (mg_mem s) T"
    and apart: "\<And>t t'. t \<in> set ths \<Longrightarrow> t' \<in> set ths \<Longrightarrow> t \<noteq> t' \<Longrightarrow> nb_size (the (mg_threads s t)) \<noteq> 0 \<Longrightarrow>
      nb_size (the (mg_threads s t')) \<noteq> 0 \<Longrightarrow> nb_stack (the (mg_threads s t)) \<noteq> nb_stack (the (mg_threads s t'))"
    using ok by (auto simp: members_ok_def threads_ok_def xs)
  have d: "th \<notin> set (xs @ ys)" "th \<noteq> 0" using l by (auto simp: dlist_def)
  have rest: "remove1 th ths = xs @ ys" "set ths - {th} = set (xs @ ys)" using d(1) by (auto simp: xs)
  have T: "nb_ok (mg_mem s) T" using thr [OF th(1)] th(2) by auto
  have b: "blocks (mg_mem s) th \<noteq> None" "nb_stack T \<noteq> 0 \<longrightarrow> blocks (mg_mem s) (nb_stack T) \<noteq> None" "nb_stack T \<noteq> th"
    "nb_stack T \<noteq> mg_thread_list s"
    using bl th nb_stack_block [OF T] unfolding thread_blocks_ok_def by force+
  obtain s' where s': "release_thread th s = Some s'" "mg_gc s' = mg_gc s" "mg_roots s' = mg_roots s"
    "mg_threads s' = (mg_threads s)(th := None)" "mg_thread_list s' = mg_thread_list s"
    "dlist (mg_thread_nodes s') (mg_thread_list s) (xs @ ys)" "mg_thread_num s' = mg_thread_num s - 1"
    "blocks (mg_mem s') = (\<lambda>a. if a = th \<or> a \<noteq> 0 \<and> a = nb_stack T then None else blocks (mg_mem s) a)"
    using release_thread_run [OF l th(2) d(2) b(1-3) size] by auto
  have keep: "mg_threads s' t = mg_threads s t" "nb_ok (mg_mem s') U" "nb_words (mg_mem s') U = nb_words (mg_mem s) U"
    if t: "t \<in> set (xs @ ys)" and U: "mg_threads s t = Some U" for t U
  proof -
    have t': "t \<in> set ths" "t \<noteq> th" using t d(1) by (auto simp: xs)
    have ok: "nb_ok (mg_mem s) U" using thr [OF t'(1)] U by auto
    have "nb_stack U \<noteq> nb_stack T" if "nb_stack U \<noteq> 0"
      using apart [OF t'(1) th(1) t'(2)] that ok T U th(2) by (auto simp: nb_ok_def split: if_splits)
    moreover have "nb_stack U \<noteq> th" using bl t'(1) th(1) U by (force simp: thread_blocks_ok_def)
    ultimately have same: "nb_stack U \<noteq> 0 \<Longrightarrow> blocks (mg_mem s') (nb_stack U) = blocks (mg_mem s) (nb_stack U)" by (simp add: s'(8))
    show "nb_ok (mg_mem s') U" "nb_words (mg_mem s') U = nb_words (mg_mem s) U"
      by (rule nb_ok_cong [OF ok same], simp, rule nb_words_cong [OF ok same], simp)
    show "mg_threads s' t = mg_threads s t" using t'(2) by (simp add: s'(4))
  qed
  have all: "\<exists>U. mg_threads s' t = Some U \<and> nb_ok (mg_mem s') U" if "t \<in> set (xs @ ys)" for t
    using thr [of t] keep(1,2) [OF that] that by (fastforce simp: xs)
  have pins: "root_pins s' (xs @ ys) N \<subseteq> root_pins s ths N"
  proof -
    have "nb_words (mg_mem s') (the (mg_threads s' t)) = nb_words (mg_mem s) (the (mg_threads s t))" if "t \<in> set (xs @ ys)" for t
      using thr [of t] keep(1,3) [OF that] that by (fastforce simp: xs)
    then show ?thesis by (auto simp: root_pins_def s'(3) xs)
  qed
  have "members_ok env (s'\<lparr>mg_self := u\<rparr>) L (xs @ ys) N" if u: "u \<in> set (xs @ ys)" for u
  proof -
    have same: "root_pins (s'\<lparr>mg_self := u\<rparr>) (xs @ ys) N = root_pins s' (xs @ ys) N" by (simp add: root_pins_def)
    have sub: "\<And>t. t \<in> set (xs @ ys) \<Longrightarrow> t \<in> set ths \<and> t \<noteq> th" using d(1) by (auto simp: xs)
    have "threads_ok (s'\<lparr>mg_self := u\<rparr>) (xs @ ys)"
      using s'(5,6) all u apart sub by (simp add: threads_ok_def s'(4))
    moreover have "ming_ok env (s'\<lparr>mg_self := u\<rparr>) L (xs @ ys) N"
      using M pins all s'(2,3,5,6) unfolding ming_ok_def roots_ok_def same by (fastforce simp: nb_ok_def)
    moreover have "thread_blocks_ok (s'\<lparr>mg_self := u\<rparr>) (xs @ ys)"
    proof -
      have "blocks (mg_mem s') a \<noteq> None" if "a = mg_thread_list s \<or> a \<in> set (xs @ ys)" for a
        using that bl b(4) th sub l unfolding thread_blocks_ok_def s'(8) by (force simp: dlist_def xs)
      moreover have "nb_stack (the (mg_threads s t)) \<notin> insert (mg_thread_list s) (set (xs @ ys))" if "t \<in> set (xs @ ys)" for t
        using bl sub that unfolding thread_blocks_ok_def by blast
      moreover have "mg_threads s' t = mg_threads s t" if "t \<in> set (xs @ ys)" for t using sub [OF that] by (simp add: s'(4))
      ultimately show ?thesis unfolding thread_blocks_ok_def by (simp add: s'(5))
    qed
    moreover have "mg_thread_num s' = of_nat (length (xs @ ys))"
      using ok by (simp add: members_ok_def s'(7) xs)
    ultimately show ?thesis by (simp add: members_ok_def)
  qed
  then show ?thesis using s' pins by (intro exI [of _ s']) (simp add: rest)
qed

end
