(* ===== verification/Thread.thy ===== *)
theory Thread
  imports Ming_Prelude
begin

text \<open>
  Stopping and resuming threads, \<open>src/m_thread.c\<close>. A definition is one critical section of
  \<open>m_gc_lock\<close>: it runs without interleaving, and \<open>pthread_cond_wait\<close> ends it. The
  step relation \<open>tstep\<close> interleaves the sections of all threads. Waiting for
  \<open>thread_resume_cond\<close> is a guard, since that condition is broadcast whenever it may hold;
  waiting for \<open>thread_pause_cond\<close> is a state of its own, since it is signalled by some of the
  threads only. Threads are numbered, thread 0 is the main thread.
\<close>

subsection \<open>State\<close>

text \<open>\<open>Registering\<close>: in the first \<open>m_thread_enter\<close>, between the two critical sections.
  \<open>Leaving\<close>: in \<open>m_thread_leave\<close> before the signal. \<open>Stopping\<close>, \<open>StopWait\<close>: in
  the loop of \<open>m_thread_pause_all\<close>, before the test and asleep.\<close>

datatype tpc = Outside | Registering | Running | Leaving | Left | Checking | Stopping | StopWait | Collecting | Gone

record tsys =
  t_pc :: "nat \<Rightarrow> tpc"
  t_paused :: "nat \<Rightarrow> bool"
  m_thread_num :: "32 word"
  m_paused_thread_num :: "32 word"
  thread_pause_flag :: bool
  gc_thread :: "nat option"

definition set_pc :: "nat \<Rightarrow> tpc \<Rightarrow> tsys \<Rightarrow> tsys" where
  "set_pc t x s = s\<lparr>t_pc := (t_pc s)(t := x)\<rparr>"

subsection \<open>Critical sections\<close>

definition set_paused :: "nat \<Rightarrow> tsys \<Rightarrow> tsys" where
  "set_paused t s = s\<lparr>m_paused_thread_num := m_paused_thread_num s + 1, t_paused := (t_paused s)(t := True)\<rparr>"

definition clear_paused :: "nat \<Rightarrow> tsys \<Rightarrow> tsys" where
  "clear_paused t s = s\<lparr>m_paused_thread_num := m_paused_thread_num s - 1, t_paused := (t_paused s)(t := False)\<rparr>"

text \<open>\<open>pthread_cond_signal\<close> on \<open>thread_pause_cond\<close>: at most the collector waits there.\<close>

definition signal_pause :: "tsys \<Rightarrow> tsys" where
  "signal_pause s = s\<lparr>t_pc := (\<lambda>t. if t_pc s t = StopWait then Stopping else t_pc s t)\<rparr>"

text \<open>\<open>gc_collect_objs\<close> with \<open>m_thread_pause_all\<close>, up to the test of its loop.\<close>

definition m_thread_pause_all :: "nat \<Rightarrow> tsys \<Rightarrow> tsys option" where
  "m_thread_pause_all t s = do {
     c_assert (\<not> t_paused s t);
     Some (set_pc t Stopping (set_paused t (s\<lparr>gc_thread := Some t, thread_pause_flag := True\<rparr>))) }"

definition pause_all_test :: "nat \<Rightarrow> tsys \<Rightarrow> tsys" where
  "pause_all_test t s =
     set_pc t (if m_thread_num s \<noteq> m_paused_thread_num s then StopWait else Collecting) s"

text \<open>\<open>m_thread_resume_all\<close> and the end of \<open>gc_collect_objs\<close>.\<close>

definition m_thread_resume_all :: "nat \<Rightarrow> tsys \<Rightarrow> tsys option" where
  "m_thread_resume_all t s = do {
     c_assert (t_paused s t);
     Some (set_pc t Running (clear_paused t (s\<lparr>thread_pause_flag := False, gc_thread := None\<rparr>))) }"

text \<open>\<open>m_thread_leave\<close>; the signal is sent after the lock has been released.\<close>

definition m_thread_leave :: "nat \<Rightarrow> tsys \<Rightarrow> tsys option" where
  "m_thread_leave t s = do {
     c_assert (\<not> t_paused s t);
     Some (set_pc t Leaving (set_paused t s)) }"

definition leave_signal :: "nat \<Rightarrow> tsys \<Rightarrow> tsys" where
  "leave_signal t s = signal_pause (set_pc t Left s)"

text \<open>\<open>m_thread_enter\<close> after its loop: a thread without data releases the lock and goes on to
  \<open>thread_register\<close>.\<close>

definition m_thread_enter :: "nat \<Rightarrow> tsys \<Rightarrow> tsys option" where
  "m_thread_enter t s =
     (if t_pc s t = Outside then Some (set_pc t Registering s)
      else do {
        c_assert (t_paused s t);
        Some (set_pc t Running (clear_paused t s)) })"

definition thread_register :: "nat \<Rightarrow> tsys \<Rightarrow> tsys" where
  "thread_register t s =
     set_pc t Running (s\<lparr>m_thread_num := m_thread_num s + 1, t_paused := (t_paused s)(t := False)\<rparr>)"

text \<open>\<open>m_thread_check_nl\<close> up to its wait, and after it.\<close>

definition m_thread_check_nl :: "nat \<Rightarrow> tsys \<Rightarrow> tsys option" where
  "m_thread_check_nl t s = do {
     c_assert (\<not> t_paused s t);
     Some (if thread_pause_flag s then signal_pause (set_pc t Checking (set_paused t s)) else s) }"

definition check_resume :: "nat \<Rightarrow> tsys \<Rightarrow> tsys" where
  "check_resume t s = set_pc t Running (clear_paused t s)"

text \<open>The end of a thread; there is no signal.\<close>

definition thread_key_destructor :: "nat \<Rightarrow> tsys \<Rightarrow> tsys" where
  "thread_key_destructor t s =
     (let s' = s\<lparr>m_thread_num := m_thread_num s - 1\<rparr> in
      set_pc t Gone (if t_paused s t then s'\<lparr>m_paused_thread_num := m_paused_thread_num s' - 1\<rparr> else s'))"

text \<open>\<open>m_thread_startup\<close> registers the main thread.\<close>

definition m_thread_startup :: tsys where
  "m_thread_startup = thread_register 0 \<lparr>t_pc = (\<lambda>_. Outside), t_paused = (\<lambda>_. False), m_thread_num = 0,
     m_paused_thread_num = 0, thread_pause_flag = False, gc_thread = None\<rparr>"

subsection \<open>Interleaving\<close>

text \<open>The label marks the steps that change the number of threads. \<open>wake\<close> is a spurious
  wakeup.\<close>

datatype tlabel = Plain | Register | Exit

inductive tstep :: "tlabel \<Rightarrow> tsys \<Rightarrow> tsys \<Rightarrow> bool" where
  start: "t_pc s t = Running \<Longrightarrow> gc_thread s = None \<Longrightarrow> m_thread_pause_all t s = Some s' \<Longrightarrow> tstep Plain s s'"
| test: "t_pc s t = Stopping \<Longrightarrow> tstep Plain s (pause_all_test t s)"
| finish: "t_pc s t = Collecting \<Longrightarrow> m_thread_resume_all t s = Some s' \<Longrightarrow> tstep Plain s s'"
| leave: "t_pc s t = Running \<Longrightarrow> m_thread_leave t s = Some s' \<Longrightarrow> tstep Plain s s'"
| leave2: "t_pc s t = Leaving \<Longrightarrow> tstep Plain s (leave_signal t s)"
| enter: "t_pc s t = Outside \<or> t_pc s t = Left \<Longrightarrow> \<not> thread_pause_flag s \<Longrightarrow> m_thread_enter t s = Some s' \<Longrightarrow>
    tstep Plain s s'"
| register: "t_pc s t = Registering \<Longrightarrow> tstep Register s (thread_register t s)"
| check: "t_pc s t = Running \<Longrightarrow> m_thread_check_nl t s = Some s' \<Longrightarrow> tstep Plain s s'"
| check2: "t_pc s t = Checking \<Longrightarrow> \<not> thread_pause_flag s \<Longrightarrow> tstep Plain s (check_resume t s)"
| wake: "t_pc s t = StopWait \<Longrightarrow> tstep Plain s (set_pc t Stopping s)"
| exit: "t_pc s t = Running \<or> t_pc s t = Left \<Longrightarrow> tstep Exit s (thread_key_destructor t s)"

text \<open>A run all of whose steps satisfy \<open>ok\<close>.\<close>

inductive treach :: "(tlabel \<Rightarrow> tsys \<Rightarrow> bool) \<Rightarrow> tsys \<Rightarrow> tsys \<Rightarrow> bool" for ok where
  refl: "treach ok s s"
| step: "treach ok s s' \<Longrightarrow> tstep l s' s'' \<Longrightarrow> ok l s' \<Longrightarrow> treach ok s s''"

inductive_cases tstepE: "tstep l s s'"

subsection \<open>The invariant\<close>

fun registered :: "tpc \<Rightarrow> bool" where
  "registered Outside = False"
| "registered Registering = False"
| "registered Gone = False"
| "registered _ = True"

fun collector :: "tpc \<Rightarrow> bool" where
  "collector Stopping = True"
| "collector StopWait = True"
| "collector Collecting = True"
| "collector _ = False"

definition halted :: "tpc \<Rightarrow> bool" where
  "halted x \<longleftrightarrow> registered x \<and> x \<noteq> Running"

definition count :: "(tpc \<Rightarrow> bool) \<Rightarrow> tsys \<Rightarrow> nat" where
  "count f s = card {t. f (t_pc s t)}"

definition tinv :: "tsys \<Rightarrow> bool" where
  "tinv s \<longleftrightarrow> finite {t. registered (t_pc s t)} \<and>
     m_thread_num s = of_nat (count registered s) \<and> m_paused_thread_num s = of_nat (count halted s) \<and>
     (\<forall>t. t_paused s t \<longrightarrow> t_pc s t = Gone \<or> halted (t_pc s t)) \<and> (\<forall>t. halted (t_pc s t) \<longrightarrow> t_paused s t) \<and>
     (\<forall>t. collector (t_pc s t) \<longleftrightarrow> gc_thread s = Some t) \<and>
     (thread_pause_flag s \<longleftrightarrow> gc_thread s \<noteq> None)"

lemma halted_simps [simp]:
  "halted Outside = False" "halted Registering = False" "halted Running = False" "halted Gone = False"
  "halted Leaving" "halted Left" "halted Checking" "halted Stopping" "halted StopWait" "halted Collecting"
  by (simp_all add: halted_def)

lemma collector_halted: "collector x \<Longrightarrow> halted x" by (cases x) simp_all
lemma halted_registered: "halted x \<Longrightarrow> registered x" by (simp add: halted_def)

lemma set_pc_simps [simp]:
  "t_pc (set_pc t x s) = (t_pc s)(t := x)" "t_paused (set_pc t x s) = t_paused s"
  "m_thread_num (set_pc t x s) = m_thread_num s" "m_paused_thread_num (set_pc t x s) = m_paused_thread_num s"
  "thread_pause_flag (set_pc t x s) = thread_pause_flag s" "gc_thread (set_pc t x s) = gc_thread s"
  by (simp_all add: set_pc_def)

lemma pc_set_upd:
  "{u. f (((t_pc s)(t := x)) u)} = (if f x then insert t {u. f (t_pc s u)} else {u. f (t_pc s u)} - {t})"
  by auto

text \<open>How the two counts change when one thread moves.\<close>

lemma count_upd:
  assumes "finite {u. f (t_pc s u)}" "t_pc s' = (t_pc s)(t := x)"
  shows "(of_nat (count f s') :: 32 word) =
    of_nat (count f s) + (if f x then 1 else 0) - (if f (t_pc s t) then 1 else 0)"
proof -
  define S where "S = {u. f (t_pc s u)}"
  have c: "count f s' = card (if f x then insert t S else S - {t})"
    unfolding count_def assms(2) pc_set_upd S_def ..
  have fin: "finite S" and mem: "t \<in> S \<longleftrightarrow> f (t_pc s t)" and c0: "count f s = card S"
    using assms(1) by (simp_all add: S_def count_def)
  show ?thesis
  proof (cases "t \<in> S")
    case True
    then have "insert t S = S" "card S = Suc (card (S - {t}))" by (blast, rule card.remove [OF fin])
    then show ?thesis using True mem unfolding c c0
      by (cases "f x") (simp_all del: card_Diff_singleton card_Diff_insert)
  next
    case False
    then show ?thesis using mem fin unfolding c c0 by (cases "f x") simp_all
  qed
qed

lemma halted_finite: "finite {u. registered (t_pc s u)} \<Longrightarrow> finite {u. halted (t_pc s u)}"
  by (rule finite_subset [rotated]) (auto simp: halted_def)

text \<open>A step of one thread keeps the invariant when the counters follow its move.\<close>

lemma tinv_move:
  assumes inv: "tinv s" and pc: "t_pc s' = (t_pc s)(t := x)"
    and n: "m_thread_num s' = m_thread_num s + (if registered x then 1 else 0) - (if registered (t_pc s t) then 1 else 0)"
    and p: "m_paused_thread_num s' = m_paused_thread_num s + (if halted x then 1 else 0) - (if halted (t_pc s t) then 1 else 0)"
    and fl: "\<And>u. u \<noteq> t \<Longrightarrow> t_paused s' u = t_paused s u" "t_paused s' t \<Longrightarrow> x = Gone \<or> halted x" "halted x \<Longrightarrow> t_paused s' t"
    and gc: "\<And>u. collector (t_pc s' u) \<longleftrightarrow> gc_thread s' = Some u" "thread_pause_flag s' \<longleftrightarrow> gc_thread s' \<noteq> None"
  shows "tinv s'"
proof -
  have fin: "finite {u. registered (t_pc s u)}" using inv by (simp add: tinv_def)
  have "finite {u. registered (t_pc s' u)}" unfolding pc pc_set_upd using fin by simp
  moreover have "m_thread_num s' = of_nat (count registered s')"
    unfolding count_upd [OF fin pc] n using inv by (simp add: tinv_def)
  moreover have "m_paused_thread_num s' = of_nat (count halted s')"
    unfolding count_upd [OF halted_finite [OF fin] pc] p using inv by (simp add: tinv_def)
  moreover have "t_pc s' u = Gone \<or> halted (t_pc s' u)" if "t_paused s' u" for u
    using that fl inv by (cases "u = t") (auto simp: pc tinv_def)
  moreover have "t_paused s' u" if "halted (t_pc s' u)" for u
    using that fl inv by (cases "u = t") (auto simp: pc tinv_def)
  ultimately show ?thesis using gc by (simp add: tinv_def)
qed

text \<open>The common case, the collector not being involved.\<close>

lemma tinv_move_other:
  assumes inv: "tinv s" and pc: "t_pc s' = (t_pc s)(t := x)"
    and n: "m_thread_num s' = m_thread_num s + (if registered x then 1 else 0) - (if registered (t_pc s t) then 1 else 0)"
    and p: "m_paused_thread_num s' = m_paused_thread_num s + (if halted x then 1 else 0) - (if halted (t_pc s t) then 1 else 0)"
    and fl: "\<And>u. u \<noteq> t \<Longrightarrow> t_paused s' u = t_paused s u" "t_paused s' t \<Longrightarrow> x = Gone \<or> halted x" "halted x \<Longrightarrow> t_paused s' t"
    and same: "collector x = collector (t_pc s t)" "gc_thread s' = gc_thread s" "thread_pause_flag s' = thread_pause_flag s"
  shows "tinv s'"
proof (rule tinv_move [OF inv pc n p fl])
  show "collector (t_pc s' u) \<longleftrightarrow> gc_thread s' = Some u" for u
    using inv same by (cases "u = t") (simp_all add: pc tinv_def)
qed (use inv same in \<open>simp_all add: tinv_def\<close>)

lemma signal_pause_simps [simp]:
  "registered (t_pc (signal_pause s) t) = registered (t_pc s t)" "halted (t_pc (signal_pause s) t) = halted (t_pc s t)"
  "collector (t_pc (signal_pause s) t) = collector (t_pc s t)" "t_pc (signal_pause s) t = Gone \<longleftrightarrow> t_pc s t = Gone"
  "t_pc (signal_pause s) t = Running \<longleftrightarrow> t_pc s t = Running"
  "t_pc (signal_pause s) t = Collecting \<longleftrightarrow> t_pc s t = Collecting"
  "t_paused (signal_pause s) = t_paused s" "m_thread_num (signal_pause s) = m_thread_num s"
  "m_paused_thread_num (signal_pause s) = m_paused_thread_num s" "gc_thread (signal_pause s) = gc_thread s"
  "thread_pause_flag (signal_pause s) = thread_pause_flag s"
  by (auto simp: signal_pause_def)

lemma signal_pause_inv: "tinv s \<Longrightarrow> tinv (signal_pause s)"
  by (simp add: tinv_def count_def)

lemma tinv_flags:
  "tinv s \<Longrightarrow> t_paused s t \<Longrightarrow> t_pc s t = Gone \<or> halted (t_pc s t)" "tinv s \<Longrightarrow> halted (t_pc s t) \<Longrightarrow> t_paused s t"
  by (simp_all add: tinv_def)

lemma tstep_inv: "tstep l s s' \<Longrightarrow> tinv s \<Longrightarrow> tinv s'"
proof (induction rule: tstep.induct)
  case (start s t s')
  then show ?case
    by (intro tinv_move [OF start.prems, of s' t Stopping])
      (auto simp: m_thread_pause_all_def set_paused_def tinv_def bind_eq_Some_conv split: if_splits)
next
  case (test s t)
  then show ?case
    by (intro tinv_move [OF test.prems, of _ t]) (auto simp: pause_all_test_def tinv_def split: if_splits)
next
  case (finish s t s')
  have "collector (t_pc s u) \<longleftrightarrow> u = t" for u
    using finish.prems finish.hyps(1) unfolding tinv_def by (metis collector.simps(3) option.inject)
  then have "\<not> collector (t_pc s u)" if "u \<noteq> t" for u using that by simp
  then show ?case using finish
    by (intro tinv_move [OF finish.prems, of s' t Running])
      (auto simp: m_thread_resume_all_def clear_paused_def tinv_def bind_eq_Some_conv split: if_splits)
next
  case (leave s t s')
  then show ?case
    by (intro tinv_move_other [OF leave.prems, of s' t Leaving])
      (auto simp: m_thread_leave_def set_paused_def bind_eq_Some_conv)
next
  case (leave2 s t)
  have "tinv (set_pc t Left s)" using leave2 tinv_flags [OF leave2.prems, of t]
    by (intro tinv_move_other [OF leave2.prems, of _ t Left]) (auto)
  then show ?case by (simp add: leave_signal_def signal_pause_inv)
next
  case (enter s t s')
  show ?case
  proof (cases "t_pc s t = Outside")
    case True
    then show ?thesis using enter tinv_flags [OF enter.prems, of t]
      by (intro tinv_move_other [OF enter.prems, of s' t Registering]) (auto simp: m_thread_enter_def )
  next
    case False
    then show ?thesis using enter tinv_flags [OF enter.prems, of t]
      by (intro tinv_move_other [OF enter.prems, of s' t Running])
        (auto simp: m_thread_enter_def clear_paused_def bind_eq_Some_conv)
  qed
next
  case (register s t)
  then show ?case using tinv_flags [OF register.prems, of t]
    by (intro tinv_move_other [OF register.prems, of _ t Running])
      (auto simp: thread_register_def )
next
  case (check s t s')
  have "tinv (set_pc t Checking (set_paused t s))" using check tinv_flags [OF check.prems, of t]
    by (intro tinv_move_other [OF check.prems, of _ t Checking])
      (auto simp: m_thread_check_nl_def set_paused_def bind_eq_Some_conv)
  then show ?case using check tinv_flags [OF check.prems, of t]
    by (auto simp: m_thread_check_nl_def bind_eq_Some_conv signal_pause_inv split: if_splits)
next
  case (check2 s t)
  then show ?case using tinv_flags [OF check2.prems, of t]
    by (intro tinv_move_other [OF check2.prems, of _ t Running])
      (auto simp: check_resume_def clear_paused_def )
next
  case (wake s t)
  then show ?case using tinv_flags [OF wake.prems, of t]
    by (intro tinv_move_other [OF wake.prems, of _ t Stopping]) (auto)
next
  case (exit s t)
  then show ?case using tinv_flags [OF exit.prems, of t]
    by (intro tinv_move_other [OF exit.prems, of _ t Gone])
      (auto simp: thread_key_destructor_def Let_def )
qed

subsection \<open>Stopping the world\<close>

lemma startup_inv: "tinv m_thread_startup"
proof -
  have "{t. registered (t_pc m_thread_startup t)} = {0}" "{t. halted (t_pc m_thread_startup t)} = {}"
    by (auto simp: m_thread_startup_def thread_register_def)
  moreover have "collector (t_pc m_thread_startup t) \<longleftrightarrow> gc_thread m_thread_startup = Some t"
    "halted (t_pc m_thread_startup t) \<longleftrightarrow> t_paused m_thread_startup t" for t
    by (simp_all add: m_thread_startup_def thread_register_def)
  ultimately show ?thesis
    by (simp add: tinv_def count_def) (simp add: m_thread_startup_def thread_register_def)
qed

lemma treach_inv: "treach ok s s' \<Longrightarrow> tinv s \<Longrightarrow> tinv s'"
  by (induction rule: treach.induct) (auto intro: tstep_inv)

text \<open>No thread registers while the world is being stopped, nor when the counter would wrap.\<close>

definition quiet :: "tlabel \<Rightarrow> tsys \<Rightarrow> bool" where
  "quiet l s \<longleftrightarrow> (l = Register \<longrightarrow> \<not> thread_pause_flag s \<and> m_thread_num s \<noteq> - 1)"

definition stopped :: "tsys \<Rightarrow> bool" where
  "stopped s \<longleftrightarrow> (\<forall>t u. t_pc s t = Collecting \<longrightarrow> t_pc s u \<noteq> Running)"

text \<open>Equal counters mean that no thread runs, as long as they have not wrapped.\<close>

lemma counts_equal:
  assumes inv: "tinv s" and b: "count registered s < 2 ^ 32" and eq: "m_thread_num s = m_paused_thread_num s"
  shows "t_pc s u \<noteq> Running"
proof -
  have fin: "finite {t. registered (t_pc s t)}" using inv by (simp add: tinv_def)
  have sub: "{t. halted (t_pc s t)} \<subseteq> {t. registered (t_pc s t)}" by (auto simp: halted_def)
  have "count halted s \<le> count registered s" unfolding count_def by (rule card_mono [OF fin sub])
  moreover have "unat (of_nat (count registered s) :: 32 word) = unat (of_nat (count halted s) :: 32 word)"
    using inv eq unfolding tinv_def by metis
  ultimately have "count halted s = count registered s" using b by (simp add: unsigned_of_nat take_bit_eq_mod)
  then have "{t. halted (t_pc s t)} = {t. registered (t_pc s t)}"
    unfolding count_def by (intro card_subset_eq [OF fin sub])
  then show ?thesis by (metis halted_simps(3) mem_Collect_eq registered.simps(4))
qed

lemmas section_defs = m_thread_pause_all_def set_paused_def pause_all_test_def m_thread_resume_all_def
  clear_paused_def m_thread_leave_def leave_signal_def m_thread_enter_def m_thread_check_nl_def
  check_resume_def thread_key_destructor_def thread_register_def Let_def bind_eq_Some_conv

lemma tinv_collector: "tinv s \<Longrightarrow> collector (t_pc s t) \<Longrightarrow> collector (t_pc s u) \<Longrightarrow> t = u"
  by (simp add: tinv_def)

lemma tinv_pause: "tinv s \<Longrightarrow> collector (t_pc s t) \<Longrightarrow> thread_pause_flag s"
  by (simp add: tinv_def)

lemma count_le:
  "finite {t. f (t_pc s t)} \<Longrightarrow> (\<And>u. f (t_pc s' u) \<Longrightarrow> f (t_pc s u)) \<Longrightarrow> count f s' \<le> count f s"
  unfolding count_def by (rule card_mono) auto

lemma tstep_registered: "tstep l s s' \<Longrightarrow> tinv s \<Longrightarrow> l \<noteq> Register \<Longrightarrow> registered (t_pc s' u) \<Longrightarrow> registered (t_pc s u)"
  by (induction rule: tstep.induct)
    (auto simp: section_defs split: if_splits)

text \<open>A step enters \<open>Collecting\<close> only by the test, and \<open>Running\<close> only while no thread
  collects.\<close>

lemma tstep_collecting:
  "tstep l s s' \<Longrightarrow> t_pc s' t = Collecting \<Longrightarrow>
   t_pc s t = Collecting \<or> (m_thread_num s = m_paused_thread_num s \<and> (\<forall>u. u \<noteq> t \<longrightarrow> t_pc s' u = t_pc s u))"
  by (induction rule: tstep.induct) (auto simp: section_defs split: if_splits)

lemma tstep_running:
  "tstep l s s' \<Longrightarrow> t_pc s' u = Running \<Longrightarrow>
   t_pc s u = Running \<or> (t_pc s u = Collecting \<and> (\<forall>t. t \<noteq> u \<longrightarrow> t_pc s' t = t_pc s t)) \<or>
   (\<not> thread_pause_flag s \<and> (\<forall>t. t_pc s' t = Collecting \<longrightarrow> t_pc s t = Collecting)) \<or> l = Register"
  by (induction rule: tstep.induct) (auto simp: section_defs split: if_splits)

lemma tstep_stopped:
  assumes "tstep l s s'" "tinv s" "count registered s < 2 ^ 32" "stopped s" "quiet l s"
  shows "stopped s'"
  unfolding stopped_def
proof (intro allI impI notI)
  fix t u assume c: "t_pc s' t = Collecting" and run: "t_pc s' u = Running"
  have none: False if "t_pc s t = Collecting" "\<not> thread_pause_flag s"
    using that tinv_pause [OF assms(2), of t] by simp
  from tstep_collecting [OF assms(1) c] show False
  proof
    assume old: "t_pc s t = Collecting"
    then have "l \<noteq> Register" using none assms(5) by (auto simp: quiet_def)
    with tstep_running [OF assms(1) run] old none assms(4) obtain "t_pc s u = Collecting" "\<forall>v. v \<noteq> u \<longrightarrow> t_pc s' v = t_pc s v"
      by (auto simp: stopped_def)
    with tinv_collector [OF assms(2), of t u] old run c show False by simp
  next
    assume eq: "m_thread_num s = m_paused_thread_num s \<and> (\<forall>v. v \<noteq> t \<longrightarrow> t_pc s' v = t_pc s v)"
    with counts_equal [OF assms(2,3), of u] c run show False by (cases "u = t") auto
  qed
qed

lemma tstep_count:
  assumes "tstep l s s'" "tinv s" "count registered s < 2 ^ 32" "quiet l s"
  shows "count registered s' < 2 ^ 32"
proof (cases "l = Register")
  case False
  then have "count registered s' \<le> count registered s"
    using tstep_registered [OF assms(1,2)] assms(2) by (intro count_le) (auto simp: tinv_def)
  then show ?thesis using assms(3) by simp
next
  case True
  then have "m_thread_num s \<noteq> - 1" using assms(4) by (simp add: quiet_def)
  then have "count registered s \<noteq> 2 ^ 32 - 1" using assms(2) by (auto simp: tinv_def)
  moreover obtain t where pc: "t_pc s' = (t_pc s)(t := Running)"
    using assms(1) True by cases (auto simp: thread_register_def)
  have "count registered s' = card (insert t {u. registered (t_pc s u)})"
    unfolding count_def pc pc_set_upd by simp
  then have "count registered s' \<le> Suc (count registered s)"
    using assms(2) by (simp add: tinv_def count_def card_insert_if)
  ultimately show ?thesis using assms(3) by simp
qed

lemma treach_stopped:
  assumes "treach quiet s s'" "tinv s" "count registered s < 2 ^ 32" "stopped s"
  shows "tinv s' \<and> count registered s' < 2 ^ 32 \<and> stopped s'"
  using assms
proof (induction rule: treach.induct)
  case (step s s' s'' l)
  then show ?case using tstep_inv tstep_count tstep_stopped by blast
qed simp

lemma startup_stopped: "count registered m_thread_startup < 2 ^ 32" "stopped m_thread_startup"
proof -
  have "{t. registered (t_pc m_thread_startup t)} = {0}"
    by (auto simp: m_thread_startup_def thread_register_def)
  then show "count registered m_thread_startup < 2 ^ 32" by (simp add: count_def)
  show "stopped m_thread_startup" by (simp add: stopped_def m_thread_startup_def thread_register_def)
qed

lemma startup_simps [simp]:
  "t_pc m_thread_startup = (\<lambda>_. Outside)(0 := Running)" "t_paused m_thread_startup = (\<lambda>_. False)"
  "m_thread_num m_thread_startup = 1" "m_paused_thread_num m_thread_startup = 0"
  "\<not> thread_pause_flag m_thread_startup" "gc_thread m_thread_startup = None"
  by (auto simp: m_thread_startup_def thread_register_def)

subsection \<open>Waking the collector\<close>

text \<open>Besides, no thread ends while the world is being stopped.\<close>

definition orderly :: "tlabel \<Rightarrow> tsys \<Rightarrow> bool" where
  "orderly l s \<longleftrightarrow> quiet l s \<and> (l = Exit \<longrightarrow> \<not> thread_pause_flag s)"

text \<open>A collector that sleeps although every thread has stopped is about to be signalled.\<close>

definition alert :: "tsys \<Rightarrow> bool" where
  "alert s \<longleftrightarrow> (\<forall>t. t_pc s t = StopWait \<longrightarrow> m_thread_num s = m_paused_thread_num s \<longrightarrow> (\<exists>u. t_pc s u = Leaving))"

lemma signal_no_wait [simp]: "t_pc (signal_pause s) t \<noteq> StopWait"
  by (simp add: signal_pause_def)

lemma collector_thread:
  assumes "tinv s"
  shows "t_pc s t = Stopping \<Longrightarrow> gc_thread s = Some t" "t_pc s t = StopWait \<Longrightarrow> gc_thread s = Some t"
    "t_pc s t = Collecting \<Longrightarrow> gc_thread s = Some t"
  using assms unfolding tinv_def by (metis collector.simps)+

lemma tstep_waiting:
  "tstep l s s' \<Longrightarrow> t_pc s' t = StopWait \<Longrightarrow> tinv s \<Longrightarrow> orderly l s \<Longrightarrow>
   (\<exists>u. t_pc s' u = Leaving) \<or> s' = s \<or> m_thread_num s' \<noteq> m_paused_thread_num s'"
proof (induction rule: tstep.induct)
  case (start s u s')
  then show ?case using collector_thread(2) [OF start.prems(2), of t] by (auto simp: section_defs split: if_splits)
next
  case (test s u)
  then show ?case using collector_thread(2) [OF test.prems(2), of t] collector_thread(1) [OF test.prems(2), of u]
    by (auto simp: section_defs split: if_splits)
next
  case (finish s u s')
  then show ?case using collector_thread(2) [OF finish.prems(2), of t] collector_thread(3) [OF finish.prems(2), of u]
    by (auto simp: section_defs split: if_splits)
next
  case (leave s u s')
  then show ?case by (intro disjI1 exI [of _ u]) (auto simp: section_defs)
next
  case (wake s u)
  then show ?case using collector_thread(2) [OF wake.prems(2), of t] collector_thread(2) [OF wake.prems(2), of u]
    by (auto split: if_splits)
next
  case (check s u s')
  then show ?case by (auto simp: m_thread_check_nl_def bind_eq_Some_conv split: if_splits)
next
  case (exit s u)
  then show ?case using tinv_pause [OF exit.prems(2), of t]
    by (auto simp: section_defs orderly_def split: if_splits)
qed (use tinv_pause [of _ t] in \<open>auto simp: section_defs orderly_def quiet_def split: if_splits\<close>)

lemma treach_mono: "treach ok s s' \<Longrightarrow> (\<And>l s. ok l s \<Longrightarrow> ok' l s) \<Longrightarrow> treach ok' s s'"
  by (induction rule: treach.induct) (auto intro: treach.intros)

lemma treach_alert:
  assumes "treach orderly s s'" "tinv s" "alert s"
  shows "alert s'"
  using assms
proof (induction rule: treach.induct)
  case (step s s' s'' l)
  have "tinv s'" using step by (intro treach_inv [OF step.hyps(1)])
  moreover have "alert s'" by (rule step.IH [OF step.prems])
  ultimately show ?case using tstep_waiting [OF step.hyps(2) _ _ step.hyps(3)]
    unfolding alert_def by metis
qed

subsection \<open>Two threads\<close>

text \<open>Thread 1 has entered; then the main thread starts a collection and sleeps.\<close>

definition two_threads :: tsys where
  "two_threads = thread_register 1 (set_pc 1 Registering m_thread_startup)"

definition waiting_main :: tsys where
  "waiting_main = set_pc 0 StopWait (set_paused 0 (two_threads\<lparr>gc_thread := Some 0, thread_pause_flag := True\<rparr>))"

lemma two_threads_reach: "ok Plain m_thread_startup \<Longrightarrow> ok Register (set_pc 1 Registering m_thread_startup) \<Longrightarrow>
    treach ok m_thread_startup two_threads"
  unfolding two_threads_def
  by (rule treach.step [OF treach.step [OF treach.refl tstep.enter [of _ 1]] tstep.register [of _ 1]])
    (simp_all add: m_thread_enter_def)

lemma collect_step_reach:
  assumes "treach ok m_thread_startup s" "\<And>s. ok Plain s"
    "t_pc s t = Running" "gc_thread s = None" "\<not> t_paused s t"
  shows "treach ok m_thread_startup (pause_all_test t (set_pc t Stopping (set_paused t (s\<lparr>gc_thread := Some t, thread_pause_flag := True\<rparr>))))"
proof (rule treach.step [OF treach.step [OF assms(1) tstep.start]])
  show "m_thread_pause_all t s = Some (set_pc t Stopping (set_paused t (s\<lparr>gc_thread := Some t, thread_pause_flag := True\<rparr>)))"
    using assms(5) by (simp add: m_thread_pause_all_def)
qed (use assms in \<open>auto intro: tstep.test\<close>)

lemma waiting_main_reach:
  assumes "\<And>s. ok Plain s" "ok Register (set_pc 1 Registering m_thread_startup)"
  shows "treach ok m_thread_startup waiting_main"
proof -
  have w: "waiting_main = pause_all_test 0 (set_pc 0 Stopping (set_paused 0 (two_threads\<lparr>gc_thread := Some 0, thread_pause_flag := True\<rparr>)))"
    by (simp add: waiting_main_def pause_all_test_def set_pc_def set_paused_def two_threads_def thread_register_def)
  show ?thesis unfolding w
    by (rule collect_step_reach [OF two_threads_reach [of ok, OF assms] assms(1)])
      (simp_all add: two_threads_def thread_register_def)
qed

lemma two_threads_simps [simp]:
  "t_pc two_threads = (\<lambda>_. Outside)(0 := Running, 1 := Running)" "t_paused two_threads = (\<lambda>_. False)"
  "m_thread_num two_threads = 2" "m_paused_thread_num two_threads = 0" "\<not> thread_pause_flag two_threads"
  "gc_thread two_threads = None"
  by (auto simp: two_threads_def thread_register_def)

lemma waiting_main_simps [simp]:
  "t_pc waiting_main = (\<lambda>_. Outside)(0 := StopWait, 1 := Running)" "t_paused waiting_main = (\<lambda>_. False)(0 := True)"
  "m_thread_num waiting_main = 2" "m_paused_thread_num waiting_main = 1" "thread_pause_flag waiting_main"
  "gc_thread waiting_main = Some 0"
  by (auto simp: waiting_main_def set_paused_def)

text \<open>Thread 1 stops at a check, the main thread collects.\<close>

lemma two_threads_collect:
  assumes "\<And>s. ok Plain s" "ok Register (set_pc 1 Registering m_thread_startup)"
  shows "\<exists>s. treach ok m_thread_startup s \<and> t_pc s 0 = Collecting \<and> t_pc s 1 = Checking"
proof -
  have "tstep Plain waiting_main (signal_pause (set_pc 1 Checking (set_paused 1 waiting_main)))" (is "tstep _ _ ?s")
    by (rule tstep.check [of _ 1]) (simp_all add: m_thread_check_nl_def)
  then have "treach ok m_thread_startup ?s"
    by (rule treach.step [OF waiting_main_reach [of ok, OF assms]]) (rule assms(1))
  then have "treach ok m_thread_startup (pause_all_test 0 ?s)"
    by (rule treach.step) (rule tstep.test, simp add: signal_pause_def set_paused_def, rule assms(1))
  then show ?thesis by (intro exI conjI, assumption) (simp_all add: pause_all_test_def signal_pause_def set_paused_def)
qed

text \<open>Thread 1 leaves but has not signalled yet.\<close>

lemma two_threads_leave:
  assumes "\<And>s. ok Plain s" "ok Register (set_pc 1 Registering m_thread_startup)"
  shows "\<exists>s. treach ok m_thread_startup s \<and> t_pc s 0 = StopWait \<and> m_thread_num s = m_paused_thread_num s"
proof -
  have "tstep Plain waiting_main (set_pc 1 Leaving (set_paused 1 waiting_main))"
    by (rule tstep.leave [of _ 1]) (simp_all add: m_thread_leave_def)
  from treach.step [OF waiting_main_reach [of ok, OF assms] this assms(1)] show ?thesis
    by (intro exI conjI, assumption) (simp_all add: set_paused_def)
qed

text \<open>\<open>m_thread_enter\<close> may release the lock before a pause begins and register the thread after
  the world has been stopped.\<close>

lemma enter_during_collection:
  "\<exists>s. treach (\<lambda>l s. True) m_thread_startup s \<and> t_pc s 0 = Collecting \<and> t_pc s 1 = Running"
proof -
  have "tstep Plain m_thread_startup (set_pc 1 Registering m_thread_startup)" (is "tstep _ _ ?s")
    by (rule tstep.enter [of _ 1]) (simp_all add: m_thread_enter_def)
  then have "treach (\<lambda>l s. True) m_thread_startup ?s" by (rule treach.step [OF treach.refl]) simp
  then have "treach (\<lambda>l s. True) m_thread_startup
      (pause_all_test 0 (set_pc 0 Stopping (set_paused 0 (?s\<lparr>gc_thread := Some 0, thread_pause_flag := True\<rparr>))))" (is "treach _ _ ?s'")
    by (rule collect_step_reach) simp_all
  then have "treach (\<lambda>l s. True) m_thread_startup (thread_register 1 ?s')"
    by (rule treach.step) (rule tstep.register, simp add: pause_all_test_def set_paused_def, simp)
  then show ?thesis by (intro exI conjI, assumption) (simp_all add: thread_register_def pause_all_test_def set_paused_def)
qed

text \<open>Thread 1 ends instead: \<open>thread_key_destructor\<close> does not signal, and only a spurious wakeup
  lets the main thread go on.\<close>

definition abandoned :: tsys where
  "abandoned = thread_key_destructor 1 waiting_main"

lemma abandoned_simps [simp]:
  "t_pc abandoned = (\<lambda>_. Outside)(0 := StopWait, 1 := Gone)" "m_thread_num abandoned = 1"
  "m_paused_thread_num abandoned = 1" "thread_pause_flag abandoned"
  by (auto simp: abandoned_def thread_key_destructor_def)

lemma abandoned_reach: "treach quiet m_thread_startup abandoned"
  unfolding abandoned_def
  by (rule treach.step [OF waiting_main_reach tstep.exit]) (simp_all add: quiet_def)

lemma abandoned_step: "tstep l abandoned s \<longleftrightarrow> l = Plain \<and> s = set_pc 0 Stopping abandoned"
proof
  show "l = Plain \<and> s = set_pc 0 Stopping abandoned" if "tstep l abandoned s"
    using that by cases (simp_all split: if_splits)
  show "tstep l abandoned s" if "l = Plain \<and> s = set_pc 0 Stopping abandoned"
    using that by (simp add: tstep.wake)
qed

end
