(* ===== verification/Value.thy ===== *)
theory Value
  imports GC_Alloc_Obj
begin

text \<open>
  Tagged values, \<open>include/m_value.h\<close>, in the variant for 8 byte pointers. A value is a 64 bit
  word whose three lowest bits are its type; \<open>vmem\<close> is the memory of the words that values of
  the pointer and double types refer to. A double is the word of its IEEE 754 representation. The
  functions that create objects act on the object manager of the previous theories.
\<close>

subsection \<open>Doubles\<close>

text \<open>What C does with a double here: \<open>(int)d\<close>, the comparison of \<open>(double)i\<close> with
  \<open>d\<close>, and \<open>(double)i\<close>. The magnitude of a finite double is \<open>double_mant d * 2 ^ k\<close> with
  \<open>k = double_exp d - 1075\<close>.\<close>

type_synonym double = u64

definition double_exp :: "double \<Rightarrow> nat" where
  "double_exp d = max 1 (nat (uint d div 2 ^ 52 mod 2 ^ 11))"

definition double_mant :: "double \<Rightarrow> int" where
  "double_mant d = (if uint d div 2 ^ 52 mod 2 ^ 11 = 0 then 0 else 2 ^ 52) + uint d mod 2 ^ 52"

definition double_trunc :: "double \<Rightarrow> int" where
  "double_trunc d =
     (let m = (if 1075 \<le> double_exp d then double_mant d * 2 ^ (double_exp d - 1075)
               else double_mant d div 2 ^ (1075 - double_exp d)) in
      if 2 ^ 63 \<le> uint d then - m else m)"

text \<open>The conversion to \<open>int\<close> is undefined when the result does not fit.\<close>

definition double_to_int :: "double \<Rightarrow> (32 word) option" where
  "double_to_int d =
     (if double_exp d < 2047 \<and> - (2 ^ 31) \<le> double_trunc d \<and> double_trunc d < 2 ^ 31
      then Some (word_of_int (double_trunc d)) else None)"

definition double_integral :: "double \<Rightarrow> bool" where
  "double_integral d \<longleftrightarrow> 1075 \<le> double_exp d \<or> double_mant d mod 2 ^ (1075 - double_exp d) = 0"

text \<open>The position of the highest bit of a positive number.\<close>

function int_log2 :: "int \<Rightarrow> nat" where
  "int_log2 n = (if n < 2 then 0 else Suc (int_log2 (n div 2)))"
  by auto
termination by (relation "measure nat") auto

declare int_log2.simps [simp del]

definition int_to_double :: "32 word \<Rightarrow> double" where
  "int_to_double i =
     (let a = \<bar>sint i\<bar>; n = int_log2 a in
      if a = 0 then 0
      else word_of_int ((if sint i < 0 then 2 ^ 63 else 0) + (1023 + int n) * 2 ^ 52 + (a - 2 ^ n) * 2 ^ (52 - n)))"

subsection \<open>Types\<close>

type_synonym M_Value = u64
type_synonym vmem = "addr \<rightharpoonup> u64"

abbreviation (input) M_VALUE_TRUE :: M_Value where "M_VALUE_TRUE \<equiv> 0xC"
abbreviation (input) M_VALUE_FALSE :: M_Value where "M_VALUE_FALSE \<equiv> 0x4"
abbreviation (input) M_VALUE_TYPE_MASK :: u64 where "M_VALUE_TYPE_MASK \<equiv> 7"
abbreviation (input) M_VALUE_TYPE_PTR :: u64 where "M_VALUE_TYPE_PTR \<equiv> 0"
abbreviation (input) M_VALUE_TYPE_DOUBLE :: u64 where "M_VALUE_TYPE_DOUBLE \<equiv> 1"
abbreviation (input) M_VALUE_TYPE_STRING :: u64 where "M_VALUE_TYPE_STRING \<equiv> 2"
abbreviation (input) M_VALUE_TYPE_INT :: u64 where "M_VALUE_TYPE_INT \<equiv> 3"
abbreviation (input) M_PTR_TYPE_MASK :: u64 where "M_PTR_TYPE_MASK \<equiv> 3"
abbreviation (input) M_PTR_TYPE_OBJECT :: u64 where "M_PTR_TYPE_OBJECT \<equiv> 0"
abbreviation (input) M_PTR_TYPE_CLOSURE :: u64 where "M_PTR_TYPE_CLOSURE \<equiv> 1"
abbreviation (input) M_PTR_TYPE_ARRAY :: u64 where "M_PTR_TYPE_ARRAY \<equiv> 2"

definition m_value_is_bool :: "M_Value \<Rightarrow> bool" where
  "m_value_is_bool v \<longleftrightarrow> v = M_VALUE_TRUE \<or> v = M_VALUE_FALSE"

definition m_value_is_int :: "M_Value \<Rightarrow> bool" where
  "m_value_is_int v \<longleftrightarrow> v AND M_VALUE_TYPE_MASK = M_VALUE_TYPE_INT"

definition m_value_is_double :: "M_Value \<Rightarrow> bool" where
  "m_value_is_double v \<longleftrightarrow> v AND M_VALUE_TYPE_MASK = M_VALUE_TYPE_DOUBLE"

definition m_value_is_number :: "M_Value \<Rightarrow> bool" where
  "m_value_is_number v \<longleftrightarrow> m_value_is_int v \<or> m_value_is_double v"

definition m_value_is_string :: "M_Value \<Rightarrow> bool" where
  "m_value_is_string v \<longleftrightarrow> v AND M_VALUE_TYPE_MASK = M_VALUE_TYPE_STRING"

definition m_value_is_null :: "vmem \<Rightarrow> M_Value \<Rightarrow> bool option" where
  "m_value_is_null h v =
     (if v = 0 then Some True
      else if v AND M_VALUE_TYPE_MASK \<noteq> M_VALUE_TYPE_PTR then Some False
      else do { w \<leftarrow> rd h v; Some (w = 0) })"

definition m_value_is_ptr :: "vmem \<Rightarrow> M_Value \<Rightarrow> bool option" where
  "m_value_is_ptr h v =
     (if v = 0 then Some False
      else if v AND M_VALUE_TYPE_MASK \<noteq> M_VALUE_TYPE_PTR then Some False
      else do { w \<leftarrow> rd h v; Some (w \<noteq> 0) })"

definition m_value_is_object :: "vmem \<Rightarrow> M_Value \<Rightarrow> bool option" where
  "m_value_is_object h v = do {
     p \<leftarrow> m_value_is_ptr h v;
     (if \<not> p then Some False else do { w \<leftarrow> rd h v; Some (w AND M_PTR_TYPE_MASK = M_PTR_TYPE_OBJECT) }) }"

definition m_value_is_closure :: "vmem \<Rightarrow> M_Value \<Rightarrow> bool option" where
  "m_value_is_closure h v = do {
     p \<leftarrow> m_value_is_ptr h v;
     (if \<not> p then Some False else do { w \<leftarrow> rd h v; Some (w AND M_PTR_TYPE_MASK = M_PTR_TYPE_CLOSURE) }) }"

definition m_value_is_array :: "vmem \<Rightarrow> M_Value \<Rightarrow> bool option" where
  "m_value_is_array h v = do {
     p \<leftarrow> m_value_is_ptr h v;
     (if \<not> p then Some False else do { w \<leftarrow> rd h v; Some (w AND M_PTR_TYPE_MASK = M_PTR_TYPE_ARRAY) }) }"

subsection \<open>From values\<close>

definition m_value_get_bool :: "M_Value \<Rightarrow> bool option" where
  "m_value_get_bool v = do { c_assert (m_value_is_bool v); Some (v = M_VALUE_TRUE) }"

text \<open>The value is cut to 32 bits before it is shifted.\<close>

definition m_value_get_int :: "M_Value \<Rightarrow> (32 word) option" where
  "m_value_get_int v = do { c_assert (m_value_is_int v); Some (signed_drop_bit 3 (ucast v)) }"

definition m_value_get_double :: "vmem \<Rightarrow> M_Value \<Rightarrow> double option" where
  "m_value_get_double h v = do { c_assert (m_value_is_double v); rd h (v AND NOT M_VALUE_TYPE_MASK) }"

definition m_value_get_number :: "vmem \<Rightarrow> M_Value \<Rightarrow> double option" where
  "m_value_get_number h v =
     (if m_value_is_int v then do { i \<leftarrow> m_value_get_int v; Some (int_to_double i) }
      else do { c_assert (m_value_is_double v); m_value_get_double h v })"

definition m_value_get_string :: "M_Value \<Rightarrow> addr option" where
  "m_value_get_string v = do { c_assert (m_value_is_string v); Some (v AND NOT M_VALUE_TYPE_MASK) }"

definition m_value_get_ptr :: "vmem \<Rightarrow> M_Value \<Rightarrow> addr option" where
  "m_value_get_ptr h v = do {
     p \<leftarrow> m_value_is_ptr h v;
     c_assert p;
     w \<leftarrow> rd h v;
     Some (w AND NOT M_PTR_TYPE_MASK) }"

definition m_value_get_object :: "vmem \<Rightarrow> M_Value \<Rightarrow> addr option" where
  "m_value_get_object h v = do { b \<leftarrow> m_value_is_object h v; c_assert b; m_value_get_ptr h v }"

definition m_value_get_closure :: "vmem \<Rightarrow> M_Value \<Rightarrow> addr option" where
  "m_value_get_closure h v = do { b \<leftarrow> m_value_is_closure h v; c_assert b; m_value_get_ptr h v }"

definition m_value_get_array :: "vmem \<Rightarrow> M_Value \<Rightarrow> addr option" where
  "m_value_get_array h v = do { b \<leftarrow> m_value_is_array h v; c_assert b; m_value_get_ptr h v }"

subsection \<open>To values\<close>

definition m_value_from_bool :: "bool \<Rightarrow> M_Value" where
  "m_value_from_bool b = (if b then M_VALUE_TRUE else M_VALUE_FALSE)"

definition m_value_from_int :: "32 word \<Rightarrow> M_Value" where
  "m_value_from_int i = push_bit 3 (scast i) OR M_VALUE_TYPE_INT"

text \<open>There is no tag, and the object is not added to the new borned stack.\<close>

definition m_value_from_double :: "allocator \<Rightarrow> os \<Rightarrow> double \<Rightarrow> vmem \<Rightarrow> ming \<Rightarrow> (M_Value \<times> vmem \<times> ming) option" where
  "m_value_from_double A os d h s = do {
     r \<leftarrow> m_gc_alloc_obj A os M_GC_OBJ_DOUBLE s;
     (case r of (pd, oid, s1) \<Rightarrow> do {
       m_assert_alloc pd;
       Some (pd, h(pd \<mapsto> d), s1) }) }"

definition m_value_from_number :: "allocator \<Rightarrow> os \<Rightarrow> double \<Rightarrow> vmem \<Rightarrow> ming \<Rightarrow> (M_Value \<times> vmem \<times> ming) option" where
  "m_value_from_number A os d h s = do {
     i \<leftarrow> double_to_int d;
     (if double_integral d then Some (m_value_from_int i, h, s) else m_value_from_double A os d h s) }"

definition m_value_from_string :: "addr \<Rightarrow> M_Value" where
  "m_value_from_string str = str OR M_VALUE_TYPE_STRING"

definition m_value_from_ptr :: "addr \<Rightarrow> M_Value" where
  "m_value_from_ptr ptr = ptr"

definition m_value_from_object :: "allocator \<Rightarrow> os \<Rightarrow> addr \<Rightarrow> vmem \<Rightarrow> ming \<Rightarrow> (M_Value \<times> vmem \<times> ming) option" where
  "m_value_from_object A os obj h s = do {
     r \<leftarrow> m_gc_alloc_obj A os M_GC_OBJ_PTR s;
     (case r of (ptr, oid, s1) \<Rightarrow> do {
       m_assert_alloc ptr;
       id \<leftarrow> oid;
       s2 \<leftarrow> m_gc_add_obj id s1;
       Some (m_value_from_ptr ptr, h(ptr \<mapsto> obj OR M_PTR_TYPE_OBJECT), s2) }) }"

definition m_value_from_closure :: "allocator \<Rightarrow> os \<Rightarrow> addr \<Rightarrow> vmem \<Rightarrow> ming \<Rightarrow> (M_Value \<times> vmem \<times> ming) option" where
  "m_value_from_closure A os clos h s = do {
     r \<leftarrow> m_gc_alloc_obj A os M_GC_OBJ_PTR s;
     (case r of (ptr, oid, s1) \<Rightarrow> do {
       m_assert_alloc ptr;
       id \<leftarrow> oid;
       s2 \<leftarrow> m_gc_add_obj id s1;
       Some (m_value_from_ptr ptr, h(ptr \<mapsto> clos OR M_PTR_TYPE_CLOSURE), s2) }) }"

definition m_value_from_array :: "allocator \<Rightarrow> os \<Rightarrow> addr \<Rightarrow> vmem \<Rightarrow> ming \<Rightarrow> (M_Value \<times> vmem \<times> ming) option" where
  "m_value_from_array A os array h s = do {
     r \<leftarrow> m_gc_alloc_obj A os M_GC_OBJ_PTR s;
     (case r of (ptr, oid, s1) \<Rightarrow> do {
       m_assert_alloc ptr;
       id \<leftarrow> oid;
       s2 \<leftarrow> m_gc_add_obj id s1;
       Some (m_value_from_ptr ptr, h(ptr \<mapsto> array OR M_PTR_TYPE_ARRAY), s2) }) }"

subsection \<open>Types are disjoint\<close>

text \<open>The type bits of a value, and what the constructors put there.\<close>

lemma type_bits:
  "v AND M_VALUE_TYPE_MASK = take_bit 3 v" "v AND NOT M_VALUE_TYPE_MASK = v AND NOT (mask 3)"
proof -
  have m: "(7 :: u64) = mask 3" by (simp add: mask_eq_exp_minus_1)
  show "v AND M_VALUE_TYPE_MASK = take_bit 3 v" unfolding m by (simp add: take_bit_eq_mask)
  show "v AND NOT M_VALUE_TYPE_MASK = v AND NOT (mask 3)" unfolding m ..
qed

lemma is_bool_bits: "m_value_is_bool v \<Longrightarrow> v AND M_VALUE_TYPE_MASK = 4"
  by (auto simp: m_value_is_bool_def)

lemma types_disjoint:
  "\<not> (m_value_is_bool v \<and> m_value_is_int v)" "\<not> (m_value_is_bool v \<and> m_value_is_double v)"
  "\<not> (m_value_is_bool v \<and> m_value_is_string v)" "\<not> (m_value_is_int v \<and> m_value_is_double v)"
  "\<not> (m_value_is_int v \<and> m_value_is_string v)" "\<not> (m_value_is_double v \<and> m_value_is_string v)"
  using is_bool_bits [of v] by (auto simp: m_value_is_int_def m_value_is_double_def m_value_is_string_def)

text \<open>A value of one of these types is neither a pointer nor null, and reading it does not fail.\<close>

lemma types_not_ptr:
  assumes "m_value_is_bool v \<or> m_value_is_int v \<or> m_value_is_double v \<or> m_value_is_string v"
  shows "m_value_is_ptr h v = Some False" "m_value_is_null h v = Some False" "m_value_is_object h v = Some False"
    "m_value_is_closure h v = Some False" "m_value_is_array h v = Some False"
proof -
  have "v AND M_VALUE_TYPE_MASK \<noteq> 0"
    using assms is_bool_bits [of v] by (auto simp: m_value_is_int_def m_value_is_double_def m_value_is_string_def)
  moreover from this have "v \<noteq> 0" by auto
  ultimately show "m_value_is_ptr h v = Some False" "m_value_is_null h v = Some False"
    by (simp_all add: m_value_is_ptr_def m_value_is_null_def)
  then show "m_value_is_object h v = Some False" "m_value_is_closure h v = Some False" "m_value_is_array h v = Some False"
    by (simp_all add: m_value_is_object_def m_value_is_closure_def m_value_is_array_def)
qed

subsection \<open>Immediate values\<close>

lemma bool_value: "m_value_is_bool (m_value_from_bool b)" "m_value_get_bool (m_value_from_bool b) = Some b"
  by (simp_all add: m_value_from_bool_def m_value_is_bool_def m_value_get_bool_def)

lemma int_value:
  "m_value_is_int (m_value_from_int i)" "m_value_get_int (m_value_from_int i) = Some (signed_take_bit 28 i)"
proof -
  have 3: "(3 :: u64) = mask 2" by (simp add: mask_eq_exp_minus_1)
  show t: "m_value_is_int (m_value_from_int i)"
    unfolding m_value_is_int_def type_bits m_value_from_int_def 3
    by (rule bit_word_eqI) (auto simp: bit_simps)
  have "signed_drop_bit 3 (ucast (m_value_from_int i) :: 32 word) = signed_take_bit 28 i"
    unfolding m_value_from_int_def 3
    by (rule bit_word_eqI) (auto simp: bit_simps min_def not_le less_Suc_eq_le dest: le_antisym [of 28])
  then show "m_value_get_int (m_value_from_int i) = Some (signed_take_bit 28 i)"
    using t by (simp add: m_value_get_int_def)
qed

text \<open>Integers of 29 bits come back, others do not.\<close>

lemma int_value_fits:
  "m_value_get_int (m_value_from_int i) = Some i \<longleftrightarrow> - (2 ^ 28) \<le> sint i \<and> sint i < 2 ^ 28"
proof -
  have "sint (signed_take_bit 28 i) = signed_take_bit 28 (sint i)"
    by (rule bit_eqI) (auto simp: bit_simps min_def not_le)
  then have "signed_take_bit 28 i = i \<longleftrightarrow> signed_take_bit 28 (sint i) = sint i"
    by (metis signed_word_eqI)
  also have "\<dots> \<longleftrightarrow> - (2 ^ 28) \<le> sint i \<and> sint i < 2 ^ 28"
    by (auto simp: signed_take_bit_int_eq_self_iff)
  finally show ?thesis unfolding int_value(2) by simp
qed

lemma string_value:
  assumes "8 dvd unat p"
  shows "m_value_is_string (m_value_from_string p)" "m_value_get_string (m_value_from_string p) = Some p"
proof -
  have z: "\<not> bit p n" if "n < 3" for n using aligned_bits [of 3 p n] assms that by simp
  have 2: "bit (2 :: u64) n \<longleftrightarrow> n = 1" for n
    using bit_push_bit_iff [of 1 "1 :: u64" n] by (auto simp: bit_1_iff)
  show t: "m_value_is_string (m_value_from_string p)"
    unfolding m_value_is_string_def type_bits m_value_from_string_def
    by (rule bit_word_eqI) (auto simp: bit_simps 2 z)
  have "(p OR 2) AND NOT (mask 3) = p"
    by (rule bit_word_eqI) (use z in \<open>auto simp: bit_simps 2 not_less intro: leI\<close>)
  then show "m_value_get_string (m_value_from_string p) = Some p"
    using t unfolding m_value_get_string_def type_bits by (simp add: m_value_from_string_def)
qed

subsection \<open>Numbers\<close>

lemma int_log2_bounds: "0 < n \<Longrightarrow> 2 ^ int_log2 n \<le> n \<and> n < 2 ^ Suc (int_log2 n)"
proof (induction n rule: int_log2.induct)
  case (1 n)
  show ?case
  proof (cases "n < 2")
    case True
    then show ?thesis using 1(2) by (simp add: int_log2.simps [of n])
  next
    case False
    then have "2 ^ int_log2 (n div 2) \<le> n div 2 \<and> n div 2 < 2 ^ Suc (int_log2 (n div 2))"
      using 1(1) by simp
    moreover have "int_log2 n = Suc (int_log2 (n div 2))" using False by (subst int_log2.simps) simp
    ultimately show ?thesis by auto
  qed
qed

text \<open>The parts of the double of an integer.\<close>

lemma int_to_double_parts:
  assumes i: "i \<noteq> 0"
  defines "a \<equiv> \<bar>sint i\<bar>"
  defines "n \<equiv> int_log2 a"
  shows "double_exp (int_to_double i) = 1023 + n" "double_mant (int_to_double i) = a * 2 ^ (52 - n)"
    "2 ^ 63 \<le> uint (int_to_double i) \<longleftrightarrow> sint i < 0" "n \<le> 31"
proof -
  have "sint i \<noteq> 0" using i by (metis signed_0 signed_word_eqI)
  then have pos: "0 < a" by (simp add: a_def)
  have "- (2 ^ 31) \<le> sint i \<and> sint i < 2 ^ 31" using sint_greater_eq [of i] sint_less [of i] by simp
  then have big: "a \<le> 2 ^ 31" by (auto simp: a_def)
  have l: "2 ^ n \<le> a" "a < 2 ^ Suc n" using int_log2_bounds [OF pos] by (simp_all add: n_def)
  show n: "n \<le> 31"
  proof (rule ccontr)
    assume "\<not> n \<le> 31"
    then have "(2 :: int) ^ 32 \<le> 2 ^ n" by (intro power_increasing) simp_all
    then show False using l(1) big by simp
  qed
  define f where "f = (a - 2 ^ n) * 2 ^ (52 - n)"
  have sum: "(2 :: int) ^ n * 2 ^ (52 - n) = 2 ^ 52" using n by (simp flip: power_add)
  have f0: "0 \<le> f" using l(1) by (simp add: f_def)
  have "(a - 2 ^ n) * 2 ^ (52 - n) < 2 ^ n * 2 ^ (52 - n)" using l(2) by (intro mult_strict_right_mono) simp_all
  then have f1: "f < 2 ^ 52" unfolding f_def sum .
  have f2: "2 ^ 52 + f = a * 2 ^ (52 - n)" unfolding f_def sum [symmetric] by (simp add: algebra_simps)
  define S :: int where "S = (if sint i < 0 then 2 ^ 63 else 0)"
  have w: "uint (word_of_int x :: double) = x" if "0 \<le> x" "x < 2 ^ 64" for x
    using that by (simp add: unsigned_of_int take_bit_eq_mod)
  have "int_to_double i = word_of_int (S + (1023 + int n) * 2 ^ 52 + f)"
    unfolding int_to_double_def Let_def a_def [symmetric] n_def [symmetric] S_def f_def
    by (subst if_not_P [of "a = 0"]) (use pos in simp, rule refl)
  moreover have "0 \<le> S + (1023 + int n) * 2 ^ 52 + f" "S + (1023 + int n) * 2 ^ 52 + f < 2 ^ 64"
    using f0 f1 n by (auto simp: S_def)
  ultimately have u: "uint (int_to_double i) = S + (1023 + int n) * 2 ^ 52 + f" by (simp only: w)
  define k where "k = (if sint i < 0 then 2048 else 0) + 1023 + int n"
  have x: "S + (1023 + int n) * 2 ^ 52 + f = k * 2 ^ 52 + f" by (simp add: S_def k_def)
  have d: "(k * 2 ^ 52 + f) div 2 ^ 52 = k" "(k * 2 ^ 52 + f) mod 2 ^ 52 = f" using f0 f1 by simp_all
  have "(3071 + int n) mod 2048 = 1023 + int n" 
    using mod_add_self2 [of "1023 + int n" 2048] n by simp
  then have e: "k mod 2 ^ 11 = 1023 + int n" using n by (simp add: k_def)
  show "double_exp (int_to_double i) = 1023 + n" unfolding double_exp_def u x d(1) e by simp
  show "double_mant (int_to_double i) = a * 2 ^ (52 - n)" unfolding double_mant_def u x d e using f2 by simp
  show "2 ^ 63 \<le> uint (int_to_double i) \<longleftrightarrow> sint i < 0" unfolding u x using f0 f1 n by (auto simp: k_def)
qed

lemma int_double:
  "double_to_int (int_to_double i) = Some i" "double_integral (int_to_double i)"
proof -
  have "double_to_int (int_to_double i) = Some i \<and> double_integral (int_to_double i)"
  proof (cases "i = 0")
    case True
    then show ?thesis
      by (simp add: int_to_double_def double_to_int_def double_trunc_def double_exp_def double_mant_def double_integral_def)
  next
    case False
    let ?n = "int_log2 \<bar>sint i\<bar>" and ?d = "int_to_double i"
    note parts = int_to_double_parts [OF False]
    have e: "double_exp ?d < 1075" "1075 - double_exp ?d = 52 - ?n" using parts(1,4) by simp_all
    have "double_trunc ?d = sint i"
      unfolding double_trunc_def parts(2,3) using e by (simp add: Let_def)
    moreover have "- (2 ^ 31) \<le> sint i" "sint i < 2 ^ 31" using sint_greater_eq [of i] sint_less [of i] by simp_all
    moreover have "double_integral ?d" unfolding double_integral_def parts(2) using e by simp
    ultimately show ?thesis using e by (simp add: double_to_int_def)
  qed
  then show "double_to_int (int_to_double i) = Some i" "double_integral (int_to_double i)" by simp_all
qed

text \<open>A whole number becomes an integer value, which is read as the same number when it has 29 bits.\<close>

lemma number_value:
  "m_value_from_number A os (int_to_double i) h s = Some (m_value_from_int i, h, s)"
  "m_value_get_number h (m_value_from_int i) = Some (int_to_double (signed_take_bit 28 i))"
  using int_value [of i] by (simp_all add: m_value_from_number_def int_double m_value_get_number_def)

lemma number_value_fits:
  "m_value_get_number h (m_value_from_int i) = Some (int_to_double i) \<longleftrightarrow> - (2 ^ 28) \<le> sint i \<and> sint i < 2 ^ 28"
proof -
  have "int_to_double (signed_take_bit 28 i) = int_to_double i \<longleftrightarrow> signed_take_bit 28 i = i"
    using int_double(1) [of i] int_double(1) [of "signed_take_bit 28 i"] by auto
  then show ?thesis using int_value_fits [of i] int_value(2) [of i] by (simp add: number_value(2))
qed

lemma number_cases:
  "double_to_int d = None \<Longrightarrow> m_value_from_number A os d h s = None"
  "double_to_int d = Some k \<Longrightarrow> double_integral d \<Longrightarrow> m_value_from_number A os d h s = Some (m_value_from_int k, h, s)"
  by (simp_all add: m_value_from_number_def)

text \<open>The double -0 becomes the integer 0.\<close>

lemma negative_zero: "m_value_from_number A os (2 ^ 63) h s = Some (m_value_from_int 0, h, s)"
  "m_value_get_number h (m_value_from_int 0) = Some 0"
proof -
  have "double_to_int (2 ^ 63) = Some 0" "double_integral (2 ^ 63)"
    by (simp_all add: double_to_int_def double_trunc_def double_exp_def double_mant_def double_integral_def)
  then show "m_value_from_number A os (2 ^ 63) h s = Some (m_value_from_int 0, h, s)"
    by (simp add: m_value_from_number_def)
  show "m_value_get_number h (m_value_from_int 0) = Some 0"
    using int_value_fits [of 0] int_value(1) [of 0] by (simp add: m_value_get_number_def int_to_double_def)
qed

subsection \<open>Pointer values\<close>

text \<open>A cell that holds the address of an object with its tag.\<close>

lemma tagged_word:
  fixes p tag :: u64
  assumes "4 dvd unat p" "tag < 3"
  shows "(p OR tag) AND 3 = tag" "(p OR tag) AND NOT 3 = p"
proof -
  have z: "\<not> bit p n" if "n < 2" for n using aligned_bits [of 2 p n] assms that by simp
  have 3: "(3 :: u64) = mask 2" by (simp add: mask_eq_exp_minus_1)
  have "unat tag = take_bit 2 (unat tag)" using assms(2) by (simp add: take_bit_eq_mod word_less_nat_alt)
  then have "tag = take_bit 2 tag" by (metis unsigned_take_bit_eq unsigned_word_eqI)
  then have t: "bit tag n \<Longrightarrow> n < 2" for n by (metis bit_take_bit_iff)
  show "(p OR tag) AND 3 = tag" "(p OR tag) AND NOT 3 = p"
    unfolding 3 by (rule bit_word_eqI, use z t not_less in \<open>auto simp: bit_simps\<close>)+
qed

lemma tagged_value:
  assumes v: "v \<noteq> 0" "8 dvd unat v" and h: "h v = Some (p OR tag)" and p: "4 dvd unat p" "p \<noteq> 0" and tag: "tag < 3"
  shows "m_value_is_ptr h v = Some True" "m_value_is_null h v = Some False"
    "m_value_is_object h v = Some (tag = 0)" "m_value_is_closure h v = Some (tag = 1)" "m_value_is_array h v = Some (tag = 2)"
    "m_value_get_ptr h v = Some p"
    "\<not> m_value_is_bool v" "\<not> m_value_is_number v" "\<not> m_value_is_string v"
proof -
  have "take_bit 3 v = 0" by (rule bit_word_eqI) (use aligned_bits [of 3 v] v(2) in \<open>auto simp: bit_simps\<close>)
  then have b: "v AND M_VALUE_TYPE_MASK = 0" by (simp only: type_bits)
  have nz: "p OR tag \<noteq> 0" using tagged_word(2) [OF p(1) tag] p(2) by auto
  show ptr: "m_value_is_ptr h v = Some True" and "m_value_is_null h v = Some False"
    using v(1) b h nz by (simp_all add: m_value_is_ptr_def m_value_is_null_def access)
  then show "m_value_is_object h v = Some (tag = 0)" "m_value_is_closure h v = Some (tag = 1)"
    "m_value_is_array h v = Some (tag = 2)" "m_value_get_ptr h v = Some p"
    using v(1) h tagged_word [OF p(1) tag]
    by (simp_all add: m_value_is_object_def m_value_is_closure_def m_value_is_array_def m_value_get_ptr_def access)
  show "\<not> m_value_is_bool v" using is_bool_bits [of v] b by auto
  show "\<not> m_value_is_number v" "\<not> m_value_is_string v"
    using b by (simp_all add: m_value_is_number_def m_value_is_int_def m_value_is_double_def m_value_is_string_def)
qed

text \<open>A state in which an object can be allocated.\<close>

definition alloc_ready :: "allocator \<Rightarrow> os \<Rightarrow> root_env \<Rightarrow> ming \<Rightarrow> (addr \<rightharpoonup> addr list) \<Rightarrow> addr list \<Rightarrow> addr set \<Rightarrow> bool" where
  "alloc_ready A os env s L ths N \<longleftrightarrow> allocator_ok A \<and> ming_ok env s L ths N \<and> threads_ok s ths \<and> runs_alone s \<and>
     unat (nb_size (the (mg_threads s (mg_self s)))) < 2 ^ 31 \<and>
     mapped_pages 4096 0 (gc_vm (mg_gc s)) (gc_mmap os 4096 0 (gc_vm (mg_gc s))) \<and> nb_reserve A s \<noteq> None"

text \<open>An allocation in such a state.\<close>

definition obj_made :: "M_GCObjType \<Rightarrow> addr \<Rightarrow> u64 \<Rightarrow> u64 \<Rightarrow> ming \<Rightarrow> ming \<Rightarrow> addr list \<Rightarrow> bool" where
  "obj_made t v w oid s s' ths \<longleftrightarrow> v \<noteq> 0 \<and> 8 dvd unat v \<and> obj_type (mg_gc s') v = t \<and>
     v \<notin> gc_objs (mg_gc s) GC_MARK_WHITE \<and> v \<in> gc_objs (mg_gc s') GC_MARK_WHITE \<and>
     gc_objs (mg_gc s') GC_MARK_WHITE \<subseteq> insert v (gc_objs (mg_gc s) GC_MARK_WHITE) \<and>
     (\<exists>L'. gc_ok (mg_gc s') L') \<and> at_rest (mg_gc s') \<and> threads_ok s' ths \<and> runs_alone s' \<and> pushed w oid s s' ths"

lemma alloc_ready_obj:
  assumes ready: "alloc_ready A os env s L ths N" and t: "t \<in> real_types"
  shows "m_gc_alloc_obj A os t s = Some (0, None, s) \<and> fst (gc_mmap os 4096 0 (gc_vm (mg_gc s))) = 0 \<or>
    (\<exists>c oid s'. m_gc_alloc_obj A os t s = Some (c, Some oid, s') \<and> obj_made t c (c OR GC_NB_FL_NO_PTR) oid s s' ths)"
proof -
  have r: "allocator_ok A" "ming_ok env s L ths N" "threads_ok s ths" "runs_alone s"
    "unat (nb_size (the (mg_threads s (mg_self s)))) < 2 ^ 31"
    "mapped_pages 4096 0 (gc_vm (mg_gc s)) (gc_mmap os 4096 0 (gc_vm (mg_gc s)))" "nb_reserve A s \<noteq> None"
    using ready by (simp_all add: alloc_ready_def)
  show ?thesis
    using gc_alloc_obj_ok [OF r(1-5) t r(6,7)] unfolding obj_made_def m_gc_alloc_obj_def by blast
qed

text \<open>The state after it is one in which a collection can run, provided that the roots there
  were before are still cells.\<close>

lemma obj_made_ming_ok:
  assumes ok: "ming_ok env s L ths N" and made: "obj_made t v w oid s s' ths"
    and old: "\<And>x c. (x, c) \<in> root_pins s ths N \<Longrightarrow> is_cell (mg_gc s') x" and w: "fst (nb_pin w) = v"
  shows "(\<exists>L'. ming_ok env s' L' ths N) \<and> root_pins s' ths N = insert (nb_pin w) (root_pins s ths N)"
proof -
  have m: "threads_ok s' ths" "v \<in> gc_objs (mg_gc s') GC_MARK_WHITE" "at_rest (mg_gc s')"
    and pu: "pushed w oid s s' ths" using made by (simp_all add: obj_made_def)
  obtain L' where L': "gc_ok (mg_gc s') L'" using made by (auto simp: obj_made_def)
  have self: "mg_self s \<in> set ths" using m(1) pu by (simp add: threads_ok_def pushed_def)
  have roots: "roots_ok env s' ths N"
    using ok m(1) pu by (fastforce simp: ming_ok_def roots_ok_def threads_ok_def nb_ok_def pushed_def)
  have "is_cell (mg_gc s') v" using m(2) by (auto simp: gc_objs_def is_cell_def)
  then have "\<forall>x c. (x, c) \<in> root_pins s' ths N \<longrightarrow> is_cell (mg_gc s') x"
    using old w unfolding pushed_pins [OF pu self] by (metis fst_conv insert_iff)
  then show ?thesis using L' m(3) roots pushed_pins [OF pu self] by (auto simp: ming_ok_def)
qed

text \<open>The three functions that create a pointer value differ in the tag only; their proofs are done
  once, for any tag.\<close>

definition value_from_tagged :: "u64 \<Rightarrow> allocator \<Rightarrow> os \<Rightarrow> addr \<Rightarrow> vmem \<Rightarrow> ming \<Rightarrow> (M_Value \<times> vmem \<times> ming) option" where
  "value_from_tagged tag A os obj h s = do {
     r \<leftarrow> m_gc_alloc_obj A os M_GC_OBJ_PTR s;
     (case r of (ptr, oid, s1) \<Rightarrow> do {
       m_assert_alloc ptr;
       id \<leftarrow> oid;
       s2 \<leftarrow> m_gc_add_obj id s1;
       Some (m_value_from_ptr ptr, h(ptr \<mapsto> obj OR tag), s2) }) }"

lemma from_tagged:
  "m_value_from_object = value_from_tagged M_PTR_TYPE_OBJECT"
  "m_value_from_closure = value_from_tagged M_PTR_TYPE_CLOSURE"
  "m_value_from_array = value_from_tagged M_PTR_TYPE_ARRAY"
  by (intro ext; simp add: m_value_from_object_def m_value_from_closure_def m_value_from_array_def value_from_tagged_def)+

text \<open>Creating a pointer value: the program aborts when there is no memory.\<close>

lemma value_from_tagged_ok:
  assumes ready: "alloc_ready A os env s L ths N"
  shows "value_from_tagged tag A os p h s = None \<and> fst (gc_mmap os 4096 0 (gc_vm (mg_gc s))) = 0 \<or>
    (\<exists>v oid s'. value_from_tagged tag A os p h s = Some (v, h(v \<mapsto> p OR tag), s') \<and> obj_made M_GC_OBJ_PTR v v oid s s' ths)"
proof -
  have "M_GC_OBJ_PTR \<in> real_types" by (simp add: real_types_def obj_types_def)
  from alloc_ready_obj [OF ready this] show ?thesis
  proof
    assume "m_gc_alloc_obj A os M_GC_OBJ_PTR s = Some (0, None, s) \<and> fst (gc_mmap os 4096 0 (gc_vm (mg_gc s))) = 0"
    then show ?thesis by (simp add: value_from_tagged_def m_assert_alloc_def)
  next
    assume "\<exists>c oid s'. m_gc_alloc_obj A os M_GC_OBJ_PTR s = Some (c, Some oid, s') \<and>
      obj_made M_GC_OBJ_PTR c (c OR GC_NB_FL_NO_PTR) oid s s' ths"
    then obtain c oid s1 where 1: "m_gc_alloc_obj A os M_GC_OBJ_PTR s = Some (c, Some oid, s1)"
      "obj_made M_GC_OBJ_PTR c (c OR GC_NB_FL_NO_PTR) oid s s1 ths" by blast
    have c: "c \<noteq> 0" "8 dvd unat c" and pu: "threads_ok s1 ths" "pushed (c OR GC_NB_FL_NO_PTR) oid s s1 ths"
      using 1(2) by (simp_all add: obj_made_def)
    obtain m where m: "m_gc_add_obj oid s1 = Some (s1\<lparr>mg_mem := m\<rparr>)" "threads_ok (s1\<lparr>mg_mem := m\<rparr>) ths"
      "pushed ((c OR GC_NB_FL_NO_PTR) AND NOT 3) oid s (s1\<lparr>mg_mem := m\<rparr>) ths"
      using add_obj_pushed [OF pu] by blast
    have "value_from_tagged tag A os p h s = Some (c, h(c \<mapsto> p OR tag), s1\<lparr>mg_mem := m\<rparr>)"
      using 1(1) c(1) m(1)
      by (simp add: value_from_tagged_def m_assert_alloc_def m_value_from_ptr_def)
    moreover have "obj_made M_GC_OBJ_PTR c c oid s (s1\<lparr>mg_mem := m\<rparr>) ths"
      using 1(2) m(2) m(3) [unfolded nb_pin_new(3) [OF c(2)]] by (simp add: obj_made_def runs_alone_def)
    ultimately show ?thesis by blast
  qed
qed

text \<open>A double value has no tag: it is taken for a pointer, or for null when the double is 0.\<close>

lemma double_untagged:
  assumes ready: "alloc_ready A os env s L ths N"
    and run: "m_value_from_double A os d h s = Some (v, h', s')"
  shows "\<not> m_value_is_double v \<and> m_value_get_double h' v = None \<and> m_value_is_ptr h' v = Some (d \<noteq> 0)"
proof -
  have "M_GC_OBJ_DOUBLE \<in> real_types" by (simp add: real_types_def obj_types_def)
  from alloc_ready_obj [OF ready this] have v: "v \<noteq> 0" "8 dvd unat v" "h' v = Some d"
    using run by (auto simp: m_value_from_double_def obj_made_def m_assert_alloc_def split: if_splits)
  have "take_bit 3 v = 0" by (rule bit_word_eqI) (use aligned_bits [of 3 v] v(2) in \<open>auto simp: bit_simps\<close>)
  then have b: "v AND M_VALUE_TYPE_MASK = 0" by (simp only: type_bits)
  then show ?thesis using v
    by (simp add: m_value_is_double_def m_value_get_double_def m_value_is_ptr_def access)
qed


subsection \<open>What becomes of a number and of a pointer\<close>

text \<open>A value with the tag of doubles is read through its address, as a double and as a number.\<close>

lemma double_value:
  assumes p: "8 dvd unat p" "p \<noteq> 0" and h: "h p = Some d"
  shows "m_value_get_double h (p OR M_VALUE_TYPE_DOUBLE) = Some d" "m_value_get_number h (p OR M_VALUE_TYPE_DOUBLE) = Some d"
proof -
  have z: "\<not> bit p n" if "n < 3" for n using aligned_bits [of 3 p n] p that by simp
  have 1: "bit (1 :: u64) n \<longleftrightarrow> n = 0" for n by (simp add: bit_1_iff)
  have t: "(p OR 1) AND M_VALUE_TYPE_MASK = M_VALUE_TYPE_DOUBLE"
    unfolding type_bits by (rule bit_word_eqI) (auto simp: bit_simps 1 z)
  have a: "(p OR 1) AND NOT M_VALUE_TYPE_MASK = p"
    unfolding type_bits by (rule bit_word_eqI) (use z in \<open>auto simp: bit_simps 1 not_less intro: leI\<close>)
  show "m_value_get_double h (p OR M_VALUE_TYPE_DOUBLE) = Some d"
    unfolding m_value_get_double_def m_value_is_double_def t a using p(2) h by (simp add: access)
  then show "m_value_get_number h (p OR M_VALUE_TYPE_DOUBLE) = Some d"
    unfolding m_value_get_number_def m_value_is_int_def m_value_is_double_def t by simp
qed

text \<open>A number that is not whole gets a cell of its own, but its value has no tag and the number
  cannot be read back.\<close>

lemma fraction_value:
  assumes ready: "alloc_ready A os env s L ths N" and d: "double_to_int d = Some k" "\<not> double_integral d"
  shows "m_value_from_number A os d h s = None \<and> fst (gc_mmap os 4096 0 (gc_vm (mg_gc s))) = 0 \<or>
    (\<exists>v oid s'. m_value_from_number A os d h s = Some (v, h(v \<mapsto> d), s') \<and>
      obj_made M_GC_OBJ_DOUBLE v (v OR GC_NB_FL_NO_PTR) oid s s' ths \<and> m_value_get_number (h(v \<mapsto> d)) v = None)"
proof -
  have goes: "m_value_from_number A os d h s = m_value_from_double A os d h s" using d by (simp add: m_value_from_number_def)
  have "M_GC_OBJ_DOUBLE \<in> real_types" by (simp add: real_types_def obj_types_def)
  from alloc_ready_obj [OF ready this] show ?thesis
  proof
    assume "m_gc_alloc_obj A os M_GC_OBJ_DOUBLE s = Some (0, None, s) \<and> fst (gc_mmap os 4096 0 (gc_vm (mg_gc s))) = 0"
    then show ?thesis by (simp add: goes m_value_from_double_def m_assert_alloc_def)
  next
    assume "\<exists>c oid s'. m_gc_alloc_obj A os M_GC_OBJ_DOUBLE s = Some (c, Some oid, s') \<and>
      obj_made M_GC_OBJ_DOUBLE c (c OR GC_NB_FL_NO_PTR) oid s s' ths"
    then obtain c oid s' where c: "m_gc_alloc_obj A os M_GC_OBJ_DOUBLE s = Some (c, Some oid, s')"
      "obj_made M_GC_OBJ_DOUBLE c (c OR GC_NB_FL_NO_PTR) oid s s' ths" by blast
    have v: "c \<noteq> 0" "8 dvd unat c" using c(2) by (simp_all add: obj_made_def)
    have "take_bit 3 c = 0" by (rule bit_word_eqI) (use aligned_bits [of 3 c] v(2) in \<open>auto simp: bit_simps\<close>)
    then have "c AND M_VALUE_TYPE_MASK = 0" by (simp only: type_bits)
    then have "m_value_get_number (h(c \<mapsto> d)) c = None"
      by (simp add: m_value_get_number_def m_value_is_int_def m_value_is_double_def)
    moreover have "m_value_from_number A os d h s = Some (c, h(c \<mapsto> d), s')"
      using c(1) v(1) by (simp add: goes m_value_from_double_def m_assert_alloc_def)
    ultimately show ?thesis using c(2) by blast
  qed
qed

text \<open>The result of making a value of an object, closure or array at \<open>p\<close>.\<close>

datatype ptr_kind = Object_Ptr | Closure_Ptr | Array_Ptr

definition makes_ptr :: "ptr_kind \<Rightarrow> os \<Rightarrow> addr \<Rightarrow> vmem \<Rightarrow> ming \<Rightarrow> (M_Value \<times> vmem \<times> ming) option \<Rightarrow> bool" where
  "makes_ptr k os p h s r \<longleftrightarrow> r = None \<and> fst (gc_mmap os 4096 0 (gc_vm (mg_gc s))) = 0 \<or>
     (\<exists>v h' s'. r = Some (v, h', s') \<and> (\<forall>x. x \<noteq> v \<longrightarrow> h' x = h x) \<and>
       m_value_is_ptr h' v = Some True \<and> m_value_is_null h' v = Some False \<and> m_value_get_ptr h' v = Some p \<and>
       m_value_is_object h' v = Some (k = Object_Ptr) \<and> m_value_get_object h' v = (if k = Object_Ptr then Some p else None) \<and>
       m_value_is_closure h' v = Some (k = Closure_Ptr) \<and> m_value_get_closure h' v = (if k = Closure_Ptr then Some p else None) \<and>
       m_value_is_array h' v = Some (k = Array_Ptr) \<and> m_value_get_array h' v = (if k = Array_Ptr then Some p else None) \<and>
       \<not> m_value_is_bool v \<and> \<not> m_value_is_number v \<and> \<not> m_value_is_string v)"

lemma tagged_makes:
  assumes ready: "alloc_ready A os env s L ths N" and p: "4 dvd unat p" "p \<noteq> 0" and tag: "tag < 3"
    and k: "k = Object_Ptr \<longleftrightarrow> tag = 0" "k = Closure_Ptr \<longleftrightarrow> tag = 1" "k = Array_Ptr \<longleftrightarrow> tag = 2"
  shows "makes_ptr k os p h s (value_from_tagged tag A os p h s)"
  using value_from_tagged_ok [OF ready, of tag p h]
proof
  assume "\<exists>v oid s'. value_from_tagged tag A os p h s = Some (v, h(v \<mapsto> p OR tag), s') \<and> obj_made M_GC_OBJ_PTR v v oid s s' ths"
  then obtain v oid s' where 1: "value_from_tagged tag A os p h s = Some (v, h(v \<mapsto> p OR tag), s')" "v \<noteq> 0" "8 dvd unat v"
    by (auto simp: obj_made_def)
  have "(h(v \<mapsto> p OR tag)) v = Some (p OR tag)" by simp
  note T = tagged_value [of v "h(v \<mapsto> p OR tag)", OF 1(2,3) this p tag]
  show ?thesis unfolding makes_ptr_def 1(1)
    using T by (intro disjI2 exI [of _ v] exI [of _ "h(v \<mapsto> p OR tag)"] exI [of _ s'])
      (simp add: m_value_get_object_def m_value_get_closure_def m_value_get_array_def k)
qed (simp add: makes_ptr_def)

lemma constructors_make:
  assumes "alloc_ready A os env s L ths N" "4 dvd unat p" "p \<noteq> 0"
  shows "makes_ptr Object_Ptr os p h s (m_value_from_object A os p h s)"
    "makes_ptr Closure_Ptr os p h s (m_value_from_closure A os p h s)"
    "makes_ptr Array_Ptr os p h s (m_value_from_array A os p h s)"
  unfolding from_tagged by (rule tagged_makes [OF assms]; simp)+

end
