(* ===== verification/Client.thy ===== *)
theory Client
  imports Value Startup
begin

text \<open>
  What the object manager promises to the native code that uses it, \<open>include/m_gc.h\<close>: a stack
  of objects. \<open>m_gc_alloc_obj\<close> pushes a new object, \<open>m_gc_set_nb_level\<close> goes back to a
  level that was read before, and collections, asked for or not, take objects only that are not on the
  stack. The abstract state is the list of the objects with their types.
\<close>

type_synonym obj_stack = "(addr \<times> M_GCObjType) list"

datatype client_op = New M_GCObjType | Restore nat | RunGC

text \<open>One operation on the code and on the stack; a \<open>New\<close> for which no pool can be mapped has no
  effect.\<close>

fun client_step :: "allocator \<Rightarrow> os \<Rightarrow> client_op \<Rightarrow> ming \<times> obj_stack \<Rightarrow> (ming \<times> obj_stack) option" where
  "client_step A os (New t) (s, st) = do {
     r \<leftarrow> m_gc_alloc_obj A os t s;
     (case r of
        (c, None, s') \<Rightarrow> Some (s', st)
      | (c, Some oid, s') \<Rightarrow> Some (s', st @ [(c, t)])) }"
| "client_step A os (Restore n) (s, st) = do {
     s' \<leftarrow> m_gc_set_nb_level (of_nat (min n (length st))) s;
     Some (s', take n st) }"
| "client_step A os RunGC (s, st) = do { s' \<leftarrow> m_gc_run 0 s; Some (s', st) }"

fun op_ok :: "client_op \<Rightarrow> bool" where
  "op_ok (New t) \<longleftrightarrow> t \<in> real_types"
| "op_ok _ \<longleftrightarrow> True"

text \<open>The state of the code holds the stack.\<close>

definition holds :: "root_env \<Rightarrow> addr \<Rightarrow> ming \<Rightarrow> obj_stack \<Rightarrow> bool" where
  "holds env th s st \<longleftrightarrow> (\<exists>L. ming_ok env s L [th] {}) \<and> threads_ok s [th] \<and> runs_alone s \<and>
     nb_words (mg_mem s) (the (mg_threads s th)) = map (\<lambda>(c, t). c OR GC_NB_FL_NO_PTR) st \<and>
     distinct (map fst st) \<and>
     (\<forall>(c, t) \<in> set st. c \<in> gc_objs (mg_gc s) GC_MARK_WHITE \<and> obj_type (mg_gc s) c = t \<and> 8 dvd unat c)"

text \<open>The stack of the thread cannot grow: \<open>realloc\<close> fails, or there are \<open>2 ^ 31\<close> entries.\<close>

definition exhausted :: "allocator \<Rightarrow> ming \<Rightarrow> bool" where
  "exhausted A s \<longleftrightarrow> nb_reserve A s = None \<or> 2 ^ 31 \<le> unat (nb_size (the (mg_threads s (mg_self s))))"

lemma holds_pins:
  assumes "holds env th s st"
  shows "root_pins s [th] {} = (\<lambda>c. (c, GC_MARK_BLACK)) ` fst ` set st"
proof -
  have "nb_pin (c OR GC_NB_FL_NO_PTR) = (c, GC_MARK_BLACK)" if "(c, t) \<in> set st" for c t
    using assms that nb_pin_new [of c] by (auto simp: holds_def)
  then have "nb_pin ` set (map (\<lambda>(c, t). c OR GC_NB_FL_NO_PTR) st) = (\<lambda>c. (c, GC_MARK_BLACK)) ` fst ` set st"
    by (force simp: image_iff)
  then show ?thesis using assms by (simp add: root_pins_def holds_def)
qed

lemma holds_self: "holds env th s st \<Longrightarrow> mg_self s = th \<and> th \<noteq> 0"
  by (auto simp: holds_def threads_ok_def dlist_def)

text \<open>The objects of the stack after a step that keeps what is pinned.\<close>

lemma holds_kept:
  assumes "holds env th s st" "keeps_pinned s s' [th] {}" "(c, t) \<in> set st"
  shows "c \<in> gc_objs (mg_gc s') GC_MARK_WHITE" "obj_type (mg_gc s') c = t" "8 dvd unat c"
proof -
  have "(c, GC_MARK_BLACK) \<in> root_pins s [th] {}" unfolding holds_pins [OF assms(1)] using assms(3) by force
  moreover have "c \<in> gc_objs (mg_gc s) GC_MARK_WHITE" "obj_type (mg_gc s) c = t" "8 dvd unat c"
    using assms(1,3) by (auto simp: holds_def)
  ultimately show "c \<in> gc_objs (mg_gc s') GC_MARK_WHITE" "obj_type (mg_gc s') c = t" "8 dvd unat c"
    using assms(2) by (auto simp: keeps_pinned_def)
qed

lemma white_cell: "x \<in> gc_objs g GC_MARK_WHITE \<Longrightarrow> is_cell g x"
  by (auto simp: gc_objs_def is_cell_def)

subsection \<open>The operations\<close>

lemma collect_holds:
  assumes h: "holds env th s st"
  shows "\<exists>s'. m_gc_run 0 s = Some s' \<and> holds env th s' st \<and> gc_objs (mg_gc s') GC_MARK_WHITE = fst ` set st"
proof -
  obtain L where ok: "ming_ok env s L [th] {}" and thr: "threads_ok s [th]" "runs_alone s" using h by (auto simp: holds_def)
  obtain g L' where g: "gc_collect_objs 0 s = Some (None, s\<lparr>mg_gc := g\<rparr>)" "gc_ok g L'" "collected s [th] {} g"
    using gc_run_ok [OF ok thr(2)] by blast
  let ?s = "s\<lparr>mg_gc := g\<rparr>"
  note kept = holds_kept [OF h collected_keeps [OF g(2,3)]]
  have pins: "root_pins ?s [th] {} = root_pins s [th] {}" by (simp add: root_pins_def)
  have "is_cell g x" if "(x, c) \<in> root_pins s [th] {}" for x c
    using that kept white_cell unfolding holds_pins [OF h] by fastforce
  then have "ming_ok env ?s L' [th] {}"
    using ok g(2,3) unfolding ming_ok_def pins by (simp add: collected_def roots_ok_def)
  moreover have "threads_ok ?s [th]" "runs_alone ?s" using thr by (simp_all add: threads_ok_def runs_alone_def)
  ultimately have "holds env th ?s st" using h kept by (auto simp: holds_def)
  moreover have "gc_objs g GC_MARK_WHITE = fst ` set st"
  proof -
    have "gc_objs g GC_MARK_WHITE = kept_objs s [th] {}" using g(3) by (simp add: collected_def)
    also have "\<dots> \<subseteq> fst ` set st" by (auto simp: kept_objs_def blackens_def holds_pins [OF h])
    finally show ?thesis using kept by force
  qed
  ultimately show ?thesis using g(1) by (simp add: m_gc_run_def)
qed

lemma new_holds:
  assumes A: "allocator_ok A" and h: "holds env th s st" and t: "t \<in> real_types" and room: "\<not> exhausted A s"
    and map: "mapped_pages 4096 0 (gc_vm (mg_gc s)) (gc_mmap os 4096 0 (gc_vm (mg_gc s)))"
  shows "\<exists>s' st'. client_step A os (New t) (s, st) = Some (s', st') \<and> holds env th s' st'"
proof -
  obtain L where ok: "ming_ok env s L [th] {}" and thr: "threads_ok s [th]" "runs_alone s" using h by (auto simp: holds_def)
  have small: "unat (nb_size (the (mg_threads s (mg_self s)))) < 2 ^ 31" "nb_reserve A s \<noteq> None"
    using room by (simp_all add: exhausted_def not_le)
  show ?thesis
    using gc_alloc_obj_ok [OF A ok thr small(1) t map small(2)]
  proof (elim disjE conjE exE)
    assume "gc_alloc_obj A os t s = Some (0, None, s)"
    then show ?thesis using h by (simp add: m_gc_alloc_obj_def)
  next
    fix c oid s' L'
    assume 1: "gc_alloc_obj A os t s = Some (c, Some oid, s')" "c \<notin> gc_objs (mg_gc s) GC_MARK_WHITE"
      "c \<in> gc_objs (mg_gc s') GC_MARK_WHITE" "gc_ok (mg_gc s') L'" "at_rest (mg_gc s')" "threads_ok s' [th]" "runs_alone s'"
      "root_pins s' [th] {} = insert (c, GC_MARK_BLACK) (root_pins s [th] {})" "8 dvd unat c"
      "pushed (c OR GC_NB_FL_NO_PTR) oid s s' [th]" "obj_type (mg_gc s') c = t" "keeps_pinned s s' [th] {}"
    note kept = holds_kept [OF h 1(12)]
    have "is_cell (mg_gc s') x" if "(x, d) \<in> root_pins s' [th] {}" for x d
      using that 1(3) kept white_cell unfolding 1(8) holds_pins [OF h] by fastforce
    moreover have "roots_ok env s' [th] {}"
      using ok 1(6,10) by (fastforce simp: ming_ok_def roots_ok_def threads_ok_def nb_ok_def pushed_def)
    ultimately have "ming_ok env s' L' [th] {}" using 1(4,5) by (simp add: ming_ok_def)
    moreover have "nb_words (mg_mem s') (the (mg_threads s' th)) = map (\<lambda>(c, t). c OR GC_NB_FL_NO_PTR) (st @ [(c, t)])"
      using 1(10) holds_self [OF h] h by (simp add: pushed_def holds_def)
    moreover have "c \<notin> fst ` set st" using 1(2) h by (auto simp: holds_def)
    ultimately have "holds env th s' (st @ [(c, t)])"
      using 1(3,6,7,9,11) kept h by (auto simp: holds_def)
    then show ?thesis using 1(1) by (simp add: m_gc_alloc_obj_def)
  qed
qed

lemma restore_holds:
  assumes h: "holds env th s st"
  shows "\<exists>s'. client_step A os (Restore n) (s, st) = Some (s', take n st) \<and> holds env th s' (take n st)"
proof -
  obtain L where ok: "ming_ok env s L [th] {}" and thr: "threads_ok s [th]" "runs_alone s" using h by (auto simp: holds_def)
  obtain T where T: "mg_threads s th = Some T" "nb_ok (mg_mem s) T" "dlist (mg_thread_nodes s) (mg_thread_list s) [th]"
    using thr(1) by (auto simp: threads_ok_def)
  have self: "mg_self s = th" "th \<noteq> 0" using holds_self [OF h] by simp_all
  have words: "nb_words (mg_mem s) T = map (\<lambda>(c, t). c OR GC_NB_FL_NO_PTR) st" using h T(1) by (simp add: holds_def)
  from arg_cong [OF this, of length] have top: "unat (nb_top T) = length st" by (simp add: nb_words_def)
  have b: "length st < 2 ^ 32" using unsigned_less [of "nb_top T", where ?'a = nat] top by simp
  define k where "k = min n (length st)"
  have k: "k \<le> length st" "unat (of_nat k :: u64) = k" "unat (of_nat k :: u32) = k"
    using b by (simp_all add: k_def unat_of_nat take_bit_eq_mod)
  have cast: "ucast (of_nat k :: u64) = (of_nat k :: u32)"
    using k b by (intro word_unat_eq_iff [THEN iffD2]) (simp add: unsigned_ucast_eq take_bit_eq_mod mod_less)
  let ?T = "T\<lparr>nb_top := of_nat k\<rparr>"
  let ?s = "s\<lparr>mg_threads := (mg_threads s)(th \<mapsto> ?T)\<rparr>"
  have run: "m_gc_set_nb_level (of_nat k) s = Some ?s"
    using nb_level_restored [of s T "of_nat k"] self T(1) top k cast by auto
  have words': "nb_words (mg_mem s) ?T = map (\<lambda>(c, t). c OR GC_NB_FL_NO_PTR) (take n st)"
  proof -
    have "nb_words (mg_mem s) ?T = take k (nb_words (mg_mem s) T)"
      using k(1,3) top by (simp add: nb_words_def take_map)
    moreover have "take k st = take n st" by (simp add: k_def min_def)
    ultimately show ?thesis by (simp add: words take_map)
  qed
  have nb: "nb_ok (mg_mem s) ?T"
  proof -
    have "of_nat k \<le> nb_top T" using k(1,3) top by (simp add: word_le_nat_alt)
    then show ?thesis using T(2) k(3) by (auto simp: nb_ok_def nb_stack_ok_def word_le_nat_alt split: if_splits)
  qed
  have pins: "root_pins ?s [th] {} \<subseteq> root_pins s [th] {}"
  proof -
    have "set (nb_words (mg_mem s) ?T) \<subseteq> set (nb_words (mg_mem s) T)"
      unfolding words words' set_map by (intro image_mono set_take_subset)
    then show ?thesis using T(1) by (auto simp: root_pins_def)
  qed
  have "ming_ok env ?s L [th] {}"
    using ok pins nb by (auto simp: ming_ok_def roots_ok_def nb_ok_def)
  moreover have "threads_ok ?s [th]" using T(3) nb self by (simp add: threads_ok_def)
  moreover have "runs_alone ?s" using thr(2) self T(1) by (simp add: runs_alone_def)
  moreover have "distinct (map fst (take n st))" using h by (simp add: holds_def take_map [symmetric])
  moreover have "set (take n st) \<subseteq> set st" by (rule set_take_subset)
  ultimately have "holds env th ?s (take n st)"
    using h words' unfolding holds_def by auto
  then show ?thesis using run by (simp add: k_def)
qed

subsection \<open>Runs\<close>

text \<open>Every sequence of operations runs, without a fault, to its end or to a state in which the stack
  cannot grow, and the code holds the abstract stack at every moment.\<close>

lemma client_run:
  assumes "allocator_ok A" "\<And>vm. mapped_pages 4096 0 vm (gc_mmap os 4096 0 vm)" "holds env th s st" "list_all op_ok ops"
  shows "\<exists>k s' st'. k \<le> length ops \<and> fold_opt (client_step A os) (take k ops) (s, st) = Some (s', st') \<and>
    holds env th s' st' \<and> (k = length ops \<or> exhausted A s')"
  using assms(3,4)
proof (induction ops arbitrary: s st)
  case Nil
  then show ?case by auto
next
  case (Cons op ops)
  have "exhausted A s \<or> (\<exists>s' st'. client_step A os op (s, st) = Some (s', st') \<and> holds env th s' st')"
  proof (cases op)
    case (New t)
    then show ?thesis using new_holds [OF assms(1) Cons.prems(1) _ _ assms(2)] Cons.prems(2) by auto
  next
    case (Restore n)
    then show ?thesis using restore_holds [OF Cons.prems(1), of A os n] by blast
  next
    case RunGC
    then show ?thesis using collect_holds [OF Cons.prems(1)] by fastforce
  qed
  then show ?case
  proof
    assume "exhausted A s"
    then show ?thesis using Cons.prems(1) by (intro exI [of _ 0]) auto
  next
    assume "\<exists>s' st'. client_step A os op (s, st) = Some (s', st') \<and> holds env th s' st'"
    then obtain s1 st1 where 1: "client_step A os op (s, st) = Some (s1, st1)" "holds env th s1 st1" by blast
    obtain k s' st' where k: "k \<le> length ops" "fold_opt (client_step A os) (take k ops) (s1, st1) = Some (s', st')"
      "holds env th s' st'" "k = length ops \<or> exhausted A s'"
      using Cons.IH [OF 1(2)] Cons.prems(2) by auto
    then show ?thesis using 1(1) by (intro exI [of _ "Suc k"] exI [of _ s'] exI [of _ st']) auto
  qed
qed

lemma started_holds: "started env s s' th \<Longrightarrow> holds env th s' []"
  by (auto simp: started_def holds_def nb_words_def)

end
