(* ===== verification/Program.thy ===== *)
theory Program
  imports Startup Log
begin

text \<open>
  The whole process: \<open>src/m_startup.c\<close> with the log and the messages that startup and
  shutdown write to it. \<open>startup\<close> and \<open>shutdown\<close> are those of the source, over the
  state of the log and the state \<open>ming\<close> of everything else. The messages of one of the
  functions called are given by a list, in their order; they do not depend on the log and the log
  does not change the process. The clock is read once for each message. Of \<open>__FILE__\<close> the
  directory is a parameter, and so is the text of \<open>%p\<close>; a call on several lines has the
  number of its first line.
\<close>

subsection \<open>State and messages\<close>

record program_env =
  pe_log :: log_env
  pe_localtime :: "int \<Rightarrow> tm"
  pe_clock :: "nat \<Rightarrow> timespec"
  pe_dir :: string
  pe_ptr :: "addr \<Rightarrow> string"
  pe_gc :: gc_env

record program =
  pr_once :: bool
  pr_atexit :: bool
  pr_calls :: nat
  pr_log :: log_state
  pr_ming :: ming

text \<open>Before \<open>main\<close> calls \<open>m_startup\<close>.\<close>

definition boot :: "(log_file \<Rightarrow> string) \<Rightarrow> ming \<Rightarrow> program" where
  "boot files s = \<lparr>pr_once = False, pr_atexit = False, pr_calls = 0, pr_log = log_static files, pr_ming = s\<rparr>"

type_synonym log_msg = "timespec \<Rightarrow> log_call"

definition log_msg :: "program_env \<Rightarrow> M_LogLevel \<Rightarrow> string \<Rightarrow> string \<Rightarrow> string \<Rightarrow> int \<Rightarrow> string \<Rightarrow> log_msg" where
  "log_msg E level tag file func line msg ts =
     \<lparr>lc_time = ts, lc_level = level, lc_tag = tag, lc_file = pe_dir E @ file, lc_func = func, lc_line = line, lc_msg = msg\<rparr>"

definition emit :: "program_env \<Rightarrow> log_msg \<Rightarrow> program \<Rightarrow> program option" where
  "emit E m p = do {
     l \<leftarrow> call_log (pe_localtime E) (m (pe_clock E (pr_calls p))) (pr_log p);
     Some (p\<lparr>pr_log := l, pr_calls := pr_calls p + 1\<rparr>) }"

definition emits :: "program_env \<Rightarrow> log_msg list \<Rightarrow> program \<Rightarrow> program option" where
  "emits E = fold_opt (emit E)"

text \<open>\<open>%d\<close> reads 32 bits of a \<open>size_t\<close>.\<close>

definition fmt_size :: "u64 \<Rightarrow> string" where
  "fmt_size n = fmt_d 0 (sint (ucast n :: u32))"

subsection \<open>The messages of the parts\<close>

abbreviation obj_msg :: "program_env \<Rightarrow> M_LogLevel \<Rightarrow> string \<Rightarrow> int \<Rightarrow> string \<Rightarrow> log_msg" where
  "obj_msg E level func line msg \<equiv> log_msg E level ''gc_obj'' ''m_gc_obj.c'' func line msg"

text \<open>A pool size that is above a page and no power of two.\<close>

definition illegal_pool_size :: "int option \<Rightarrow> bool" where
  "illegal_pool_size val = (case val of None \<Rightarrow> False
     | Some n \<Rightarrow> n \<noteq> LONG_MAX \<and> word_of_int n > M_PAGE_SIZE \<and> pow2_loop (word_of_int n) 1 \<noteq> Some (word_of_int n))"

definition stub_msg :: "program_env \<Rightarrow> GC \<Rightarrow> nat \<times> M_GCObjType \<Rightarrow> log_msg" where
  "stub_msg E g nt = obj_msg E M_LOG_LEVEL_DEBUG ''gc_obj_startup'' 740
     (''type:'' @ fmt_d 0 (int (fst nt)) @ '' cell size:'' @ fmt_size (ucast (d_size (descr_of (snd nt)))) @
      '' cell num:'' @ fmt_size (cell_num (gc_obj_stubs g (snd nt))) @
      '' bitmap size:'' @ fmt_size (bitmap_size (gc_obj_stubs g (snd nt))))"

definition obj_startup_msgs :: "program_env \<Rightarrow> GC \<Rightarrow> log_msg list" where
  "obj_startup_msgs E g =
     [obj_msg E M_LOG_LEVEL_INFO ''gc_obj_startup'' 670 (''gc begin size:'' @ fmt_size (gc_begin_size g))] @
     (if illegal_pool_size (env_cell_pool_size (pe_gc E))
      then [obj_msg E M_LOG_LEVEL_ERROR ''gc_obj_startup'' 687 ''illegal cell pool size. it must be power of 2.'']
      else []) @
     [obj_msg E M_LOG_LEVEL_INFO ''gc_obj_startup'' 693 (''gc cell pool size:'' @ fmt_size (gc_cell_pool_size g)),
      obj_msg E M_LOG_LEVEL_INFO ''gc_obj_startup'' 706 (''gc gray stack size:'' @ fmt_size (gc_gray_limit g))] @
     map (stub_msg E g) (List.enumerate 0 obj_types)"

definition register_msg :: "program_env \<Rightarrow> addr \<Rightarrow> log_msg" where
  "register_msg E th = log_msg E M_LOG_LEVEL_DEBUG ''ming'' ''m_thread.c'' ''thread_register'' 107
     (''register thread '' @ pe_ptr E th)"

text \<open>\<open>gc_do_collect\<close> with the flag \<open>M_GC_COLLECT_FL_CLEAR\<close> sweeps, unless it finds the
  last state of an incremental collection.\<close>

definition obj_shutdown_msgs :: "program_env \<Rightarrow> GC \<Rightarrow> GC \<Rightarrow> log_msg list" where
  "obj_shutdown_msgs E g g' =
     obj_msg E M_LOG_LEVEL_DEBUG ''gc_obj_shutdown'' 749 ''clear objcets'' #
     (if gc_status g = GC_STATUS_COMPACT then []
      else [obj_msg E M_LOG_LEVEL_DEBUG ''gc_sweep'' 453 ''sweep objects'',
            obj_msg E M_LOG_LEVEL_DEBUG ''gc_sweep'' 477
              (''collect '' @ fmt_size (gc_allocated_size g - gc_allocated_size g') @ '' bytes'')])"

definition startup_msg :: "program_env \<Rightarrow> int \<Rightarrow> string \<Rightarrow> string \<Rightarrow> log_msg" where
  "startup_msg E line func msg = log_msg E M_LOG_LEVEL_INFO ''startup'' ''m_startup.c'' func line msg"

subsection \<open>Operations\<close>

definition startup :: "allocator \<Rightarrow> program_env \<Rightarrow> program \<Rightarrow> program option" where
  "startup A E p = do {
     p1 \<leftarrow> emit E (startup_msg E 45 ''startup'' ''ming startup'') (p\<lparr>pr_log := m_log_startup (pe_log E) (pr_log p)\<rparr>);
     s1 \<leftarrow> m_gc_startup A (pe_gc E) (pr_ming p1);
     p2 \<leftarrow> emits E (obj_startup_msgs E (mg_gc s1)) (p1\<lparr>pr_ming := s1\<rparr>);
     s2 \<leftarrow> threads_startup A (pr_ming p2);
     p3 \<leftarrow> emit E (register_msg E (mg_self s2)) (p2\<lparr>pr_ming := s2\<rparr>);
     Some (p3\<lparr>pr_atexit := True\<rparr>) }"

definition shutdown :: "root_env \<Rightarrow> program_env \<Rightarrow> program \<Rightarrow> program option" where
  "shutdown env E p = do {
     s1 \<leftarrow> threads_shutdown (pr_ming p);
     s2 \<leftarrow> m_gc_shutdown env s1;
     p1 \<leftarrow> emits E (obj_shutdown_msgs E (mg_gc s1) (mg_gc s2)) (p\<lparr>pr_ming := s2\<rparr>);
     p2 \<leftarrow> emit E (startup_msg E 35 ''shutdown'' ''ming shutdown'') p1;
     Some (p2\<lparr>pr_log := m_log_shutdown (pr_log p2)\<rparr>) }"

text \<open>\<open>m_startup\<close>: \<open>pthread_once\<close>; and what \<open>exit\<close> does with the function that
  \<open>startup\<close> registers by \<open>atexit\<close>.\<close>

definition startup_once :: "allocator \<Rightarrow> program_env \<Rightarrow> program \<Rightarrow> program option" where
  "startup_once A E p = (if pr_once p then Some p else startup A E (p\<lparr>pr_once := True\<rparr>))"

definition run_atexit :: "root_env \<Rightarrow> program_env \<Rightarrow> program \<Rightarrow> program option" where
  "run_atexit env E p = (if pr_atexit p then shutdown env E (p\<lparr>pr_atexit := False\<rparr>) else Some p)"


subsection \<open>What a run writes\<close>

fun stamped :: "program_env \<Rightarrow> nat \<Rightarrow> log_msg list \<Rightarrow> log_call list" where
  "stamped E k [] = []"
| "stamped E k (m # ms) = m (pe_clock E k) # stamped E (Suc k) ms"

definition log_text :: "program_env \<Rightarrow> log_call list \<Rightarrow> string" where
  "log_text E cs = concat (map (line_of (shows_col (pe_log E)) (pe_localtime E))
     (filter (\<lambda>c. reaches (pe_log E) (lc_level c)) cs))"

definition add_text :: "log_file \<Rightarrow> string \<Rightarrow> log_state \<Rightarrow> log_state" where
  "add_text f txt l = l\<lparr>log_out := (log_out l)(f := log_out l f @ txt)\<rparr>"

text \<open>The log as \<open>m_log_startup\<close> leaves it, and a program after some messages.\<close>

definition log_open :: "program_env \<Rightarrow> log_state \<Rightarrow> bool" where
  "log_open E l \<longleftrightarrow> log_ready l \<and> log_fp l = Some (target (pe_log E)) \<and> log_level l = threshold (pe_log E) \<and>
     (\<exists>l0. log_flags l = log_flags (m_log_startup (pe_log E) l0))"

definition said :: "program_env \<Rightarrow> log_msg list \<Rightarrow> program \<Rightarrow> program" where
  "said E ms p = p\<lparr>pr_log := add_text (target (pe_log E)) (log_text E (stamped E (pr_calls p) ms)) (pr_log p),
     pr_calls := pr_calls p + length ms\<rparr>"

lemma stamped_append: "stamped E k (ms @ ns) = stamped E k ms @ stamped E (k + length ms) ns"
  by (induction ms arbitrary: k) simp_all

lemma log_text_append: "log_text E (cs @ ds) = log_text E cs @ log_text E ds"
  by (simp add: log_text_def)

lemma said_simps [simp]:
  "said E [] p = p" "said E ns (said E ms p) = said E (ms @ ns) p"
  "said E ms (p\<lparr>pr_ming := s\<rparr>) = (said E ms p)\<lparr>pr_ming := s\<rparr>"
  "said E ms (p\<lparr>pr_atexit := b\<rparr>) = (said E ms p)\<lparr>pr_atexit := b\<rparr>"
  "pr_ming (said E ms p) = pr_ming p" "pr_atexit (said E ms p) = pr_atexit p" "pr_once (said E ms p) = pr_once p"
  "pr_calls (said E ms p) = pr_calls p + length ms"
  by (simp_all add: said_def stamped_append log_text_append add_text_def) (simp_all add: log_text_def)

lemma said_open [simp]: "log_open E (pr_log (said E ms p)) = log_open E (pr_log p)"
  by (simp add: said_def log_open_def add_text_def)

lemma startup_open [simp]: "log_open E (m_log_startup (pe_log E) l)"
  using startup_state [of "pe_log E" l] by (auto simp: log_open_def)

lemma emits_open:
  assumes "log_open E (pr_log p)"
  shows "emits E ms p = Some (said E ms p)"
  using assms
proof (induction ms arbitrary: p)
  case (Cons m ms)
  obtain l0 where "log_flags (pr_log p) = log_flags (m_log_startup (pe_log E) l0)" using Cons.prems by (auto simp: log_open_def)
  with Cons.prems have "emit E m p = Some (said E [m] p)"
    unfolding emit_def log_open_def
    by (subst call_log_started [where e = "pe_log E" and ?s0.0 = l0])
       (auto simp: said_def add_text_def log_text_def reaches_iff not_le)
  then show ?case using Cons.IH [of "said E [m] p"] Cons.prems by (simp add: emits_def)
qed (simp add: emits_def)

lemma emit_open: "log_open E (pr_log p) \<Longrightarrow> emit E m p = Some (said E [m] p)"
  using emits_open [of E p "[m]"] by (simp add: emits_def split: bind_splits)


subsection \<open>The log of a run\<close>

text \<open>What startup and shutdown are to write, in terms of the environment: level, tag, file,
  function, line and text. A number is shown by its 32 lowest bits. The table lists type, cell
  size, number of cells and size of the bitmap for pools of one page.\<close>

type_synonym entry = "M_LogLevel \<times> string \<times> string \<times> string \<times> int \<times> string"

definition entry_call :: "program_env \<Rightarrow> entry \<Rightarrow> log_msg" where
  "entry_call E x ts = (case x of (level, tag, file, func, line, msg) \<Rightarrow>
     \<lparr>lc_time = ts, lc_level = level, lc_tag = tag, lc_file = pe_dir E @ file, lc_func = func, lc_line = line, lc_msg = msg\<rparr>)"

definition int_text :: "int \<Rightarrow> string" where
  "int_text n = fmt_d 0 (signed_take_bit 31 n)"

definition env_number :: "int \<Rightarrow> int option \<Rightarrow> int" where
  "env_number dflt v = (case v of None \<Rightarrow> dflt | Some n \<Rightarrow> if 0 < n \<and> n \<noteq> 2 ^ 63 - 1 then n else dflt)"

definition refused_pool_size :: "int option \<Rightarrow> bool" where
  "refused_pool_size v = (case v of None \<Rightarrow> False
     | Some n \<Rightarrow> n \<noteq> 2 ^ 63 - 1 \<and> 4096 < n mod 2 ^ 64 \<and> (\<forall>k < 64. n mod 2 ^ 64 \<noteq> 2 ^ k))"

definition page_table :: "(int \<times> int \<times> int \<times> int) list" where
  "page_table = [(0, 8, 491, 128), (1, 8, 491, 128), (2, 16, 249, 64), (3, 40, 100, 32),
     (4, 24, 167, 48), (5, 0, 16224, 4056), (6, 24, 167, 48)]"

definition startup_entries :: "program_env \<Rightarrow> addr \<Rightarrow> entry list" where
  "startup_entries E th =
     [(M_LOG_LEVEL_INFO, ''startup'', ''m_startup.c'', ''startup'', 45, ''ming startup''),
      (M_LOG_LEVEL_INFO, ''gc_obj'', ''m_gc_obj.c'', ''gc_obj_startup'', 670,
         ''gc begin size:'' @ int_text (env_number 131072 (env_begin_size (pe_gc E))))] @
     (if refused_pool_size (env_cell_pool_size (pe_gc E))
      then [(M_LOG_LEVEL_ERROR, ''gc_obj'', ''m_gc_obj.c'', ''gc_obj_startup'', 687,
         ''illegal cell pool size. it must be power of 2.'')] else []) @
     [(M_LOG_LEVEL_INFO, ''gc_obj'', ''m_gc_obj.c'', ''gc_obj_startup'', 693, ''gc cell pool size:'' @ int_text 4096),
      (M_LOG_LEVEL_INFO, ''gc_obj'', ''m_gc_obj.c'', ''gc_obj_startup'', 706,
         ''gc gray stack size:'' @ int_text (env_number 256 (env_gray_stack_size (pe_gc E))))] @
     map (\<lambda>(type, sz, num, bs). (M_LOG_LEVEL_DEBUG, ''gc_obj'', ''m_gc_obj.c'', ''gc_obj_startup'', 740,
         ''type:'' @ int_text type @ '' cell size:'' @ int_text sz @ '' cell num:'' @ int_text num @
         '' bitmap size:'' @ int_text bs)) page_table @
     [(M_LOG_LEVEL_DEBUG, ''ming'', ''m_thread.c'', ''thread_register'', 107, ''register thread '' @ pe_ptr E th)]"

definition exit_entries :: "int \<Rightarrow> entry list" where
  "exit_entries n =
     [(M_LOG_LEVEL_DEBUG, ''gc_obj'', ''m_gc_obj.c'', ''gc_obj_shutdown'', 749, ''clear objcets''),
      (M_LOG_LEVEL_DEBUG, ''gc_obj'', ''m_gc_obj.c'', ''gc_sweep'', 453, ''sweep objects''),
      (M_LOG_LEVEL_DEBUG, ''gc_obj'', ''m_gc_obj.c'', ''gc_sweep'', 477, ''collect '' @ int_text n @ '' bytes''),
      (M_LOG_LEVEL_INFO, ''startup'', ''m_startup.c'', ''shutdown'', 35, ''ming shutdown'')]"

definition run_text :: "program_env \<Rightarrow> addr \<Rightarrow> log_msg list \<Rightarrow> int \<Rightarrow> string" where
  "run_text E th ms n = log_text E (stamped E 0
     (map (entry_call E) (startup_entries E th) @ ms @ map (entry_call E) (exit_entries n)))"

lemma fmt_size_text: "fmt_size (word_of_int n) = int_text n"
proof -
  have "sint (ucast (word_of_int n :: u64) :: u32) = signed_take_bit 31 n"
    by (rule bit_eqI) (auto simp: bit_simps signed_ucast_eq min_def)
  then show ?thesis by (simp add: fmt_size_def int_text_def)
qed

lemma fmt_size_uint: "fmt_size n = int_text (uint n)"
  using fmt_size_text [of "uint n"] by simp

lemma refused_illegal: "illegal_pool_size v = refused_pool_size v"
proof (cases v)
  case (Some n)
  let ?w = "word_of_int n :: u64"
  obtain x where x: "pow2_loop ?w 1 = Some x" "?w = x \<and> ?w \<noteq> 0 \<longleftrightarrow> (\<exists>m < 64. ?w = 2 ^ m)"
    using pow2_loop_result by blast
  have u: "uint ?w = n mod 2 ^ 64" by (simp add: unsigned_of_int take_bit_eq_mod)
  have "?w = 2 ^ m \<longleftrightarrow> n mod 2 ^ 64 = 2 ^ m" if "m < 64" for m
    using u unat_pow2 [OF that] by (metis of_nat_numeral of_nat_power uint_nat word_uint_eq_iff)
  then have pow: "(\<exists>m < 64. ?w = 2 ^ m) \<longleftrightarrow> (\<exists>m < 64. n mod 2 ^ 64 = 2 ^ m)" by auto
  have big: "?w > M_PAGE_SIZE \<longleftrightarrow> 4096 < n mod 2 ^ 64" by (simp add: word_less_def u M_PAGE_SIZE_def)
  have nz: "4096 < n mod 2 ^ 64 \<Longrightarrow> ?w \<noteq> 0" using u by auto
  show ?thesis
    using x pow nz by (auto simp: Some illegal_pool_size_def refused_pool_size_def big LONG_MAX_def)
qed (simp add: illegal_pool_size_def refused_pool_size_def)

subsection \<open>Startup and shutdown with their messages\<close>

lemma threads_startup_gc: "threads_startup A s = Some s' \<Longrightarrow> mg_gc s' = mg_gc s"
  by (auto simp: threads_startup_def register_thread_def Let_def split: bind_splits)

definition startup_msgs :: "program_env \<Rightarrow> GC \<Rightarrow> addr \<Rightarrow> log_msg list" where
  "startup_msgs E g th =
     startup_msg E 45 ''startup'' ''ming startup'' # obj_startup_msgs E g @ [register_msg E th]"

definition shutdown_msgs :: "program_env \<Rightarrow> GC \<Rightarrow> GC \<Rightarrow> log_msg list" where
  "shutdown_msgs E g g' = obj_shutdown_msgs E g g' @ [startup_msg E 35 ''shutdown'' ''ming shutdown'']"

text \<open>The log never makes startup fail, and it does not change what the other parts do.\<close>

lemma startup_run:
  "startup A E p = (case process_startup A (pe_gc E) (pr_ming p) of
     None \<Rightarrow> None
   | Some s \<Rightarrow> Some (said E (startup_msgs E (mg_gc s) (mg_self s))
       (p\<lparr>pr_log := m_log_startup (pe_log E) (pr_log p), pr_ming := s, pr_atexit := True\<rparr>)))"
proof (cases "m_gc_startup A (pe_gc E) (pr_ming p)")
  case None
  then show ?thesis by (simp add: startup_def process_startup_def emit_open)
next
  case (Some s1)
  then show ?thesis
  proof (cases "threads_startup A s1")
    case None
    then show ?thesis using Some by (simp add: startup_def process_startup_def emit_open emits_open)
  next
    case s2: (Some s2)
    have "mg_gc s2 = mg_gc s1" by (rule threads_startup_gc [OF s2])
    then show ?thesis using Some s2
      by (simp add: startup_def process_startup_def emit_open emits_open startup_msgs_def)
  qed
qed

lemma shutdown_run:
  assumes "log_open E (pr_log p)" "threads_shutdown (pr_ming p) = Some s1" "m_gc_shutdown env s1 = Some s2"
  shows "shutdown env E p = Some (let q = said E (shutdown_msgs E (mg_gc s1) (mg_gc s2)) (p\<lparr>pr_ming := s2\<rparr>)
    in q\<lparr>pr_log := m_log_shutdown (pr_log q)\<rparr>)"
  using assms by (simp add: shutdown_def emits_open emit_open shutdown_msgs_def Let_def)

text \<open>Shutdown collects everything that is allocated and says how much it was.\<close>

lemma threads_shutdown_gc: "threads_shutdown s = Some s' \<Longrightarrow> mg_gc s' = mg_gc s"
  by (auto simp: threads_shutdown_def release_thread_def Let_def split: bind_splits)

lemma gc_shutdown_size:
  assumes "gc_ok (mg_gc s) L" "at_rest (mg_gc s)" "m_gc_shutdown env s = Some s'"
  shows "gc_allocated_size (mg_gc s') = 0"
proof -
  obtain g where "gc_do_collect M_GC_COLLECT_FL_CLEAR s = Some (True, s\<lparr>mg_gc := g\<rparr>)" "gc_allocated_size g = 0"
    using clear_collection [OF assms(1,2)] by blast
  then show ?thesis using assms(3)
    by (auto simp: m_gc_shutdown_def gc_obj_shutdown_def split: bind_splits)
qed

definition exit_msgs :: "program_env \<Rightarrow> u64 \<Rightarrow> log_msg list" where
  "exit_msgs E n =
     [obj_msg E M_LOG_LEVEL_DEBUG ''gc_obj_shutdown'' 749 ''clear objcets'',
      obj_msg E M_LOG_LEVEL_DEBUG ''gc_sweep'' 453 ''sweep objects'',
      obj_msg E M_LOG_LEVEL_DEBUG ''gc_sweep'' 477 (''collect '' @ fmt_size n @ '' bytes''),
      startup_msg E 35 ''shutdown'' ''ming shutdown'']"

lemma shutdown_live:
  assumes live: "live_process env (pr_ming p) th N" and open_log: "log_open E (pr_log p)"
    and size: "nb_stack (the (mg_threads (pr_ming p) th)) = 0 \<or> unat (nb_size (the (mg_threads (pr_ming p) th))) mod 2 ^ 29 \<noteq> 0"
  shows "\<exists>s' q. process_shutdown env (pr_ming p) = Some s' \<and>
    q = said E (exit_msgs E (gc_allocated_size (mg_gc (pr_ming p)))) (p\<lparr>pr_ming := s'\<rparr>) \<and>
    shutdown env E p = Some (q\<lparr>pr_log := m_log_shutdown (pr_log q)\<rparr>)"
proof -
  obtain s' where s': "process_shutdown env (pr_ming p) = Some s'" using process_shutdown_ok [OF live size] by blast
  then obtain s1 where s1: "threads_shutdown (pr_ming p) = Some s1" "m_gc_shutdown env s1 = Some s'"
    by (auto simp: process_shutdown_def split: bind_splits)
  have g: "mg_gc s1 = mg_gc (pr_ming p)" by (rule threads_shutdown_gc [OF s1(1)])
  obtain L where ok: "gc_ok (mg_gc s1) L" "at_rest (mg_gc s1)" using live g by (auto simp: live_process_def)
  have "gc_allocated_size (mg_gc s') = 0" by (rule gc_shutdown_size [OF ok s1(2)])
  moreover have "gc_status (mg_gc s1) = GC_STATUS_IDLE" using ok(2) by (simp add: at_rest_def)
  ultimately have "shutdown_msgs E (mg_gc s1) (mg_gc s') = exit_msgs E (gc_allocated_size (mg_gc (pr_ming p)))"
    by (simp add: shutdown_msgs_def obj_shutdown_msgs_def exit_msgs_def g)
  then show ?thesis using s' shutdown_run [OF open_log s1] by (auto simp: Let_def)
qed


text \<open>The numbers in the messages of the object manager are those of the environment, and the
  layouts that fit its pools.\<close>

lemma init_stubs_keeps:
  "init_stubs ts g = Some g' \<Longrightarrow> gc_begin_size g' = gc_begin_size g \<and> gc_cell_pool_size g' = gc_cell_pool_size g \<and>
    gc_gray_limit g' = gc_gray_limit g \<and> (\<forall>t. t \<notin> set ts \<longrightarrow> gc_obj_stubs g' t = gc_obj_stubs g t)"
proof (induction ts arbitrary: g)
  case (Cons t ts)
  from Cons.prems obtain g1 where 1: "init_stubs ts g1 = Some g'" "gc_begin_size g1 = gc_begin_size g"
      "gc_cell_pool_size g1 = gc_cell_pool_size g" "gc_gray_limit g1 = gc_gray_limit g"
      "\<forall>t'. t' \<noteq> t \<longrightarrow> gc_obj_stubs g1 t' = gc_obj_stubs g t'"
    by (auto split: bind_splits)
  show ?case using Cons.IH [OF 1(1)] 1(2-5) by simp
qed simp

lemma init_stubs_layouts:
  "init_stubs ts g = Some g' \<Longrightarrow> t \<in> set ts \<Longrightarrow>
    \<exists>d. gc_obj_descrs t = Some d \<and> pool_layout (gc_cell_pool_size g) d = Some (gc_obj_stubs g' t)"
proof (induction ts arbitrary: g)
  case (Cons u ts)
  from Cons.prems(1) obtain d st g1 where 1: "gc_obj_descrs u = Some d" "pool_layout (gc_cell_pool_size g) d = Some st"
      "init_stubs ts g1 = Some g'" "gc_cell_pool_size g1 = gc_cell_pool_size g" "gc_obj_stubs g1 u = st"
    by (auto split: bind_splits)
  show ?case
  proof (cases "t \<in> set ts")
    case True
    then show ?thesis using Cons.IH [OF 1(3)] 1(4) by simp
  next
    case False
    then show ?thesis using Cons.prems(2) init_stubs_keeps [OF 1(3)] 1 by auto
  qed
qed simp

lemma startup_values:
  assumes "process_startup A e s = Some s'"
  shows "gc_begin_size (mg_gc s') = env_size M_GC_BEGIN_SIZE (env_begin_size e)"
    "env_pool_size (env_cell_pool_size e) = Some (gc_cell_pool_size (mg_gc s'))"
    "gc_gray_limit (mg_gc s') = env_size M_GC_GRAY_STACK_SIZE (env_gray_stack_size e)"
    "t \<in> set obj_types \<Longrightarrow> pool_layout (gc_cell_pool_size (mg_gc s')) (descr_of t) = Some (gc_obj_stubs (mg_gc s') t)"
proof -
  from assms obtain s1 where s1: "m_gc_startup A e s = Some s1" "threads_startup A s1 = Some s'"
    by (auto simp: process_startup_def split: bind_splits)
  have g: "mg_gc s' = mg_gc s1" by (rule threads_startup_gc [OF s1(2)])
  from s1(1) obtain g0 psize where 1: "init_stubs obj_types g0 = Some (mg_gc s1)" "env_pool_size (env_cell_pool_size e) = Some psize"
      "gc_begin_size g0 = env_size M_GC_BEGIN_SIZE (env_begin_size e)" "gc_cell_pool_size g0 = psize"
      "gc_gray_limit g0 = env_size M_GC_GRAY_STACK_SIZE (env_gray_stack_size e)"
    by (auto simp: m_gc_startup_def gc_obj_startup_def Let_def split: bind_splits)
  note k = init_stubs_keeps [OF 1(1)]
  show "gc_begin_size (mg_gc s') = env_size M_GC_BEGIN_SIZE (env_begin_size e)"
    "env_pool_size (env_cell_pool_size e) = Some (gc_cell_pool_size (mg_gc s'))"
    "gc_gray_limit (mg_gc s') = env_size M_GC_GRAY_STACK_SIZE (env_gray_stack_size e)"
    unfolding g using k 1(2-5) by simp_all
  show "pool_layout (gc_cell_pool_size (mg_gc s')) (descr_of t) = Some (gc_obj_stubs (mg_gc s') t)" if "t \<in> set obj_types"
    unfolding g using init_stubs_layouts [OF 1(1) that] k by (auto simp: descr_of_def)
qed

text \<open>The messages of the model are the entries.\<close>

lemma env_size_text: "fmt_size (env_size (word_of_int d) v) = int_text (env_number d v)"
  by (cases v) (simp_all add: env_size_def env_number_def LONG_MAX_def fmt_size_text)

lemma log_msg_entry: "log_msg E level tag file func line msg = entry_call E (level, tag, file, func, line, msg)"
  by (rule ext) (simp add: log_msg_def entry_call_def)

lemma startup_msgs_entries:
  assumes "process_startup A (pe_gc E) s = Some s'" "env_pool_size (env_cell_pool_size (pe_gc E)) = Some 4096"
  shows "startup_msgs E (mg_gc s') th = map (entry_call E) (startup_entries E th)"
proof -
  have pool: "gc_cell_pool_size (mg_gc s') = 4096" using startup_values(2) [OF assms(1)] assms(2) by simp
  have "gc_obj_stubs (mg_gc s') t = page_layout t" if "t \<in> set obj_types" for t
    using startup_values(4) [OF assms(1) that] page_layouts [OF that] by (simp add: pool)
  then have stubs: "map (stub_msg E (mg_gc s')) (List.enumerate 0 obj_types) =
      map (entry_call E) (map (\<lambda>(type, sz, num, bs). (M_LOG_LEVEL_DEBUG, ''gc_obj'', ''m_gc_obj.c'', ''gc_obj_startup'', 740,
         ''type:'' @ int_text type @ '' cell size:'' @ int_text sz @ '' cell num:'' @ int_text num @
         '' bitmap size:'' @ int_text bs)) page_table)"
    by (simp add: obj_types_def page_table_def stub_msg_def log_msg_entry fmt_size_uint descr_of_def)
      (simp add: int_text_def)
  have sizes: "fmt_size (gc_begin_size (mg_gc s')) = int_text (env_number 131072 (env_begin_size (pe_gc E)))"
    "fmt_size (gc_gray_limit (mg_gc s')) = int_text (env_number 256 (env_gray_stack_size (pe_gc E)))"
    "fmt_size (gc_cell_pool_size (mg_gc s')) = int_text 4096"
    unfolding startup_values(1,3) [OF assms(1)] pool
    using env_size_text [of 131072] env_size_text [of 256] by (simp_all add: fmt_size_uint)
  show ?thesis
    unfolding startup_msgs_def obj_startup_msgs_def stubs sizes refused_illegal
    by (simp add: startup_entries_def startup_msg_def register_msg_def log_msg_entry)
qed

lemma exit_msgs_entries: "exit_msgs E n = map (entry_call E) (exit_entries (uint n))"
  by (simp add: exit_msgs_def exit_entries_def log_msg_entry startup_msg_def fmt_size_uint)

subsection \<open>The whole run\<close>

text \<open>A program that has started writes other messages, comes to the state \<open>s2\<close> of its process and
  calls \<open>exit\<close>: the process is shut down once, the log is closed and holds the text of the run.\<close>

definition runs_to_exit ::
    "root_env \<Rightarrow> program_env \<Rightarrow> (log_file \<Rightarrow> string) \<Rightarrow> program \<Rightarrow> log_msg list \<Rightarrow> ming \<Rightarrow> bool" where
  "runs_to_exit env E files p ms s2 \<longleftrightarrow> (\<exists>p2 q. emits E ms (p\<lparr>pr_ming := s2\<rparr>) = Some p2 \<and> run_atexit env E p2 = Some q \<and>
     process_shutdown env s2 = Some (pr_ming q) \<and> run_atexit env E q = Some q \<and> \<not> log_ready (pr_log q) \<and>
     log_out (pr_log q) = files(target (pe_log E) := files (target (pe_log E)) @
       run_text E (mg_self (pr_ming p)) ms (uint (gc_allocated_size (mg_gc s2)))))"

lemma started_exits:
  assumes p: "startup_once A E (boot files s) = Some p"
    and page: "env_pool_size (env_cell_pool_size (pe_gc E)) = Some 4096"
    and live: "live_process env s2 (mg_self (pr_ming p)) N"
    and size: "nb_stack (the (mg_threads s2 (mg_self (pr_ming p)))) = 0 \<or>
      unat (nb_size (the (mg_threads s2 (mg_self (pr_ming p))))) mod 2 ^ 29 \<noteq> 0"
  shows "runs_to_exit env E files p ms s2"
proof -
  let ?b = "(boot files s)\<lparr>pr_once := True\<rparr>" and ?th = "mg_self (pr_ming p)"
  obtain s1 where run1: "process_startup A (pe_gc E) s = Some s1"
    and p1: "p = said E (startup_msgs E (mg_gc s1) (mg_self s1))
      (?b\<lparr>pr_log := m_log_startup (pe_log E) (pr_log ?b), pr_ming := s1, pr_atexit := True\<rparr>)"
    using p by (auto simp: startup_once_def startup_run boot_def split: option.splits)
  let ?p2 = "said E ms (p\<lparr>pr_ming := s2\<rparr>)"
  have op: "log_open E (pr_log ?p2)" by (simp add: p1)
  have "pr_ming ?p2 = s2" by simp
  then obtain s' q where sh: "process_shutdown env s2 = Some s'"
      "q = said E (exit_msgs E (gc_allocated_size (mg_gc s2))) (?p2\<lparr>pr_atexit := False, pr_ming := s'\<rparr>)"
      "shutdown env E (?p2\<lparr>pr_atexit := False\<rparr>) = Some (q\<lparr>pr_log := m_log_shutdown (pr_log q)\<rparr>)"
    using shutdown_live [of env "?p2\<lparr>pr_atexit := False\<rparr>" ?th N E] live size op by auto
  have em: "emits E ms (p\<lparr>pr_ming := s2\<rparr>) = Some ?p2" using op by (intro emits_open) simp
  have "pr_atexit ?p2" by (simp add: p1)
  then have run: "run_atexit env E ?p2 = Some (q\<lparr>pr_log := m_log_shutdown (pr_log q)\<rparr>)"
    using sh(3) by (simp only: run_atexit_def if_True)
  have "log_out (pr_log q) = files(target (pe_log E) := files (target (pe_log E)) @ log_text E (stamped E 0
       (startup_msgs E (mg_gc s1) ?th @ ms @ exit_msgs E (gc_allocated_size (mg_gc s2)))))"
    unfolding sh(2) p1 by (simp add: said_def boot_def add_text_def startup_state(4) log_static_def stamped_append log_text_append)
  then have lines: "log_out (pr_log q) = files(target (pe_log E) := files (target (pe_log E)) @
      run_text E ?th ms (uint (gc_allocated_size (mg_gc s2))))"
    unfolding startup_msgs_entries [OF run1 page] exit_msgs_entries run_text_def .
  have "\<not> pr_atexit q" "pr_ming q = s'" unfolding sh(2) by simp_all
  then show ?thesis
    unfolding runs_to_exit_def using em run sh(1) lines
    by (intro exI [of _ ?p2] exI [of _ "q\<lparr>pr_log := m_log_shutdown (pr_log q)\<rparr>"]) (simp add: m_log_shutdown_def run_atexit_def)
qed

lemma startup_once_process:
  "case process_startup A (pe_gc E) s of
     None \<Rightarrow> startup_once A E (boot files s) = None
   | Some s1 \<Rightarrow> \<exists>p. startup_once A E (boot files s) = Some p \<and> pr_ming p = s1 \<and> startup_once A E p = Some p"
  by (simp add: startup_once_def startup_run boot_def split: option.split)

lemma started_empty: "started env s s' th \<Longrightarrow> gc_allocated_size (mg_gc s') = 0"
  by (auto simp: started_def ming_ok_def at_rest_def bytes_ok_def objs_size_def pool_bytes_def)

end
