(* ===== verification/Value32.thy ===== *)
theory Value32
  imports Value
begin

text \<open>
  Tagged values, \<open>include/m_value.h\<close>, in the variant for 4 byte pointers: the branches of
  its \<open>#if __SIZEOF_POINTER__ == 4\<close> and every function that does not create an object. A value
  is a 32 bit word with 2 type bits; the two truth values have the type bits of an integer. The
  memory \<open>vmem32\<close> maps addresses to 32 bit words, a double is two of them with the lower half
  first. Functions that create objects need the object manager, which is modelled for 8 byte
  pointers: \<open>m_value_from_double\<close> is an argument here.
\<close>

type_synonym M_Value32 = u32
type_synonym vmem32 = "u32 \<rightharpoonup> u32"

abbreviation (input) M_VALUE_TRUE32 :: M_Value32 where "M_VALUE_TRUE32 \<equiv> 0x7FFFFFFF"
abbreviation (input) M_VALUE_FALSE32 :: M_Value32 where "M_VALUE_FALSE32 \<equiv> 0x80000003"
abbreviation (input) M_VALUE_INT_MAX32 :: int where "M_VALUE_INT_MAX32 \<equiv> 0x1FFFFFFE"
abbreviation (input) M_VALUE_INT_MIN32 :: int where "M_VALUE_INT_MIN32 \<equiv> 0x20000001"
abbreviation (input) M_VALUE_TYPE_MASK32 :: u32 where "M_VALUE_TYPE_MASK32 \<equiv> 3"
abbreviation (input) M_VALUE_TYPE_PTR32 :: u32 where "M_VALUE_TYPE_PTR32 \<equiv> 0"
abbreviation (input) M_VALUE_TYPE_DOUBLE32 :: u32 where "M_VALUE_TYPE_DOUBLE32 \<equiv> 1"
abbreviation (input) M_VALUE_TYPE_STRING32 :: u32 where "M_VALUE_TYPE_STRING32 \<equiv> 2"
abbreviation (input) M_VALUE_TYPE_INT32 :: u32 where "M_VALUE_TYPE_INT32 \<equiv> 3"

subsection \<open>Predicates\<close>

definition rd32 :: "vmem32 \<Rightarrow> u32 \<Rightarrow> u32 option" where
  "rd32 h a = (if a = 0 then None else h a)"

definition m_value32_is_bool :: "M_Value32 \<Rightarrow> bool" where
  "m_value32_is_bool v \<longleftrightarrow> v = M_VALUE_TRUE32 \<or> v = M_VALUE_FALSE32"

definition m_value32_is_int :: "M_Value32 \<Rightarrow> bool" where
  "m_value32_is_int v \<longleftrightarrow> v AND M_VALUE_TYPE_MASK32 = M_VALUE_TYPE_INT32 \<and> \<not> m_value32_is_bool v"

definition m_value32_is_double :: "M_Value32 \<Rightarrow> bool" where
  "m_value32_is_double v \<longleftrightarrow> v AND M_VALUE_TYPE_MASK32 = M_VALUE_TYPE_DOUBLE32"

definition m_value32_is_number :: "M_Value32 \<Rightarrow> bool" where
  "m_value32_is_number v \<longleftrightarrow> m_value32_is_int v \<or> m_value32_is_double v"

definition m_value32_is_string :: "M_Value32 \<Rightarrow> bool" where
  "m_value32_is_string v \<longleftrightarrow> v AND M_VALUE_TYPE_MASK32 = M_VALUE_TYPE_STRING32"

definition m_value32_is_null :: "vmem32 \<Rightarrow> M_Value32 \<Rightarrow> bool option" where
  "m_value32_is_null h v =
     (if v = 0 then Some True
      else if v AND M_VALUE_TYPE_MASK32 \<noteq> M_VALUE_TYPE_PTR32 then Some False
      else do { w \<leftarrow> rd32 h v; Some (w = 0) })"

definition m_value32_is_ptr :: "vmem32 \<Rightarrow> M_Value32 \<Rightarrow> bool option" where
  "m_value32_is_ptr h v =
     (if v = 0 then Some False
      else if v AND M_VALUE_TYPE_MASK32 \<noteq> M_VALUE_TYPE_PTR32 then Some False
      else do { w \<leftarrow> rd32 h v; Some (w \<noteq> 0) })"

subsection \<open>From values\<close>

definition m_value32_get_bool :: "M_Value32 \<Rightarrow> bool option" where
  "m_value32_get_bool v = do { c_assert (m_value32_is_bool v); Some (v = M_VALUE_TRUE32) }"

definition m_value32_get_int :: "M_Value32 \<Rightarrow> (32 word) option" where
  "m_value32_get_int v = do { c_assert (m_value32_is_int v); Some (signed_drop_bit 2 v) }"

definition m_value32_get_double :: "vmem32 \<Rightarrow> M_Value32 \<Rightarrow> double option" where
  "m_value32_get_double h v = do {
     c_assert (m_value32_is_double v);
     (let p = v AND NOT M_VALUE_TYPE_MASK32 in do {
       lo \<leftarrow> rd32 h p;
       hi \<leftarrow> rd32 h (p + 4);
       Some (push_bit 32 (ucast hi) OR ucast lo) }) }"

definition m_value32_get_number :: "vmem32 \<Rightarrow> M_Value32 \<Rightarrow> double option" where
  "m_value32_get_number h v =
     (if m_value32_is_int v then do { i \<leftarrow> m_value32_get_int v; Some (int_to_double i) }
      else do { c_assert (m_value32_is_double v); m_value32_get_double h v })"

definition m_value32_get_string :: "M_Value32 \<Rightarrow> u32 option" where
  "m_value32_get_string v = do { c_assert (m_value32_is_string v); Some (v AND NOT M_VALUE_TYPE_MASK32) }"

subsection \<open>To values\<close>

definition m_value32_from_bool :: "bool \<Rightarrow> M_Value32" where
  "m_value32_from_bool b = (if b then M_VALUE_TRUE32 else M_VALUE_FALSE32)"

text \<open>The expression that \<open>m_value_from_int\<close> returns, after its assertion.\<close>

definition value32_int_word :: "32 word \<Rightarrow> M_Value32" where
  "value32_int_word i = push_bit 2 i OR M_VALUE_TYPE_INT32"

definition m_value32_from_int :: "32 word \<Rightarrow> M_Value32 option" where
  "m_value32_from_int i = do {
     c_assert (M_VALUE_INT_MIN32 \<le> sint i \<and> sint i \<le> M_VALUE_INT_MAX32);
     Some (value32_int_word i) }"

text \<open>The body of the range test in \<open>m_value_from_number\<close> is an empty statement.\<close>

definition m_value32_from_number ::
    "(double \<Rightarrow> 's \<Rightarrow> (M_Value32 \<times> 's) option) \<Rightarrow> double \<Rightarrow> 's \<Rightarrow> (M_Value32 \<times> 's) option" where
  "m_value32_from_number from_double d s = do {
     i \<leftarrow> double_to_int d;
     (if double_integral d then do { v \<leftarrow> m_value32_from_int i; Some (v, s) } else from_double d s) }"

definition m_value32_from_string :: "u32 \<Rightarrow> M_Value32" where
  "m_value32_from_string str = str OR M_VALUE_TYPE_STRING32"

definition m_value32_from_ptr :: "u32 \<Rightarrow> M_Value32" where
  "m_value32_from_ptr ptr = ptr"

subsection \<open>Types are disjoint\<close>

lemma mask32: "(3 :: u32) = mask 2"
  by (simp add: mask_eq_exp_minus_1)

lemma types32_disjoint:
  "\<not> (m_value32_is_bool v \<and> m_value32_is_int v)" "\<not> (m_value32_is_bool v \<and> m_value32_is_double v)"
  "\<not> (m_value32_is_bool v \<and> m_value32_is_string v)" "\<not> (m_value32_is_int v \<and> m_value32_is_double v)"
  "\<not> (m_value32_is_int v \<and> m_value32_is_string v)" "\<not> (m_value32_is_double v \<and> m_value32_is_string v)"
  by (auto simp: m_value32_is_bool_def m_value32_is_int_def m_value32_is_double_def m_value32_is_string_def)

lemma types32_not_ptr:
  assumes "m_value32_is_bool v \<or> m_value32_is_number v \<or> m_value32_is_string v"
  shows "m_value32_is_ptr h v = Some False" "m_value32_is_null h v = Some False"
proof -
  have "v AND M_VALUE_TYPE_MASK32 \<noteq> 0"
    using assms
    by (auto simp: m_value32_is_bool_def m_value32_is_number_def m_value32_is_int_def m_value32_is_double_def
        m_value32_is_string_def)
  moreover from this have "v \<noteq> 0" by auto
  ultimately show "m_value32_is_ptr h v = Some False" "m_value32_is_null h v = Some False"
    by (simp_all add: m_value32_is_ptr_def m_value32_is_null_def)
qed

subsection \<open>Immediate values\<close>

lemma bool_value32: "m_value32_get_bool (m_value32_from_bool b) = Some b"
  by (simp add: m_value32_from_bool_def m_value32_is_bool_def m_value32_get_bool_def)

lemma string_value32:
  assumes "4 dvd unat p"
  shows "m_value32_is_string (m_value32_from_string p)" "m_value32_get_string (m_value32_from_string p) = Some p"
proof -
  have "4 dvd uint p" using assms by (metis int_dvd_int_iff int_ops(3) uint_nat of_nat_numeral)
  then have "take_bit 2 p = 0"
    by (simp add: take_bit_eq_mod word_uint_eq_iff uint_mod dvd_eq_mod_eq_0)
  then have z: "\<not> bit p n" if "n < 2" for n using that by (metis bit_0_eq bit_take_bit_iff bot_apply bot_bool_def)
  have 2: "bit (2 :: u32) n \<longleftrightarrow> n = 1" for n
    using bit_push_bit_iff [of 1 "1 :: u32" n] by (auto simp: bit_1_iff)
  have m: "(p OR 2) AND 3 = 2" unfolding mask32 by (rule bit_word_eqI) (auto simp: bit_simps 2 z)
  show t: "m_value32_is_string (m_value32_from_string p)"
    using m by (simp add: m_value32_is_string_def m_value32_from_string_def)
  have "(p OR 2) AND NOT 3 = p" unfolding mask32
    by (rule bit_word_eqI) (use z in \<open>auto simp: bit_simps 2 not_less intro: leI\<close>)
  then show "m_value32_get_string (m_value32_from_string p) = Some p"
    using t by (simp add: m_value32_get_string_def m_value32_from_string_def)
qed

subsection \<open>Integers\<close>

text \<open>Without the assertion: the two integers at the ends of the 30 bit range are the truth
  values, the others come back.\<close>

lemma int_word32_bits: "value32_int_word i AND M_VALUE_TYPE_MASK32 = M_VALUE_TYPE_INT32"
  "signed_drop_bit 2 (value32_int_word i) = signed_take_bit 29 i"
proof -
  show "value32_int_word i AND M_VALUE_TYPE_MASK32 = M_VALUE_TYPE_INT32"
    unfolding value32_int_word_def mask32 by (rule bit_word_eqI) (auto simp: bit_simps)
  show "signed_drop_bit 2 (value32_int_word i) = signed_take_bit 29 i"
    unfolding value32_int_word_def mask32
    by (rule bit_word_eqI) (auto simp: bit_simps min_def not_le less_Suc_eq_le dest: le_antisym [of 29])
qed

lemma sint_take_29: "sint (signed_take_bit 29 (i :: 32 word)) = signed_take_bit 29 (sint i)"
  by (rule bit_eqI) (auto simp: bit_simps min_def not_le)

lemma fits_30: "signed_take_bit 29 (i :: 32 word) = i \<longleftrightarrow> - (2 ^ 29) \<le> sint i \<and> sint i < 2 ^ 29"
proof -
  have "signed_take_bit 29 i = i \<longleftrightarrow> signed_take_bit 29 (sint i) = sint i"
    by (metis sint_take_29 signed_word_eqI)
  also have "\<dots> \<longleftrightarrow> - (2 ^ 29) \<le> sint i \<and> sint i < 2 ^ 29"
    by (auto simp: signed_take_bit_int_eq_self_iff)
  finally show ?thesis .
qed

lemma int_word32_inj:
  assumes "signed_take_bit 29 i = i" "signed_take_bit 29 j = j"
  shows "value32_int_word i = value32_int_word j \<longleftrightarrow> i = j"
  using assms int_word32_bits(2) by metis

lemma int_word32_bool:
  assumes "- (2 ^ 29) \<le> sint i" "sint i < 2 ^ 29"
  shows "m_value32_is_bool (value32_int_word i) \<longleftrightarrow> sint i = 2 ^ 29 - 1 \<or> sint i = - (2 ^ 29)"
proof -
  have f: "signed_take_bit 29 i = i" using assms by (simp add: fits_30)
  have ends: "sint (2 ^ 29 - 1 :: 32 word) = 2 ^ 29 - 1" "sint (- (2 ^ 29) :: 32 word) = - (2 ^ 29)" by simp_all
  have fe: "signed_take_bit 29 (2 ^ 29 - 1 :: 32 word) = 2 ^ 29 - 1" "signed_take_bit 29 (- (2 ^ 29) :: 32 word) = - (2 ^ 29)"
    unfolding fits_30 ends by simp_all
  have words: "value32_int_word (2 ^ 29 - 1) = M_VALUE_TRUE32" "value32_int_word (- (2 ^ 29)) = M_VALUE_FALSE32"
    by (simp_all add: value32_int_word_def)
  have "m_value32_is_bool (value32_int_word i) \<longleftrightarrow> i = 2 ^ 29 - 1 \<or> i = - (2 ^ 29)"
    unfolding m_value32_is_bool_def words [symmetric] int_word32_inj [OF f fe(1)] int_word32_inj [OF f fe(2)] ..
  also have "\<dots> \<longleftrightarrow> sint i = 2 ^ 29 - 1 \<or> sint i = - (2 ^ 29)"
    using ends by (metis signed_word_eqI)
  finally show ?thesis .
qed

text \<open>The range of the constants, with \<open>M_VALUE_INT_MIN\<close> as a signed number of 30 bits, is
  exactly the one that works.\<close>

lemma int_word32_fits:
  "m_value32_get_int (value32_int_word i) = Some i \<longleftrightarrow>
     signed_take_bit 29 M_VALUE_INT_MIN32 \<le> sint i \<and> sint i \<le> M_VALUE_INT_MAX32"
proof -
  have min: "signed_take_bit 29 M_VALUE_INT_MIN32 = - (2 ^ 29) + 1" by simp
  have "m_value32_get_int (value32_int_word i) = Some i \<longleftrightarrow>
      \<not> m_value32_is_bool (value32_int_word i) \<and> signed_take_bit 29 i = i"
    by (auto simp: m_value32_get_int_def m_value32_is_int_def int_word32_bits c_assert_def)
  also have "\<dots> \<longleftrightarrow> (- (2 ^ 29) \<le> sint i \<and> sint i < 2 ^ 29) \<and> sint i \<noteq> 2 ^ 29 - 1 \<and> sint i \<noteq> - (2 ^ 29)"
    unfolding fits_30 using int_word32_bool [of i] by auto
  also have "\<dots> \<longleftrightarrow> - (2 ^ 29) + 1 \<le> sint i \<and> sint i \<le> M_VALUE_INT_MAX32" by auto
  finally show ?thesis unfolding min .
qed

text \<open>With the assertion there is no integer value at all, because \<open>M_VALUE_INT_MIN\<close> is a
  positive \<open>int\<close> above \<open>M_VALUE_INT_MAX\<close>; a whole number ends there, too.\<close>

lemma from_int32_aborts: "m_value32_from_int i = None"
  by (simp add: m_value32_from_int_def c_assert_def)

lemma from_number32_aborts: "m_value32_from_number from_double (int_to_double i) s = None"
  by (simp add: m_value32_from_number_def int_double from_int32_aborts)

lemma from_number32_fraction:
  "double_to_int d = Some i \<Longrightarrow> \<not> double_integral d \<Longrightarrow> m_value32_from_number from_double d s = from_double d s"
  by (simp add: m_value32_from_number_def)

end
