(* ===== verification/Collector.thy ===== *)
theory Collector
  imports Runtime Actor Members Thread Client Program Value32
begin

text \<open>
  The properties of the object manager, the process, the threads and the values (C14, C16, C25, C29 to C40), each
  with a witness on a concrete process.
\<close>

subsection \<open>A concrete process\<close>

text \<open>The stubs are at 32768, the list of threads at 8, the list of actor threads at 24; nothing else
  is in use. The pools are mapped
  from 65536 on; allocation is that of the previous examples.\<close>

definition demo_gc :: GC where
  "demo_gc = \<lparr>gc_vm = (\<lambda>x. if x - 32768 < 512 then Some False else None),
     gc_cells = (\<lambda>x. if x - 32768 < 512 then Some \<lparr>s_next = 0\<rparr> else None), gc_pools = Map.empty,
     gc_stub_base = 32768, gc_obj_stubs = (\<lambda>_. \<lparr>cell_num = 0, bitmap_size = 0\<rparr>),
     gc_cell_pool_size = 0, gc_cell_pool_mask = 0, gc_begin_size = 0, gc_gray_stack = [], gc_gray_limit = 0,
     gc_status = GC_STATUS_IDLE, gc_need_scan_gray = False, gc_allocated_size = 0, gc_last_allocated_size = 0\<rparr>"

definition demo_ming :: ming where
  "demo_ming = \<lparr>mg_gc = demo_gc, mg_mem = \<lparr>blocks = [8 \<mapsto> [], 24 \<mapsto> []]\<rparr>,
     mg_roots = \<lparr>root_hash = m_hash_init, root_links = Map.empty, root_nodes = Map.empty\<rparr>,
     mg_threads = Map.empty, mg_thread_nodes = [8 \<mapsto> \<lparr>l_prev = 0, l_next = 0\<rparr>], mg_thread_list = 8,
     mg_self = 0, mg_gc_thread = 0, mg_thread_num = 0, mg_paused_num = 0, mg_pause_flag = False, mg_gray_buf = 0\<rparr>"

definition demo_settings :: gc_env where
  "demo_settings = \<lparr>env_begin_size = None, env_cell_pool_size = None, env_gray_stack_size = None\<rparr>"

definition demo_os :: os where
  "demo_os = choose_os (\<lambda>h. if h = 0 then 65536 else h)"

lemma demo_page_size: "env_pool_size (env_cell_pool_size demo_settings) = Some 4096"
  by (simp add: demo_settings_def env_pool_size_def M_PAGE_SIZE_def)

lemma demo_fresh: "fresh_process demo_ming"
  by (auto simp: fresh_process_def demo_ming_def demo_gc_def static_memory_def heads_of_def obj_types_def
      usable_pools_def full_pools_def)

lemma demo_full: "malloc_at demo_allocator m sz = 0 \<Longrightarrow> blocks m 16 \<noteq> None \<and> blocks m 32 \<noteq> None \<and> blocks m 48 \<noteq> None"
  by (auto simp: demo_allocator_def Let_def split: if_splits)

lemma demo_memory: "\<not> out_of_memory demo_allocator e demo_ming"
proof -
  have "malloc_at demo_allocator (mg_mem demo_ming) sz \<noteq> 0"
    "malloc_at demo_allocator ((mg_mem demo_ming)\<lparr>blocks := (blocks (mg_mem demo_ming))(b \<mapsto> c)\<rparr>) sz \<noteq> 0" for sz b c
    using demo_full by (fastforce simp: demo_ming_def split: if_splits)+
  then show ?thesis by (simp add: out_of_memory_def Let_def)
qed

lemma demo_mapped: "mapped_pages 4096 0 m (gc_mmap demo_os 4096 0 m)"
  unfolding demo_os_def by (rule gc_mmap_hints [OF choose_os_ok]) (simp add: hint_exact_def choose_os_def)

lemma demo_os_maps: "n \<le> 8191 \<Longrightarrow> demo_os (gc_vm demo_gc) 0 (of_nat n) = 65536"
proof -
  assume n: "n \<le> 8191"
  then have un: "unat (of_nat n :: u64) = n" by (simp add: unat_of_nat take_bit_eq_mod)
  have "gc_vm demo_gc (65536 + of_nat i) = None" if i: "i < n" for i
  proof -
    have "unat (32768 + of_nat i :: u64) = 32768 + i"
      using i n by (subst unat_plus_nowrap) (simp_all add: unat_of_nat take_bit_eq_mod)
    then have "\<not> 32768 + of_nat i < (512 :: u64)" by (simp add: word_less_nat_alt)
    then show ?thesis by (simp add: demo_gc_def)
  qed
  then show ?thesis unfolding demo_os_def choose_os_def Let_def un using n by simp
qed

lemma demo_pool_mapped: "fst (gc_mmap demo_os 4096 0 (gc_vm demo_gc)) \<noteq> 0"
proof -
  have p: "page_round 4096 = of_nat 4096" "of_nat 4096 + M_PAGE_SIZE - 1 = (of_nat 8191 :: u64)"
    by (simp_all add: page_round_def M_PAGE_MASK_def M_PAGE_SIZE_def)
  show ?thesis
  proof (rule gc_mmap_succeeds)
    show "mmap_ok demo_os" by (simp add: demo_os_def choose_os_ok)
    show "demo_os (gc_vm demo_gc) 0 (page_round 4096) \<noteq> MAP_FAILED"
      unfolding p(1) by (subst demo_os_maps) (simp_all add: MAP_FAILED_def)
    show "demo_os (gc_vm demo_gc) 0 (page_round 4096 + M_PAGE_SIZE - 1) \<noteq> MAP_FAILED"
      unfolding p by (subst demo_os_maps) (simp_all add: MAP_FAILED_def)
  qed
qed

text \<open>A process that has just been started can allocate.\<close>

lemma started_room:
  assumes "started env demo_ming s th"
  shows "malloc_at demo_allocator (mg_mem s) sz \<noteq> 0"
proof
  have bl: "\<forall>a. blocks (mg_mem s) a = blocks (mg_mem demo_ming) a \<or> (a = mg_gray_buf s \<or> a = th) \<and> blocks (mg_mem s) a \<noteq> None"
    using assms by (simp add: started_def)
  assume "malloc_at demo_allocator (mg_mem s) sz = 0"
  from demo_full [OF this] have "16 \<in> {mg_gray_buf s, th}" "32 \<in> {mg_gray_buf s, th}" "48 \<in> {mg_gray_buf s, th}"
    using bl [rule_format, of 16] bl [rule_format, of 32] bl [rule_format, of 48] by (auto simp: demo_ming_def)
  then show False by auto
qed

lemma started_ready:
  assumes "started env demo_ming s th"
  shows "\<exists>L. alloc_ready demo_allocator demo_os env s L [th] {}"
proof -
  obtain L where ok: "ming_ok env s L [th] {}" using assms by (auto simp: started_def)
  have T: "mg_threads s th = Some \<lparr>th_actor = 0, nb_stack = 0, nb_size = 0, nb_top = 0, th_flags = 0\<rparr>"
    and self: "mg_self s = th" and thr: "threads_ok s [th]" "runs_alone s"
    using assms by (simp_all add: started_def)
  have th: "th \<noteq> 0" using thr(1) by (auto simp: threads_ok_def dlist_def)
  from started_room [OF assms] have "nb_reserve demo_allocator s \<noteq> None"
    using T self th
    by (simp add: nb_reserve_def m_thread_self_def thread_at_def access M_MAX_def m_gc_realloc_buf_def
        m_gc_alloc_buf_def m_malloc_def m_assert_alloc_def Let_def)
  then show ?thesis
    using ok thr T self demo_allocator_ok demo_mapped by (auto simp: alloc_ready_def)
qed

lemma demo_started:
  obtains s th L where "process_startup demo_allocator demo_settings demo_ming = Some s" "started env demo_ming s th"
    "alloc_ready demo_allocator demo_os env s L [th] {}"
  using process_startup_ok [OF demo_allocator_ok demo_fresh demo_page_size, of env] demo_memory started_ready by blast

text \<open>And it can make an object.\<close>

lemma demo_object:
  obtains s th L v s' oid L' where "process_startup demo_allocator demo_settings demo_ming = Some s" "started env demo_ming s th"
    "alloc_ready demo_allocator demo_os env s L [th] {}"
    "m_value_from_object demo_allocator demo_os 4096 Map.empty s = Some (v, [v \<mapsto> 4096], s')"
    "obj_made M_GC_OBJ_PTR v v oid s s' [th]" "ming_ok env s' L' [th] {}" "root_pins s' [th] {} = {(v, GC_MARK_GRAY)}"
proof -
  obtain s th L where 1: "process_startup demo_allocator demo_settings demo_ming = Some s" "started env demo_ming s th"
    "alloc_ready demo_allocator demo_os env s L [th] {}" by (rule demo_started)
  have "gc_vm (mg_gc s) = gc_vm demo_gc" using 1(2) by (simp add: started_def demo_ming_def)
  then obtain v oid s' where 2: "value_from_tagged 0 demo_allocator demo_os 4096 Map.empty s = Some (v, [v \<mapsto> 4096], s')"
    "obj_made M_GC_OBJ_PTR v v oid s s' [th]"
    using value_from_tagged_ok [OF 1(3), of 0 4096 Map.empty] demo_pool_mapped by auto
  have ok: "ming_ok env s L [th] {}" using 1(3) by (simp add: alloc_ready_def)
  have none: "root_pins s [th] {} = {}" using 1(2) by (simp add: started_def)
  have "8 dvd unat v" using 2(2) by (simp add: obj_made_def)
  note pin = nb_pin_new(2) [OF this]
  obtain L' where "ming_ok env s' L' [th] {}" "root_pins s' [th] {} = {(v, GC_MARK_GRAY)}"
    using obj_made_ming_ok [OF ok 2(2)] none pin by auto
  with that [OF 1] 2 show thesis by (simp add: from_tagged)
qed

subsection \<open>Startup\<close>

text \<open>C29: The loop that computes the layout of a pool ends, for every pool size from 40 to
  \<open>2 ^ 30\<close> bytes and every object size below \<open>2 ^ 16\<close>, with the largest number of
  cells for which the cells and their bitmap fit behind the 40 bytes of \<open>M_GCCellPool\<close>.\<close>

theorem pool_layout_largest:
  assumes "0 < unat (d_size d)" "unat (d_size d) < 2 ^ 16" "40 \<le> unat ps" "unat ps \<le> 2 ^ 30"
  shows "\<exists>n. pool_layout ps d = Some \<lparr>cell_num = of_nat n, bitmap_size = of_nat (bitmap_bytes n)\<rparr> \<and>
    40 + bitmap_bytes n + n * unat (d_size d) \<le> unat ps \<and>
    (\<forall>k > n. unat ps < 40 + bitmap_bytes k + k * unat (d_size d))"
  by (rule pool_layout_fits [OF assms])

theorem pool_layout_largest_witness:
  "\<exists>n. pool_layout 8192 (descr_of M_GC_OBJ_STRING) = Some \<lparr>cell_num = of_nat n, bitmap_size = of_nat (bitmap_bytes n)\<rparr> \<and>
    40 + bitmap_bytes n + n * unat (d_size (descr_of M_GC_OBJ_STRING)) \<le> unat (8192 :: u64) \<and>
    (\<forall>k > n. unat (8192 :: u64) < 40 + bitmap_bytes k + k * unat (d_size (descr_of M_GC_OBJ_STRING)))"
  by (rule pool_layout_largest) (simp_all add: descr_of_def)

text \<open>C30: Startup of the process from its static memory, with pools of one page, succeeds
  unless \<open>malloc\<close> fails for the gray stack or for the data of the thread. Then the object manager is
  well formed and no collection is under way, the main thread is registered and runs alone with an
  empty stack of new borned objects, and there are no roots and no pools. A second \<open>m_startup\<close> has
  no effect.\<close>

theorem startup_correct:
  assumes "allocator_ok A" "fresh_process s" "env_pool_size (env_cell_pool_size e) = Some 4096"
  shows "(m_startup A e (False, s) = None \<and> out_of_memory A e s \<or>
    (\<exists>s' th. m_startup A e (False, s) = Some (True, s') \<and> started env s s' th)) \<and>
    m_startup A e (True, s) = Some (True, s)"
  using process_startup_ok [OF assms, of env] by (auto simp: m_startup_def)

theorem startup_correct_witness:
  "\<exists>s' th. m_startup demo_allocator demo_settings (False, demo_ming) = Some (True, s') \<and> started demo_env demo_ming s' th"
  using startup_correct [OF demo_allocator_ok demo_fresh demo_page_size] demo_memory by blast

subsection \<open>Allocation and collection\<close>

text \<open>C31: \<open>m_gc_alloc_obj\<close> returns NULL without effect only when no pool can be mapped.
  Otherwise it returns an unused cell of the type, aligned to 8 bytes, whose mark is now white; it
  is on top of the stack of new borned objects of the thread with the flag for an object without
  initialized pointers, so that a collection that the call itself runs does not take it. No other
  object appears and the invariants of the object manager and of the threads hold.\<close>

theorem alloc_obj_correct:
  assumes "alloc_ready A os env s L ths N" "t \<in> real_types"
  shows "m_gc_alloc_obj A os t s = Some (0, None, s) \<and> fst (gc_mmap os 4096 0 (gc_vm (mg_gc s))) = 0 \<or>
    (\<exists>c oid s'. m_gc_alloc_obj A os t s = Some (c, Some oid, s') \<and> obj_made t c (c OR GC_NB_FL_NO_PTR) oid s s' ths)"
  by (rule alloc_ready_obj [OF assms])

theorem alloc_obj_correct_witness:
  "\<exists>s th c oid s'. process_startup demo_allocator demo_settings demo_ming = Some s \<and>
    m_gc_alloc_obj demo_allocator demo_os M_GC_OBJ_STRING s = Some (c, Some oid, s') \<and>
    obj_made M_GC_OBJ_STRING c (c OR GC_NB_FL_NO_PTR) oid s s' [th]"
proof -
  obtain s th L where 1: "process_startup demo_allocator demo_settings demo_ming = Some s" "started demo_env demo_ming s th"
    "alloc_ready demo_allocator demo_os demo_env s L [th] {}" by (rule demo_started)
  have "M_GC_OBJ_STRING \<in> real_types" by (simp add: real_types_def obj_types_def)
  moreover have "gc_vm (mg_gc s) = gc_vm demo_gc" using 1(2) by (simp add: started_def demo_ming_def)
  ultimately show ?thesis using alloc_obj_correct [OF 1(3)] demo_pool_mapped 1(1) by metis
qed

text \<open>C32: A full collection. \<open>m_gc_run\<close> by the only running thread, between two
  collections, returns with the invariants kept; the objects are then exactly those that the stack
  entries and roots ask to be black, or ask for and that have no pointers. All of them keep their
  type, every pool without such an object is unmapped, and \<open>gc_allocated_size\<close> is the size
  of the objects.\<close>

theorem collection_correct:
  assumes "ming_ok env s L ths N" "runs_alone s"
  shows "\<exists>g L'. m_gc_run 0 s = Some (s\<lparr>mg_gc := g\<rparr>) \<and> gc_ok g L' \<and> at_rest g \<and>
    gc_objs g GC_MARK_WHITE = {x \<in> gc_objs (mg_gc s) GC_MARK_WHITE. (x, GC_MARK_BLACK) \<in> root_pins s ths N \<or>
      no_pointers (obj_type (mg_gc s) x) \<and> (\<exists>c. (x, c) \<in> root_pins s ths N)} \<and>
    same_types (mg_gc s) g \<and> (\<forall>p. gc_pools g p \<noteq> None \<longrightarrow> p \<in> page_of ` gc_objs g GC_MARK_WHITE) \<and>
    gc_allocated_size g = objs_size g"
proof -
  obtain g L' where g: "gc_collect_objs 0 s = Some (None, s\<lparr>mg_gc := g\<rparr>)" "gc_ok g L'" "collected s ths N g"
    using gc_run_ok [OF assms] by blast
  have "kept_objs s ths N = {x \<in> gc_objs (mg_gc s) GC_MARK_WHITE. (x, GC_MARK_BLACK) \<in> root_pins s ths N \<or>
      no_pointers (obj_type (mg_gc s) x) \<and> (\<exists>c. (x, c) \<in> root_pins s ths N)}"
    by (auto simp: kept_objs_def blackens_def)
  then show ?thesis using g
    by (intro exI [of _ g] exI [of _ L']) (simp add: m_gc_run_def collected_def at_rest_def bytes_ok_def)
qed

theorem collection_correct_witness:
  "\<exists>s th g. process_startup demo_allocator demo_settings demo_ming = Some s \<and> m_gc_run 0 s = Some (s\<lparr>mg_gc := g\<rparr>) \<and>
    gc_objs g GC_MARK_WHITE = {x \<in> gc_objs (mg_gc s) GC_MARK_WHITE. (x, GC_MARK_BLACK) \<in> root_pins s [th] {} \<or>
      no_pointers (obj_type (mg_gc s) x) \<and> (\<exists>c. (x, c) \<in> root_pins s [th] {})}"
proof -
  obtain s th L where 1: "process_startup demo_allocator demo_settings demo_ming = Some s" "started demo_env demo_ming s th"
    "alloc_ready demo_allocator demo_os demo_env s L [th] {}" by (rule demo_started)
  have "ming_ok demo_env s L [th] {}" "runs_alone s" using 1(3) by (simp_all add: alloc_ready_def)
  then obtain g where "m_gc_run 0 s = Some (s\<lparr>mg_gc := g\<rparr>)"
    "gc_objs g GC_MARK_WHITE = {x \<in> gc_objs (mg_gc s) GC_MARK_WHITE. (x, GC_MARK_BLACK) \<in> root_pins s [th] {} \<or>
      no_pointers (obj_type (mg_gc s) x) \<and> (\<exists>c. (x, c) \<in> root_pins s [th] {})}"
    by (elim collection_correct [elim_format] exE conjE)
  then show ?thesis using 1(1) by (intro exI [of _ s] exI [of _ th] exI [of _ g] conjI)
qed

text \<open>C33: An incremental collection takes four calls, and without other work between them the
  last one ends in the very state of a full collection.\<close>

theorem incremental_equals_full:
  assumes "ming_ok env s L ths N"
  shows "\<exists>s1 s2 s3 s'. collect_step s = Some (False, s1) \<and> collect_step s1 = Some (False, s2) \<and>
    collect_step s2 = Some (False, s3) \<and> collect_step s3 = Some (True, s') \<and> gc_do_collect 0 s = Some (True, s')"
  using incremental_collection [OF assms] full_collection [OF assms] by metis

theorem incremental_equals_full_witness:
  "\<exists>s s1 s2 s3 s'. process_startup demo_allocator demo_settings demo_ming = Some s \<and>
    collect_step s = Some (False, s1) \<and> collect_step s1 = Some (False, s2) \<and>
    collect_step s2 = Some (False, s3) \<and> collect_step s3 = Some (True, s') \<and> gc_do_collect 0 s = Some (True, s')"
proof -
  obtain s th L where 1: "process_startup demo_allocator demo_settings demo_ming = Some s" "started demo_env demo_ming s th"
    "alloc_ready demo_allocator demo_os demo_env s L [th] {}" by (rule demo_started)
  have "ming_ok demo_env s L [th] {}" using 1(3) by (simp add: alloc_ready_def)
  from incremental_equals_full [OF this] show ?thesis using 1(1) by metis
qed

text \<open>C34: A rooted object can be lost. \<open>gc_mark_with_color\<close> never stores the color gray, so
  an object of a type with pointers that the stacks and roots only ask to be gray, as they do after
  \<open>m_gc_add_obj\<close> and for every registered root, stays white and is taken by the next
  collection.\<close>

theorem rooted_object_lost:
  assumes "ming_ok env s L ths N" "runs_alone s" "x \<in> gc_objs (mg_gc s) GC_MARK_WHITE"
    "\<not> no_pointers (obj_type (mg_gc s) x)" "(x, GC_MARK_GRAY) \<in> root_pins s ths N" "(x, GC_MARK_BLACK) \<notin> root_pins s ths N"
  shows "\<exists>s'. m_gc_run 0 s = Some s' \<and> root_pins s' ths N = root_pins s ths N \<and>
    x \<notin> gc_objs (mg_gc s') GC_MARK_WHITE \<and> gc_objs (mg_gc s') GC_MARK_BLACK = {}"
proof -
  obtain g L' where g: "gc_collect_objs 0 s = Some (None, s\<lparr>mg_gc := g\<rparr>)" "collected s ths N g"
    using gc_run_ok [OF assms(1,2)] by blast
  have "x \<notin> kept_objs s ths N" using assms(4,6) by (auto simp: kept_objs_def blackens_def)
  then show ?thesis using g by (simp add: m_gc_run_def collected_def at_rest_def root_pins_def)
qed

text \<open>The value of an object that has just been made.\<close>

theorem rooted_object_lost_witness:
  "\<exists>s th v h s' s''. process_startup demo_allocator demo_settings demo_ming = Some s \<and>
    m_value_from_object demo_allocator demo_os 4096 Map.empty s = Some (v, h, s') \<and>
    v \<in> gc_objs (mg_gc s') GC_MARK_WHITE \<and> (v, GC_MARK_GRAY) \<in> root_pins s' [th] {} \<and>
    m_gc_run 0 s' = Some s'' \<and> v \<notin> gc_objs (mg_gc s'') GC_MARK_WHITE"
proof -
  obtain s th L v s' oid L' where 1: "process_startup demo_allocator demo_settings demo_ming = Some s"
    "m_value_from_object demo_allocator demo_os 4096 Map.empty s = Some (v, [v \<mapsto> 4096], s')"
    "obj_made M_GC_OBJ_PTR v v oid s s' [th]" "ming_ok demo_env s' L' [th] {}" "root_pins s' [th] {} = {(v, GC_MARK_GRAY)}"
    by (rule demo_object)
  have "runs_alone s'" "v \<in> gc_objs (mg_gc s') GC_MARK_WHITE" "\<not> no_pointers (obj_type (mg_gc s') v)"
    using 1(3) no_pointers_types [of M_GC_OBJ_PTR] by (simp_all add: obj_made_def real_types_def obj_types_def)
  from rooted_object_lost [OF 1(4) this] obtain s'' where "m_gc_run 0 s' = Some s''" "v \<notin> gc_objs (mg_gc s'') GC_MARK_WHITE"
    using 1(5) by auto
  then show ?thesis using 1 \<open>v \<in> gc_objs (mg_gc s') GC_MARK_WHITE\<close>
    by (intro exI [of _ s] exI [of _ th] exI [of _ v] exI [of _ "[v \<mapsto> 4096]"] exI [of _ s'] exI [of _ s'']) simp
qed

text \<open>C35: Shutdown between two collections releases the pools, the entries of the root table,
  the data of the thread, its stack and the gray stack, and touches no other block; it leaves the
  stack of a thread only when its size in bytes is a multiple of \<open>2 ^ 32\<close>.\<close>

theorem shutdown_correct:
  assumes "live_process env s th N"
    "nb_stack (the (mg_threads s th)) = 0 \<or> unat (nb_size (the (mg_threads s th))) mod 2 ^ 29 \<noteq> 0"
  shows "\<exists>s'. process_shutdown env s = Some s' \<and> (\<forall>p. gc_pools (mg_gc s') p = None) \<and> mg_threads s' th = None \<and>
    (\<forall>a \<in> N. root_links (mg_roots s') a = None \<and> root_nodes (mg_roots s') a = None) \<and>
    blocks (mg_mem s') = (\<lambda>a. if a \<in> own_blocks s th then None else blocks (mg_mem s) a)"
  by (rule process_shutdown_ok [OF assms])

theorem shutdown_correct_witness:
  "\<exists>s s'. process_startup demo_allocator demo_settings demo_ming = Some s \<and> process_shutdown demo_env s = Some s' \<and>
    blocks (mg_mem s') = blocks (mg_mem demo_ming)"
proof -
  obtain s th L where 1: "process_startup demo_allocator demo_settings demo_ming = Some s" "started demo_env demo_ming s th"
    "alloc_ready demo_allocator demo_os demo_env s L [th] {}" by (rule demo_started)
  have T: "nb_stack (the (mg_threads s th)) = 0" using 1(2) by (simp add: started_def)
  from shutdown_correct [OF started_live [OF 1(2)]] obtain s' where s': "process_shutdown demo_env s = Some s'"
    "blocks (mg_mem s') = (\<lambda>a. if a \<in> own_blocks s th then None else blocks (mg_mem s) a)" using T by blast
  have "blocks (mg_mem s') a = blocks (mg_mem demo_ming) a" for a
    using 1(2) unfolding s'(2) by (auto simp: own_blocks_def started_def threads_ok_def dlist_def)
  then show ?thesis using 1(1) s'(1) by blast
qed

subsection \<open>The whole program\<close>

text \<open>C22: The log of a run. The log never changes what startup and shutdown do: \<open>m_startup\<close>
  succeeds exactly when startup of the process does, with its state, and a second call does nothing.
  When \<open>exit\<close> is called in any state that the process may have reached between two collections, the
  function that was registered shuts the process down, once, and closes the log. The log then holds,
  behind what the file held before, the lines of startup (the sizes that the environment gives or the
  defaults, an error for a pool size that is no power of two, the layout of the pools of each type, the
  thread), those of the messages that came in between, and those of shutdown with the number of bytes
  that were still allocated: the ones that reach the level of the environment, in order, each with its
  place in the source and the time of its call.\<close>

theorem program_run:
  assumes "env_pool_size (env_cell_pool_size (pe_gc E)) = Some 4096"
  shows "case process_startup A (pe_gc E) s of
      None \<Rightarrow> startup_once A E (boot files s) = None
    | Some s1 \<Rightarrow> \<exists>p. startup_once A E (boot files s) = Some p \<and> pr_ming p = s1 \<and> startup_once A E p = Some p \<and>
        (\<forall>env ms s2 N. live_process env s2 (mg_self s1) N \<and>
          (nb_stack (the (mg_threads s2 (mg_self s1))) = 0 \<or> unat (nb_size (the (mg_threads s2 (mg_self s1)))) mod 2 ^ 29 \<noteq> 0) \<longrightarrow>
          runs_to_exit env E files p ms s2)"
proof (cases "process_startup A (pe_gc E) s")
  case None
  then show ?thesis using startup_once_process [where A = A and E = E and s = s and files = files] by simp
next
  case (Some s1)
  then obtain p where p: "startup_once A E (boot files s) = Some p" "pr_ming p = s1" "startup_once A E p = Some p"
    using startup_once_process [where A = A and E = E and s = s and files = files] by auto
  show ?thesis unfolding Some option.case
    using p started_exits [OF p(1) assms, unfolded p(2)] by blast
qed

definition demo_program :: program_env where
  "demo_program = \<lparr>pe_log = demo_log_env, pe_localtime = demo_localtime, pe_clock = (\<lambda>_. \<lparr>tv_sec = 7, tv_nsec = 42000\<rparr>),
     pe_dir = '''', pe_ptr = (\<lambda>_. ''0x10''),
     pe_gc = \<lparr>env_begin_size = None, env_cell_pool_size = Some 5000, env_gray_stack_size = Some 512\<rparr>\<rparr>"

lemma demo_refused: "refused_pool_size (Some 5000)"
proof -
  have "(2::int) ^ k \<noteq> 5000" for k
  proof (cases "k \<le> 12")
    case True
    then have "(2::int) ^ k \<le> 2 ^ 12" by (intro power_increasing) simp_all
    then show ?thesis by simp
  next
    case False
    then have "(2::int) ^ 13 \<le> 2 ^ k" by (intro power_increasing) simp_all
    then show ?thesis by simp
  qed
  then show ?thesis by (simp add: refused_pool_size_def)
qed

lemma demo_program_page: "env_pool_size (env_cell_pool_size (pe_gc demo_program)) = Some 4096"
proof -
  have "illegal_pool_size (Some 5000)" unfolding refused_illegal by (rule demo_refused)
  then show ?thesis
    using pow2_loop_result [of 5000]
    by (auto simp: demo_program_def env_pool_size_def illegal_pool_size_def M_PAGE_SIZE_def)
qed

text \<open>The log of a run without other messages, at level INFO, with a pool size that is refused.\<close>

lemma demo_line:
  "line_of (shows_col demo_log_env) demo_localtime
      \<lparr>lc_time = \<lparr>tv_sec = 7, tv_nsec = 42000\<rparr>, lc_level = l, lc_tag = tag, lc_file = f, lc_func = fn, lc_line = n, lc_msg = msg\<rparr> =
    [level_letter l] @ ''/'' @ fmt_s 8 tag @ '' 09:05:07.000042: '' @ msg @ [CHR 0x0A]"
  by (simp add: line_of_def chosen_def columns_def shows_col_def demo_log_env_def demo_localtime_def
      stamp_text_def time_text_def fmt_0d_def pad_def dec.simps digit_def) code_simp

lemma demo_texts:
  "run_text demo_program th [] 0 =
    ''I/ startup 09:05:07.000042: ming startup'' @ [CHR 0x0A] @
    ''I/  gc_obj 09:05:07.000042: gc begin size:131072'' @ [CHR 0x0A] @
    ''E/  gc_obj 09:05:07.000042: illegal cell pool size. it must be power of 2.'' @ [CHR 0x0A] @
    ''I/  gc_obj 09:05:07.000042: gc cell pool size:4096'' @ [CHR 0x0A] @
    ''I/  gc_obj 09:05:07.000042: gc gray stack size:512'' @ [CHR 0x0A] @
    ''I/ startup 09:05:07.000042: ming shutdown'' @ [CHR 0x0A]"
proof -
  have level: "reaches demo_log_env l \<longleftrightarrow> l \<noteq> M_LOG_LEVEL_ALL \<and> l \<noteq> M_LOG_LEVEL_DEBUG" for l
  proof -
    have "threshold demo_log_env = M_LOG_LEVEL_INFO" by code_simp
    then show ?thesis by (cases l) (simp_all add: reaches_iff level_order)
  qed
  have sizes: "int_text 131072 = ''131072''" "int_text 4096 = ''4096''" "int_text 512 = ''512''"
    by (simp_all add: int_text_def fmt_d_def pad_def dec.simps digit_def) (code_simp+)
  have tags: "fmt_s 8 ''startup'' = '' startup''" "fmt_s 8 ''gc_obj'' = ''  gc_obj''"
    by (simp_all add: fmt_s_def pad_def eval_nat_numeral)
  show ?thesis
    by (simp add: run_text_def log_text_def startup_entries_def exit_entries_def page_table_def entry_call_def
        level demo_program_def demo_refused env_number_def demo_line sizes tags level_letter_def)
qed

theorem program_run_witness:
  "\<exists>p q. startup_once demo_allocator demo_program (boot (\<lambda>_. '''') demo_ming) = Some p \<and> run_atexit demo_env demo_program p = Some q \<and>
    run_atexit demo_env demo_program q = Some q \<and>
    log_out (pr_log q) Stdout =
      ''I/ startup 09:05:07.000042: ming startup'' @ [CHR 0x0A] @
      ''I/  gc_obj 09:05:07.000042: gc begin size:131072'' @ [CHR 0x0A] @
      ''E/  gc_obj 09:05:07.000042: illegal cell pool size. it must be power of 2.'' @ [CHR 0x0A] @
      ''I/  gc_obj 09:05:07.000042: gc cell pool size:4096'' @ [CHR 0x0A] @
      ''I/  gc_obj 09:05:07.000042: gc gray stack size:512'' @ [CHR 0x0A] @
      ''I/ startup 09:05:07.000042: ming shutdown'' @ [CHR 0x0A]"
proof -
  obtain s th where s: "process_startup demo_allocator (pe_gc demo_program) demo_ming = Some s" "started demo_env demo_ming s th"
    using process_startup_ok [OF demo_allocator_ok demo_fresh demo_program_page, of demo_env] demo_memory by blast
  have th: "mg_self s = th" "nb_stack (the (mg_threads s th)) = 0" using s(2) by (simp_all add: started_def)
  obtain p where p: "startup_once demo_allocator demo_program (boot (\<lambda>_. '''') demo_ming) = Some p" "pr_ming p = s"
      "\<And>env ms s2 N. live_process env s2 (mg_self s) N \<Longrightarrow> nb_stack (the (mg_threads s2 (mg_self s))) = 0 \<Longrightarrow>
        runs_to_exit env demo_program (\<lambda>_. '''') p ms s2"
    using program_run [OF demo_program_page, where A = demo_allocator and s = demo_ming and files = "\<lambda>_. ''''"] unfolding s(1) option.case by blast
  have "runs_to_exit demo_env demo_program (\<lambda>_. '''') p [] s"
    by (rule p(3)) (use started_live [OF s(2)] th in simp_all)
  moreover have "p\<lparr>pr_ming := s\<rparr> = p" using p(2) by (cases p) simp
  moreover have "target (pe_log demo_program) = Stdout" by (simp add: target_def demo_program_def demo_log_env_def)
  ultimately obtain q where "run_atexit demo_env demo_program p = Some q" "run_atexit demo_env demo_program q = Some q"
      "log_out (pr_log q) Stdout = run_text demo_program (mg_self (pr_ming p)) [] 0"
    unfolding runs_to_exit_def started_empty [OF s(2)] by (auto simp: emits_def)
  then show ?thesis using p(1) unfolding demo_texts by blast
qed

subsection \<open>Threads\<close>

text \<open>C36: Stopping the world. In every interleaving in which no thread registers while a pause
  is requested, and the number of threads stays below \<open>2 ^ 32\<close>, no thread runs while a
  thread collects, and there is no second collector.\<close>

theorem pause_all_exclusive:
  assumes "treach quiet m_thread_startup s" "t_pc s t = Collecting"
  shows "t_pc s u \<noteq> Running \<and> (collector (t_pc s u) \<longleftrightarrow> u = t)"
  using treach_stopped [OF assms(1) startup_inv startup_stopped] assms(2) tinv_collector [of s t u]
  by (auto simp: stopped_def)

theorem pause_all_exclusive_witness:
  "\<exists>s. treach quiet m_thread_startup s \<and> t_pc s 0 = Collecting \<and> t_pc s 1 = Checking \<and> t_pc s 2 \<noteq> Running"
proof -
  have "quiet Plain s" "quiet Register (set_pc 1 Registering m_thread_startup)" for s by (simp_all add: quiet_def)
  from two_threads_collect [of quiet, OF this] obtain s where
    s: "treach quiet m_thread_startup s" "t_pc s 0 = Collecting" "t_pc s 1 = Checking" by blast
  then show ?thesis using pause_all_exclusive [OF s(1,2), of 2] by blast
qed

text \<open>C37: The collector is woken. If besides no thread ends while a pause is requested, then
  whenever the collector sleeps although all threads have stopped, some thread in
  \<open>m_thread_leave\<close> is about to signal, and after its signal the collector goes on to collect.\<close>

theorem pause_all_woken:
  assumes "treach orderly m_thread_startup s" "t_pc s t = StopWait" "m_thread_num s = m_paused_thread_num s"
  shows "\<exists>u. t_pc s u = Leaving \<and> t_pc (pause_all_test t (leave_signal u s)) t = Collecting"
proof -
  have "alert m_thread_startup" by (simp add: alert_def)
  with treach_alert [OF assms(1) startup_inv] assms obtain u where "t_pc s u = Leaving"
    by (auto simp: alert_def)
  then show ?thesis using assms
    by (intro exI [of _ u]) (simp add: pause_all_test_def leave_signal_def)
qed

theorem pause_all_woken_witness:
  "\<exists>s u. treach orderly m_thread_startup s \<and> t_pc s 0 = StopWait \<and> t_pc s u = Leaving \<and>
    t_pc (pause_all_test 0 (leave_signal u s)) 0 = Collecting"
proof -
  have "orderly Plain s" "orderly Register (set_pc 1 Registering m_thread_startup)" for s
    by (simp_all add: orderly_def quiet_def)
  from two_threads_leave [of orderly, OF this] obtain s where
    s: "treach orderly m_thread_startup s" "t_pc s 0 = StopWait" "m_thread_num s = m_paused_thread_num s" by blast
  then show ?thesis using pause_all_woken [OF s] by blast
qed

text \<open>C38: Neither condition can be dropped. A thread that calls \<open>m_thread_enter\<close> for the first
  time releases the lock before it registers, and so can run while the main thread collects. And a
  thread that ends while the main thread waits for it leaves the main thread asleep although all
  remaining threads have stopped: the only step that is left is a spurious wakeup.\<close>

theorem pause_all_faults:
  "(\<exists>s. treach (\<lambda>l s. True) m_thread_startup s \<and> t_pc s 0 = Collecting \<and> t_pc s 1 = Running) \<and>
   (\<exists>s. treach quiet m_thread_startup s \<and> t_pc s 0 = StopWait \<and> m_thread_num s = m_paused_thread_num s \<and>
     {s'. \<exists>l. tstep l s s'} = {set_pc 0 Stopping s})"
proof (rule conjI [OF enter_during_collection], intro exI conjI)
  show "treach quiet m_thread_startup abandoned" by (rule abandoned_reach)
  show "{s'. \<exists>l. tstep l abandoned s'} = {set_pc 0 Stopping abandoned}" by (auto simp: abandoned_step)
qed simp_all

subsection \<open>The stack of objects\<close>

text \<open>C25: To the native code of a thread without registered roots the object manager is a stack of
  objects. Every sequence of allocations of objects of any type but array, returns to a lower level and
  collections runs without fault to its end, or until the stack cannot grow; at every moment the
  objects on the stack are live, pairwise different, aligned and of the type they were allocated with,
  although an allocation may collect; and a collection leaves exactly them.\<close>

theorem client_stack_refines:
  assumes "allocator_ok A" "\<forall>vm. mapped_pages 4096 0 vm (gc_mmap os 4096 0 vm)" "holds env th s st" "list_all op_ok ops"
  shows "(\<exists>k s' st'. k \<le> length ops \<and> fold_opt (client_step A os) (take k ops) (s, st) = Some (s', st') \<and>
      holds env th s' st' \<and> (k = length ops \<or> exhausted A s')) \<and>
    (\<exists>s'. client_step A os RunGC (s, st) = Some (s', st) \<and> holds env th s' st \<and>
      gc_objs (mg_gc s') GC_MARK_WHITE = fst ` set st)"
  using client_run [OF assms(1) _ assms(3,4)] assms(2) collect_holds [OF assms(3)] by fastforce

theorem client_stack_refines_witness:
  "\<exists>s th k s' st'. process_startup demo_allocator demo_settings demo_ming = Some s \<and> k \<le> 5 \<and>
    fold_opt (client_step demo_allocator demo_os)
      (take k [New M_GC_OBJ_STRING, New M_GC_OBJ_DOUBLE, RunGC, Restore 1, RunGC]) (s, []) = Some (s', st') \<and>
    holds demo_env th s' st' \<and> (k = 5 \<or> exhausted demo_allocator s')"
proof -
  obtain s th L where s: "process_startup demo_allocator demo_settings demo_ming = Some s" "started demo_env demo_ming s th"
    "alloc_ready demo_allocator demo_os demo_env s L [th] {}" by (rule demo_started)
  have maps: "\<forall>vm. mapped_pages 4096 0 vm (gc_mmap demo_os 4096 0 vm)" using demo_mapped by blast
  have ops: "list_all op_ok [New M_GC_OBJ_STRING, New M_GC_OBJ_DOUBLE, RunGC, Restore 1, RunGC]"
    by (simp add: real_types_def obj_types_def)
  note run = client_stack_refines [OF demo_allocator_ok maps started_holds [OF s(2)] ops, THEN conjunct1]
  from run obtain k s' st' where k: "k \<le> 5" "fold_opt (client_step demo_allocator demo_os)
      (take k [New M_GC_OBJ_STRING, New M_GC_OBJ_DOUBLE, RunGC, Restore 1, RunGC]) (s, []) = Some (s', st')"
    "holds demo_env th s' st'" "k = 5 \<or> exhausted demo_allocator s'"
    by (elim exE conjE) (simp add: eval_nat_numeral)
  show ?thesis using s(1) k by (intro exI conjI)
qed

subsection \<open>Threads that come and go\<close>

text \<open>C14: Registration adds a thread without objects and aborts only when memory runs out; when a
  thread ends, its data and its stack are released. Either way the invariants of the process hold
  for the threads that are there then, the objects and the roots are as before, the other threads
  keep their new borned objects, and no other block changes. A stack whose size is a multiple of
  \<open>2 ^ 29\<close> entries is left aside: its size in bytes does not fit the parameter of
  \<open>m_gc_free_buf\<close>.\<close>

theorem thread_membership:
  assumes "allocator_ok A" "members_ok env s L ths N"
  shows "(if malloc_at A (mg_mem s) sizeof_M_Thread = 0 then register_thread A s = None
      else \<exists>s' th. register_thread A s = Some s' \<and> members_ok env s' L (ths @ [th]) N \<and> th \<notin> set ths \<and>
        root_pins s' (ths @ [th]) N = root_pins s ths N \<and> mg_gc s' = mg_gc s \<and> mg_roots s' = mg_roots s \<and>
        (\<forall>a. a \<noteq> th \<longrightarrow> blocks (mg_mem s') a = blocks (mg_mem s) a)) \<and>
    (\<forall>th T. th \<in> set ths \<longrightarrow> mg_threads s th = Some T \<longrightarrow> nb_stack T = 0 \<or> unat (nb_size T) mod 2 ^ 29 \<noteq> 0 \<longrightarrow>
      (\<exists>s'. release_thread th s = Some s' \<and> (\<forall>u \<in> set ths - {th}. members_ok env (s'\<lparr>mg_self := u\<rparr>) L (remove1 th ths) N) \<and>
        root_pins s' (remove1 th ths) N \<subseteq> root_pins s ths N \<and> mg_gc s' = mg_gc s \<and> mg_roots s' = mg_roots s \<and>
        blocks (mg_mem s') = (\<lambda>a. if a = th \<or> a \<noteq> 0 \<and> a = nb_stack T then None else blocks (mg_mem s) a)))"
proof (intro conjI allI impI)
  show "if malloc_at A (mg_mem s) sizeof_M_Thread = 0 then register_thread A s = None
      else \<exists>s' th. register_thread A s = Some s' \<and> members_ok env s' L (ths @ [th]) N \<and> th \<notin> set ths \<and>
        root_pins s' (ths @ [th]) N = root_pins s ths N \<and> mg_gc s' = mg_gc s \<and> mg_roots s' = mg_roots s \<and>
        (\<forall>a. a \<noteq> th \<longrightarrow> blocks (mg_mem s') a = blocks (mg_mem s) a)"
    using register_fails [of A s] register_member [OF assms HOL.refl] by fastforce
next
  fix th T
  assume "th \<in> set ths" "mg_threads s th = Some T" "nb_stack T = 0 \<or> unat (nb_size T) mod 2 ^ 29 \<noteq> 0"
  from release_member [OF assms(2) this] show "\<exists>s'. release_thread th s = Some s' \<and>
      (\<forall>u \<in> set ths - {th}. members_ok env (s'\<lparr>mg_self := u\<rparr>) L (remove1 th ths) N) \<and>
      root_pins s' (remove1 th ths) N \<subseteq> root_pins s ths N \<and> mg_gc s' = mg_gc s \<and> mg_roots s' = mg_roots s \<and>
      blocks (mg_mem s') = (\<lambda>a. if a = th \<or> a \<noteq> 0 \<and> a = nb_stack T then None else blocks (mg_mem s) a)"
    by blast
qed

lemma started_blocks:
  assumes "started env p s th" "blocks (mg_mem p) a \<noteq> None"
  shows "blocks (mg_mem s) a \<noteq> None"
proof -
  have "blocks (mg_mem s) a = blocks (mg_mem p) a \<or> (a = mg_gray_buf s \<or> a = th) \<and> blocks (mg_mem s) a \<noteq> None"
    using assms(1) unfolding started_def by blast
  then show ?thesis using assms(2) by auto
qed

lemma started_members:
  assumes m: "started env demo_ming s th"
  shows "\<exists>L. members_ok env s L [th] {}"
proof -
  obtain L where "ming_ok env s L [th] {}" "threads_ok s [th]" "mg_thread_num s = 1"
    "mg_threads s th = Some \<lparr>th_actor = 0, nb_stack = 0, nb_size = 0, nb_top = 0, th_flags = 0\<rparr>"
    using m by (auto simp: started_def)
  moreover have "mg_thread_list s = 8" using m by (simp add: started_def demo_ming_def)
  moreover have "blocks (mg_mem s) 8 \<noteq> None" using started_blocks [OF m, of 8] by (simp add: demo_ming_def)
  moreover have "blocks (mg_mem s) th \<noteq> None" using m by (simp add: started_def)
  moreover have "th \<noteq> 0" using m by (auto simp: started_def threads_ok_def dlist_def)
  ultimately show ?thesis by (auto simp: members_ok_def thread_blocks_ok_def)
qed

text \<open>A second thread comes, and the first one ends.\<close>

theorem thread_membership_witness:
  "\<exists>s s' th u L. process_startup demo_allocator demo_settings demo_ming = Some s \<and> members_ok demo_env s L [th] {} \<and>
    register_thread demo_allocator s = Some s' \<and> members_ok demo_env s' L [th, u] {} \<and> th \<noteq> u \<and>
    (\<exists>s''. release_thread th s' = Some s'' \<and> members_ok demo_env (s''\<lparr>mg_self := u\<rparr>) L [u] {} \<and> mg_gc s'' = mg_gc s)"
proof -
  obtain s th L' where s: "process_startup demo_allocator demo_settings demo_ming = Some s" "started demo_env demo_ming s th"
    "alloc_ready demo_allocator demo_os demo_env s L' [th] {}" by (rule demo_started)
  obtain L where ok: "members_ok demo_env s L [th] {}" using started_members [OF s(2)] by blast
  note 1 = thread_membership [OF demo_allocator_ok ok, THEN conjunct1]
  let ?u = "malloc_at demo_allocator (mg_mem s) sizeof_M_Thread"
  obtain s' where u: "register_thread demo_allocator s = Some s'" "?u \<notin> set [th]"
    "mg_threads s' = (mg_threads s)(?u \<mapsto> \<lparr>th_actor = 0, nb_stack = 0, nb_size = 0, nb_top = 0, th_flags = 0\<rparr>)"
    using register_member [OF demo_allocator_ok ok HOL.refl] started_room [OF s(2)] by blast
  from 1 started_room [OF s(2)] u(1) obtain v where v: "members_ok demo_env s' L [th, v] {}" "v \<noteq> th" "mg_gc s' = mg_gc s" by auto
  have "mg_threads s' th = Some \<lparr>th_actor = 0, nb_stack = 0, nb_size = 0, nb_top = 0, th_flags = 0\<rparr>"
    using u(2,3) s(2) by (auto simp: started_def)
  with thread_membership [OF demo_allocator_ok v(1), THEN conjunct2, rule_format, of th]
  show ?thesis using s(1) ok u(1) v by fastforce
qed

subsection \<open>Actor threads\<close>

text \<open>C16: Shutdown of a process with actor threads, from any state that it can reach. Every run,
  also one with spurious wakeups, ends within a number of steps that is linear in the number of actor
  threads. Before the end it is never stuck: there is always a next step of the program that is not a
  spurious wakeup, so no actor thread sleeps on. At the end every actor thread has been joined, and
  the nodes of the actor threads, the blocks of the process and its pools are released, no other
  memory. The main thread is the only one that calls \<open>m_thread_create\<close>.\<close>

theorem actor_shutdown:
  assumes "allocator_ok A" "orderly_process env th m" "list \<noteq> 0" "nodes list \<noteq> None" "blocks (mg_mem m) list \<noteq> None"
    "actors_startup m list nodes = Some s0" "(any_step A env th)\<^sup>*\<^sup>* s0 s" "act_main s = Alive"
    "(any_step A env th ^^ n) (set_exit_flag s) s'"
  shows "n \<le> 3 * card (dom (act_thread s)) + 2 \<and>
    (if act_main s' = Done
     then act_pc s' = Map.empty \<and> act_thread s' = Map.empty \<and> mg_threads (act_ming s') th = None \<and>
       (\<forall>p. gc_pools (mg_gc (act_ming s')) p = None) \<and>
       blocks (mg_mem (act_ming s')) = (\<lambda>a. if a \<in> dom (act_thread s) \<union> own_blocks (act_ming s) th then None
         else blocks (mg_mem (act_ming s)) a)
     else \<exists>s''. astep A env th s' s'')"
proof -
  obtain k where "nodes list = Some k" using assms(4) by auto
  from actors_startup_ok [where nodes = nodes, OF assms(2,3) this assms(5)] have "ainv env th [] s0" "act_main s0 = Alive"
    using assms(6) by auto
  from actors_shutdown [OF assms(1) this assms(7-9)] show ?thesis by (auto simp: released_def)
qed

text \<open>One actor thread, which has gone to sleep.\<close>

lemma demo_actor:
  obtains m th s0 s where "orderly_process env th m" "blocks (mg_mem m) 24 \<noteq> None"
    "actors_startup m 24 [24 \<mapsto> \<lparr>s_next = 0\<rparr>] = Some s0" "(any_step demo_allocator env th)\<^sup>*\<^sup>* s0 s" "act_main s = Alive"
    "act_pc s = [1 \<mapsto> Asleep]"
proof -
  obtain m th L where m: "started env demo_ming m th" by (rule demo_started)
  have ord: "orderly_process env th m" "blocks (mg_mem m) 24 \<noteq> None"
    using started_live [OF m] m started_blocks [OF m, of 24] by (auto simp: orderly_process_def started_def demo_ming_def)
  obtain s0 where s0: "actors_startup m 24 [24 \<mapsto> \<lparr>s_next = 0\<rparr>] = Some s0" "ainv env th [] s0" "act_main s0 = Alive"
    using actors_startup_ok [OF ord(1) _ _ ord(2), of "[24 \<mapsto> \<lparr>s_next = 0\<rparr>]" "\<lparr>s_next = 0\<rparr>"] by auto
  have fields: "act_ming s0 = m" "act_pc s0 = Map.empty" "\<not> thread_exit_flag s0"
    using s0(1) by (auto simp: actors_startup_def bind_eq_Some_conv)
  obtain s1 xs where s1: "m_thread_create demo_allocator (Some 1) s0 = Some s1" "ainv env th xs s1" "act_main s1 = Alive"
    using create_inv [OF demo_allocator_ok s0(2,3), of "Some 1"] fields by auto
  have pc: "act_pc s1 = [1 \<mapsto> Testing]" "\<not> thread_exit_flag s1"
    using s1(1) started_room [OF m] fields
    by (auto simp: m_thread_create_def m_gc_alloc_buf_def m_malloc_def Let_def bind_eq_Some_conv)
  have "any_step demo_allocator env th s0 s1" using astep.create [OF s0(3) _ s1(1)] fields by (intro any_step.program) simp
  moreover have "any_step demo_allocator env th s1 (thread_entry 1 s1)" using astep.test [of s1 1] pc by (intro any_step.program) simp
  ultimately have "(any_step demo_allocator env th)\<^sup>*\<^sup>* s0 (thread_entry 1 s1)" by (meson r_into_rtranclp rtranclp.rtrancl_into_rtrancl)
  then show ?thesis
    using that [OF ord s0(1), of "thread_entry 1 s1"] pc s1(3) by (simp add: thread_entry_def)
qed

theorem actor_shutdown_witness:
  "\<exists>m th s0 s s'. actors_startup m 24 [24 \<mapsto> \<lparr>s_next = 0\<rparr>] = Some s0 \<and> (any_step demo_allocator demo_env th)\<^sup>*\<^sup>* s0 s \<and>
    act_pc s = [1 \<mapsto> Asleep] \<and> astep demo_allocator demo_env th (set_exit_flag s) s' \<and>
    (act_main s' \<noteq> Done \<longrightarrow> (\<exists>s''. astep demo_allocator demo_env th s' s''))"
proof -
  obtain m th s0 s where s: "orderly_process demo_env th m" "blocks (mg_mem m) 24 \<noteq> None"
    "actors_startup m 24 [24 \<mapsto> \<lparr>s_next = 0\<rparr>] = Some s0" "(any_step demo_allocator demo_env th)\<^sup>*\<^sup>* s0 s" "act_main s = Alive"
    "act_pc s = [1 \<mapsto> Asleep]" by (rule demo_actor)
  note C = actor_shutdown [OF demo_allocator_ok s(1) _ _ s(2-5)]
  have main: "act_main (set_exit_flag s) = Flagged" by (simp add: set_exit_flag_def)
  then obtain s' where s': "astep demo_allocator demo_env th (set_exit_flag s) s'" using C [of 0 "set_exit_flag s"] by auto
  then have "(any_step demo_allocator demo_env th ^^ 1) (set_exit_flag s) s'" by (simp add: OO_def any_step.program)
  then have "act_main s' \<noteq> Done \<longrightarrow> (\<exists>s''. astep demo_allocator demo_env th s' s'')" using C [of 1 s'] by (auto split: if_splits)
  then show ?thesis using s s' by blast
qed

subsection \<open>Values\<close>

text \<open>C39: Which values lead back to what they were made of. Truth values and strings at addresses
  that are multiples of 8 do. A whole number that fits an \<open>int\<close> becomes an integer value without
  allocation; it comes back, as an integer and as a number, exactly when it has 29 bits. A word with
  the tag of doubles is read as the double at its address, but a number that is not whole gets a cell
  without that tag, so its value is not read as a number at all. A number whose conversion to \<open>int\<close>
  is undefined makes no value. With pointers of 4 bytes the word that is made of an integer leads back
  to it exactly in the range of the constants of the header, read as 30 bits; but the assertion on that
  range fails for every integer, because its lower bound is positive.\<close>

theorem immediate_values:
  assumes ready: "alloc_ready A os env s L ths N"
  shows "m_value_get_bool (m_value_from_bool b) = Some b \<and>
    (8 dvd unat p \<longrightarrow> m_value_get_string (m_value_from_string p) = Some p) \<and>
    m_value_from_number A os (int_to_double i) h s = Some (m_value_from_int i, h, s) \<and>
    (m_value_get_int (m_value_from_int i) = Some i \<longleftrightarrow> - (2 ^ 28) \<le> sint i \<and> sint i < 2 ^ 28) \<and>
    (m_value_get_number h (m_value_from_int i) = Some (int_to_double i) \<longleftrightarrow> - (2 ^ 28) \<le> sint i \<and> sint i < 2 ^ 28) \<and>
    (8 dvd unat p \<and> p \<noteq> 0 \<and> h p = Some d \<longrightarrow> m_value_get_double h (p OR M_VALUE_TYPE_DOUBLE) = Some d \<and>
      m_value_get_number h (p OR M_VALUE_TYPE_DOUBLE) = Some d) \<and>
    (case double_to_int d of
       None \<Rightarrow> m_value_from_number A os d h s = None
     | Some k \<Rightarrow> if double_integral d then m_value_from_number A os d h s = Some (m_value_from_int k, h, s)
         else m_value_from_number A os d h s = None \<and> fst (gc_mmap os 4096 0 (gc_vm (mg_gc s))) = 0 \<or>
           (\<exists>v oid s'. m_value_from_number A os d h s = Some (v, h(v \<mapsto> d), s') \<and>
             obj_made M_GC_OBJ_DOUBLE v (v OR GC_NB_FL_NO_PTR) oid s s' ths \<and> m_value_get_number (h(v \<mapsto> d)) v = None)) \<and>
    (m_value32_get_int (value32_int_word i) = Some i \<longleftrightarrow>
      signed_take_bit 29 M_VALUE_INT_MIN32 \<le> sint i \<and> sint i \<le> M_VALUE_INT_MAX32) \<and>
    m_value32_from_int i = None"
proof -
  have "case double_to_int d of
       None \<Rightarrow> m_value_from_number A os d h s = None
     | Some k \<Rightarrow> if double_integral d then m_value_from_number A os d h s = Some (m_value_from_int k, h, s)
         else m_value_from_number A os d h s = None \<and> fst (gc_mmap os 4096 0 (gc_vm (mg_gc s))) = 0 \<or>
           (\<exists>v oid s'. m_value_from_number A os d h s = Some (v, h(v \<mapsto> d), s') \<and>
             obj_made M_GC_OBJ_DOUBLE v (v OR GC_NB_FL_NO_PTR) oid s s' ths \<and> m_value_get_number (h(v \<mapsto> d)) v = None)"
    using fraction_value [OF ready, where d = d and h = h] number_cases [where A = A and os = os and d = d and h = h and s = s] by (auto split: option.splits)
  then show ?thesis
    using bool_value string_value(2) [of p] number_value(1) [where A = A and os = os and i = i and h = h and s = s] int_value_fits [of i] number_value_fits [where h = h and i = i]
      double_value [where p = p and h = h and d = d] int_word32_fits [of i] from_int32_aborts [of i]
    by (intro conjI) blast+
qed

text \<open>One half is made into a double that is not read back; minus five comes back.\<close>

theorem immediate_values_witness:
  "\<exists>s. process_startup demo_allocator demo_settings demo_ming = Some s \<and>
    m_value_get_string (m_value_from_string 4096) = Some 4096 \<and>
    m_value_from_number demo_allocator demo_os (int_to_double (- 5)) Map.empty s = Some (m_value_from_int (- 5), Map.empty, s) \<and>
    m_value_get_number Map.empty (m_value_from_int (- 5)) = Some (int_to_double (- 5)) \<and>
    m_value_get_int (m_value_from_int (2 ^ 28)) \<noteq> Some (2 ^ 28) \<and>
    (\<exists>v s'. m_value_from_number demo_allocator demo_os (0x3FE0000000000000) Map.empty s = Some (v, [v \<mapsto> 0x3FE0000000000000], s') \<and>
      m_value_get_number [v \<mapsto> 0x3FE0000000000000] v = None) \<and>
    m_value32_get_int (value32_int_word (2 ^ 28)) = Some (2 ^ 28) \<and> m_value32_from_int (2 ^ 28) = None"
proof -
  obtain s th L where 1: "process_startup demo_allocator demo_settings demo_ming = Some s" "started demo_env demo_ming s th"
    "alloc_ready demo_allocator demo_os demo_env s L [th] {}" by (rule demo_started)
  have vm: "gc_vm (mg_gc s) = gc_vm demo_gc" using 1(2) by (simp add: started_def demo_ming_def)
  have half: "double_to_int 0x3FE0000000000000 = Some 0" "\<not> double_integral 0x3FE0000000000000"
    by (simp_all add: double_to_int_def double_trunc_def double_exp_def double_mant_def double_integral_def)
  note five = immediate_values [OF 1(3), of True 4096 "- 5" Map.empty "0x3FE0000000000000"]
  have "m_value_get_string (m_value_from_string 4096) = Some 4096"
    "m_value_from_number demo_allocator demo_os (int_to_double (- 5)) Map.empty s = Some (m_value_from_int (- 5), Map.empty, s)"
    "m_value_get_number Map.empty (m_value_from_int (- 5)) = Some (int_to_double (- 5))"
    using five by simp_all
  moreover have "\<exists>v s'. m_value_from_number demo_allocator demo_os (0x3FE0000000000000) Map.empty s = Some (v, [v \<mapsto> 0x3FE0000000000000], s') \<and>
      m_value_get_number [v \<mapsto> 0x3FE0000000000000] v = None"
    using five half demo_pool_mapped vm by auto
  moreover have "m_value_get_int (m_value_from_int (2 ^ 28)) \<noteq> Some (2 ^ 28)"
    "m_value32_get_int (value32_int_word (2 ^ 28)) = Some (2 ^ 28)" "m_value32_from_int (2 ^ 28) = None"
    using immediate_values [OF 1(3), of True 4096 "2 ^ 28"] by simp_all
  ultimately show ?thesis using 1(1) by blast
qed

text \<open>C40: The type of a pointer value. The value that \<open>m_value_from_object\<close> makes of an address
  that is a multiple of 4 is a pointer of exactly that kind and of no other type, and leads back to the
  address; reading it as another kind fails. The same holds for \<open>m_value_from_closure\<close> and
  \<open>m_value_from_array\<close>. Making a value writes one new cell and aborts only when no memory can be
  mapped.\<close>

theorem value_types:
  assumes "alloc_ready A os env s L ths N" "4 dvd unat p" "p \<noteq> 0"
  shows "makes_ptr Object_Ptr os p h s (m_value_from_object A os p h s) \<and>
    makes_ptr Closure_Ptr os p h s (m_value_from_closure A os p h s) \<and>
    makes_ptr Array_Ptr os p h s (m_value_from_array A os p h s)"
  by (intro conjI constructors_make [OF assms])

theorem value_types_witness:
  "\<exists>s v h' s'. process_startup demo_allocator demo_settings demo_ming = Some s \<and>
    m_value_from_closure demo_allocator demo_os 4096 Map.empty s = Some (v, h', s') \<and>
    m_value_is_closure h' v = Some True \<and> m_value_is_object h' v = Some False \<and> m_value_get_closure h' v = Some 4096 \<and>
    m_value_get_array h' v = None"
proof -
  obtain s th L where 1: "process_startup demo_allocator demo_settings demo_ming = Some s" "started demo_env demo_ming s th"
    "alloc_ready demo_allocator demo_os demo_env s L [th] {}" by (rule demo_started)
  have "gc_vm (mg_gc s) = gc_vm demo_gc" using 1(2) by (simp add: started_def demo_ming_def)
  moreover have "makes_ptr Closure_Ptr demo_os 4096 Map.empty s (m_value_from_closure demo_allocator demo_os 4096 Map.empty s)"
    using value_types [OF 1(3), of 4096 Map.empty] by simp
  ultimately show ?thesis using demo_pool_mapped 1(1) by (auto simp: makes_ptr_def)
qed

end
