(* ===== verification/Atomic.thy ===== *)
theory Atomic
  imports Ming_Prelude "HOL-Library.Multiset"
begin

text \<open>
  The atomic operations of \<open>include/m_atomic.h\<close>, on memory cells of any width: the macros for
  \<open>int\<close> and \<open>int32_t\<close> are those at 32 bits, the macros for \<open>int64_t\<close> and
  pointers those at 64 bits. As documented, the builtins of the compiler wrap around, add to a pointer
  in bytes and return the old value; an operation is one step, so the operations of several threads
  are a sequence. \<open>m_atomic_get_int\<close> is no expression and has no model.
\<close>

type_synonym 'w cells = "addr \<rightharpoonup> 'w word"

subsection \<open>Operations\<close>

definition m_atomic_get :: "addr \<Rightarrow> ('w::len) cells \<Rightarrow> 'w word option" where
  "m_atomic_get p h = rd h p"

definition m_atomic_set :: "addr \<Rightarrow> 'w word \<Rightarrow> ('w::len) cells \<Rightarrow> 'w cells option" where
  "m_atomic_set p v h = wr h p (\<lambda>_. v)"

text \<open>\<open>__sync_fetch_and_<op>\<close>.\<close>

definition sync_fetch_and ::
    "('w word \<Rightarrow> 'w word \<Rightarrow> 'w word) \<Rightarrow> addr \<Rightarrow> 'w word \<Rightarrow> ('w::len) cells \<Rightarrow> ('w word \<times> 'w cells) option" where
  "sync_fetch_and f p v h = do { old \<leftarrow> rd h p; h' \<leftarrow> wr h p (\<lambda>x. f x v); Some (old, h') }"

definition m_atomic_inc :: "addr \<Rightarrow> ('w::len) cells \<Rightarrow> ('w word \<times> 'w cells) option" where
  "m_atomic_inc p = sync_fetch_and (+) p 1"

definition m_atomic_dec :: "addr \<Rightarrow> ('w::len) cells \<Rightarrow> ('w word \<times> 'w cells) option" where
  "m_atomic_dec p = sync_fetch_and (-) p 1"

definition m_atomic_add :: "addr \<Rightarrow> 'w word \<Rightarrow> ('w::len) cells \<Rightarrow> ('w word \<times> 'w cells) option" where
  "m_atomic_add = sync_fetch_and (+)"

definition m_atomic_sub :: "addr \<Rightarrow> 'w word \<Rightarrow> ('w::len) cells \<Rightarrow> ('w word \<times> 'w cells) option" where
  "m_atomic_sub = sync_fetch_and (-)"

definition m_atomic_and :: "addr \<Rightarrow> 'w word \<Rightarrow> ('w::len) cells \<Rightarrow> ('w word \<times> 'w cells) option" where
  "m_atomic_and = sync_fetch_and (AND)"

definition m_atomic_or :: "addr \<Rightarrow> 'w word \<Rightarrow> ('w::len) cells \<Rightarrow> ('w word \<times> 'w cells) option" where
  "m_atomic_or = sync_fetch_and (OR)"

definition m_atomic_xor :: "addr \<Rightarrow> 'w word \<Rightarrow> ('w::len) cells \<Rightarrow> ('w word \<times> 'w cells) option" where
  "m_atomic_xor = sync_fetch_and (XOR)"

definition m_atomic_cas :: "addr \<Rightarrow> 'w word \<Rightarrow> 'w word \<Rightarrow> ('w::len) cells \<Rightarrow> (bool \<times> 'w cells) option" where
  "m_atomic_cas p old new h = do {
     x \<leftarrow> rd h p;
     (if x = old then do { h' \<leftarrow> wr h p (\<lambda>_. new); Some (True, h') } else Some (False, h)) }"

subsection \<open>Operations of several threads on one cell\<close>

text \<open>The operations that are executed on a cell, in their order, with their results.\<close>

fun run_ops :: "('h \<Rightarrow> ('r \<times> 'h) option) list \<Rightarrow> 'h \<Rightarrow> ('r list \<times> 'h) option" where
  "run_ops [] h = Some ([], h)"
| "run_ops (f # fs) h = do { r \<leftarrow> f h; q \<leftarrow> run_ops fs (snd r); Some (fst r # fst q, snd q) }"

text \<open>An operation on a cell whose effects commute: the order of the threads does not matter for
  the value that remains.\<close>

locale commuting_op =
  fixes op :: "addr \<Rightarrow> 'w word \<Rightarrow> ('w::len) cells \<Rightarrow> ('w word \<times> 'w cells) option"
    and f :: "'w word \<Rightarrow> 'w word \<Rightarrow> 'w word"
  assumes op_step: "p \<noteq> 0 \<Longrightarrow> h p = Some x \<Longrightarrow> op p v h = Some (x, h(p \<mapsto> f x v))"
    and commute: "f (f x v) w = f (f x w) v"
begin

lemma run:
  "p \<noteq> 0 \<Longrightarrow> h p = Some x \<Longrightarrow> \<exists>rs. run_ops (map (op p) vs) h = Some (rs, h(p \<mapsto> fold (\<lambda>v x. f x v) vs x)) \<and> length rs = length vs"
proof (induction vs arbitrary: h x)
  case Nil
  then show ?case by auto
next
  case (Cons v vs)
  have "(h(p \<mapsto> f x v)) p = Some (f x v)" by simp
  then obtain rs where rs: "run_ops (map (op p) vs) (h(p \<mapsto> f x v)) =
      Some (rs, h(p \<mapsto> f x v, p \<mapsto> fold (\<lambda>v x. f x v) vs (f x v)))" "length rs = length vs"
    using Cons.IH [of "h(p \<mapsto> f x v)" "f x v"] Cons.prems(1) by blast
  show ?case unfolding list.map run_ops.simps op_step [of p h x v, OF Cons.prems] by (simp add: rs fun_eq_iff)
qed

lemma any_order:
  assumes "mset vs = mset ws"
  shows "fold (\<lambda>v x. f x v) vs x = fold (\<lambda>v x. f x v) ws x"
  by (rule fold_permuted_eq [where P = "\<lambda>_. True", OF assms]) (simp_all add: commute)

lemma run_any_order:
  assumes "p \<noteq> 0" "h p = Some x" "mset vs = mset ws"
  shows "map_option snd (run_ops (map (op p) vs) h) = map_option snd (run_ops (map (op p) ws) h)"
  using run [of p h x vs, OF assms(1,2)] run [of p h x ws, OF assms(1,2)] any_order [OF assms(3), of x] by auto

end

lemma sync_fetch_and_step [access]: "p \<noteq> 0 \<Longrightarrow> h p = Some x \<Longrightarrow> sync_fetch_and f p v h = Some (x, h(p \<mapsto> f x v))"
  by (simp add: sync_fetch_and_def access)

interpretation atomic_add: commuting_op m_atomic_add "(+)"
  by unfold_locales (simp_all add: m_atomic_add_def access)

interpretation atomic_sub: commuting_op m_atomic_sub "(-)"
  by unfold_locales (simp_all add: m_atomic_sub_def access)

interpretation atomic_and: commuting_op m_atomic_and "(AND)"
  by unfold_locales (simp_all add: m_atomic_and_def access ac_simps)

interpretation atomic_or: commuting_op m_atomic_or "(OR)"
  by unfold_locales (simp_all add: m_atomic_or_def access ac_simps)

interpretation atomic_xor: commuting_op m_atomic_xor "(XOR)"
  by unfold_locales (simp_all add: m_atomic_xor_def access ac_simps)

text \<open>Tickets: increments give consecutive values, different ones as long as there are at most
  \<open>2 ^ w\<close> of them.\<close>

lemma run_tickets:
  fixes h :: "('w::len) cells"
  shows "p \<noteq> 0 \<Longrightarrow> h p = Some x \<Longrightarrow>
    run_ops (replicate n (m_atomic_inc p)) h = Some (map (\<lambda>i. x + of_nat i) [0..<n], h(p \<mapsto> x + of_nat n))"
proof (induction n arbitrary: h x)
  case 0
  then show ?case by auto
next
  case (Suc n)
  have "(h(p \<mapsto> x + 1)) p = Some (x + 1)" by simp
  note IH = Suc.IH [of "h(p \<mapsto> x + 1)" "x + 1", OF Suc.prems(1) this]
  have "m_atomic_inc p h = Some (x, h(p \<mapsto> x + 1))" using Suc.prems by (simp add: m_atomic_inc_def access)
  moreover have "map (\<lambda>i. x + of_nat i) [0..<Suc n] = x # map (\<lambda>i. x + 1 + of_nat i) [0..<n]"
    by (simp add: upt_conv_Cons map_Suc_upt [symmetric] o_def ac_simps del: upt_Suc)
  ultimately show ?case unfolding replicate_Suc run_ops.simps by (simp add: IH [simplified fun_upd_upd] add.assoc del: upt_Suc)
qed

lemma tickets_distinct:
  assumes "n \<le> 2 ^ LENGTH('w::len)"
  shows "distinct (map (\<lambda>i. x + of_nat i :: 'w word) [0..<n])"
proof -
  have "inj_on (\<lambda>i. x + of_nat i :: 'w word) {0..<n}"
  proof (rule inj_onI)
    fix i j
    assume "i \<in> {0..<n}" "j \<in> {0..<n}" "x + of_nat i = (x + of_nat j :: 'w word)"
    then have "unat (of_nat i :: 'w word) = unat (of_nat j :: 'w word)" "i < 2 ^ LENGTH('w)" "j < 2 ^ LENGTH('w)"
      using assms by auto
    then show "i = j" by (simp add: unat_of_nat take_bit_eq_mod)
  qed
  then show ?thesis by (simp add: distinct_map)
qed

text \<open>Of the threads that try to take a cell from \<open>old\<close> to \<open>new\<close> the first alone
  succeeds.\<close>

lemma run_cas:
  assumes "p \<noteq> 0" "h p = Some old" "old \<noteq> new"
  shows "run_ops (replicate (Suc n) (m_atomic_cas p old new)) h = Some (True # replicate n False, h(p \<mapsto> new))"
proof -
  have "run_ops (replicate n (m_atomic_cas p old new)) (h(p \<mapsto> new)) = Some (replicate n False, h(p \<mapsto> new))"
    using assms by (induction n) (simp_all add: m_atomic_cas_def access)
  then show ?thesis using assms by (simp add: m_atomic_cas_def access)
qed

end
