(* ===== verification/Spec2Isabelle.thy ===== *)
theory Spec2Isabelle
  imports Containers Collector Atomic
begin

text \<open>
  Verification of the Ming runtime platform (the C library under \<open>src/\<close> and
  \<open>include/\<close>).

  \<^bold>\<open>The program.\<close> Ming is the runtime of a scripting language. It has four layers.

  \<^item> Intrusive containers, all code in headers: lists (\<open>m_list.h\<close>), a chained hash table
    (\<open>m_hash.h\<close>), a red black tree (\<open>m_rbtree.h\<close>), with comparison functions
    (\<open>m_cmp.h\<close>) and macros (\<open>m_macros.h\<close>). A client embeds a node in its structure
    and gives a record of function pointers.
  \<^item> Memory services of the collector: checked allocation (\<open>m_malloc.h\<close>), buffers
    (\<open>m_gc_buf.c\<close>), page mapping (\<open>m_gc_map.c\<close>) and the table of root objects
    (\<open>m_gc_root.c\<close>), which is a hash table.
  \<^item> The object manager (\<open>m_gc_obj.c\<close>, \<open>m_gc_funcs.c\<close>, \<open>m_gc.h\<close>, \<open>m_gc.c\<close>): every
    type of object has lists of pools of one page, a pool has a bitmap of marks and a list of free
    cells; a collection marks from the root table and from the stacks of new borned objects of all
    threads, then sweeps. Threads (\<open>m_thread.c\<close>) stop each other around a collection.
  \<^item> Tagged values (\<open>m_value.h\<close>) over objects, startup (\<open>m_startup.c\<close>), the log
    (\<open>m_log.c\<close>), which startup configures from the environment, and atomic operations
    (\<open>m_atomic.h\<close>), which no other part uses.

  \<^bold>\<open>Conventions\<close> (theory \<open>Ming_Prelude\<close>). Addresses and \<open>size_t\<close> are 64 bit
  words, \<open>int\<close> and \<open>uint32_t\<close> 32 bit words, with the wrap-around of C. A structure that is
  reached through pointers is a map from addresses to a record; reading or writing an address that
  is not in the map, a failed assertion, \<open>abort\<close> and undefined behaviour are the result
  \<open>None\<close>, so a theorem with a result \<open>Some\<close> also says that none of these happens. A
  function of the code has the name it has there; a loop is a separate definition named after its
  function or with the suffix \<open>_loop\<close>. Loops whose end is not evident are
  \<open>partial_function (option)\<close>, where \<open>None\<close> also means not returning: a theorem with
  \<open>Some\<close> proves that they return. No fuel is used anywhere. Sizes are those of LP64.

  \<^bold>\<open>Theories, from the bottom.\<close>

  \<^item> \<open>Macros\<close>, \<open>Cmp\<close>: macros; comparison functions with the locale \<open>key_cmp\<close>, the
    contract of a key order, interpreted for all four functions.
  \<^item> \<open>SList\<close>, \<open>SList_Family\<close>, \<open>DList\<close>: the lists, their representation
    predicates and traversals; \<open>SList_Family\<close> is about many disjoint singly linked lists in one
    heap, as the pools and free cells are.
  \<^item> \<open>Hash\<close>, \<open>Hash_Iter\<close>: the hash table (locale \<open>hash_contract\<close>), traversals.
  \<^item> \<open>RBTree\<close> (operations), \<open>RBTree_Shape\<close> (the abstract tree), \<open>RBTree_Insert\<close>,
    \<open>RBTree_Search\<close>, \<open>RBTree_Rebalance\<close>, \<open>RBTree_Remove\<close>, \<open>RBTree_Dom\<close>,
    \<open>RBTree_Iter\<close>: the red black tree.
  \<^item> \<open>Table\<close>: the locale \<open>node_table\<close>, an abstract table of nodes, with both containers as
    instances, and the refinement of runs of operations. \<open>Containers\<close>: C1 to C13, C15, C17, C26, C28.
  \<^item> \<open>GC_Buf\<close>, \<open>GC_Map\<close>, \<open>GC_Root\<close>: memory services. \<open>Log\<close>: the log;
    \<open>Runtime\<close>: C18 to C21, C23, C24 and C27. \<open>Atomic\<close>: atomic operations, with the locale
    \<open>commuting_op\<close> of those whose order does not matter.
  \<^item> \<open>GC_Types\<close>: object types, marks in a bitmap, pool layout. \<open>GC_Pool\<close>: the state
    \<open>GC\<close> of the object manager and its invariant \<open>gc_ok\<close>: the lists of pools and free
    cells are disjoint and contain what the bitmaps say, and lie in mapped memory. \<open>GC_Alloc\<close>:
    new pools and cells. \<open>GC_Sweep\<close>, \<open>GC_Sweep_All\<close>: sweeping, with \<open>gc_sweep_ok\<close>.
  \<^item> \<open>GC_State\<close>: the process state \<open>ming\<close> with threads, C heap and roots.
    \<open>GC_Mark\<close>, \<open>GC_Mark_Roots\<close>: marking as a set of requests. \<open>GC_Collect\<close>: the state
    machine \<open>gc_do_collect\<close>. \<open>GC_Alloc_Obj\<close>: \<open>m_gc_alloc_obj\<close> with the growing stack and
    the collection it may start. \<open>GC_Start\<close>, \<open>Startup\<close>: startup and shutdown. \<open>Members\<close>: threads that
    come and go in a process with several of them.
  \<^item> \<open>Thread\<close>: the protocol of \<open>m_thread.c\<close> as a step relation on critical sections, its
    invariant, and runs that violate mutual exclusion or lose a wakeup. \<open>Actor\<close>: actor threads
    and the shutdown that joins them, as a step relation of its own (the two protocols share no lock
    and no state: an actor thread is not registered). Spurious wakeups are steps of \<open>any_step\<close>,
    not of \<open>astep\<close>: a run may contain them, progress does not rely on them.
  \<^item> \<open>Program\<close>: \<open>m_startup.c\<close> over the process and the log, with the messages that startup
    and shutdown write, and the whole run of a program from \<open>m_startup\<close> to \<open>exit\<close>. What the log
    is to hold (\<open>startup_entries\<close>, \<open>exit_entries\<close>, \<open>refused_pool_size\<close>, \<open>page_table\<close>) is written
    down apart from the definitions that model the code.
  \<^item> \<open>Value\<close>: tagged values; \<open>Value32\<close>: their variant for 4 byte pointers.
    \<open>Client\<close>: the object manager as a stack of objects.
    \<open>Collector\<close>: C14, C16, C22, C25 and C29 to C40.

  \<^bold>\<open>What is shown.\<close> Each container operation runs without fault from a well formed state, does
  to the abstract set, sequence or table what it should, and keeps it well formed; buffers and
  mappings do not disturb other memory; startup establishes the invariant of the object manager and
  allocation and collection keep it; a full collection keeps exactly the objects that are marked
  black, incremental steps end in the same state, to the native code it is a stack of objects; shutdown
  releases everything, also when there are actor threads, which are all joined within a linear number
  of steps; no thread runs during a collection; the log writes the lines that the environment asks
  for, also those of startup and shutdown themselves. Where the code does not do what it means to do
  there is a theorem that says so: C17, C20, C24, C28, C34, C38, C39, and the lemmas \<open>gc_mmap_ignored_hint\<close>, \<open>log_usec_ignored\<close>,
  \<open>log_date_counter\<close> and \<open>overlapping_create\<close>.

  \<^bold>\<open>Parameters.\<close> The C allocator (\<open>allocator_ok\<close>), \<open>mmap\<close> (\<open>mmap_ok\<close>), the node
  allocation of the root table, the values of environment variables, the clock, the time zone and the
  outcomes of \<open>fopen\<close> and \<open>pthread_create\<close> are arguments; their
  hypotheses state what the C standard and POSIX promise. The function \<open>alloc_buf\<close> of a client's
  hash table answers by the size that is asked for, so a second request of a size fails as the first.

  \<^bold>\<open>Bounds.\<close> The theorems about the object manager, and C22, are for pools of one page, the default;
  for larger pools \<open>gc_obj_get_pool\<close> would need pools aligned to their size, which \<open>gc_mmap\<close>
  does not give. They leave out arrays, whose structure has no members and whose size is 0, so that
  \<open>gc_obj_get_id\<close> divides by 0. A stack of new borned objects is to have fewer than
  \<open>2 ^ 31\<close> entries before it grows. \<open>tinv\<close> counts threads below \<open>2 ^ 32\<close>.

  \<^bold>\<open>Not modelled.\<close> What \<open>vfprintf\<close> makes of the format of a message and failing
  writes to the log. The calls of \<open>m_thread_create\<close> of one run do not overlap, apart from the
  lemma \<open>overlapping_create\<close>. The scan and final functions of all types have empty bodies, so
  objects are not traced. \<open>M_PAGE_SIZE\<close> is 4096. The functions of the 32 bit variant of the
  values that create objects are left out, and the messages of the log that do not come from startup
  or shutdown: logging changes nothing but the log.
  \<open>m_atomic_get_int\<close> is not an expression. The other headers contain declarations only.
\<close>

end
